(* ===== verification/Rust_Prelude.thy ===== *)
theory Rust_Prelude
  imports Main "HOL-Library.Word" "HOL-Library.Monad_Syntax" "HOL-Library.Multiset"
begin

text \<open>
  The fragment of Rust the components share.

  A value of type \<^typ>\<open>'a option\<close> in the model of a Rust function that cannot itself return
  \<^verbatim>\<open>Option\<close> stands for a computation that may panic: \<^const>\<open>None\<close> is the panic. The workspace's
  release profile (\<^verbatim>\<open>src/Cargo.toml\<close>, \<^verbatim>\<open>[profile.release]\<close>) sets \<^verbatim>\<open>overflow-checks\<close> and
  \<^verbatim>\<open>debug-assertions\<close>, so an arithmetic overflow and a failed \<^verbatim>\<open>debug_assert!\<close> panic; they are
  modelled so. Fallible functions return \<open>'e + 'a\<close> with \<^const>\<open>Inl\<close> for \<^verbatim>\<open>Err\<close>.

  Machine integers are \<^typ>\<open>int\<close> (signed) and \<^typ>\<open>nat\<close> (unsigned), and every operation on them
  that can leave its width is one of the checked, saturating or truncating operations below.
\<close>

named_theorems rust_arith \<open>definitions of the checked, saturating and truncating operations\<close>

section \<open>Integer widths\<close>

definition u64_max :: nat where
  "u64_max = 18446744073709551615"

definition u32_max :: nat where
  "u32_max = 4294967295"

definition i32_min :: int where
  "i32_min = - 2147483648"

definition i32_max :: int where
  "i32_max = 2147483647"

definition is_i32 :: "int \<Rightarrow> bool" where
  "is_i32 x \<longleftrightarrow> i32_min \<le> x \<and> x \<le> i32_max"

text \<open>\<^verbatim>\<open>a + b\<close>, \<^verbatim>\<open>a - b\<close> on \<^verbatim>\<open>i32\<close>, and \<^verbatim>\<open>a + b\<close>, \<^verbatim>\<open>a - b\<close> on \<^verbatim>\<open>u64\<close> and \<^verbatim>\<open>usize\<close>, checked.\<close>

definition i32_chk :: "int \<Rightarrow> int option" where
  "i32_chk x = (if is_i32 x then Some x else None)"

definition i32_add :: "int \<Rightarrow> int \<Rightarrow> int option" where
  "i32_add a b = i32_chk (a + b)"

definition i32_sub :: "int \<Rightarrow> int \<Rightarrow> int option" where
  "i32_sub a b = i32_chk (a - b)"

definition u64_add :: "nat \<Rightarrow> nat \<Rightarrow> nat option" where
  "u64_add a b = (if a + b \<le> u64_max then Some (a + b) else None)"

definition u64_sub :: "nat \<Rightarrow> nat \<Rightarrow> nat option" where
  "u64_sub a b = (if b \<le> a then Some (a - b) else None)"

text \<open>\<^verbatim>\<open>u64::saturating_add\<close> and \<^verbatim>\<open>u64::saturating_sub\<close>.\<close>

definition sat_add :: "nat \<Rightarrow> nat \<Rightarrow> nat" where
  "sat_add a b = min (a + b) u64_max"

definition sat_sub :: "nat \<Rightarrow> nat \<Rightarrow> nat" where
  "sat_sub a b = a - b"

text \<open>
  \<^verbatim>\<open>n as i32\<close> for an unsigned \<^verbatim>\<open>n\<close> keeps the low 32 bits; \<^verbatim>\<open>x as usize\<close> for a signed \<^verbatim>\<open>x\<close>
  sign-extends to 64 bits.
\<close>

definition as_i32 :: "nat \<Rightarrow> int" where
  "as_i32 n = (int n + 2147483648) mod 4294967296 - 2147483648"

definition as_usize :: "int \<Rightarrow> nat" where
  "as_usize x = nat (x mod 18446744073709551616)"

lemma as_i32_small [simp]: "int n \<le> i32_max \<Longrightarrow> as_i32 n = int n"
  by (simp add: as_i32_def i32_max_def)

lemma as_usize_nonneg [simp]: "0 \<le> x \<Longrightarrow> x \<le> i32_max \<Longrightarrow> as_usize x = nat x"
  by (simp add: as_usize_def i32_max_def)

lemma is_i32_bounds: "is_i32 x \<longleftrightarrow> -2147483648 \<le> x \<and> x \<le> 2147483647"
  by (simp add: is_i32_def i32_min_def i32_max_def)

lemma i32_chk_Some [simp]: "i32_chk x = Some y \<longleftrightarrow> is_i32 x \<and> y = x"
  by (auto simp: i32_chk_def)

lemma i32_chk_None [simp]: "i32_chk x = None \<longleftrightarrow> \<not> is_i32 x"
  by (auto simp: i32_chk_def)

lemma i32_add_Some: "i32_add a b = Some y \<longleftrightarrow> is_i32 (a + b) \<and> y = a + b"
  by (simp add: i32_add_def)

lemma i32_sub_Some: "i32_sub a b = Some y \<longleftrightarrow> is_i32 (a - b) \<and> y = a - b"
  by (simp add: i32_sub_def)

lemma i32_add_ok: "is_i32 (a + b) \<Longrightarrow> i32_add a b = Some (a + b)"
  by (simp add: i32_add_Some)

lemma i32_sub_ok: "is_i32 (a - b) \<Longrightarrow> i32_sub a b = Some (a - b)"
  by (simp add: i32_sub_Some)

lemma u64_add_Some: "u64_add a b = Some y \<longleftrightarrow> a + b \<le> u64_max \<and> y = a + b"
  by (auto simp: u64_add_def)

lemma u64_add_ok [simp]: "a + b \<le> u64_max \<Longrightarrow> u64_add a b = Some (a + b)"
  by (simp add: u64_add_Some)

lemma sat_add_le [simp]: "sat_add a b \<le> u64_max"
  by (simp add: sat_add_def)

lemma sat_add_exact: "a + b \<le> u64_max \<Longrightarrow> sat_add a b = a + b"
  by (simp add: sat_add_def)

lemma sat_add_0 [simp]: "a \<le> u64_max \<Longrightarrow> sat_add a 0 = a"
  by (simp add: sat_add_def)

lemma sat_add_assoc: "sat_add (sat_add a b) c = sat_add a (sat_add b c)"
  by (simp add: sat_add_def)

lemma sat_add_min: "sat_add (min a u64_max) (min b u64_max) = min (a + b) u64_max"
  by (simp add: sat_add_def)

lemmas [rust_arith] = i32_chk_def i32_add_def i32_sub_def u64_add_def u64_sub_def
  sat_add_def sat_sub_def as_i32_def as_usize_def is_i32_def i32_min_def i32_max_def
  u64_max_def u32_max_def

section \<open>Vectors\<close>

text \<open>
  Reading and writing a vector out of range panics. \<open>vec_upd xs i f\<close> is
  \<^verbatim>\<open>xs[i] = f(xs[i])\<close>; \<open>vec_resize xs n v\<close> is \<^verbatim>\<open>Vec::resize\<close>.
\<close>

definition vec_upd :: "'a list \<Rightarrow> nat \<Rightarrow> ('a \<Rightarrow> 'a) \<Rightarrow> 'a list option" where
  "vec_upd xs i f = (if i < length xs then Some (xs[i := f (xs ! i)]) else None)"

definition vec_resize :: "'a list \<Rightarrow> nat \<Rightarrow> 'a \<Rightarrow> 'a list" where
  "vec_resize xs n v = take n xs @ replicate (n - length xs) v"

lemma length_vec_resize [simp]: "length (vec_resize xs n v) = n"
  by (simp add: vec_resize_def)

lemma vec_resize_grow: "length xs \<le> n \<Longrightarrow> vec_resize xs n v = xs @ replicate (n - length xs) v"
  by (simp add: vec_resize_def)

text \<open>The checked sum of an iterator of \<^verbatim>\<open>u64\<close> (\<^verbatim>\<open>iter().sum()\<close>).\<close>

fun sum_u64 :: "nat \<Rightarrow> nat list \<Rightarrow> nat option" where
  "sum_u64 acc [] = Some acc"
| "sum_u64 acc (x # xs) = do { acc' \<leftarrow> u64_add acc x; sum_u64 acc' xs }"

lemma sum_u64_exact: "acc + sum_list xs \<le> u64_max \<Longrightarrow> sum_u64 acc xs = Some (acc + sum_list xs)"
  by (induction xs arbitrary: acc) (auto simp: u64_add_def)

section \<open>Strings\<close>

text \<open>
  A \<^verbatim>\<open>str\<close> is its list of bytes, a \<^typ>\<open>string\<close>. \<open>split_once\<close> is \<^verbatim>\<open>str::split_once\<close> for a
  one-byte separator: the text before and after its first occurrence.
\<close>

definition is_ascii_digit :: "char \<Rightarrow> bool" where
  "is_ascii_digit c \<longleftrightarrow> 48 \<le> (of_char c :: nat) \<and> (of_char c :: nat) \<le> 57"

definition is_ascii_alphabetic :: "char \<Rightarrow> bool" where
  "is_ascii_alphabetic c \<longleftrightarrow>
     (65 \<le> (of_char c :: nat) \<and> (of_char c :: nat) \<le> 90) \<or>
     (97 \<le> (of_char c :: nat) \<and> (of_char c :: nat) \<le> 122)"

definition is_ascii_alphanumeric :: "char \<Rightarrow> bool" where
  "is_ascii_alphanumeric c \<longleftrightarrow> is_ascii_digit c \<or> is_ascii_alphabetic c"

fun split_once :: "char \<Rightarrow> string \<Rightarrow> (string \<times> string) option" where
  "split_once d [] = None"
| "split_once d (c # cs) =
     (if c = d then Some ([], cs)
      else map_option (\<lambda>(a, b). (c # a, b)) (split_once d cs))"

lemma split_once_None_iff: "split_once d s = None \<longleftrightarrow> d \<notin> set s"
  by (induction s) auto

lemma split_once_Some_iff:
  "split_once d s = Some (a, b) \<longleftrightarrow> s = a @ d # b \<and> d \<notin> set a"
proof (induction s arbitrary: a)
  case Nil
  then show ?case by simp
next
  case (Cons c cs)
  show ?case
  proof (cases "c = d")
    case True
    then show ?thesis by (cases a) auto
  next
    case False
    with Cons show ?thesis by (cases a) auto
  qed
qed

lemma split_once_append: "d \<notin> set a \<Longrightarrow> split_once d (a @ d # b) = Some (a, b)"
  by (simp add: split_once_Some_iff)

section \<open>Hash maps\<close>

text \<open>
  A \<^verbatim>\<open>HashMap\<close> is an association list with distinct keys. Its order is the order in which the
  map iterates, which Rust leaves unspecified; the theorems hold for every order.
\<close>

type_synonym ('k, 'v) hash_map = "('k \<times> 'v) list"

definition hm_ok :: "('k, 'v) hash_map \<Rightarrow> bool" where
  "hm_ok m \<longleftrightarrow> distinct (map fst m)"

definition hm_contains :: "('k, 'v) hash_map \<Rightarrow> 'k \<Rightarrow> bool" where
  "hm_contains m k \<longleftrightarrow> k \<in> set (map fst m)"

text \<open>\<^verbatim>\<open>insert\<close> overwrites in place, or adds a new entry.\<close>

fun hm_insert :: "'k \<Rightarrow> 'v \<Rightarrow> ('k, 'v) hash_map \<Rightarrow> ('k, 'v) hash_map" where
  "hm_insert k v [] = [(k, v)]"
| "hm_insert k v ((k', v') # m) = (if k = k' then (k, v) # m else (k', v') # hm_insert k v m)"

definition hm_remove :: "'k \<Rightarrow> ('k, 'v) hash_map \<Rightarrow> ('k, 'v) hash_map" where
  "hm_remove k m = filter (\<lambda>p. fst p \<noteq> k) m"

lemma hm_ok_Nil [simp]: "hm_ok []"
  by (simp add: hm_ok_def)

lemma hm_contains_iff: "hm_contains m k \<longleftrightarrow> map_of m k \<noteq> None"
  by (simp add: hm_contains_def map_of_eq_None_iff)

lemma hm_keys_insert [simp]: "fst ` set (hm_insert k v m) = insert k (fst ` set m)"
  by (induction m rule: hm_insert.induct) auto

lemma map_of_hm_insert [simp]: "map_of (hm_insert k v m) = (map_of m)(k \<mapsto> v)"
  by (induction k v m rule: hm_insert.induct) auto

lemma hm_ok_insert [simp]: "hm_ok m \<Longrightarrow> hm_ok (hm_insert k v m)"
  unfolding hm_ok_def by (induction m rule: hm_insert.induct) auto

lemma set_hm_insert: "set (hm_insert k v m) \<subseteq> insert (k, v) (set m)"
  by (induction k v m rule: hm_insert.induct) auto

lemma hm_insert_new: "\<not> hm_contains m k \<Longrightarrow> hm_insert k v m = m @ [(k, v)]"
  unfolding hm_contains_def by (induction m rule: hm_insert.induct) auto

lemma length_hm_insert:
  "length (hm_insert k v m) = (if hm_contains m k then length m else Suc (length m))"
  unfolding hm_contains_def by (induction m rule: hm_insert.induct) auto

lemma hm_ok_remove [simp]: "hm_ok m \<Longrightarrow> hm_ok (hm_remove k m)"
  unfolding hm_ok_def hm_remove_def by (rule distinct_map_filter)

lemma map_of_hm_remove [simp]: "map_of (hm_remove k m) = (map_of m)(k := None)"
  unfolding hm_remove_def by (induction m) auto

lemma hm_lookup: "hm_ok m \<Longrightarrow> (k, v) \<in> set m \<longleftrightarrow> map_of m k = Some v"
  by (simp add: hm_ok_def)

section \<open>Sorting\<close>

text \<open>
  \<^verbatim>\<open>slice::sort_by\<close>, a stable sort by a comparison.
\<close>

fun insort_by :: "('a \<Rightarrow> 'a \<Rightarrow> bool) \<Rightarrow> 'a \<Rightarrow> 'a list \<Rightarrow> 'a list" where
  "insort_by le x [] = [x]"
| "insort_by le x (y # ys) = (if le x y then x # y # ys else y # insort_by le x ys)"

definition sort_by :: "('a \<Rightarrow> 'a \<Rightarrow> bool) \<Rightarrow> 'a list \<Rightarrow> 'a list" where
  "sort_by le xs = foldr (insort_by le) xs []"

lemma mset_sort_by: "mset (sort_by le xs) = mset xs"
proof -
  have "mset (insort_by le x ys) = add_mset x (mset ys)" for x ys by (induction ys) auto
  then show ?thesis unfolding sort_by_def by (induction xs) auto
qed

section \<open>Multisets\<close>

lemma subset_mset_grow: "A \<subseteq># B \<Longrightarrow> A \<subseteq># add_mset x B"
  by (simp add: subseteq_mset_def le_SucI)

lemma subset_mset_shrink:
  assumes "A \<subseteq># add_mset x B" "x \<notin># A"
  shows "A \<subseteq># B"
proof (rule mset_subset_eqI)
  fix a
  show "count A a \<le> count B a"
    using mset_subset_eq_count [OF assms(1), of a] assms(2) by (cases "a = x") (simp_all add: not_in_iff)
qed

end
