(* ===== verification/Topology_Ids.thy ===== *)
theory Topology_Ids
  imports Rust_Prelude "HOL-Library.Char_ord" "HOL-Library.List_Lexorder"
begin

text \<open>
  Component and component output identifiers (\<^verbatim>\<open>lib/saluki-core/src/topology/ids.rs\<close>): the
  validation of identifiers, byte by byte as the source does it, and the parsing of an output
  identifier \<^verbatim>\<open>component.output\<close> into its parts. The lemmas give the grammar that the validation
  loop accepts and the round trip between building an output identifier and taking it apart.
\<close>

section \<open>Data\<close>

datatype component_id = ComponentId (cid_str: string)

datatype component_output_id = ComponentOutputId (coid_str: string)

datatype output_name = OutputDefault | OutputGiven string

record 'ty output_definition =
  od_name :: output_name
  od_data_ty :: 'ty

text \<open>The two static messages of the source.\<close>

datatype id_reason = INVALID_COMPONENT_ID | INVALID_COMPONENT_OUTPUT_ID

text \<open>\<^verbatim>\<open>ComponentId\<close> derives \<^verbatim>\<open>Ord\<close>: the byte-wise order of the strings.\<close>

instantiation component_id :: linorder
begin

definition less_eq_component_id :: "component_id \<Rightarrow> component_id \<Rightarrow> bool" where
  "less_eq_component_id a b \<longleftrightarrow> cid_str a \<le> cid_str b"

definition less_component_id :: "component_id \<Rightarrow> component_id \<Rightarrow> bool" where
  "less_component_id a b \<longleftrightarrow> cid_str a < cid_str b"

instance
  by standard
    (auto simp: less_eq_component_id_def less_component_id_def intro: component_id.expand)

end

section \<open>Validation\<close>

text \<open>
  \<open>start\<close> and \<open>stop\<close> delimit a segment inside the identifier; the only caller passes
  \<open>stop \<le> length bytes\<close>, so the two reads are in range whenever \<open>start < stop\<close>.
\<close>

definition is_valid_component_id_segment :: "string \<Rightarrow> nat \<Rightarrow> nat \<Rightarrow> bool" where
  "is_valid_component_id_segment bytes start stop =
     (if start \<ge> stop then False
      else is_ascii_alphanumeric (bytes ! start) \<and> is_ascii_alphanumeric (bytes ! (stop - 1)))"

function validate_loop :: "string \<Rightarrow> bool \<Rightarrow> nat \<Rightarrow> nat \<Rightarrow> bool \<Rightarrow> bool" where
  "validate_loop id_bytes as_output_id idx segment_start seen_separator =
     (if idx < length id_bytes then
        (let b = id_bytes ! idx in
         if b = CHR ''.'' then
           (if \<not> as_output_id \<or> seen_separator then False
            else if \<not> is_valid_component_id_segment id_bytes segment_start idx then False
            else validate_loop id_bytes as_output_id (idx + 1) (idx + 1) True)
         else if \<not> is_ascii_alphanumeric b \<and> b \<noteq> CHR ''_'' then False
         else validate_loop id_bytes as_output_id (idx + 1) segment_start seen_separator)
      else is_valid_component_id_segment id_bytes segment_start (length id_bytes))"
  by pat_completeness auto
termination
  by (relation "measure (\<lambda>(bs, _, idx, _, _). length bs - idx)") auto

declare validate_loop.simps [simp del]

definition validate_component_id :: "string \<Rightarrow> bool \<Rightarrow> bool" where
  "validate_component_id value as_output_id =
     (if length value = 0 then False else validate_loop value as_output_id 0 0 False)"

section \<open>Operations\<close>

text \<open>\<^verbatim>\<open>TryFrom<&str>\<close> for the two identifier types.\<close>

definition component_id_try_from :: "string \<Rightarrow> id_reason + component_id" where
  "component_id_try_from value =
     (if \<not> validate_component_id value False then Inl INVALID_COMPONENT_ID
      else Inr (ComponentId value))"

definition component_output_id_try_from :: "string \<Rightarrow> id_reason + component_output_id" where
  "component_output_id_try_from value =
     (if \<not> validate_component_id value True then Inl INVALID_COMPONENT_OUTPUT_ID
      else Inr (ComponentOutputId value))"

definition output_def_name :: "'ty output_definition \<Rightarrow> string option" where
  "output_def_name d = (case od_name d of OutputDefault \<Rightarrow> None | OutputGiven name \<Rightarrow> Some name)"

definition from_definition ::
    "component_id \<Rightarrow> 'ty output_definition \<Rightarrow> (string \<times> id_reason) + component_output_id" where
  "from_definition component_id output_def =
     (case output_def_name output_def of
        None \<Rightarrow> Inr (ComponentOutputId (cid_str component_id))
      | Some output_name \<Rightarrow>
          let output_id = cid_str component_id @ ''.'' @ output_name
          in if validate_component_id output_id True then Inr (ComponentOutputId output_id)
             else Inl (output_id, INVALID_COMPONENT_OUTPUT_ID))"

definition coid_component_id :: "component_output_id \<Rightarrow> component_id" where
  "coid_component_id self =
     (case split_once (CHR ''.'') (coid_str self) of
        Some (component_id, _) \<Rightarrow> ComponentId component_id
      | None \<Rightarrow> ComponentId (coid_str self))"

definition coid_output :: "component_output_id \<Rightarrow> output_name" where
  "coid_output self =
     (case split_once (CHR ''.'') (coid_str self) of
        Some (_, output_name) \<Rightarrow> OutputGiven output_name
      | None \<Rightarrow> OutputDefault)"

definition coid_is_default :: "component_output_id \<Rightarrow> bool" where
  "coid_is_default self = (split_once (CHR ''.'') (coid_str self) = None)"

section \<open>The accepted grammar\<close>

text \<open>A segment: alphanumerics and underscores, with an alphanumeric at each end.\<close>

definition id_char :: "char \<Rightarrow> bool" where
  "id_char c \<longleftrightarrow> is_ascii_alphanumeric c \<or> c = CHR ''_''"

definition id_segment :: "string \<Rightarrow> bool" where
  "id_segment s \<longleftrightarrow> s \<noteq> [] \<and> (\<forall>c\<in>set s. id_char c) \<and>
     is_ascii_alphanumeric (hd s) \<and> is_ascii_alphanumeric (last s)"

lemma dot_not_id_char [simp]: "\<not> id_char CHR ''.''"
  by (simp add: id_char_def is_ascii_alphanumeric_def is_ascii_digit_def is_ascii_alphabetic_def)

lemma id_segment_no_dot: "id_segment s \<Longrightarrow> CHR ''.'' \<notin> set s"
  by (auto simp: id_segment_def)

lemma segment_check:
  assumes "start \<le> stop" and "stop \<le> length bs"
    and ok: "\<forall>c\<in>set (take (stop - start) (drop start bs)). id_char c"
  shows "is_valid_component_id_segment bs start stop \<longleftrightarrow>
    id_segment (take (stop - start) (drop start bs))"
proof (cases "start < stop")
  case True
  let ?seg = "take (stop - start) (drop start bs)"
  have len: "length ?seg = stop - start" using assms(1,2) by simp
  have ne: "?seg \<noteq> []" using len True by (metis length_greater_0_conv zero_less_diff)
  have hd: "hd ?seg = bs ! start" using ne True assms(2) by (simp add: hd_conv_nth)
  have last: "last ?seg = bs ! (stop - 1)"
    using ne True assms(2) len by (simp add: last_conv_nth)
  from True ok ne show ?thesis
    by (simp add: is_valid_component_id_segment_def id_segment_def hd last)
qed (use assms(1) in \<open>simp add: is_valid_component_id_segment_def id_segment_def\<close>)

lemma split_at_dot_unique:
  assumes "CHR ''.'' \<notin> set a"
  shows "(\<exists>x y. a @ CHR ''.'' # b = x @ CHR ''.'' # y \<and> id_segment x \<and> id_segment y) \<longleftrightarrow>
    id_segment a \<and> id_segment b"
proof
  assume "\<exists>x y. a @ CHR ''.'' # b = x @ CHR ''.'' # y \<and> id_segment x \<and> id_segment y"
  then obtain x y where xy: "a @ CHR ''.'' # b = x @ CHR ''.'' # y" "id_segment x" "id_segment y"
    by blast
  from xy(2) have "CHR ''.'' \<notin> set x" by (rule id_segment_no_dot)
  with assms xy(1) have "a = x \<and> b = y"
    by (metis split_once_append option.inject prod.inject)
  with xy(2,3) show "id_segment a \<and> id_segment b" by simp
qed blast

text \<open>What the loop still accepts from position \<open>idx\<close>, with the open segment starting at \<open>ss\<close>.\<close>

lemma validate_loop_spec:
  assumes "ss \<le> idx" and "idx \<le> length bs"
    and "\<forall>c\<in>set (take (idx - ss) (drop ss bs)). id_char c"
  shows "validate_loop bs ao idx ss seen \<longleftrightarrow>
    id_segment (drop ss bs) \<or>
    (ao \<and> \<not> seen \<and> (\<exists>a b. drop ss bs = a @ CHR ''.'' # b \<and> id_segment a \<and> id_segment b))"
  using assms
proof (induction bs ao idx ss seen rule: validate_loop.induct)
  case (1 bs ao idx ss seen)
  define cur where "cur = take (idx - ss) (drop ss bs)"
  have ok: "\<forall>c\<in>set cur. id_char c" using "1.prems"(3) by (simp add: cur_def)
  have nodot: "CHR ''.'' \<notin> set cur" using ok dot_not_id_char by blast
  show ?case
  proof (cases "idx < length bs")
    case False
    with "1.prems" have cur: "cur = drop ss bs" by (simp add: cur_def)
    have "\<not> (\<exists>a b. drop ss bs = a @ CHR ''.'' # b)" using nodot unfolding cur by auto
    moreover have "validate_loop bs ao idx ss seen = id_segment (drop ss bs)"
      using False "1.prems" segment_check [of ss "length bs" bs] cur ok
      by (subst validate_loop.simps) simp
    ultimately show ?thesis by blast
  next
    case True
    let ?b = "bs ! idx"
    have rest: "drop ss bs = cur @ ?b # drop (Suc idx) bs"
    proof -
      have "drop ss bs = cur @ drop (idx - ss) (drop ss bs)" unfolding cur_def by (simp only: append_take_drop_id)
      also have "drop (idx - ss) (drop ss bs) = drop idx bs" using "1.prems"(1) by simp
      also have "\<dots> = ?b # drop (Suc idx) bs" using True by (simp add: Cons_nth_drop_Suc)
      finally show ?thesis .
    qed
    consider (dot) "?b = CHR ''.''" | (bad) "?b \<noteq> CHR ''.''" "\<not> id_char ?b" | (good) "id_char ?b"
      by blast
    then show ?thesis
    proof cases
      case dot
      have "?b \<in> set (drop ss bs)" by (subst rest) simp
      then have no: "\<not> id_segment (drop ss bs)" using id_segment_no_dot [of "drop ss bs"] dot by auto
      have spl: "(\<exists>a b. drop ss bs = a @ CHR ''.'' # b \<and> id_segment a \<and> id_segment b) \<longleftrightarrow>
          id_segment cur \<and> id_segment (drop (Suc idx) bs)"
        unfolding rest dot by (rule split_at_dot_unique [OF nodot])
      have seg: "is_valid_component_id_segment bs ss idx = id_segment cur"
        unfolding cur_def by (rule segment_check) (use "1.prems" in auto)
      have IH: "validate_loop bs ao (idx + 1) (idx + 1) True = id_segment (drop (Suc idx) bs)"
        if "ao" "\<not> seen" "id_segment cur"
        using "1.IH"(1) [OF True refl] that dot True seg by simp
      have "validate_loop bs ao idx ss seen \<longleftrightarrow>
          ao \<and> \<not> seen \<and> id_segment cur \<and> id_segment (drop (Suc idx) bs)"
        using True dot seg IH by (subst validate_loop.simps) auto
      with no spl show ?thesis by blast
    next
      case bad
      have "?b \<in> set (drop ss bs)" by (subst rest) simp
      then have no: "\<not> id_segment (drop ss bs)" using bad(2) by (auto simp: id_segment_def)
      have "\<not> (id_segment a \<and> id_segment b)" if "drop ss bs = a @ CHR ''.'' # b" for a b
      proof -
        have "?b \<in> set a \<or> ?b \<in> set b" using \<open>?b \<in> set (drop ss bs)\<close> that bad(1) by auto
        then show ?thesis using bad(2) by (auto simp: id_segment_def)
      qed
      moreover have "\<not> validate_loop bs ao idx ss seen"
        using True bad by (subst validate_loop.simps) (simp add: id_char_def)
      ultimately show ?thesis using no by blast
    next
      case good
      then have nd: "?b \<noteq> CHR ''.''" using dot_not_id_char by metis
      have cur': "take (Suc idx - ss) (drop ss bs) = cur @ [?b]"
        using True "1.prems"(1) by (simp add: Suc_diff_le take_Suc_conv_app_nth cur_def)
      have "validate_loop bs ao idx ss seen = validate_loop bs ao (idx + 1) ss seen"
        using True nd good by (subst validate_loop.simps) (auto simp: id_char_def)
      also have "\<dots> \<longleftrightarrow> id_segment (drop ss bs) \<or>
          (ao \<and> \<not> seen \<and> (\<exists>a b. drop ss bs = a @ CHR ''.'' # b \<and> id_segment a \<and> id_segment b))"
        using "1.IH"(2) [OF True refl nd] good True "1.prems" cur' ok by (auto simp: id_char_def)
      finally show ?thesis .
    qed
  qed
qed

lemma validate_grammar:
  "validate_component_id s ao \<longleftrightarrow>
     id_segment s \<or> (ao \<and> (\<exists>a b. s = a @ CHR ''.'' # b \<and> id_segment a \<and> id_segment b))"
proof (cases "s = []")
  case True
  then show ?thesis by (simp add: validate_component_id_def id_segment_def)
next
  case False
  then show ?thesis using validate_loop_spec [of 0 0 s ao False] by (simp add: validate_component_id_def)
qed

lemma validate_no_dot: "validate_component_id s False \<Longrightarrow> CHR ''.'' \<notin> set s"
  by (simp add: validate_grammar id_segment_no_dot)

lemma component_of_valid_output:
  assumes "component_output_id_try_from s = Inr oid"
  shows "validate_component_id (cid_str (coid_component_id oid)) False"
proof -
  from assms have v: "validate_component_id s True" and oid: "oid = ComponentOutputId s"
    by (auto simp: component_output_id_try_from_def split: if_splits)
  from v consider "id_segment s" | a b where "s = a @ CHR ''.'' # b" "id_segment a" "id_segment b"
    by (auto simp: validate_grammar)
  then show ?thesis
  proof cases
    case 1
    then have "split_once CHR ''.'' s = None" by (simp add: split_once_None_iff id_segment_no_dot)
    with 1 oid show ?thesis by (simp add: coid_component_id_def validate_grammar)
  next
    case 2
    then have "split_once CHR ''.'' s = Some (a, b)" by (simp add: split_once_append id_segment_no_dot)
    with 2 oid show ?thesis by (simp add: coid_component_id_def validate_grammar)
  qed
qed

lemma from_definition_parts:
  assumes "validate_component_id (cid_str cid) False" and "from_definition cid d = Inr oid"
  shows "coid_component_id oid = cid \<and> coid_output oid = od_name d"
proof -
  have nd: "CHR ''.'' \<notin> set (cid_str cid)" using assms(1) by (rule validate_no_dot)
  show ?thesis
  proof (cases "od_name d")
    case OutputDefault
    then have "oid = ComponentOutputId (cid_str cid)"
      using assms(2) by (simp add: from_definition_def output_def_name_def)
    moreover have "split_once CHR ''.'' (cid_str cid) = None" using nd by (simp add: split_once_None_iff)
    ultimately show ?thesis using OutputDefault by (simp add: coid_component_id_def coid_output_def)
  next
    case (OutputGiven name)
    then have "oid = ComponentOutputId (cid_str cid @ ''.'' @ name)"
      using assms(2) by (auto simp: from_definition_def output_def_name_def Let_def split: if_splits)
    moreover have "split_once CHR ''.'' (cid_str cid @ ''.'' @ name) = Some (cid_str cid, name)"
      using split_once_append [OF nd] by simp
    ultimately show ?thesis using OutputGiven by (simp add: coid_component_id_def coid_output_def)
  qed
qed

end
