(* ===== verification/Topology_Graph.thy ===== *)
theory Topology_Graph
  imports Topology_Ids
begin

text \<open>
  The component graph of a topology (\<^verbatim>\<open>lib/saluki-core/src/topology/graph.rs\<close>): adding nodes and
  edges, removing edges, pruning the components that lost their inputs, validation (data types,
  cycles, disconnected components) and the table of outbound connections.

  \<^verbatim>\<open>nodes\<close> is a \<^verbatim>\<open>HashMap\<close>, so an association list in iteration order. A builder is a trait object of
  which the graph only reads the declared outputs and types: these are arguments here.
\<close>

unbundle bit_operations_syntax

section \<open>Data\<close>

text \<open>
  \<^verbatim>\<open>EventType\<close> and \<^verbatim>\<open>PayloadType\<close> are bitmasks over \<^verbatim>\<open>u8\<close>, one bit per variant in declaration order.
\<close>

type_synonym event_type = "8 word"
type_synonym payload_type = "8 word"

definition EventType_Metric :: event_type where "EventType_Metric = 1"
definition EventType_EventD :: event_type where "EventType_EventD = 2"
definition EventType_ServiceCheck :: event_type where "EventType_ServiceCheck = 4"
definition EventType_Log :: event_type where "EventType_Log = 8"
definition EventType_Trace :: event_type where "EventType_Trace = 16"
definition EventType_TraceStats :: event_type where "EventType_TraceStats = 32"

definition PayloadType_Raw :: payload_type where "PayloadType_Raw = 1"
definition PayloadType_Http :: payload_type where "PayloadType_Http = 2"
definition PayloadType_Grpc :: payload_type where "PayloadType_Grpc = 4"

definition mask_is_none :: "8 word \<Rightarrow> bool" where
  "mask_is_none a \<longleftrightarrow> a = 0"

definition mask_intersects :: "8 word \<Rightarrow> 8 word \<Rightarrow> bool" where
  "mask_intersects a b \<longleftrightarrow> a AND b \<noteq> 0"

datatype data_type = EventData event_type | PayloadData payload_type

fun dt_intersects :: "data_type \<Rightarrow> data_type \<Rightarrow> bool" where
  "dt_intersects (EventData a) (EventData b) =
     (\<not> mask_is_none a \<and> \<not> mask_is_none b \<and> mask_intersects a b)"
| "dt_intersects (PayloadData a) (PayloadData b) =
     (\<not> mask_is_none a \<and> \<not> mask_is_none b \<and> mask_intersects a b)"
| "dt_intersects _ _ = False"

datatype component_type =
  CtSource | CtRelay | CtDecoder | CtTransform | CtEncoder | CtForwarder | CtDestination

record typed_output_id =
  component_output :: component_output_id
  output_ty :: data_type

record typed_component_id =
  tci_id :: component_id
  tci_ty :: component_type

datatype node =
    NSource "typed_output_id list"
  | NRelay "typed_output_id list"
  | NDecoder payload_type event_type
  | NTransform event_type "typed_output_id list"
  | NEncoder event_type payload_type
  | NForwarder payload_type
  | NDestination event_type

record edge =
  edge_from :: component_output_id
  edge_to :: component_id

record graph =
  nodes :: "(component_id, node) hash_map"
  edges :: "edge list"

definition empty_graph :: graph where
  "empty_graph = \<lparr>nodes = [], edges = []\<rparr>"

datatype graph_error =
    InvalidComponentId string id_reason
  | DuplicateComponentId component_id
  | NonexistentComponentId component_id
  | InvalidComponentOutputId string id_reason
  | DuplicateComponentOutputId component_id component_output_id
  | NonexistentComponentOutputId component_output_id
  | DataTypeMismatch component_output_id data_type component_id data_type
  | Cycle "component_id list"
  | DisconnectedComponents "component_id list"

section \<open>Adding nodes\<close>

definition try_into_component_id :: "string \<Rightarrow> graph_error + component_id" where
  "try_into_component_id component_id =
     (case component_id_try_from component_id of
        Inl e \<Rightarrow> Inl (InvalidComponentId component_id e)
      | Inr c \<Rightarrow> Inr c)"

definition try_into_component_output_id :: "string \<Rightarrow> graph_error + component_output_id" where
  "try_into_component_output_id component_output_id =
     (case component_output_id_try_from component_output_id of
        Inl e \<Rightarrow> Inl (InvalidComponentOutputId component_output_id e)
      | Inr c \<Rightarrow> Inr c)"

fun construct_typed_output_ids ::
    "component_id \<Rightarrow> data_type output_definition list \<Rightarrow> graph_error + typed_output_id list" where
  "construct_typed_output_ids component_id [] = Inr []"
| "construct_typed_output_ids component_id (output # outputs) =
     (case from_definition component_id output of
        Inl (input, reason) \<Rightarrow> Inl (InvalidComponentOutputId input reason)
      | Inr output_id \<Rightarrow>
          (case construct_typed_output_ids component_id outputs of
             Inl e \<Rightarrow> Inl e
           | Inr rest \<Rightarrow>
               Inr (\<lparr>component_output = output_id, output_ty = od_data_ty output\<rparr> # rest)))"

text \<open>
  The seven \<^verbatim>\<open>add_*\<close> functions share their guard: the identifier is valid and new. Where the
  component declares outputs, their identifiers are built before the node is inserted.
\<close>

definition insert_node :: "component_id \<Rightarrow> node \<Rightarrow> graph \<Rightarrow> graph" where
  "insert_node c n g = g\<lparr>nodes := hm_insert c n (nodes g)\<rparr>"

definition add_source ::
    "string \<Rightarrow> event_type output_definition list \<Rightarrow> graph \<Rightarrow> graph_error + (component_id \<times> graph)" where
  "add_source component_id outs g =
     (case try_into_component_id component_id of
        Inl e \<Rightarrow> Inl e
      | Inr c \<Rightarrow>
          if hm_contains (nodes g) c then Inl (DuplicateComponentId c)
          else
            (case construct_typed_output_ids c
                (map (\<lambda>d. \<lparr>od_name = od_name d, od_data_ty = EventData (od_data_ty d)\<rparr>) outs) of
               Inl e \<Rightarrow> Inl e
             | Inr outputs \<Rightarrow> Inr (c, insert_node c (NSource outputs) g)))"

definition add_relay ::
    "string \<Rightarrow> payload_type output_definition list \<Rightarrow> graph \<Rightarrow> graph_error + (component_id \<times> graph)" where
  "add_relay component_id outs g =
     (case try_into_component_id component_id of
        Inl e \<Rightarrow> Inl e
      | Inr c \<Rightarrow>
          if hm_contains (nodes g) c then Inl (DuplicateComponentId c)
          else
            (case construct_typed_output_ids c
                (map (\<lambda>d. \<lparr>od_name = od_name d, od_data_ty = PayloadData (od_data_ty d)\<rparr>) outs) of
               Inl e \<Rightarrow> Inl e
             | Inr outputs \<Rightarrow> Inr (c, insert_node c (NRelay outputs) g)))"

definition add_decoder ::
    "string \<Rightarrow> payload_type \<Rightarrow> event_type \<Rightarrow> graph \<Rightarrow> graph_error + (component_id \<times> graph)" where
  "add_decoder component_id input_payload_type output_event_type g =
     (case try_into_component_id component_id of
        Inl e \<Rightarrow> Inl e
      | Inr c \<Rightarrow>
          if hm_contains (nodes g) c then Inl (DuplicateComponentId c)
          else Inr (c, insert_node c (NDecoder input_payload_type output_event_type) g))"

definition add_transform ::
    "string \<Rightarrow> event_type \<Rightarrow> event_type output_definition list \<Rightarrow> graph \<Rightarrow>
     graph_error + (component_id \<times> graph)" where
  "add_transform component_id input_event_type outs g =
     (case try_into_component_id component_id of
        Inl e \<Rightarrow> Inl e
      | Inr c \<Rightarrow>
          if hm_contains (nodes g) c then Inl (DuplicateComponentId c)
          else
            (case construct_typed_output_ids c
                (map (\<lambda>d. \<lparr>od_name = od_name d, od_data_ty = EventData (od_data_ty d)\<rparr>) outs) of
               Inl e \<Rightarrow> Inl e
             | Inr outputs \<Rightarrow> Inr (c, insert_node c (NTransform input_event_type outputs) g)))"

definition add_encoder ::
    "string \<Rightarrow> event_type \<Rightarrow> payload_type \<Rightarrow> graph \<Rightarrow> graph_error + (component_id \<times> graph)" where
  "add_encoder component_id input_event_type output_payload_type g =
     (case try_into_component_id component_id of
        Inl e \<Rightarrow> Inl e
      | Inr c \<Rightarrow>
          if hm_contains (nodes g) c then Inl (DuplicateComponentId c)
          else Inr (c, insert_node c (NEncoder input_event_type output_payload_type) g))"

definition add_forwarder ::
    "string \<Rightarrow> payload_type \<Rightarrow> graph \<Rightarrow> graph_error + (component_id \<times> graph)" where
  "add_forwarder component_id input_payload_type g =
     (case try_into_component_id component_id of
        Inl e \<Rightarrow> Inl e
      | Inr c \<Rightarrow>
          if hm_contains (nodes g) c then Inl (DuplicateComponentId c)
          else Inr (c, insert_node c (NForwarder input_payload_type) g))"

definition add_destination ::
    "string \<Rightarrow> event_type \<Rightarrow> graph \<Rightarrow> graph_error + (component_id \<times> graph)" where
  "add_destination component_id input_event_type g =
     (case try_into_component_id component_id of
        Inl e \<Rightarrow> Inl e
      | Inr c \<Rightarrow>
          if hm_contains (nodes g) c then Inl (DuplicateComponentId c)
          else Inr (c, insert_node c (NDestination input_event_type) g))"

section \<open>Adding and removing edges\<close>

definition add_edge :: "string \<Rightarrow> string \<Rightarrow> graph \<Rightarrow> graph_error + graph" where
  "add_edge from to g =
     (case try_into_component_id to of
        Inl e \<Rightarrow> Inl e
      | Inr component_id \<Rightarrow>
          (case try_into_component_output_id from of
             Inl e \<Rightarrow> Inl e
           | Inr component_output_id \<Rightarrow>
               if \<not> hm_contains (nodes g) component_id then Inl (NonexistentComponentId component_id)
               else
                 (let pushed = g\<lparr>edges := edges g @
                        [\<lparr>edge_from = component_output_id, edge_to = component_id\<rparr>]\<rparr>;
                      checked = (\<lambda>ok. if ok then Inr pushed
                        else Inl (NonexistentComponentOutputId component_output_id));
                      listed = (\<lambda>outputs. checked
                        (\<exists>output\<in>set outputs. component_output output = component_output_id))
                  in case map_of (nodes g) (coid_component_id component_output_id) of
                       Some (NSource outputs) \<Rightarrow> listed outputs
                     | Some (NRelay outputs) \<Rightarrow> listed outputs
                     | Some (NTransform _ outputs) \<Rightarrow> listed outputs
                     | Some (NDecoder _ _) \<Rightarrow> checked (coid_is_default component_output_id)
                     | Some (NEncoder _ _) \<Rightarrow> checked (coid_is_default component_output_id)
                     | Some (NDestination _) \<Rightarrow> Inl (NonexistentComponentOutputId component_output_id)
                     | Some (NForwarder _) \<Rightarrow> Inl (NonexistentComponentOutputId component_output_id)
                     | None \<Rightarrow>
                         Inl (NonexistentComponentId (coid_component_id component_output_id)))))"

fun remove_first_edge :: "component_output_id \<Rightarrow> component_id \<Rightarrow> edge list \<Rightarrow> edge list" where
  "remove_first_edge from to [] = []"
| "remove_first_edge from to (e # es) =
     (if edge_from e = from \<and> edge_to e = to then es else e # remove_first_edge from to es)"

definition remove_edge :: "component_output_id \<Rightarrow> component_id \<Rightarrow> graph \<Rightarrow> graph" where
  "remove_edge from to g = g\<lparr>edges := remove_first_edge from to (edges g)\<rparr>"

section \<open>Pruning\<close>

fun node_component_type :: "node \<Rightarrow> component_type" where
  "node_component_type (NSource _) = CtSource"
| "node_component_type (NRelay _) = CtRelay"
| "node_component_type (NDecoder _ _) = CtDecoder"
| "node_component_type (NTransform _ _) = CtTransform"
| "node_component_type (NEncoder _ _) = CtEncoder"
| "node_component_type (NForwarder _) = CtForwarder"
| "node_component_type (NDestination _) = CtDestination"

definition get_component_type :: "graph \<Rightarrow> component_id \<Rightarrow> component_type option" where
  "get_component_type g c = map_option node_component_type (map_of (nodes g) c)"

text \<open>
  The work list \<^verbatim>\<open>pending\<close> is a \<^verbatim>\<open>Vec\<close> used as a stack; its last element is the head of the list here,
  so the targets pushed in edge order come back in reverse.
\<close>

definition outbound_targets :: "component_id \<Rightarrow> edge list \<Rightarrow> component_id list" where
  "outbound_targets c es =
     map edge_to (filter (\<lambda>e. coid_component_id (edge_from e) = c) es)"

definition drop_outbound :: "component_id \<Rightarrow> edge list \<Rightarrow> edge list" where
  "drop_outbound c es = filter (\<lambda>e. coid_component_id (edge_from e) \<noteq> c) es"

definition drop_component :: "component_id \<Rightarrow> graph \<Rightarrow> graph" where
  "drop_component c g = \<lparr>nodes = hm_remove c (nodes g), edges = drop_outbound c (edges g)\<rparr>"

lemma length_hm_remove: "map_of m c \<noteq> None \<Longrightarrow> length (hm_remove c m) < length m"
  unfolding hm_remove_def
  by (rule length_filter_less [of "(c, the (map_of m c))"]) (auto dest: map_of_SomeD)

function prune_loop ::
    "graph \<Rightarrow> component_id list \<Rightarrow> (component_id \<times> component_type) list \<Rightarrow>
     graph \<times> (component_id \<times> component_type) list" where
  "prune_loop g pending removed =
     (case pending of
        [] \<Rightarrow> (g, removed)
      | c # rest \<Rightarrow>
          (case get_component_type g c of
             None \<Rightarrow> prune_loop g rest removed
           | Some component_type \<Rightarrow>
               if component_type = CtSource \<or> component_type = CtRelay then prune_loop g rest removed
               else if \<exists>e\<in>set (edges g). edge_to e = c then prune_loop g rest removed
               else prune_loop (drop_component c g)
                      (rev (outbound_targets c (edges g)) @ rest)
                      (removed @ [(c, component_type)])))"
  by pat_completeness auto
termination
proof (relation "measures [\<lambda>(g, _, _). length (nodes g), \<lambda>(_, pending, _). length pending]")
  fix g :: graph and pending removed c rest component_type
  assume "get_component_type g c = Some component_type"
  then have "map_of (nodes g) c \<noteq> None" by (auto simp: get_component_type_def)
  then have "length (hm_remove c (nodes g)) < length (nodes g)" by (rule length_hm_remove)
  then show "((drop_component c g, rev (outbound_targets c (edges g)) @ rest,
      removed @ [(c, component_type)]), g, pending, removed)
    \<in> measures [\<lambda>(g, _, _). length (nodes g), \<lambda>(_, pending, _). length pending]"
    by (simp add: drop_component_def)
qed auto

declare prune_loop.simps [simp del]

definition prune_components_without_inputs ::
    "component_id list \<Rightarrow> graph \<Rightarrow> graph \<times> (component_id \<times> component_type) list" where
  "prune_components_without_inputs candidates g = prune_loop g (rev candidates) []"

section \<open>Validation\<close>

text \<open>\<^const>\<open>None\<close> is a panic: an unknown node, a source's input type, a destination's output type.\<close>

definition get_input_type :: "graph \<Rightarrow> component_id \<Rightarrow> data_type option" where
  "get_input_type g c =
     (case map_of (nodes g) c of
        None \<Rightarrow> None
      | Some (NSource _) \<Rightarrow> None
      | Some (NRelay _) \<Rightarrow> None
      | Some (NDecoder input_ty _) \<Rightarrow> Some (PayloadData input_ty)
      | Some (NTransform input_ty _) \<Rightarrow> Some (EventData input_ty)
      | Some (NEncoder input_ty _) \<Rightarrow> Some (EventData input_ty)
      | Some (NForwarder input_ty) \<Rightarrow> Some (PayloadData input_ty)
      | Some (NDestination input_ty) \<Rightarrow> Some (EventData input_ty))"

definition find_output_ty :: "component_output_id \<Rightarrow> typed_output_id list \<Rightarrow> data_type option" where
  "find_output_ty oid outputs =
     map_option output_ty
       (List.find (\<lambda>output. coid_output (component_output output) = coid_output oid) outputs)"

definition get_output_type :: "graph \<Rightarrow> component_output_id \<Rightarrow> data_type option" where
  "get_output_type g oid =
     (case map_of (nodes g) (coid_component_id oid) of
        None \<Rightarrow> None
      | Some (NSource outputs) \<Rightarrow> find_output_ty oid outputs
      | Some (NRelay outputs) \<Rightarrow> find_output_ty oid outputs
      | Some (NTransform _ outputs) \<Rightarrow> find_output_ty oid outputs
      | Some (NDecoder _ out_ty) \<Rightarrow> (if coid_is_default oid then Some (EventData out_ty) else None)
      | Some (NEncoder _ out_ty) \<Rightarrow> (if coid_is_default oid then Some (PayloadData out_ty) else None)
      | Some (NDestination _) \<Rightarrow> None
      | Some (NForwarder _) \<Rightarrow> None)"

fun check_edge_types :: "graph \<Rightarrow> edge list \<Rightarrow> (graph_error + unit) option" where
  "check_edge_types g [] = Some (Inr ())"
| "check_edge_types g (edge # es) = do {
     from_ty \<leftarrow> get_output_type g (edge_from edge);
     to_ty \<leftarrow> get_input_type g (edge_to edge);
     if \<not> dt_intersects from_ty to_ty
     then Some (Inl (DataTypeMismatch (edge_from edge) from_ty (edge_to edge) to_ty))
     else check_edge_types g es
   }"

definition check_event_types :: "graph \<Rightarrow> (graph_error + unit) option" where
  "check_event_types g = check_edge_types g (edges g)"

text \<open>
  The depth-first search of \<^verbatim>\<open>check_for_cycles\<close>. \<open>traversal\<close> has the back of the deque first;
  \<open>visited\<close> is the hash set; \<open>stack\<close> is the \<^verbatim>\<open>IndexSet\<close> in insertion order.
\<close>

definition inputs_of :: "graph \<Rightarrow> component_id \<Rightarrow> component_id list" where
  "inputs_of g n = map (\<lambda>e. coid_component_id (edge_from e)) (filter (\<lambda>e. edge_to e = n) (edges g))"

fun scan_inputs ::
    "component_id list \<Rightarrow> component_id list \<Rightarrow> component_id list \<Rightarrow> component_id list \<Rightarrow>
     graph_error + component_id list" where
  "scan_inputs visited stack traversal [] = Inr traversal"
| "scan_inputs visited stack traversal (i # is) =
     (if i \<notin> set visited then scan_inputs visited stack (i # traversal) is
      else if i \<in> set stack then Inl (Cycle (i # rev (drop 1 stack)))
      else scan_inputs visited stack traversal is)"

definition index_set_insert :: "'a \<Rightarrow> 'a list \<Rightarrow> 'a list" where
  "index_set_insert x xs = (if x \<in> set xs then xs else xs @ [x])"

partial_function (option) cycle_loop ::
    "graph \<Rightarrow> component_id list \<Rightarrow> component_id list \<Rightarrow> component_id list \<Rightarrow>
     (graph_error + unit) option" where
  "cycle_loop g traversal visited stack =
     (case traversal of
        [] \<Rightarrow> Some (Inr ())
      | n # rest \<Rightarrow>
          (if n \<notin> set visited
           then (case scan_inputs (n # visited) (index_set_insert n stack) traversal (inputs_of g n) of
                   Inl e \<Rightarrow> Some (Inl e)
                 | Inr t \<Rightarrow> cycle_loop g t (n # visited) (index_set_insert n stack))
           else (case scan_inputs visited (remove1 n stack) rest (inputs_of g n) of
                   Inl e \<Rightarrow> Some (Inl e)
                 | Inr t \<Rightarrow> cycle_loop g t visited (remove1 n stack))))"

declare cycle_loop.simps [code]

definition destinations_of :: "graph \<Rightarrow> component_id list" where
  "destinations_of g = map fst (filter (\<lambda>(c, n). case n of NDestination _ \<Rightarrow> True | _ \<Rightarrow> False) (nodes g))"

fun check_cycles_from :: "graph \<Rightarrow> component_id list \<Rightarrow> (graph_error + unit) option" where
  "check_cycles_from g [] = Some (Inr ())"
| "check_cycles_from g (d # ds) = do {
     r \<leftarrow> cycle_loop g [d] [] [];
     case r of Inl e \<Rightarrow> Some (Inl e) | Inr _ \<Rightarrow> check_cycles_from g ds
   }"

definition check_for_cycles :: "graph \<Rightarrow> (graph_error + unit) option" where
  "check_for_cycles g = check_cycles_from g (destinations_of g)"

definition unconnected_nodes :: "graph \<Rightarrow> component_id list" where
  "unconnected_nodes g =
     filter (\<lambda>c. \<not> (\<exists>e\<in>set (edges g). coid_component_id (edge_from e) = c \<or> edge_to e = c))
       (map fst (nodes g))"

definition check_for_disconnected :: "graph \<Rightarrow> graph_error + unit" where
  "check_for_disconnected g =
     (let unchecked_nodes = unconnected_nodes g
      in if unchecked_nodes = [] then Inr ()
         else Inl (DisconnectedComponents (sort (remdups_adj unchecked_nodes))))"

definition validate :: "graph \<Rightarrow> (graph_error + unit) option" where
  "validate g = do {
     r \<leftarrow> check_event_types g;
     case r of
       Inl e \<Rightarrow> Some (Inl e)
     | Inr _ \<Rightarrow> do {
         r' \<leftarrow> check_for_cycles g;
         case r' of
           Inl e \<Rightarrow> Some (Inl e)
         | Inr _ \<Rightarrow> Some (check_for_disconnected g)
       }
   }"

section \<open>Outbound connections\<close>

type_synonym outbound_map =
  "(typed_component_id, (output_name, typed_component_id list) hash_map) hash_map"

definition typed_id :: "graph \<Rightarrow> component_id \<Rightarrow> typed_component_id option" where
  "typed_id g c = map_option (\<lambda>ty. \<lparr>tci_id = c, tci_ty = ty\<rparr>) (get_component_type g c)"

definition hm_or_default :: "('k, 'v list) hash_map \<Rightarrow> 'k \<Rightarrow> 'v list" where
  "hm_or_default m k = (case map_of m k of None \<Rightarrow> [] | Some v \<Rightarrow> v)"

definition declared_outputs :: "node \<Rightarrow> output_name list option" where
  "declared_outputs n =
     (case n of
        NSource outputs \<Rightarrow> Some (map (\<lambda>o'. coid_output (component_output o')) outputs)
      | NRelay outputs \<Rightarrow> Some (map (\<lambda>o'. coid_output (component_output o')) outputs)
      | NTransform _ outputs \<Rightarrow> Some (map (\<lambda>o'. coid_output (component_output o')) outputs)
      | NDecoder _ _ \<Rightarrow> Some [OutputDefault]
      | NEncoder _ _ \<Rightarrow> Some [OutputDefault]
      | _ \<Rightarrow> None)"

fun populate_outputs ::
    "graph \<Rightarrow> (component_id \<times> node) list \<Rightarrow> outbound_map \<Rightarrow> outbound_map" where
  "populate_outputs g [] mappings = mappings"
| "populate_outputs g ((c, n) # rest) mappings =
     (let tid = \<lparr>tci_id = c, tci_ty = node_component_type n\<rparr>
      in case declared_outputs n of
           None \<Rightarrow> populate_outputs g rest mappings
         | Some names \<Rightarrow>
             populate_outputs g rest
               (hm_insert tid (fold (\<lambda>nm m. hm_insert nm [] m) names (hm_or_default mappings tid)) mappings))"

fun attach_edges :: "graph \<Rightarrow> edge list \<Rightarrow> outbound_map \<Rightarrow> outbound_map option" where
  "attach_edges g [] mappings = Some mappings"
| "attach_edges g (edge # es) mappings = do {
     from_id \<leftarrow> typed_id g (coid_component_id (edge_from edge));
     to_id \<leftarrow> typed_id g (edge_to edge);
     let per_component = hm_or_default mappings from_id;
         per_output = hm_or_default per_component (coid_output (edge_from edge))
     in attach_edges g es
          (hm_insert from_id
             (hm_insert (coid_output (edge_from edge)) (per_output @ [to_id]) per_component) mappings)
   }"

definition get_outbound_directed_edges :: "graph \<Rightarrow> outbound_map option" where
  "get_outbound_directed_edges g = attach_edges g (edges g) (populate_outputs g (nodes g) [])"


section \<open>The graph invariant\<close>

text \<open>
  What every graph built through the operations satisfies: one node per identifier, valid
  identifiers, declared outputs that belong to their node, and edges between existing endpoints.
\<close>

fun node_outputs :: "node \<Rightarrow> typed_output_id list" where
  "node_outputs (NSource outputs) = outputs"
| "node_outputs (NRelay outputs) = outputs"
| "node_outputs (NTransform _ outputs) = outputs"
| "node_outputs _ = []"

definition node_offers :: "node \<Rightarrow> component_output_id \<Rightarrow> bool" where
  "node_offers n oid =
     (case n of
        NSource outputs \<Rightarrow> \<exists>out\<in>set outputs. component_output out = oid
      | NRelay outputs \<Rightarrow> \<exists>out\<in>set outputs. component_output out = oid
      | NTransform _ outputs \<Rightarrow> \<exists>out\<in>set outputs. component_output out = oid
      | NDecoder _ _ \<Rightarrow> coid_is_default oid
      | NEncoder _ _ \<Rightarrow> coid_is_default oid
      | _ \<Rightarrow> False)"

definition wf_node :: "component_id \<Rightarrow> node \<Rightarrow> bool" where
  "wf_node c n \<longleftrightarrow> validate_component_id (cid_str c) False \<and>
     (\<forall>out\<in>set (node_outputs n). coid_component_id (component_output out) = c)"

definition edge_ok :: "(component_id, node) hash_map \<Rightarrow> edge \<Rightarrow> bool" where
  "edge_ok ns e \<longleftrightarrow> map_of ns (edge_to e) \<noteq> None \<and>
     (\<exists>n. map_of ns (coid_component_id (edge_from e)) = Some n \<and> node_offers n (edge_from e))"

definition wf_graph :: "graph \<Rightarrow> bool" where
  "wf_graph g \<longleftrightarrow> hm_ok (nodes g) \<and> (\<forall>(c, n)\<in>set (nodes g). wf_node c n) \<and>
     (\<forall>e\<in>set (edges g). edge_ok (nodes g) e)"

lemma wf_empty_graph: "wf_graph empty_graph"
  by (simp add: wf_graph_def empty_graph_def hm_ok_def)

lemma set_hm_remove: "set (hm_remove k m) \<subseteq> set m"
  by (auto simp: hm_remove_def)

lemma wf_insert_node:
  assumes "wf_graph g" and "\<not> hm_contains (nodes g) c" and "wf_node c n"
  shows "wf_graph (insert_node c n g)"
proof -
  have new: "map_of (nodes g) c = None" using assms(2) by (simp add: hm_contains_iff map_of_eq_None_iff)
  have "edge_ok (hm_insert c n (nodes g)) e" if "e \<in> set (edges g)" for e
  proof -
    have "edge_ok (nodes g) e" using assms(1) that by (simp add: wf_graph_def)
    with new show ?thesis by (auto simp: edge_ok_def map_of_hm_insert)
  qed
  moreover have "\<forall>(c, n)\<in>set (hm_insert c n (nodes g)). wf_node c n"
    using set_hm_insert [of c n "nodes g"] assms(1,3) by (fastforce simp: wf_graph_def)
  ultimately show ?thesis
    using assms(1) by (simp add: wf_graph_def insert_node_def hm_ok_insert)
qed

lemma try_into_component_id_ok:
  "try_into_component_id s = Inr c \<longleftrightarrow> validate_component_id s False \<and> c = ComponentId s"
  by (auto simp: try_into_component_id_def component_id_try_from_def)

lemma construct_typed_output_ids_ok:
  assumes "construct_typed_output_ids c defs = Inr outs" and "validate_component_id (cid_str c) False"
  shows "map (\<lambda>out. (coid_component_id (component_output out), coid_output (component_output out), output_ty out)) outs
    = map (\<lambda>d. (c, od_name d, od_data_ty d)) defs"
  using assms
  by (induction defs arbitrary: outs)
    (auto split: sum.splits prod.splits dest: from_definition_parts)

lemma construct_typed_output_ids_component:
  assumes "construct_typed_output_ids c defs = Inr outs" and "validate_component_id (cid_str c) False"
    and "out \<in> set outs"
  shows "coid_component_id (component_output out) = c"
proof -
  have "fst (coid_component_id (component_output out), coid_output (component_output out), output_ty out)
      \<in> fst ` set (map (\<lambda>d. (c, od_name d, od_data_ty d)) defs)"
    unfolding construct_typed_output_ids_ok [OF assms(1,2), symmetric] using assms(3) by force
  then show ?thesis by auto
qed

lemma construct_new_outputs:
  "construct_typed_output_ids (ComponentId s) defs = Inr outs \<Longrightarrow> validate_component_id s False \<Longrightarrow>
   out \<in> set outs \<Longrightarrow> coid_component_id (component_output out) = ComponentId s"
  by (rule construct_typed_output_ids_component) simp_all

text \<open>Every successful addition inserts one well-formed node under a new identifier.\<close>

definition adds_node :: "graph \<Rightarrow> component_id \<Rightarrow> graph \<Rightarrow> bool" where
  "adds_node g c g' \<longleftrightarrow> (\<exists>n. \<not> hm_contains (nodes g) c \<and> wf_node c n \<and> g' = insert_node c n g)"

lemma adds_nodeI: "\<not> hm_contains (nodes g) c \<Longrightarrow> wf_node c n \<Longrightarrow> adds_node g c (insert_node c n g)"
  by (auto simp: adds_node_def)

lemma adds_node_wf: "adds_node g c g' \<Longrightarrow> wf_graph g \<Longrightarrow> wf_graph g'"
  by (auto simp: adds_node_def wf_insert_node)

lemma add_source_adds: "add_source s outs g = Inr (c, g') \<Longrightarrow> adds_node g c g'"
  by (auto simp: add_source_def wf_node_def try_into_component_id_ok
      split: sum.splits if_splits dest: construct_new_outputs intro!: adds_nodeI)

lemma add_relay_adds: "add_relay s outs g = Inr (c, g') \<Longrightarrow> adds_node g c g'"
  by (auto simp: add_relay_def wf_node_def try_into_component_id_ok
      split: sum.splits if_splits dest: construct_new_outputs intro!: adds_nodeI)

lemma add_transform_adds: "add_transform s i outs g = Inr (c, g') \<Longrightarrow> adds_node g c g'"
  by (auto simp: add_transform_def wf_node_def try_into_component_id_ok
      split: sum.splits if_splits dest: construct_new_outputs intro!: adds_nodeI)

lemma add_decoder_adds: "add_decoder s i out g = Inr (c, g') \<Longrightarrow> adds_node g c g'"
  by (auto simp: add_decoder_def wf_node_def try_into_component_id_ok
      split: sum.splits if_splits intro!: adds_nodeI)

lemma add_encoder_adds: "add_encoder s i out g = Inr (c, g') \<Longrightarrow> adds_node g c g'"
  by (auto simp: add_encoder_def wf_node_def try_into_component_id_ok
      split: sum.splits if_splits intro!: adds_nodeI)

lemma add_forwarder_adds: "add_forwarder s i g = Inr (c, g') \<Longrightarrow> adds_node g c g'"
  by (auto simp: add_forwarder_def wf_node_def try_into_component_id_ok
      split: sum.splits if_splits intro!: adds_nodeI)

lemma add_destination_adds: "add_destination s i g = Inr (c, g') \<Longrightarrow> adds_node g c g'"
  by (auto simp: add_destination_def wf_node_def try_into_component_id_ok
      split: sum.splits if_splits intro!: adds_nodeI)

lemma add_edge_ok_iff:
  "add_edge from to g = Inr g' \<longleftrightarrow>
     validate_component_id to False \<and> validate_component_id from True \<and>
     edge_ok (nodes g) \<lparr>edge_from = ComponentOutputId from, edge_to = ComponentId to\<rparr> \<and>
     g' = g\<lparr>edges := edges g @ [\<lparr>edge_from = ComponentOutputId from, edge_to = ComponentId to\<rparr>]\<rparr>"
  by (auto simp: add_edge_def try_into_component_id_def component_id_try_from_def
      try_into_component_output_id_def component_output_id_try_from_def edge_ok_def node_offers_def
      hm_contains_iff Let_def
      split: sum.splits if_splits option.splits node.splits)

lemma add_edge_wf: "add_edge from to g = Inr g' \<Longrightarrow> wf_graph g \<Longrightarrow> wf_graph g'"
  by (auto simp: add_edge_ok_iff wf_graph_def)

lemma set_remove_first_edge: "set (remove_first_edge from to es) \<subseteq> set es"
  by (induction es) auto

lemma remove_edge_wf: "wf_graph g \<Longrightarrow> wf_graph (remove_edge src dst g)"
  using set_remove_first_edge [of src dst "edges g"] by (auto simp: wf_graph_def remove_edge_def)

lemma drop_component_wf:
  assumes "wf_graph g" and "\<not> (\<exists>e\<in>set (edges g). edge_to e = c)"
  shows "wf_graph (drop_component c g)"
proof -
  have "edge_ok (hm_remove c (nodes g)) e" if "e \<in> set (drop_outbound c (edges g))" for e
  proof -
    have e: "e \<in> set (edges g)" "coid_component_id (edge_from e) \<noteq> c"
      using that by (auto simp: drop_outbound_def)
    then have "edge_ok (nodes g) e" "edge_to e \<noteq> c" using assms by (auto simp: wf_graph_def)
    with e show ?thesis by (auto simp: edge_ok_def map_of_hm_remove)
  qed
  then show ?thesis
    using assms(1) set_hm_remove [of c "nodes g"] by (auto simp: wf_graph_def drop_component_def)
qed

lemma prune_loop_wf: "wf_graph g \<Longrightarrow> wf_graph (fst (prune_loop g pending removed))"
proof (induction g pending removed rule: prune_loop.induct)
  case (1 g pending removed)
  then show ?case
    by (subst prune_loop.simps) (auto split: list.splits option.splits simp: drop_component_wf)
qed

lemma prune_wf: "wf_graph g \<Longrightarrow> wf_graph (fst (prune_components_without_inputs cs g))"
  by (simp add: prune_components_without_inputs_def prune_loop_wf)

text \<open>The graphs that the operations can build, starting from the empty one.\<close>

inductive graph_reachable :: "graph \<Rightarrow> bool" where
  reach_empty: "graph_reachable empty_graph"
| reach_source: "graph_reachable g \<Longrightarrow> add_source s souts g = Inr (c, g') \<Longrightarrow> graph_reachable g'"
| reach_relay: "graph_reachable g \<Longrightarrow> add_relay s pouts g = Inr (c, g') \<Longrightarrow> graph_reachable g'"
| reach_decoder: "graph_reachable g \<Longrightarrow> add_decoder s pty ety g = Inr (c, g') \<Longrightarrow> graph_reachable g'"
| reach_transform: "graph_reachable g \<Longrightarrow> add_transform s ety souts g = Inr (c, g') \<Longrightarrow> graph_reachable g'"
| reach_encoder: "graph_reachable g \<Longrightarrow> add_encoder s ety pty g = Inr (c, g') \<Longrightarrow> graph_reachable g'"
| reach_forwarder: "graph_reachable g \<Longrightarrow> add_forwarder s pty g = Inr (c, g') \<Longrightarrow> graph_reachable g'"
| reach_destination: "graph_reachable g \<Longrightarrow> add_destination s ety g = Inr (c, g') \<Longrightarrow> graph_reachable g'"
| reach_edge: "graph_reachable g \<Longrightarrow> add_edge from to g = Inr g' \<Longrightarrow> graph_reachable g'"
| reach_remove: "graph_reachable g \<Longrightarrow> graph_reachable (remove_edge oid cid g)"
| reach_prune: "graph_reachable g \<Longrightarrow> graph_reachable (fst (prune_components_without_inputs cs g))"

lemma graph_reachable_wf: "graph_reachable g \<Longrightarrow> wf_graph g"
proof (induction rule: graph_reachable.induct)
  case reach_empty
  then show ?case by (rule wf_empty_graph)
qed (auto intro: adds_node_wf add_source_adds add_relay_adds add_decoder_adds add_transform_adds
    add_encoder_adds add_forwarder_adds add_destination_adds add_edge_wf remove_edge_wf prune_wf)

end
