(* ===== verification/Topology_Prune.thy ===== *)
theory Topology_Prune
  imports Topology_Graph
begin

text \<open>
  What pruning and the outbound-connection table compute. Pruning removes exactly the least set of
  candidates and downstream components all of whose inputs are removed; the table lists, for every
  declared output, the targets of its edges in edge order.
\<close>

section \<open>Pruning removes the doomed components\<close>

definition prunable :: "graph \<Rightarrow> component_id \<Rightarrow> bool" where
  "prunable g c \<longleftrightarrow>
     (case get_component_type g c of
        None \<Rightarrow> False
      | Some ty \<Rightarrow> ty \<noteq> CtSource \<and> ty \<noteq> CtRelay)"

inductive doomed :: "graph \<Rightarrow> component_id set \<Rightarrow> component_id \<Rightarrow> bool"
  for g :: graph and cs :: "component_id set" where
  doomedI:
    "prunable g c \<Longrightarrow> c \<in> cs \<or> (\<exists>e\<in>set (edges g). edge_to e = c) \<Longrightarrow>
     (\<And>e. e \<in> set (edges g) \<Longrightarrow> edge_to e = c \<Longrightarrow> doomed g cs (coid_component_id (edge_from e))) \<Longrightarrow>
     doomed g cs c"

text \<open>The graph that is left once the components of \<open>rs\<close> are gone.\<close>

definition without :: "graph \<Rightarrow> component_id set \<Rightarrow> graph" where
  "without g rs =
     \<lparr>nodes = filter (\<lambda>(c, _). c \<notin> rs) (nodes g),
      edges = filter (\<lambda>e. coid_component_id (edge_from e) \<notin> rs) (edges g)\<rparr>"

lemma without_empty [simp]: "without g {} = g"
  by (simp add: without_def)

lemma drop_component_without: "drop_component c (without g rs) = without g (insert c rs)"
  by (auto simp: drop_component_def without_def hm_remove_def drop_outbound_def
      intro!: filter_cong)

lemma get_component_type_without:
  "get_component_type (without g rs) c = (if c \<in> rs then None else get_component_type g c)"
proof -
  have "map_of (filter (\<lambda>(c, _). c \<notin> rs) ns) c = (if c \<in> rs then None else map_of ns c)"
    for ns :: "(component_id \<times> node) list"
    by (induction ns) auto
  then show ?thesis by (simp add: get_component_type_def without_def)
qed

text \<open>
  The loop invariant, with \<open>g\<close> the graph pruning started from and \<open>rs\<close> the components removed so far:
  a component whose inputs are all gone is removed or still pending.
\<close>

definition considered :: "graph \<Rightarrow> component_id set \<Rightarrow> component_id \<Rightarrow> bool" where
  "considered g cs c \<longleftrightarrow> c \<in> cs \<or> (\<exists>e\<in>set (edges g). edge_to e = c)"

definition cut_off :: "graph \<Rightarrow> component_id set \<Rightarrow> component_id set \<Rightarrow> component_id \<Rightarrow> bool" where
  "cut_off g cs rs c \<longleftrightarrow> prunable g c \<and> c \<notin> rs \<and> considered g cs c \<and>
     (\<forall>e\<in>set (edges g). edge_to e = c \<longrightarrow> coid_component_id (edge_from e) \<in> rs)"

definition prune_inv ::
    "graph \<Rightarrow> component_id set \<Rightarrow> component_id list \<Rightarrow> (component_id \<times> component_type) list \<Rightarrow> bool" where
  "prune_inv g cs pending removed \<longleftrightarrow>
     distinct (map fst removed) \<and>
     (\<forall>(c, ty)\<in>set removed. doomed g cs c \<and> get_component_type g c = Some ty) \<and>
     (\<forall>c\<in>set pending. considered g cs c) \<and>
     (\<forall>c. cut_off g cs (fst ` set removed) c \<longrightarrow> c \<in> set pending)"

lemma prune_inv_skip:
  "prune_inv g cs (c # rest) removed \<Longrightarrow> \<not> cut_off g cs (fst ` set removed) c \<Longrightarrow>
   prune_inv g cs rest removed"
  by (auto simp: prune_inv_def)

lemma prune_inv_remove:
  assumes inv: "prune_inv g cs (c # rest) removed"
    and ty: "get_component_type g c = Some ty" and cut: "cut_off g cs (fst ` set removed) c"
  shows "prune_inv g cs (rev (outbound_targets c (edges (without g (fst ` set removed)))) @ rest)
    (removed @ [(c, ty)])"
proof -
  let ?rs = "fst ` set removed"
  let ?T = "outbound_targets c (edges (without g ?rs))"
  have T: "set ?T = {edge_to e | e. e \<in> set (edges g) \<and> coid_component_id (edge_from e) = c}"
    using cut by (auto simp: outbound_targets_def without_def cut_off_def)
  have rem: "\<forall>x\<in>?rs. doomed g cs x" using inv by (auto simp: prune_inv_def)
  have "doomed g cs c"
    by (rule doomedI) (use cut rem in \<open>unfold cut_off_def considered_def, blast+\<close>)
  moreover have "considered g cs x" if "x \<in> set ?T" for x using that T by (auto simp: considered_def)
  moreover have "x \<in> set ?T \<union> set rest" if x: "cut_off g cs (insert c ?rs) x" for x
  proof (cases "x \<in> set ?T")
    case False
    then have "cut_off g cs ?rs x" using x T by (auto simp: cut_off_def)
    then have "x \<in> set (c # rest)" using inv by (auto simp: prune_inv_def)
    then show ?thesis using x by (simp add: cut_off_def)
  qed simp
  ultimately show ?thesis using inv ty cut by (auto simp: prune_inv_def cut_off_def [of _ _ _ c])
qed

lemma prune_loop_result:
  assumes "prune_inv g cs pending removed" and "h = without g (fst ` set removed)"
  shows "\<exists>out. prune_loop h pending removed = (without g (fst ` set out), out) \<and> prune_inv g cs [] out"
  using assms
proof (induction h pending removed rule: prune_loop.induct)
  case (1 h pending removed)
  let ?rs = "fst ` set removed"
  show ?case
  proof (cases pending)
    case Nil
    with "1.prems" show ?thesis by (subst prune_loop.simps) simp
  next
    case (Cons c rest)
    have ty: "get_component_type h c = (if c \<in> ?rs then None else get_component_type g c)"
      using "1.prems"(2) by (simp add: get_component_type_without)
    have inbound: "(\<exists>e\<in>set (edges h). edge_to e = c) \<longleftrightarrow>
        (\<exists>e\<in>set (edges g). edge_to e = c \<and> coid_component_id (edge_from e) \<notin> ?rs)"
      unfolding "1.prems"(2) by (auto simp: without_def)
    consider (none) "get_component_type h c = None"
      | (source) ct where "get_component_type h c = Some ct" "ct = CtSource \<or> ct = CtRelay"
      | (fed) ct where "get_component_type h c = Some ct" "\<not> (ct = CtSource \<or> ct = CtRelay)"
          "\<exists>e\<in>set (edges h). edge_to e = c"
      | (cut) ct where "get_component_type h c = Some ct" "\<not> (ct = CtSource \<or> ct = CtRelay)"
          "\<not> (\<exists>e\<in>set (edges h). edge_to e = c)"
      by (cases "get_component_type h c") auto
    then show ?thesis
    proof cases
      case none
      then have "prune_inv g cs rest removed"
        using ty "1.prems"(1) unfolding Cons
        by (elim prune_inv_skip) (auto simp: cut_off_def prunable_def split: if_splits)
      from "1.IH"(1) [OF Cons none this "1.prems"(2)] none show ?thesis
        unfolding Cons by (subst prune_loop.simps) simp
    next
      case source
      then have "prune_inv g cs rest removed"
        using ty "1.prems"(1) unfolding Cons
        by (elim prune_inv_skip) (auto simp: cut_off_def prunable_def split: if_splits)
      from "1.IH"(2) [OF Cons source this "1.prems"(2)] source show ?thesis
        unfolding Cons by (subst prune_loop.simps) simp
    next
      case fed
      then have "prune_inv g cs rest removed"
        using inbound "1.prems"(1) unfolding Cons
        by (elim prune_inv_skip) (auto simp: cut_off_def)
      from "1.IH"(3) [OF Cons fed this "1.prems"(2)] fed show ?thesis
        unfolding Cons by (subst prune_loop.simps) simp
    next
      case cut
      have inv: "prune_inv g cs (rev (outbound_targets c (edges h)) @ rest) (removed @ [(c, ct)])"
      proof -
        have "considered g cs c" using "1.prems"(1) Cons by (simp add: prune_inv_def)
        moreover have "c \<notin> ?rs" "get_component_type g c = Some ct" using cut(1) ty by (auto split: if_splits)
        ultimately have "cut_off g cs ?rs c"
          using cut(2,3) inbound by (auto simp: cut_off_def prunable_def)
        with "1.prems"(1) \<open>get_component_type g c = Some ct\<close> show ?thesis
          unfolding "1.prems"(2) Cons by (intro prune_inv_remove)
      qed
      have h: "drop_component c h = without g (fst ` set (removed @ [(c, ct)]))"
        unfolding "1.prems"(2) drop_component_without by simp
      from "1.IH"(4) [OF Cons cut inv h] cut show ?thesis
        unfolding Cons by (subst prune_loop.simps) simp
    qed
  qed
qed

lemma prune_inv_init: "prune_inv g (set cs) (rev cs) []"
  by (auto simp: prune_inv_def considered_def cut_off_def)

lemma prune_inv_final:
  assumes "prune_inv g cs [] removed"
  shows "fst ` set removed = {c. doomed g cs c}"
proof
  show "fst ` set removed \<subseteq> {c. doomed g cs c}" using assms by (auto simp: prune_inv_def)
  have "c \<in> fst ` set removed" if "doomed g cs c" for c
    using that
  proof induction
    case (doomedI c)
    then have "cut_off g cs (fst ` set removed) c \<or> c \<in> fst ` set removed"
      by (auto simp: cut_off_def considered_def)
    with assms show ?case by (auto simp: prune_inv_def)
  qed
  then show "{c. doomed g cs c} \<subseteq> fst ` set removed" by blast
qed

lemma prune_result:
  "\<exists>out. prune_components_without_inputs cs g = (without g {c. doomed g (set cs) c}, out) \<and>
     fst ` set out = {c. doomed g (set cs) c} \<and> distinct (map fst out) \<and>
     (\<forall>(c, ty)\<in>set out. get_component_type g c = Some ty)"
proof -
  from prune_loop_result [OF prune_inv_init, of g g cs]
  obtain out where out: "prune_loop g (rev cs) [] = (without g (fst ` set out), out)"
      "prune_inv g (set cs) [] out"
    by auto
  have "distinct (map fst out)" "\<forall>(c, ty)\<in>set out. get_component_type g c = Some ty"
    using out(2) by (auto simp: prune_inv_def)
  with out prune_inv_final [OF out(2)] show ?thesis
    by (auto simp: prune_components_without_inputs_def)
qed

section \<open>The outbound table\<close>

definition outbound_at :: "outbound_map \<Rightarrow> typed_component_id \<Rightarrow> output_name \<Rightarrow> typed_component_id list option" where
  "outbound_at m tid out = (case map_of m tid of None \<Rightarrow> None | Some per_component \<Rightarrow> map_of per_component out)"

definition output_names :: "node \<Rightarrow> output_name set" where
  "output_names n = (case declared_outputs n of None \<Rightarrow> {} | Some names \<Rightarrow> set names)"

text \<open>The targets of the edges that leave \<open>c\<close> through \<open>out\<close>, in the order the edges were added.\<close>

definition edge_targets :: "graph \<Rightarrow> component_id \<Rightarrow> output_name \<Rightarrow> edge list \<Rightarrow> typed_component_id list" where
  "edge_targets g c out es =
     map (\<lambda>e. the (typed_id g (edge_to e)))
       (filter (\<lambda>e. coid_component_id (edge_from e) = c \<and> coid_output (edge_from e) = out) es)"

lemma outbound_at_insert:
  "outbound_at (hm_insert tid m mappings) tid' out =
     (if tid' = tid then map_of m out else outbound_at mappings tid' out)"
  by (simp add: outbound_at_def)

lemma map_of_or_default: "map_of (hm_or_default mappings tid) out = outbound_at mappings tid out"
  by (simp add: outbound_at_def hm_or_default_def split: option.splits)

lemma map_of_declare:
  "map_of (fold (\<lambda>nm m. hm_insert nm [] m) names m) out = (if out \<in> set names then Some [] else map_of m out)"
  by (induction names arbitrary: m) auto

lemma outbound_at_populate:
  "outbound_at (populate_outputs g ns mappings) \<lparr>tci_id = c, tci_ty = ty\<rparr> out =
     (if \<exists>n. (c, n) \<in> set ns \<and> node_component_type n = ty \<and> out \<in> output_names n then Some []
      else outbound_at mappings \<lparr>tci_id = c, tci_ty = ty\<rparr> out)"
proof (induction ns arbitrary: mappings)
  case (Cons p ns)
  obtain c' n' where p: "p = (c', n')" by (cases p)
  show ?case
  proof (cases "declared_outputs n'")
    case None
    then show ?thesis by (auto simp: p Let_def Cons output_names_def)
  next
    case (Some names)
    then have "output_names n' = set names" by (simp add: output_names_def)
    with Some show ?thesis
      by (auto simp: p Let_def Cons outbound_at_insert map_of_declare map_of_or_default)
  qed
qed simp

lemma typed_id_node: "map_of (nodes g) c = Some n \<Longrightarrow> typed_id g c = Some \<lparr>tci_id = c, tci_ty = node_component_type n\<rparr>"
  by (simp add: typed_id_def get_component_type_def)

lemma attach_edges_result:
  assumes "\<forall>e\<in>set es. edge_ok (nodes g) e"
  shows "\<exists>m. attach_edges g es mappings = Some m \<and>
    (\<forall>c n out. map_of (nodes g) c = Some n \<longrightarrow>
       outbound_at m \<lparr>tci_id = c, tci_ty = node_component_type n\<rparr> out =
         (case outbound_at mappings \<lparr>tci_id = c, tci_ty = node_component_type n\<rparr> out of
            None \<Rightarrow> if edge_targets g c out es = [] then None else Some (edge_targets g c out es)
          | Some ts \<Rightarrow> Some (ts @ edge_targets g c out es)))"
  using assms
proof (induction es arbitrary: mappings)
  case Nil
  show ?case by (simp add: edge_targets_def split: option.splits)
next
  case (Cons e es)
  let ?c = "coid_component_id (edge_from e)" and ?out = "coid_output (edge_from e)"
  from Cons.prems obtain nf nt where nf: "map_of (nodes g) ?c = Some nf"
      and nt: "map_of (nodes g) (edge_to e) = Some nt"
    by (auto simp: edge_ok_def)
  let ?from = "\<lparr>tci_id = ?c, tci_ty = node_component_type nf\<rparr>"
  let ?to = "\<lparr>tci_id = edge_to e, tci_ty = node_component_type nt\<rparr>"
  let ?pc = "hm_or_default mappings ?from"
  let ?mp = "hm_insert ?from (hm_insert ?out (hm_or_default ?pc ?out @ [?to]) ?pc) mappings"
  have step: "attach_edges g (e # es) mappings = attach_edges g es ?mp"
    by (simp add: typed_id_node [OF nf] typed_id_node [OF nt] Let_def)
  have tgt: "edge_targets g c out (e # es) =
      (if c = ?c \<and> out = ?out then ?to # edge_targets g c out es else edge_targets g c out es)" for c out
    using typed_id_node [OF nt] by (auto simp: edge_targets_def)
  have at: "outbound_at ?mp \<lparr>tci_id = c, tci_ty = node_component_type n\<rparr> out =
      (if c = ?c \<and> out = ?out
       then Some ((case outbound_at mappings ?from ?out of None \<Rightarrow> [] | Some ts \<Rightarrow> ts) @ [?to])
       else outbound_at mappings \<lparr>tci_id = c, tci_ty = node_component_type n\<rparr> out)"
    if "map_of (nodes g) c = Some n" for c n out
    using that nf
    by (auto simp: outbound_at_insert map_of_or_default hm_or_default_def [of ?pc])
  from Cons.IH [of ?mp] Cons.prems obtain m where m: "attach_edges g es ?mp = Some m"
    "\<And>c n out. map_of (nodes g) c = Some n \<Longrightarrow>
       outbound_at m \<lparr>tci_id = c, tci_ty = node_component_type n\<rparr> out =
         (case outbound_at ?mp \<lparr>tci_id = c, tci_ty = node_component_type n\<rparr> out of
            None \<Rightarrow> if edge_targets g c out es = [] then None else Some (edge_targets g c out es)
          | Some ts \<Rightarrow> Some (ts @ edge_targets g c out es))"
    by auto
  show ?case
  proof (intro exI [of _ m] conjI allI impI)
    show "attach_edges g (e # es) mappings = Some m" using step m(1) by simp
    fix c n out
    assume c: "map_of (nodes g) c = Some n"
    show "outbound_at m \<lparr>tci_id = c, tci_ty = node_component_type n\<rparr> out =
        (case outbound_at mappings \<lparr>tci_id = c, tci_ty = node_component_type n\<rparr> out of
           None \<Rightarrow> if edge_targets g c out (e # es) = [] then None else Some (edge_targets g c out (e # es))
         | Some ts \<Rightarrow> Some (ts @ edge_targets g c out (e # es)))"
      unfolding m(2) [OF c] at [OF c] tgt using c nf by (auto split: option.splits)
  qed
qed

lemma default_output: "coid_is_default oid \<Longrightarrow> coid_output oid = OutputDefault"
  by (simp add: coid_is_default_def coid_output_def)

lemma offered_is_declared: "node_offers n oid \<Longrightarrow> coid_output oid \<in> output_names n"
  by (cases n) (auto simp: node_offers_def output_names_def declared_outputs_def default_output)

lemma outbound_table:
  assumes wf: "wf_graph g"
  shows "\<exists>m. get_outbound_directed_edges g = Some m \<and>
    (\<forall>c n out. map_of (nodes g) c = Some n \<longrightarrow>
       outbound_at m \<lparr>tci_id = c, tci_ty = node_component_type n\<rparr> out =
         (if out \<in> output_names n then Some (edge_targets g c out (edges g)) else None))"
proof -
  let ?m0 = "populate_outputs g (nodes g) []"
  from wf have ok: "\<forall>e\<in>set (edges g). edge_ok (nodes g) e" and dist: "hm_ok (nodes g)"
    by (auto simp: wf_graph_def)
  have uniq: "(c, n') \<in> set (nodes g) \<longleftrightarrow> n' = n" if "map_of (nodes g) c = Some n" for c n n'
    using that dist by (auto simp: hm_ok_def dest: map_of_SomeD eq_key_imp_eq_value)
  have m0: "outbound_at ?m0 \<lparr>tci_id = c, tci_ty = node_component_type n\<rparr> out =
      (if out \<in> output_names n then Some [] else None)" if "map_of (nodes g) c = Some n" for c n out
    unfolding outbound_at_populate uniq [OF that] by (simp add: outbound_at_def)
  have undeclared: "edge_targets g c out (edges g) = []"
    if c: "map_of (nodes g) c = Some n" and out: "out \<notin> output_names n" for c n out
  proof -
    have "\<not> (coid_component_id (edge_from e) = c \<and> coid_output (edge_from e) = out)"
      if "e \<in> set (edges g)" for e
      using ok c out that offered_is_declared [of n "edge_from e"] by (auto simp: edge_ok_def)
    then show ?thesis by (simp add: edge_targets_def filter_empty_conv)
  qed
  from attach_edges_result [OF ok, of ?m0] obtain m where m: "attach_edges g (edges g) ?m0 = Some m"
    "\<And>c n out. map_of (nodes g) c = Some n \<Longrightarrow>
       outbound_at m \<lparr>tci_id = c, tci_ty = node_component_type n\<rparr> out =
         (case outbound_at ?m0 \<lparr>tci_id = c, tci_ty = node_component_type n\<rparr> out of
            None \<Rightarrow> if edge_targets g c out (edges g) = [] then None else Some (edge_targets g c out (edges g))
          | Some ts \<Rightarrow> Some (ts @ edge_targets g c out (edges g)))"
    by auto
  show ?thesis
    by (intro exI [of _ m] conjI allI impI)
      (simp_all add: get_outbound_directed_edges_def m m0 undeclared)
qed

end
