(* ===== verification/Topology_Cycles.thy ===== *)
theory Topology_Cycles
  imports Topology_Graph
begin

text \<open>
  Correctness of validation. The iterative depth-first search of \<^verbatim>\<open>check_for_cycles\<close> always returns; it
  reports a cycle exactly when one lies upstream of a destination, and the path it reports follows
  the edges. The data-type check and the search for disconnected components are characterised too.
\<close>

section \<open>The upstream relation\<close>

definition upstream :: "graph \<Rightarrow> (component_id \<times> component_id) set" where
  "upstream g = {(n, i). i \<in> set (inputs_of g n)}"

lemma upstream_iff:
  "(n, i) \<in> upstream g \<longleftrightarrow> (\<exists>e\<in>set (edges g). edge_to e = n \<and> coid_component_id (edge_from e) = i)"
  by (auto simp: upstream_def inputs_of_def)

text \<open>No component upstream of \<open>d\<close>, or \<open>d\<close> itself, feeds itself.\<close>

definition acyclic_from :: "graph \<Rightarrow> component_id \<Rightarrow> bool" where
  "acyclic_from g d \<longleftrightarrow> (\<forall>x. (d, x) \<in> (upstream g)\<^sup>* \<longrightarrow> (x, x) \<notin> (upstream g)\<^sup>+)"

text \<open>
  A reported path: each component feeds the next one, and the first one lies upstream of \<open>d\<close> on a cycle.
\<close>

definition cycle_path :: "graph \<Rightarrow> component_id \<Rightarrow> component_id list \<Rightarrow> bool" where
  "cycle_path g d path \<longleftrightarrow>
     path \<noteq> [] \<and> (d, hd path) \<in> (upstream g)\<^sup>* \<and> (hd path, hd path) \<in> (upstream g)\<^sup>+ \<and>
     (\<forall>k. Suc k < length path \<longrightarrow> (path ! Suc k, path ! k) \<in> upstream g)"

section \<open>Scanning the inputs\<close>

lemma scan_inputs_Inr:
  "scan_inputs visited stack t is = Inr t' \<longleftrightarrow>
     (\<forall>i\<in>set is. i \<in> set visited \<longrightarrow> i \<notin> set stack) \<and> t' = rev (filter (\<lambda>i. i \<notin> set visited) is) @ t"
  by (induction "is" arbitrary: t) auto

lemma scan_inputs_Inl:
  "scan_inputs visited stack t is = Inl e \<Longrightarrow>
     \<exists>i\<in>set is. i \<in> set visited \<and> i \<in> set stack \<and> e = Cycle (i # rev (drop 1 stack))"
  by (induction "is" arbitrary: t) (auto split: if_splits)

section \<open>The search invariant\<close>

text \<open>
  The search stack is kept here with its newest element first. \<open>layout g d ss t\<close>: the traversal deque
  is made of the stack's elements in order, each preceded by inputs of it that wait to be visited.
\<close>

definition child :: "graph \<Rightarrow> component_id \<Rightarrow> component_id list \<Rightarrow> component_id \<Rightarrow> bool" where
  "child g d ss x \<longleftrightarrow> x \<notin> set ss \<and> (case ss of [] \<Rightarrow> x = d | s # _ \<Rightarrow> x \<in> set (inputs_of g s))"

fun layout :: "graph \<Rightarrow> component_id \<Rightarrow> component_id list \<Rightarrow> component_id list \<Rightarrow> bool" where
  "layout g d ss [] = (ss = [])"
| "layout g d ss (x # t) =
     ((child g d ss x \<and> layout g d ss t) \<or> (\<exists>ss'. ss = x # ss' \<and> child g d ss' x \<and> layout g d ss' t))"

fun gray_ok :: "graph \<Rightarrow> component_id list \<Rightarrow> bool" where
  "gray_ok g [] = True"
| "gray_ok g (s # ss) = (set (inputs_of g s) \<inter> insert s (set ss) = {} \<and> gray_ok g ss)"

definition pushed_ok :: "graph \<Rightarrow> component_id list \<Rightarrow> component_id list \<Rightarrow> bool" where
  "pushed_ok g t visited \<longleftrightarrow>
     (\<forall>pre n post. t = pre @ n # post \<longrightarrow> n \<in> set visited \<longrightarrow> set (inputs_of g n) - set visited \<subseteq> set pre)"

definition dfs_inv ::
    "graph \<Rightarrow> component_id \<Rightarrow> component_id list \<Rightarrow> component_id list \<Rightarrow> component_id list \<Rightarrow> bool" where
  "dfs_inv g d t visited ss \<longleftrightarrow>
     layout g d ss t \<and> set ss \<subseteq> set visited \<and> gray_ok g ss \<and> pushed_ok g t visited \<and>
     d \<in> set t \<union> set visited \<and>
     (\<forall>b\<in>set visited - set ss.
        set (inputs_of g b) \<subseteq> set visited - set ss \<and> (b, b) \<notin> (upstream g)\<^sup>+)"

lemma layout_push: "layout g d ss t \<Longrightarrow> \<forall>x\<in>set xs. child g d ss x \<Longrightarrow> layout g d ss (xs @ t)"
  by (induction xs) auto

lemma layout_chain:
  "layout g d ss t \<Longrightarrow> ss = pre @ x # post \<Longrightarrow> child g d post x"
proof (induction t arbitrary: ss pre)
  case (Cons y t)
  from Cons.prems(1) consider "layout g d ss t" | ss' where "ss = y # ss'" "child g d ss' y" "layout g d ss' t"
    by auto
  then show ?case
  proof cases
    case 1
    then show ?thesis using Cons by blast
  next
    case 2
    then show ?thesis using Cons.IH [OF 2(3)] Cons.prems(2) by (cases pre) auto
  qed
qed simp

lemma layout_upstream:
  assumes "layout g d ss t" and "x \<in> set ss"
  shows "(d, x) \<in> (upstream g)\<^sup>* \<and> (x, hd ss) \<in> (upstream g)\<^sup>*"
proof -
  have ch: "\<And>pre y post. ss = pre @ y # post \<Longrightarrow> child g d post y" using layout_chain [OF assms(1)] by blast
  then have "\<forall>x\<in>set ss. (d, x) \<in> (upstream g)\<^sup>* \<and> (x, hd ss) \<in> (upstream g)\<^sup>*"
  proof (induction ss)
    case (Cons s ss)
    have ih: "\<forall>x\<in>set ss. (d, x) \<in> (upstream g)\<^sup>* \<and> (x, hd ss) \<in> (upstream g)\<^sup>*"
      using Cons by (metis append_Cons)
    have "child g d ss s" using Cons.prems [of "[]"] by simp
    then have s: "(ss = [] \<and> s = d) \<or> (ss \<noteq> [] \<and> (hd ss, s) \<in> upstream g)"
      by (cases ss) (auto simp: child_def upstream_def)
    with ih show ?case by (auto intro: rtrancl_into_rtrancl)
  qed simp
  with assms(2) show ?thesis by blast
qed

lemma layout_bounded: "layout g d ss t \<Longrightarrow> set t \<subseteq> insert d ((\<lambda>e. coid_component_id (edge_from e)) ` set (edges g))"
proof (induction t arbitrary: ss)
  case (Cons x t)
  have "y \<in> insert d ((\<lambda>e. coid_component_id (edge_from e)) ` set (edges g))" if "child g d ss y" for ss y
    using that by (cases ss) (auto simp: child_def inputs_of_def)
  with Cons show ?case by auto
qed simp

lemma layout_pop:
  assumes "layout g d ss (n # t)"
  shows "if n \<in> set ss then \<exists>ss'. ss = n # ss' \<and> n \<notin> set ss' \<and> layout g d ss' t else layout g d ss t"
  using assms by (auto simp: child_def)

section \<open>One step keeps the invariant\<close>

lemma append_suffix_split:
  "xs @ ys = pre @ m # post \<Longrightarrow> m \<notin> set xs \<Longrightarrow> \<exists>pre'. pre = xs @ pre' \<and> ys = pre' @ m # post"
proof (induction xs arbitrary: pre)
  case (Cons x xs)
  then show ?case by (cases pre) auto
qed simp

lemma rev_drop1_rev: "rev (drop 1 (rev xs)) = butlast xs"
  by (cases xs rule: rev_cases) auto

lemma visit_step:
  assumes inv: "dfs_inv g d (n # t) visited ss" and new: "n \<notin> set visited"
    and ok: "\<forall>i\<in>set (inputs_of g n). i \<in> set (n # visited) \<longrightarrow> i \<notin> set (n # ss)"
  shows "dfs_inv g d (rev (filter (\<lambda>i. i \<notin> set (n # visited)) (inputs_of g n)) @ n # t) (n # visited) (n # ss)"
proof -
  let ?new = "rev (filter (\<lambda>i. i \<notin> set (n # visited)) (inputs_of g n))"
  have sub: "set ss \<subseteq> set visited" and pushed: "pushed_ok g (n # t) visited"
    using inv by (auto simp: dfs_inv_def)
  then have "n \<notin> set ss" using new by blast
  then have "layout g d (n # ss) (n # t)" using inv by (auto simp: dfs_inv_def)
  moreover have "\<forall>x\<in>set ?new. child g d (n # ss) x" using sub by (auto simp: child_def)
  ultimately have lay: "layout g d (n # ss) (?new @ n # t)" by (intro layout_push)
  have gray: "gray_ok g (n # ss)" using inv ok sub by (auto simp: dfs_inv_def)
  have "pushed_ok g (?new @ n # t) (n # visited)"
    unfolding pushed_ok_def
  proof (intro allI impI subsetI)
    fix pre m post i
    assume eq: "?new @ n # t = pre @ m # post" and m: "m \<in> set (n # visited)"
      and i: "i \<in> set (inputs_of g m) - set (n # visited)"
    have "m \<notin> set ?new" using m by auto
    then obtain pre' where pre: "pre = ?new @ pre'" "n # t = pre' @ m # post"
      using append_suffix_split [OF eq] by blast
    show "i \<in> set pre"
    proof (cases "m = n")
      case True
      then show ?thesis using i pre by auto
    next
      case False
      then have "i \<in> set pre'" using pushed pre(2) m i unfolding pushed_ok_def by fastforce
      then show ?thesis using pre by simp
    qed
  qed
  moreover have "set (n # visited) - set (n # ss) = set visited - set ss" using new sub by auto
  ultimately show ?thesis using inv lay gray unfolding dfs_inv_def by auto
qed

lemma pushed_okD:
  "pushed_ok g (pre @ n # post) visited \<Longrightarrow> n \<in> set visited \<Longrightarrow> set (inputs_of g n) - set visited \<subseteq> set pre"
  unfolding pushed_ok_def by blast

lemma visited_inputs_done:
  assumes inv: "dfs_inv g d (n # t) visited ss" and seen: "n \<in> set visited"
  shows "set (inputs_of g n) \<subseteq> set visited - set ss"
proof -
  have "set (inputs_of g n) - set visited \<subseteq> set []"
    using pushed_okD [of g "[]" n t visited] inv seen by (simp add: dfs_inv_def)
  moreover have "set (inputs_of g n) \<inter> set ss = {}"
  proof (cases "n \<in> set ss")
    case True
    then obtain ss' where "ss = n # ss'" using inv layout_pop [of g d ss n t] by (auto simp: dfs_inv_def)
    then show ?thesis using inv by (simp add: dfs_inv_def)
  next
    case False
    then show ?thesis using inv seen by (auto simp: dfs_inv_def)
  qed
  ultimately show ?thesis by auto
qed

lemma closed_trancl:
  assumes "(a, b) \<in> R\<^sup>+" and "a \<in> A" and "\<And>x y. x \<in> A \<Longrightarrow> (x, y) \<in> R \<Longrightarrow> y \<in> B" and "B \<subseteq> A"
  shows "b \<in> B"
  using assms(1,2) by (induction rule: trancl_induct) (use assms(3,4) in auto)

lemma pop_step:
  assumes inv: "dfs_inv g d (n # t) visited ss" and seen: "n \<in> set visited"
  shows "dfs_inv g d t visited (if n \<in> set ss then tl ss else ss)"
proof -
  have inputs: "set (inputs_of g n) \<subseteq> set visited - set ss" by (rule visited_inputs_done [OF assms])
  have pushed: "pushed_ok g t visited"
    unfolding pushed_ok_def
  proof (intro allI impI)
    fix pre m post
    assume "t = pre @ m # post" "m \<in> set visited"
    then have "set (inputs_of g m) - set visited \<subseteq> set (n # pre)"
      using pushed_okD [of g "n # pre" m post visited] inv by (simp add: dfs_inv_def)
    then show "set (inputs_of g m) - set visited \<subseteq> set pre" using seen by auto
  qed
  have d: "d \<in> set t \<union> set visited" using inv seen by (auto simp: dfs_inv_def)
  show ?thesis
  proof (cases "n \<in> set ss")
    case False
    then have "layout g d ss t" using inv layout_pop [of g d ss n t] by (auto simp: dfs_inv_def)
    then show ?thesis using False inv pushed d by (simp add: dfs_inv_def)
  next
    case True
    then obtain ss' where ss: "ss = n # ss'" "n \<notin> set ss'" "layout g d ss' t"
      using inv layout_pop [of g d ss n t] by (auto simp: dfs_inv_def)
    let ?B = "set visited - set ss"
    have black: "set visited - set ss' = insert n ?B" using ss(1,2) seen by auto
    have closed: "\<And>x y. x \<in> insert n ?B \<Longrightarrow> (x, y) \<in> upstream g \<Longrightarrow> y \<in> ?B"
      using inv inputs by (auto simp: dfs_inv_def upstream_def)
    have "(n, n) \<notin> (upstream g)\<^sup>+"
    proof
      assume "(n, n) \<in> (upstream g)\<^sup>+"
      then have "n \<in> ?B" by (rule closed_trancl [where A = "insert n ?B"]) (use closed in blast)+
      with ss(1) show False by simp
    qed
    then have "\<forall>b\<in>insert n ?B. set (inputs_of g b) \<subseteq> insert n ?B \<and> (b, b) \<notin> (upstream g)\<^sup>+"
      using inv inputs unfolding dfs_inv_def by blast
    moreover have "set ss' \<subseteq> set visited" "gray_ok g ss'" using inv ss(1) by (auto simp: dfs_inv_def)
    ultimately show ?thesis
      unfolding dfs_inv_def using True ss(1,3) pushed d black by simp
  qed
qed

section \<open>The search returns the right answer\<close>

definition dfs_answer :: "graph \<Rightarrow> component_id \<Rightarrow> graph_error + unit \<Rightarrow> bool" where
  "dfs_answer g d r \<longleftrightarrow>
     (case r of Inr _ \<Rightarrow> acyclic_from g d | Inl e \<Rightarrow> \<exists>path. e = Cycle path \<and> cycle_path g d path)"

lemma dfs_done:
  assumes "dfs_inv g d [] visited ss"
  shows "acyclic_from g d"
  unfolding acyclic_from_def
proof (intro allI impI)
  fix x
  assume "(d, x) \<in> (upstream g)\<^sup>*"
  then have "x \<in> set visited"
    by (induction rule: rtrancl_induct) (use assms in \<open>auto simp: dfs_inv_def upstream_def\<close>)
  with assms show "(x, x) \<notin> (upstream g)\<^sup>+" by (auto simp: dfs_inv_def)
qed

lemma visit_cycle:
  assumes inv: "dfs_inv g d (n # t) visited ss" and new: "n \<notin> set visited"
    and i: "i \<in> set (inputs_of g n)" "i \<in> set (n # ss)"
  shows "cycle_path g d (i # rev (drop 1 (rev (n # ss))))"
proof -
  have "n \<notin> set ss" using inv new by (auto simp: dfs_inv_def)
  then have lay: "layout g d (n # ss) (n # t)" using inv by (auto simp: dfs_inv_def)
  have ni: "(n, i) \<in> upstream g" using i(1) by (simp add: upstream_def)
  have up: "(d, i) \<in> (upstream g)\<^sup>*" "(i, n) \<in> (upstream g)\<^sup>*"
    using layout_upstream [OF lay i(2)] by auto
  let ?p = "i # butlast (n # ss)"
  have path: "i # rev (drop 1 (rev (n # ss))) = ?p"
    by (simp only: rev_drop1_rev)
  have "(?p ! Suc k, ?p ! k) \<in> upstream g" if k: "Suc k < length ?p" for k
  proof (cases k)
    case 0
    then show ?thesis using ni k by (auto simp: nth_butlast)
  next
    case (Suc j)
    then have j: "Suc j < length (n # ss) - 1" using k by (simp only: length_Cons length_butlast)
    let ?l = "n # ss"
    have spl: "?l = take j ?l @ ?l ! j # drop (Suc j) ?l" using j by (intro id_take_nth_drop) simp
    have "child g d (drop (Suc j) ?l) (?l ! j)" by (rule layout_chain [OF lay spl])
    moreover have "drop (Suc j) ?l = ?l ! Suc j # drop (Suc (Suc j)) ?l"
      using j by (intro Cons_nth_drop_Suc [symmetric]) simp
    ultimately have "(?l ! Suc j, ?l ! j) \<in> upstream g" by (simp add: child_def upstream_def)
    moreover have "butlast ?l ! Suc j = ?l ! Suc j" "butlast ?l ! j = ?l ! j"
      using j by (simp_all only: nth_butlast length_butlast)
    ultimately show ?thesis unfolding Suc by (simp only: nth_Cons_Suc)
  qed
  with up ni show ?thesis unfolding path cycle_path_def by auto
qed

lemma cycle_loop_visit:
  assumes inv: "dfs_inv g d (n # t) visited ss" and new: "n \<notin> set visited"
  shows "(\<exists>e. cycle_loop g (n # t) visited (rev ss) = Some (Inl e) \<and> dfs_answer g d (Inl e)) \<or>
    (\<exists>t'. dfs_inv g d t' (n # visited) (n # ss) \<and>
       cycle_loop g (n # t) visited (rev ss) = cycle_loop g t' (n # visited) (rev (n # ss)))"
proof -
  have "n \<notin> set ss" using inv new by (auto simp: dfs_inv_def)
  then have stack: "index_set_insert n (rev ss) = rev (n # ss)" by (simp add: index_set_insert_def)
  show ?thesis
  proof (cases "scan_inputs (n # visited) (rev (n # ss)) (n # t) (inputs_of g n)")
    case (Inl e)
    from scan_inputs_Inl [OF this] obtain i where
      i: "i \<in> set (inputs_of g n)" "i \<in> set (n # ss)" "e = Cycle (i # rev (drop 1 (rev (n # ss))))"
      by auto
    have "cycle_path g d (i # rev (drop 1 (rev (n # ss))))" by (rule visit_cycle [OF inv new i(1,2)])
    then have "dfs_answer g d (Inl e)" using i(3) by (auto simp: dfs_answer_def)
    moreover have "cycle_loop g (n # t) visited (rev ss) = Some (Inl e)"
      using Inl new stack by (subst cycle_loop.simps) simp
    ultimately show ?thesis by blast
  next
    case (Inr t')
    then have t': "\<forall>i\<in>set (inputs_of g n). i \<in> set (n # visited) \<longrightarrow> i \<notin> set (n # ss)"
        "t' = rev (filter (\<lambda>i. i \<notin> set (n # visited)) (inputs_of g n)) @ n # t"
      by (auto simp: scan_inputs_Inr)
    have "dfs_inv g d t' (n # visited) (n # ss)" unfolding t'(2) by (rule visit_step [OF inv new t'(1)])
    moreover have "cycle_loop g (n # t) visited (rev ss) = cycle_loop g t' (n # visited) (rev (n # ss))"
      using Inr new stack by (subst cycle_loop.simps) simp
    ultimately show ?thesis by blast
  qed
qed

lemma cycle_loop_pop:
  assumes inv: "dfs_inv g d (n # t) visited ss" and seen: "n \<in> set visited"
  shows "cycle_loop g (n # t) visited (rev ss) =
    cycle_loop g t visited (rev (if n \<in> set ss then tl ss else ss))"
proof -
  let ?ss = "if n \<in> set ss then tl ss else ss"
  have stack: "remove1 n (rev ss) = rev ?ss"
  proof (cases "n \<in> set ss")
    case True
    then obtain ss' where "ss = n # ss'" "n \<notin> set ss'"
      using inv layout_pop [of g d ss n t] by (auto simp: dfs_inv_def)
    then show ?thesis by (simp add: remove1_append)
  qed (simp add: remove1_idem)
  have old: "set (inputs_of g n) \<subseteq> set visited - set ss" by (rule visited_inputs_done [OF assms])
  have "set ?ss \<subseteq> set ss" by (cases ss) auto
  with old have "scan_inputs visited (rev ?ss) t (inputs_of g n) =
      Inr (rev (filter (\<lambda>i. i \<notin> set visited) (inputs_of g n)) @ t)"
    unfolding scan_inputs_Inr by auto
  also have "filter (\<lambda>i. i \<notin> set visited) (inputs_of g n) = []" using old by (auto simp: filter_empty_conv)
  finally have "scan_inputs visited (remove1 n (rev ss)) t (inputs_of g n) = Inr t" unfolding stack by simp
  with seen stack show ?thesis by (subst cycle_loop.simps) simp
qed

lemma visit_decreases:
  assumes "dfs_inv g d (n # t) visited ss" and "n \<notin> set visited"
    and "U = insert d ((\<lambda>e. coid_component_id (edge_from e)) ` set (edges g))"
  shows "card (U - set (n # visited)) < card (U - set visited)"
proof (rule psubset_card_mono)
  have "n \<in> U" using layout_bounded [of g d ss "n # t"] assms(1,3) by (auto simp: dfs_inv_def)
  with assms(2) show "U - set (n # visited) \<subset> U - set visited" by auto
qed (simp add: assms(3))

lemma cycle_loop_answer:
  assumes "dfs_inv g d t visited ss"
  shows "\<exists>r. cycle_loop g t visited (rev ss) = Some r \<and> dfs_answer g d r"
proof -
  define U where "U = insert d ((\<lambda>e. coid_component_id (edge_from e)) ` set (edges g))"
  show ?thesis using assms
  proof (induction "card (U - set visited)" arbitrary: t visited ss rule: less_induct)
    case outer: less
    show ?case using outer.prems
    proof (induction t arbitrary: ss)
      case Nil
      then show ?case using dfs_done by (subst cycle_loop.simps) (auto simp: dfs_answer_def)
    next
      case (Cons n t)
      show ?case
      proof (cases "n \<in> set visited")
        case True
        then show ?thesis using Cons.IH [OF pop_step [OF Cons.prems True]] cycle_loop_pop [OF Cons.prems True] by simp
      next
        case False
        from cycle_loop_visit [OF Cons.prems False] show ?thesis
        proof (elim disjE exE conjE)
          fix t'
          assume "dfs_inv g d t' (n # visited) (n # ss)"
            and step: "cycle_loop g (n # t) visited (rev ss) = cycle_loop g t' (n # visited) (rev (n # ss))"
          then show ?thesis unfolding step
            by (intro outer.hyps visit_decreases [OF Cons.prems False U_def])
        qed auto
      qed
    qed
  qed
qed

lemma search_from_answer: "\<exists>r. cycle_loop g [d] [] [] = Some r \<and> dfs_answer g d r"
proof -
  have "dfs_inv g d [d] [] []" by (simp add: dfs_inv_def child_def pushed_ok_def)
  from cycle_loop_answer [OF this] show ?thesis by simp
qed

lemma cycle_path_not_acyclic: "cycle_path g d path \<Longrightarrow> \<not> acyclic_from g d"
  by (auto simp: cycle_path_def acyclic_from_def)

section \<open>The three checks\<close>

lemma check_cycles_from_answer:
  "\<exists>r. check_cycles_from g ds = Some r \<and>
     (case r of Inr _ \<Rightarrow> \<forall>d\<in>set ds. acyclic_from g d
      | Inl e \<Rightarrow> \<exists>d\<in>set ds. \<exists>path. e = Cycle path \<and> cycle_path g d path)"
proof (induction ds)
  case (Cons d ds)
  obtain r where r: "cycle_loop g [d] [] [] = Some r" "dfs_answer g d r" using search_from_answer by blast
  obtain r' where r': "check_cycles_from g ds = Some r'"
      "case r' of Inr _ \<Rightarrow> \<forall>d\<in>set ds. acyclic_from g d
       | Inl e \<Rightarrow> \<exists>d\<in>set ds. \<exists>path. e = Cycle path \<and> cycle_path g d path"
    using Cons.IH by blast
  show ?case
  proof (cases r)
    case (Inl e)
    then show ?thesis using r by (auto simp: dfs_answer_def)
  next
    case (Inr u)
    then show ?thesis using r r' by (cases r') (auto simp: dfs_answer_def)
  qed
qed simp

lemma is_destination_iff: "(case n of NDestination _ \<Rightarrow> True | _ \<Rightarrow> False) \<longleftrightarrow> (\<exists>ty. n = NDestination ty)"
  by (cases n) auto

lemma set_destinations_of:
  "hm_ok (nodes g) \<Longrightarrow> d \<in> set (destinations_of g) \<longleftrightarrow> (\<exists>ty. map_of (nodes g) d = Some (NDestination ty))"
  unfolding destinations_of_def is_destination_iff by (auto simp: image_iff hm_lookup)

lemma check_for_cycles_answer:
  obtains (ok) "check_for_cycles g = Some (Inr ())" "\<forall>d\<in>set (destinations_of g). acyclic_from g d"
  | (cycle) d path where "check_for_cycles g = Some (Inl (Cycle path))" "d \<in> set (destinations_of g)"
      "cycle_path g d path"
proof -
  obtain r where r: "check_for_cycles g = Some r"
      "case r of Inr _ \<Rightarrow> \<forall>d\<in>set (destinations_of g). acyclic_from g d
       | Inl e \<Rightarrow> \<exists>d\<in>set (destinations_of g). \<exists>path. e = Cycle path \<and> cycle_path g d path"
    using check_cycles_from_answer [of g "destinations_of g"] unfolding check_for_cycles_def by blast
  then show thesis using ok cycle by (cases r) auto
qed

lemma check_for_cycles_iff:
  "check_for_cycles g = Some (Inr ()) \<longleftrightarrow> (\<forall>d\<in>set (destinations_of g). acyclic_from g d)"
  by (cases g rule: check_for_cycles_answer) (use cycle_path_not_acyclic in auto)

lemma check_edge_types_ok_iff:
  "check_edge_types g es = Some (Inr ()) \<longleftrightarrow>
     (\<forall>e\<in>set es. \<exists>a b. get_output_type g (edge_from e) = Some a \<and> get_input_type g (edge_to e) = Some b \<and>
        dt_intersects a b)"
  by (induction es) (auto split: bind_splits)

lemma check_edge_types_err:
  "check_edge_types g es = Some (Inl err) \<Longrightarrow>
     \<exists>e\<in>set es. \<exists>a b. get_output_type g (edge_from e) = Some a \<and> get_input_type g (edge_to e) = Some b \<and>
        \<not> dt_intersects a b \<and> err = DataTypeMismatch (edge_from e) a (edge_to e) b"
  by (induction es) (auto split: bind_splits if_splits)

lemma wf_output_type:
  assumes "wf_graph g" and "e \<in> set (edges g)"
  shows "get_output_type g (edge_from e) \<noteq> None"
proof -
  from assms obtain n where n: "map_of (nodes g) (coid_component_id (edge_from e)) = Some n"
      "node_offers n (edge_from e)"
    by (auto simp: wf_graph_def edge_ok_def)
  have "find_output_ty oid outs \<noteq> None" if "\<exists>out\<in>set outs. component_output out = oid" for oid outs
    using that by (auto simp: find_output_ty_def find_None_iff)
  with n show ?thesis by (cases n) (auto simp: get_output_type_def node_offers_def)
qed

lemma check_edge_types_returns:
  "\<forall>e\<in>set es. get_output_type g (edge_from e) \<noteq> None \<and> get_input_type g (edge_to e) \<noteq> None \<Longrightarrow>
   check_edge_types g es \<noteq> None"
  by (induction es) (auto split: bind_splits)

lemma input_type_None_iff:
  assumes "wf_graph g" and "e \<in> set (edges g)"
  shows "get_input_type g (edge_to e) = None \<longleftrightarrow> \<not> (\<exists>ty. get_component_type g (edge_to e) = Some ty \<and> ty \<noteq> CtSource \<and> ty \<noteq> CtRelay)"
proof -
  from assms obtain n where "map_of (nodes g) (edge_to e) = Some n" by (auto simp: wf_graph_def edge_ok_def)
  then show ?thesis by (cases n) (auto simp: get_input_type_def get_component_type_def)
qed

lemma check_for_disconnected_ok_iff:
  "check_for_disconnected g = Inr () \<longleftrightarrow>
     (\<forall>c\<in>fst ` set (nodes g). \<exists>e\<in>set (edges g). coid_component_id (edge_from e) = c \<or> edge_to e = c)"
  by (simp add: check_for_disconnected_def unconnected_nodes_def Let_def filter_empty_conv)

lemma check_for_disconnected_err:
  assumes "hm_ok (nodes g)" and "check_for_disconnected g = Inl err"
  shows "\<exists>cs. err = DisconnectedComponents cs \<and> sorted cs \<and> distinct cs \<and>
    set cs = {c \<in> fst ` set (nodes g). \<not> (\<exists>e\<in>set (edges g). coid_component_id (edge_from e) = c \<or> edge_to e = c)}"
proof -
  have "distinct (unconnected_nodes g)" using assms(1) by (simp add: unconnected_nodes_def hm_ok_def)
  then have adj: "remdups_adj (unconnected_nodes g) = unconnected_nodes g" by (simp add: remdups_adj_distinct)
  have nodes: "set (unconnected_nodes g) = {c \<in> fst ` set (nodes g).
      \<not> (\<exists>e\<in>set (edges g). coid_component_id (edge_from e) = c \<or> edge_to e = c)}"
    unfolding unconnected_nodes_def set_filter set_map ..
  have "err = DisconnectedComponents (sort (unconnected_nodes g))"
    using assms(2) adj by (simp add: check_for_disconnected_def Let_def split: if_splits)
  with nodes \<open>distinct (unconnected_nodes g)\<close> show ?thesis by simp
qed

lemma validate_ok_iff:
  "validate g = Some (Inr ()) \<longleftrightarrow>
     check_event_types g = Some (Inr ()) \<and> check_for_cycles g = Some (Inr ()) \<and> check_for_disconnected g = Inr ()"
  by (auto simp: validate_def split: bind_splits sum.splits)

lemma validate_returns:
  assumes "wf_graph g"
    and "\<forall>e\<in>set (edges g). \<exists>ty. get_component_type g (edge_to e) = Some ty \<and> ty \<noteq> CtSource \<and> ty \<noteq> CtRelay"
  shows "validate g \<noteq> None"
proof -
  have "check_event_types g \<noteq> None"
    unfolding check_event_types_def
    by (rule check_edge_types_returns) (use assms wf_output_type input_type_None_iff in blast)
  then show ?thesis
    by (cases g rule: check_for_cycles_answer) (auto simp: validate_def split: sum.splits bind_splits)
qed

end
