(* ===== verification/Topology_Properties.thy ===== *)
theory Topology_Properties
  imports Topology_Prune Topology_Cycles
begin

text \<open>
  The properties of the topology graph and of its identifiers, with the concrete graphs that
  exercise them.
\<close>

section \<open>Example graphs\<close>

abbreviation metric_outputs :: "event_type output_definition list" where
  "metric_outputs \<equiv> [\<lparr>od_name = OutputDefault, od_data_ty = EventType_Metric\<rparr>]"

text \<open>A source feeding a destination.\<close>

definition pipe_graph :: graph where
  "pipe_graph =
     \<lparr>nodes = [(ComponentId ''in'', NSource [\<lparr>component_output = ComponentOutputId ''in'', output_ty = EventData EventType_Metric\<rparr>]),
               (ComponentId ''out'', NDestination EventType_Metric)],
      edges = [\<lparr>edge_from = ComponentOutputId ''in'', edge_to = ComponentId ''out''\<rparr>]\<rparr>"

text \<open>Two transforms that feed each other, and nothing else.\<close>

definition ring_graph :: graph where
  "ring_graph =
     \<lparr>nodes = [(ComponentId ''a'', NTransform EventType_Metric [\<lparr>component_output = ComponentOutputId ''a'', output_ty = EventData EventType_Metric\<rparr>]),
               (ComponentId ''b'', NTransform EventType_Metric [\<lparr>component_output = ComponentOutputId ''b'', output_ty = EventData EventType_Metric\<rparr>])],
      edges = [\<lparr>edge_from = ComponentOutputId ''a'', edge_to = ComponentId ''b''\<rparr>,
               \<lparr>edge_from = ComponentOutputId ''b'', edge_to = ComponentId ''a''\<rparr>]\<rparr>"

text \<open>A source that feeds a source.\<close>

definition source_fed_graph :: graph where
  "source_fed_graph =
     \<lparr>nodes = [(ComponentId ''in'', NSource [\<lparr>component_output = ComponentOutputId ''in'', output_ty = EventData EventType_Metric\<rparr>])],
      edges = [\<lparr>edge_from = ComponentOutputId ''in'', edge_to = ComponentId ''in''\<rparr>]\<rparr>"

lemma pipe_graph_reachable: "graph_reachable pipe_graph"
proof -
  let ?g1 = "\<lparr>nodes = [hd (nodes pipe_graph)], edges = []\<rparr>"
  let ?g2 = "\<lparr>nodes = nodes pipe_graph, edges = []\<rparr>"
  have "add_source ''in'' metric_outputs empty_graph = Inr (ComponentId ''in'', ?g1)" by code_simp
  then have "graph_reachable ?g1" by (rule reach_source [OF reach_empty])
  moreover have "add_destination ''out'' EventType_Metric ?g1 = Inr (ComponentId ''out'', ?g2)" by code_simp
  ultimately have "graph_reachable ?g2" by (rule reach_destination)
  moreover have "add_edge ''in'' ''out'' ?g2 = Inr pipe_graph" by code_simp
  ultimately show ?thesis by (rule reach_edge)
qed

lemma ring_graph_reachable: "graph_reachable ring_graph"
proof -
  let ?g1 = "\<lparr>nodes = [hd (nodes ring_graph)], edges = []\<rparr>"
  let ?g2 = "\<lparr>nodes = nodes ring_graph, edges = []\<rparr>"
  let ?g3 = "\<lparr>nodes = nodes ring_graph, edges = [hd (edges ring_graph)]\<rparr>"
  have "add_transform ''a'' EventType_Metric metric_outputs empty_graph = Inr (ComponentId ''a'', ?g1)" by code_simp
  then have "graph_reachable ?g1" by (rule reach_transform [OF reach_empty])
  moreover have "add_transform ''b'' EventType_Metric metric_outputs ?g1 = Inr (ComponentId ''b'', ?g2)" by code_simp
  ultimately have "graph_reachable ?g2" by (rule reach_transform)
  moreover have "add_edge ''a'' ''b'' ?g2 = Inr ?g3" by code_simp
  ultimately have "graph_reachable ?g3" by (rule reach_edge)
  moreover have "add_edge ''b'' ''a'' ?g3 = Inr ring_graph" by code_simp
  ultimately show ?thesis by (rule reach_edge)
qed

lemma source_fed_graph_reachable: "graph_reachable source_fed_graph"
proof -
  let ?g1 = "\<lparr>nodes = nodes source_fed_graph, edges = []\<rparr>"
  have "add_source ''in'' metric_outputs empty_graph = Inr (ComponentId ''in'', ?g1)" by code_simp
  then have "graph_reachable ?g1" by (rule reach_source [OF reach_empty])
  moreover have "add_edge ''in'' ''in'' ?g1 = Inr source_fed_graph" by code_simp
  ultimately show ?thesis by (rule reach_edge)
qed

lemma pipe_graph_validates: "validate pipe_graph = Some (Inr ())"
  by code_simp

section \<open>Properties\<close>

text \<open>
  C1. The cycle check always returns. If it accepts, no component upstream of a destination is on a
  cycle; if it rejects, the reported path follows edges of the graph, and its first component lies
  upstream of a destination and on a cycle.
\<close>

theorem cycle_check_decides:
  "\<exists>r. check_for_cycles g = Some r \<and>
     (case r of
        Inr _ \<Rightarrow> set (destinations_of g) \<subseteq> {d. acyclic_from g d}
      | Inl e \<Rightarrow> \<exists>d path. e = Cycle path \<and> d \<in> set (destinations_of g) \<and> cycle_path g d path)"
  by (cases g rule: check_for_cycles_answer) auto

text \<open>
  C2. \<^verbatim>\<open>validate\<close> accepts a graph exactly when every edge joins an output and an input whose data types
  intersect, nothing upstream of a destination is on a cycle, and every component has an edge.
\<close>

theorem validate_accepts_iff:
  "validate g = Some (Inr ()) \<longleftrightarrow>
     (\<forall>e\<in>set (edges g). \<exists>a b. get_output_type g (edge_from e) = Some a \<and>
        get_input_type g (edge_to e) = Some b \<and> dt_intersects a b) \<and>
     (\<forall>d\<in>set (destinations_of g). acyclic_from g d) \<and>
     (\<forall>c\<in>fst ` set (nodes g). \<exists>e\<in>set (edges g). coid_component_id (edge_from e) = c \<or> edge_to e = c)"
  unfolding validate_ok_iff check_event_types_def check_edge_types_ok_iff check_for_cycles_iff
    check_for_disconnected_ok_iff ..

theorem validate_accepts_iff_witness:
  "validate pipe_graph = Some (Inr ()) \<and> acyclic_from pipe_graph (ComponentId ''out'')"
proof -
  have "ComponentId ''out'' \<in> set (destinations_of pipe_graph)" by (simp add: destinations_of_def pipe_graph_def)
  then show ?thesis using validate_accepts_iff [of pipe_graph] pipe_graph_validates by blast
qed

text \<open>
  C23. Every graph that the operations can build from the empty graph is well formed: one node per
  identifier, valid identifiers, outputs that belong to their node, and edges that join an output a
  node offers to a node that exists.
\<close>

theorem reachable_graphs_wf: "graph_reachable g \<Longrightarrow> wf_graph g"
  by (rule graph_reachable_wf)

theorem reachable_graphs_wf_witness: "wf_graph pipe_graph"
  using reachable_graphs_wf [OF pipe_graph_reachable] .

text \<open>
  C3. Pruning removes exactly the least set of components that are candidates, or have inputs, and
  whose inputs all come from removed components; sources and relays are never removed. What is left
  is the graph without those components and without their outbound edges.
\<close>

theorem prune_removes_exactly_doomed:
  "\<exists>out. prune_components_without_inputs cs g = (without g {c. doomed g (set cs) c}, out) \<and>
     fst ` set out = {c. doomed g (set cs) c} \<and> distinct (map fst out) \<and>
     set out \<subseteq> {(c, ty). get_component_type g c = Some ty}"
  using prune_result [of cs g] by auto

text \<open>
  C29. On a well-formed graph the outbound table exists and lists, for every component, exactly its
  declared outputs, each with the targets of its edges in the order the edges were added.
\<close>

theorem outbound_edges_complete:
  "wf_graph g \<Longrightarrow>
   \<exists>m. get_outbound_directed_edges g = Some m \<and>
     (\<forall>c n out. map_of (nodes g) c = Some n \<longrightarrow>
        outbound_at m \<lparr>tci_id = c, tci_ty = node_component_type n\<rparr> out =
          (if out \<in> output_names n then Some (edge_targets g c out (edges g)) else None))"
  by (rule outbound_table)

theorem outbound_edges_complete_witness:
  "\<exists>m. get_outbound_directed_edges pipe_graph = Some m \<and>
     outbound_at m \<lparr>tci_id = ComponentId ''in'', tci_ty = CtSource\<rparr> OutputDefault =
       Some [\<lparr>tci_id = ComponentId ''out'', tci_ty = CtDestination\<rparr>]"
proof -
  obtain n where n: "map_of (nodes pipe_graph) (ComponentId ''in'') = Some n" "node_component_type n = CtSource"
      "OutputDefault \<in> output_names n"
    by (simp add: pipe_graph_def output_names_def declared_outputs_def coid_output_def)
  have t: "edge_targets pipe_graph (ComponentId ''in'') OutputDefault (edges pipe_graph) =
      [\<lparr>tci_id = ComponentId ''out'', tci_ty = CtDestination\<rparr>]"
    by code_simp
  from outbound_edges_complete [OF graph_reachable_wf [OF pipe_graph_reachable]] n t show ?thesis by metis
qed

text \<open>
  C33. \<^verbatim>\<open>validate\<close> returns, without a panic, on every graph the operations can build in which no edge
  enters a source or a relay.
\<close>

theorem validate_never_panics:
  assumes "graph_reachable g"
    and "\<forall>e\<in>set (edges g). get_component_type g (edge_to e) \<notin> {Some CtSource, Some CtRelay}"
  shows "validate g \<noteq> None"
proof (rule validate_returns)
  show wf: "wf_graph g" by (rule graph_reachable_wf [OF assms(1)])
  show "\<forall>e\<in>set (edges g). \<exists>ty. get_component_type g (edge_to e) = Some ty \<and> ty \<noteq> CtSource \<and> ty \<noteq> CtRelay"
    using wf assms(2) by (fastforce simp: wf_graph_def edge_ok_def get_component_type_def)
qed

theorem validate_never_panics_witness: "validate pipe_graph \<noteq> None"
  by (rule validate_never_panics [OF pipe_graph_reachable]) (simp add: pipe_graph_def get_component_type_def)

text \<open>
  \<^verbatim>\<open>add_edge\<close> accepts a source as the target of an edge, and \<^verbatim>\<open>validate\<close> then panics instead of
  returning an error.
\<close>

theorem validate_panics_on_edge_into_source:
  "\<exists>g. graph_reachable g \<and> validate g = None"
proof -
  have "validate source_fed_graph = None" by code_simp
  then show ?thesis using source_fed_graph_reachable by blast
qed

text \<open>
  A cycle that feeds no destination passes \<^verbatim>\<open>validate\<close>: the search starts at destinations only.
\<close>

theorem validate_accepts_a_cycle:
  "\<exists>g x. graph_reachable g \<and> validate g = Some (Inr ()) \<and> (x, x) \<in> (upstream g)\<^sup>+"
proof -
  have "validate ring_graph = Some (Inr ())" by code_simp
  moreover have "(ComponentId ''a'', ComponentId ''b'') \<in> upstream ring_graph"
    "(ComponentId ''b'', ComponentId ''a'') \<in> upstream ring_graph"
    by (simp_all add: upstream_iff ring_graph_def coid_component_id_def)
  ultimately show ?thesis using ring_graph_reachable by (meson trancl.simps)
qed

text \<open>
  The identifier check accepts exactly one segment, or for an output identifier also two segments
  joined by a dot; a segment is made of ASCII letters, digits and underscores and has a letter or a
  digit at each end.
\<close>

theorem component_id_grammar:
  "validate_component_id s as_output \<longleftrightarrow>
     id_segment s \<or> (as_output \<and> (\<exists>a b. s = a @ CHR ''.'' # b \<and> id_segment a \<and> id_segment b))"
  by (rule validate_grammar)

text \<open>
  The identifier built for a declared output gives back the component and the output name it was
  built from.
\<close>

theorem output_id_round_trip:
  "component_id_try_from s = Inr c \<Longrightarrow> from_definition c d = Inr oid \<Longrightarrow>
   coid_component_id oid = c \<and> coid_output oid = od_name d"
  by (rule from_definition_parts) (auto simp: component_id_try_from_def split: if_splits)

theorem output_id_round_trip_witness:
  "coid_component_id (ComponentOutputId ''dsd_in.events'') = ComponentId ''dsd_in'' \<and>
   coid_output (ComponentOutputId ''dsd_in.events'') = OutputGiven ''events''"
proof -
  have "component_id_try_from ''dsd_in'' = Inr (ComponentId ''dsd_in'')" by code_simp
  moreover have "from_definition (ComponentId ''dsd_in'') \<lparr>od_name = OutputGiven ''events'', od_data_ty = EventType_EventD\<rparr>
      = Inr (ComponentOutputId ''dsd_in.events'')"
    by code_simp
  ultimately show ?thesis using output_id_round_trip by fastforce
qed

end
