(* ===== verification/Float64.thy ===== *)
theory Float64
  imports Rust_Prelude
begin

text \<open>
  IEEE 754 binary64, Rust's \<^verbatim>\<open>f64\<close>: the values, and the operations the components use, computed
  exactly on integers and rounded once to nearest, ties to even. A finite value is its sign, its
  integral significand and its binary exponent; \<open>f64_valid\<close> says which triples are the normal form
  of a value of the type. Rust does not promise the payload of a NaN, so there is one NaN.
\<close>

section \<open>Values\<close>

datatype f64 = F64_NaN | F64_Inf bool | F64_Fin bool nat int

fun f64_valid :: "f64 \<Rightarrow> bool" where
  "f64_valid F64_NaN = True"
| "f64_valid (F64_Inf s) = True"
| "f64_valid (F64_Fin s m e) =
     (m < 2 ^ 53 \<and> -1074 \<le> e \<and> e \<le> 971 \<and> (2 ^ 52 \<le> m \<or> e = -1074))"

definition f64_zero :: f64 where
  "f64_zero = F64_Fin False 0 (-1074)"

definition f64_one :: f64 where
  "f64_one = F64_Fin False (2 ^ 52) (-52)"

text \<open>\<^verbatim>\<open>f64::MAX\<close> and \<^verbatim>\<open>f64::MIN\<close>.\<close>

definition f64_MAX :: f64 where
  "f64_MAX = F64_Fin False (2 ^ 53 - 1) 971"

definition f64_MIN :: f64 where
  "f64_MIN = F64_Fin True (2 ^ 53 - 1) 971"

definition f64_MIN_POSITIVE :: f64 where
  "f64_MIN_POSITIVE = F64_Fin False (2 ^ 52) (-1074)"

fun f64_is_finite :: "f64 \<Rightarrow> bool" where
  "f64_is_finite (F64_Fin s m e) = True"
| "f64_is_finite _ = False"

section \<open>Rounding\<close>

fun bitlen :: "nat \<Rightarrow> nat" where
  "bitlen n = (if n = 0 then 0 else Suc (bitlen (n div 2)))"

declare bitlen.simps [simp del]

text \<open>Division by \<open>2 ^ k\<close>, rounded to nearest, ties to even.\<close>

definition shift_rne :: "nat \<Rightarrow> nat \<Rightarrow> nat" where
  "shift_rne m k =
     (let q = m div 2 ^ k; r = m mod 2 ^ k
      in if 2 * r < 2 ^ k \<or> (2 * r = 2 ^ k \<and> even q) then q else Suc q)"

definition f64_pack :: "bool \<Rightarrow> nat \<Rightarrow> int \<Rightarrow> f64" where
  "f64_pack s m e = (if 971 < e then F64_Inf s else F64_Fin s m e)"

text \<open>The value nearest to \<open>m * 2 ^ e\<close> with sign \<open>s\<close>, for \<open>m > 0\<close>.\<close>

definition f64_round :: "bool \<Rightarrow> nat \<Rightarrow> int \<Rightarrow> f64" where
  "f64_round s m e =
     (let e' = max (e + int (bitlen m) - 53) (-1074);
          m' = (if e' \<le> e then m * 2 ^ nat (e - e') else shift_rne m (nat (e' - e)))
      in if m' = 2 ^ 53 then f64_pack s (2 ^ 52) (e' + 1) else f64_pack s m' e')"

section \<open>Arithmetic\<close>

definition f64_signed :: "bool \<Rightarrow> nat \<Rightarrow> int" where
  "f64_signed s m = (if s then - int m else int m)"

fun f64_neg :: "f64 \<Rightarrow> f64" where
  "f64_neg F64_NaN = F64_NaN"
| "f64_neg (F64_Inf s) = F64_Inf (\<not> s)"
| "f64_neg (F64_Fin s m e) = F64_Fin (\<not> s) m e"

fun f64_abs :: "f64 \<Rightarrow> f64" where
  "f64_abs F64_NaN = F64_NaN"
| "f64_abs (F64_Inf s) = F64_Inf False"
| "f64_abs (F64_Fin s m e) = F64_Fin False m e"

text \<open>Both significands at the smaller of the two exponents.\<close>

definition align_exp :: "int \<Rightarrow> bool \<Rightarrow> nat \<Rightarrow> int \<Rightarrow> int" where
  "align_exp e s m e1 = f64_signed s m * 2 ^ nat (e1 - e)"

fun f64_add :: "f64 \<Rightarrow> f64 \<Rightarrow> f64" where
  "f64_add (F64_Fin s1 m1 e1) (F64_Fin s2 m2 e2) =
     (let e = min e1 e2; c = align_exp e s1 m1 e1 + align_exp e s2 m2 e2
      in if c = 0 then F64_Fin (s1 \<and> s2) 0 (-1074) else f64_round (c < 0) (nat \<bar>c\<bar>) e)"
| "f64_add (F64_Inf s1) (F64_Inf s2) = (if s1 = s2 then F64_Inf s1 else F64_NaN)"
| "f64_add (F64_Inf s1) (F64_Fin s2 m2 e2) = F64_Inf s1"
| "f64_add (F64_Fin s1 m1 e1) (F64_Inf s2) = F64_Inf s2"
| "f64_add F64_NaN y = F64_NaN"
| "f64_add x F64_NaN = F64_NaN"

definition f64_sub :: "f64 \<Rightarrow> f64 \<Rightarrow> f64" where
  "f64_sub x y = f64_add x (f64_neg y)"

fun f64_mul :: "f64 \<Rightarrow> f64 \<Rightarrow> f64" where
  "f64_mul (F64_Fin s1 m1 e1) (F64_Fin s2 m2 e2) =
     (if m1 * m2 = 0 then F64_Fin (s1 \<noteq> s2) 0 (-1074)
      else f64_round (s1 \<noteq> s2) (m1 * m2) (e1 + e2))"
| "f64_mul (F64_Inf s1) (F64_Inf s2) = F64_Inf (s1 \<noteq> s2)"
| "f64_mul (F64_Inf s1) (F64_Fin s2 m2 e2) = (if m2 = 0 then F64_NaN else F64_Inf (s1 \<noteq> s2))"
| "f64_mul (F64_Fin s1 m1 e1) (F64_Inf s2) = (if m1 = 0 then F64_NaN else F64_Inf (s1 \<noteq> s2))"
| "f64_mul F64_NaN y = F64_NaN"
| "f64_mul x F64_NaN = F64_NaN"

text \<open>
  A quotient is developed to more than 53 bits, with a sticky last bit for the remainder, so that
  the one rounding sees on which side of a tie it lies.
\<close>

fun f64_div :: "f64 \<Rightarrow> f64 \<Rightarrow> f64" where
  "f64_div (F64_Fin s1 m1 e1) (F64_Fin s2 m2 e2) =
     (if m2 = 0 then (if m1 = 0 then F64_NaN else F64_Inf (s1 \<noteq> s2))
      else if m1 = 0 then F64_Fin (s1 \<noteq> s2) 0 (-1074)
      else let n = m1 * 2 ^ 110
           in f64_round (s1 \<noteq> s2) (2 * (n div m2) + (if n mod m2 = 0 then 0 else 1)) (e1 - e2 - 111))"
| "f64_div (F64_Inf s1) (F64_Inf s2) = F64_NaN"
| "f64_div (F64_Inf s1) (F64_Fin s2 m2 e2) = F64_Inf (s1 \<noteq> s2)"
| "f64_div (F64_Fin s1 m1 e1) (F64_Inf s2) = F64_Fin (s1 \<noteq> s2) 0 (-1074)"
| "f64_div F64_NaN y = F64_NaN"
| "f64_div x F64_NaN = F64_NaN"

section \<open>Comparison\<close>

fun f64_lt :: "f64 \<Rightarrow> f64 \<Rightarrow> bool" where
  "f64_lt (F64_Fin s1 m1 e1) (F64_Fin s2 m2 e2) =
     (let e = min e1 e2 in align_exp e s1 m1 e1 < align_exp e s2 m2 e2)"
| "f64_lt (F64_Inf s1) (F64_Inf s2) = (s1 \<and> \<not> s2)"
| "f64_lt (F64_Inf s1) (F64_Fin s2 m2 e2) = s1"
| "f64_lt (F64_Fin s1 m1 e1) (F64_Inf s2) = (\<not> s2)"
| "f64_lt F64_NaN y = False"
| "f64_lt x F64_NaN = False"

fun f64_eq :: "f64 \<Rightarrow> f64 \<Rightarrow> bool" where
  "f64_eq (F64_Fin s1 m1 e1) (F64_Fin s2 m2 e2) =
     (let e = min e1 e2 in align_exp e s1 m1 e1 = align_exp e s2 m2 e2)"
| "f64_eq (F64_Inf s1) (F64_Inf s2) = (s1 = s2)"
| "f64_eq x y = False"

definition f64_le :: "f64 \<Rightarrow> f64 \<Rightarrow> bool" where
  "f64_le x y \<longleftrightarrow> f64_lt x y \<or> f64_eq x y"

text \<open>\<^verbatim>\<open>f64::clamp\<close> panics unless the bounds are ordered.\<close>

definition f64_clamp :: "f64 \<Rightarrow> f64 \<Rightarrow> f64 \<Rightarrow> f64 option" where
  "f64_clamp lo hi x =
     (if f64_le lo hi
      then let y = (if f64_lt x lo then lo else x) in Some (if f64_lt hi y then hi else y)
      else None)"

text \<open>\<^verbatim>\<open>f64::max\<close> and \<^verbatim>\<open>f64::min\<close> prefer the argument that is not a NaN.\<close>

definition f64_is_nan :: "f64 \<Rightarrow> bool" where
  "f64_is_nan x \<longleftrightarrow> x = F64_NaN"

definition f64_max :: "f64 \<Rightarrow> f64 \<Rightarrow> f64" where
  "f64_max x y = (if f64_is_nan x then y else if f64_is_nan y then x else if f64_lt x y then y else x)"

definition f64_min :: "f64 \<Rightarrow> f64 \<Rightarrow> f64" where
  "f64_min x y = (if f64_is_nan x then y else if f64_is_nan y then x else if f64_lt y x then y else x)"

section \<open>Conversions and rounding to integers\<close>

text \<open>\<^verbatim>\<open>n as f64\<close> and \<^verbatim>\<open>x as u64\<close> (which truncates and saturates).\<close>

definition f64_of_nat :: "nat \<Rightarrow> f64" where
  "f64_of_nat n = (if n = 0 then f64_zero else f64_round False n 0)"

fun f64_to_u64 :: "f64 \<Rightarrow> nat" where
  "f64_to_u64 F64_NaN = 0"
| "f64_to_u64 (F64_Inf s) = (if s then 0 else u64_max)"
| "f64_to_u64 (F64_Fin s m e) =
     (if s then 0
      else min u64_max (if 0 \<le> e then m * 2 ^ nat e else m div 2 ^ nat (- e)))"

text \<open>\<^verbatim>\<open>i as f64\<close> and \<^verbatim>\<open>x as i32\<close>.\<close>

definition f64_of_int :: "int \<Rightarrow> f64" where
  "f64_of_int i = (if i = 0 then f64_zero else f64_round (i < 0) (nat \<bar>i\<bar>) 0)"

fun f64_to_i32 :: "f64 \<Rightarrow> int" where
  "f64_to_i32 F64_NaN = 0"
| "f64_to_i32 (F64_Inf s) = (if s then i32_min else i32_max)"
| "f64_to_i32 (F64_Fin s m e) =
     (let n = (if 0 \<le> e then m * 2 ^ nat e else m div 2 ^ nat (- e))
      in max i32_min (min i32_max (f64_signed s n)))"

text \<open>\<^verbatim>\<open>f64::trunc\<close> and \<^verbatim>\<open>f64::fract\<close>.\<close>

fun f64_trunc :: "f64 \<Rightarrow> f64" where
  "f64_trunc (F64_Fin s m e) =
     (if 0 \<le> e then F64_Fin s m e
      else let q = m div 2 ^ nat (- e)
           in if q = 0 then F64_Fin s 0 (-1074) else f64_round s q 0)"
| "f64_trunc x = x"

text \<open>\<^verbatim>\<open>f64::floor\<close>; the value below a negative one that is not integral is rounded away from zero.\<close>

fun f64_floor :: "f64 \<Rightarrow> f64" where
  "f64_floor (F64_Fin s m e) =
     (if 0 \<le> e then F64_Fin s m e
      else let q = m div 2 ^ nat (- e); q' = (if s \<and> m mod 2 ^ nat (- e) \<noteq> 0 then q + 1 else q)
           in if q' = 0 then F64_Fin s 0 (-1074) else f64_round s q' 0)"
| "f64_floor x = x"

definition f64_fract :: "f64 \<Rightarrow> f64" where
  "f64_fract x = f64_sub x (f64_trunc x)"


section \<open>Rounding lands on a valid value, and keeps the values it need not change\<close>

lemma bitlen_0 [simp]: "bitlen 0 = 0"
  by (simp add: bitlen.simps)

lemma bitlen_bounds: "0 < m \<Longrightarrow> 2 ^ (bitlen m - 1) \<le> m \<and> m < 2 ^ bitlen m"
proof (induction m rule: bitlen.induct)
  case (1 n)
  show ?case
  proof (cases "n div 2 = 0")
    case True
    with "1.prems" have "n = 1" by simp
    then show ?thesis by (simp add: bitlen.simps)
  next
    case False
    with "1" have IH: "2 ^ (bitlen (n div 2) - 1) \<le> n div 2" "n div 2 < 2 ^ bitlen (n div 2)"
      by auto
    from False have pos: "0 < bitlen (n div 2)" by (subst bitlen.simps) simp
    have L: "bitlen n = Suc (bitlen (n div 2))"
      using "1.prems" by (subst bitlen.simps) simp
    obtain j where j: "bitlen (n div 2) = Suc j" using pos by (cases "bitlen (n div 2)") auto
    have "2 * 2 ^ j \<le> n" using IH(1) by (simp add: j)
    moreover have "n < 2 * 2 ^ bitlen (n div 2)" using IH(2) by linarith
    ultimately show ?thesis by (simp add: L j)
  qed
qed

lemma bitlen_pos: "0 < m \<Longrightarrow> 0 < bitlen m"
  by (subst bitlen.simps) simp

lemma bitlen_unique:
  assumes "2 ^ k \<le> m" and "m < 2 ^ Suc k"
  shows "bitlen m = Suc k"
proof -
  have m: "0 < m" using assms(1) by (metis gr0I le_zero_eq power_not_zero zero_neq_numeral)
  note b = bitlen_bounds [OF m]
  have "2 ^ k < (2::nat) ^ bitlen m" using assms(1) b by linarith
  then have 1: "k < bitlen m" by simp
  have "2 ^ (bitlen m - 1) < (2::nat) ^ Suc k" using assms(2) b by linarith
  then have 2: "bitlen m - 1 < Suc k" using power_less_imp_less_exp one_less_numeral_iff semiring_norm(76) by blast
  from 1 2 show ?thesis by linarith
qed

lemma bitlen_shift: "0 < m \<Longrightarrow> bitlen (m * 2 ^ k) = bitlen m + k"
proof -
  assume m: "0 < m"
  note b = bitlen_bounds [OF m]
  obtain j where j: "bitlen m = Suc j" using bitlen_pos [OF m] by (cases "bitlen m") auto
  have "2 ^ (j + k) \<le> m * 2 ^ k" using b by (simp add: j power_add)
  moreover have "m * 2 ^ k < 2 ^ Suc (j + k)"
  proof -
    have "m * 2 ^ k < 2 ^ Suc j * 2 ^ k" using b by (simp add: j)
    then show ?thesis by (simp add: power_add)
  qed
  ultimately show ?thesis by (simp add: bitlen_unique j)
qed

lemma bitlen_less: "m < 2 ^ k \<Longrightarrow> bitlen m \<le> k"
proof (cases "m = 0")
  case False
  assume "m < 2 ^ k"
  moreover from False have "2 ^ (bitlen m - 1) \<le> m" using bitlen_bounds [of m] by simp
  ultimately have "2 ^ (bitlen m - 1) < (2::nat) ^ k" by linarith
  then have "bitlen m - 1 < k" by simp
  then show ?thesis by linarith
qed simp

lemma shift_rne_exact [simp]: "shift_rne (m * 2 ^ k) k = m"
  by (simp add: shift_rne_def)

lemma shift_rne_bounds: "m div 2 ^ k \<le> shift_rne m k \<and> shift_rne m k \<le> Suc (m div 2 ^ k)"
  by (simp add: shift_rne_def Let_def)

lemma f64_pack_valid:
  assumes "m < 2 ^ 53" and "-1074 \<le> e" and "2 ^ 52 \<le> m \<or> e = -1074"
  shows "f64_valid (f64_pack s m e)"
  using assms by (auto simp: f64_pack_def)

lemma round_target_bounds:
  assumes m: "0 < m" and e': "e' = max (e + int (bitlen m) - 53) (-1074)"
    and m': "m' = (if e' \<le> e then m * 2 ^ nat (e - e') else shift_rne m (nat (e' - e)))"
  shows "m' \<le> 2 ^ 53 \<and> (2 ^ 52 \<le> m' \<or> e' = -1074)"
proof (cases "e' \<le> e")
  case True
  define k where "k = nat (e - e')"
  have M: "m' = m * 2 ^ k" using True m' by (simp add: k_def)
  then have L: "bitlen m' = bitlen m + k" using m by (simp add: bitlen_shift)
  have pos: "0 < m'" using M m by simp
  have "int (bitlen m') = int (bitlen m) + e - e'" using L True by (simp add: k_def)
  then have le: "bitlen m' \<le> 53" and eq: "e' = -1074 \<or> bitlen m' = 53"
    using e' by linarith+
  have "m' < 2 ^ bitlen m'" using bitlen_bounds [OF pos] by simp
  also have "\<dots> \<le> 2 ^ 53" using le by (rule power_increasing) simp
  finally have ub: "m' < 2 ^ 53" .
  have "bitlen m' = 53 \<Longrightarrow> 2 ^ 52 \<le> m'" using bitlen_bounds [OF pos] by simp
  with eq ub show ?thesis by auto
next
  case False
  define k where "k = nat (e' - e)"
  have M: "m' = shift_rne m k" using False m' by (simp add: k_def)
  have "bitlen m \<le> 53 + k" using e' False unfolding k_def by linarith
  then have "(2::nat) ^ bitlen m \<le> 2 ^ (53 + k)" by (rule power_increasing) simp
  then have "m < 2 ^ 53 * 2 ^ k" using bitlen_bounds [OF m] by (simp add: power_add)
  then have "m div 2 ^ k < 2 ^ 53" by (simp add: less_mult_imp_div_less)
  then have ub: "m' \<le> 2 ^ 53" using M shift_rne_bounds [of m k] by linarith
  have "2 ^ 52 \<le> m'" if "e' \<noteq> -1074"
  proof -
    have "int (bitlen m) = 53 + int k" using that e' False unfolding k_def by linarith
    then have L: "bitlen m = 53 + k" by linarith
    then have "(2::nat) ^ (52 + k) \<le> m" using bitlen_bounds [OF m] by simp
    then have "(2::nat) ^ 52 * 2 ^ k \<le> m" by (simp only: power_add)
    then have "(2::nat) ^ 52 * 2 ^ k div 2 ^ k \<le> m div 2 ^ k" by (rule div_le_mono)
    then have "2 ^ 52 \<le> m div 2 ^ k" by simp
    then show ?thesis using M shift_rne_bounds [of m k] by linarith
  qed
  with ub show ?thesis by blast
qed

lemma f64_round_valid:
  assumes "0 < m"
  shows "f64_valid (f64_round s m e)"
proof -
  define e' where "e' = max (e + int (bitlen m) - 53) (-1074)"
  define m' where "m' = (if e' \<le> e then m * 2 ^ nat (e - e') else shift_rne m (nat (e' - e)))"
  have b: "m' \<le> 2 ^ 53" "2 ^ 52 \<le> m' \<or> e' = -1074"
    using round_target_bounds [OF assms e'_def m'_def] by auto
  have lo: "-1074 \<le> e'" by (simp add: e'_def)
  have R: "f64_round s m e =
      (if m' = 2 ^ 53 then f64_pack s (2 ^ 52) (e' + 1) else f64_pack s m' e')"
    unfolding f64_round_def Let_def e'_def m'_def by simp
  show ?thesis
  proof (cases "m' = 2 ^ 53")
    case True
    have "f64_valid (f64_pack s (2 ^ 52) (e' + 1))" by (rule f64_pack_valid) (use lo in auto)
    with True R show ?thesis by simp
  next
    case False
    with b have "f64_valid (f64_pack s m' e')" by (intro f64_pack_valid) (use lo in auto)
    with False R show ?thesis by simp
  qed
qed

lemma f64_round_exact:
  assumes v: "f64_valid (F64_Fin s m e)" and m: "0 < m"
  shows "f64_round s (m * 2 ^ k) (e - int k) = F64_Fin s m e"
proof -
  have lt: "m < 2 ^ 53" and lo: "-1074 \<le> e" and hi: "e \<le> 971"
    and nf: "2 ^ 52 \<le> m \<or> e = -1074"
    using v by auto
  have le: "bitlen m \<le> 53" using lt by (rule bitlen_less)
  have "bitlen m = 53" if "2 ^ 52 \<le> m"
    using bitlen_unique [of 52 m] that lt by simp
  with nf le lo have e': "max (e + int (bitlen m) - 53) (-1074) = e" by auto
  have "e - int k + int (bitlen (m * 2 ^ k)) - 53 = e + int (bitlen m) - 53"
    using m by (simp add: bitlen_shift)
  with e' have E: "max (e - int k + int (bitlen (m * 2 ^ k)) - 53) (-1074) = e" by simp
  have M: "(if e \<le> e - int k then (m * 2 ^ k) * 2 ^ nat (e - int k - e)
            else shift_rne (m * 2 ^ k) (nat (e - (e - int k)))) = m"
    by (cases "k = 0") auto
  show ?thesis
    unfolding f64_round_def Let_def E M using lt hi by (simp add: f64_pack_def)
qed

section \<open>Laws of the arithmetic\<close>

lemma int_shift_not_neg [simp]: "\<not> int m * 2 ^ k < 0"
  by (simp add: not_less)

lemma f64_zero_valid [simp]: "f64_valid f64_zero"
  by (simp add: f64_zero_def)

lemma f64_add_valid:
  assumes "f64_valid x" and "f64_valid y"
  shows "f64_valid (f64_add x y)"
proof (cases "(x, y)" rule: f64_add.cases)
  case (1 s1 m1 e1 s2 m2 e2)
  define c where "c = align_exp (min e1 e2) s1 m1 e1 + align_exp (min e1 e2) s2 m2 e2"
  have "c \<noteq> 0 \<Longrightarrow> f64_valid (f64_round (c < 0) (nat \<bar>c\<bar>) (min e1 e2))"
    by (rule f64_round_valid) simp
  with 1 show ?thesis by (simp add: Let_def c_def [symmetric])
qed auto

lemma f64_add_comm: "f64_add x y = f64_add y x"
  by (cases x; cases y) (auto simp: Let_def min.commute add.commute)

text \<open>Adding \<open>+0.0\<close> changes no value but \<open>-0.0\<close>.\<close>

lemma f64_add_zero:
  assumes "f64_valid x" and "x \<noteq> F64_Fin True 0 (-1074)"
  shows "f64_add x f64_zero = x"
proof (cases x)
  case (F64_Fin s m e)
  show ?thesis
  proof (cases "m = 0")
    case True
    with assms F64_Fin have "e = -1074" "\<not> s" by auto
    with True F64_Fin show ?thesis by (simp add: f64_zero_def align_exp_def f64_signed_def)
  next
    case False
    have lo: "-1074 \<le> e" using assms(1) F64_Fin by auto
    have mn: "min e (-1074) = -1074" using lo by simp
    define k where "k = nat (e + 1074)"
    have k: "-1074 = e - int k" using lo by (simp add: k_def)
    have c: "align_exp (-1074) s m e + align_exp (-1074) False 0 (-1074) = f64_signed s (m * 2 ^ k)"
      by (simp add: align_exp_def f64_signed_def k_def)
    have "f64_round s (m * 2 ^ k) (e - int k) = x"
      unfolding F64_Fin using assms(1) False by (intro f64_round_exact) (auto simp: F64_Fin)
    then have "f64_round s (m * 2 ^ k) (-1074) = x" by (simp only: k [symmetric])
    moreover have "f64_signed s (m * 2 ^ k) \<noteq> 0" "(f64_signed s (m * 2 ^ k) < 0) = s"
      "nat \<bar>f64_signed s (m * 2 ^ k)\<bar> = m * 2 ^ k"
      using False by (auto simp: f64_signed_def nat_mult_distrib nat_power_eq)
    ultimately show ?thesis
      using F64_Fin mn by (simp add: f64_zero_def Let_def c)
  qed
qed (auto simp: f64_zero_def)

text \<open>Integers up to \<open>2 ^ 53\<close> are represented exactly.\<close>

lemma f64_of_nat_fin:
  assumes "0 < n" and "n < 2 ^ 53"
  shows "f64_of_nat n = F64_Fin False (n * 2 ^ (53 - bitlen n)) (int (bitlen n) - 53)"
proof -
  have le: "bitlen n \<le> 53" using assms(2) by (rule bitlen_less)
  define k where "k = 53 - bitlen n"
  have pos: "0 < bitlen n" using assms(1) by (rule bitlen_pos)
  have L: "bitlen (n * 2 ^ k) = 53" using assms(1) le by (simp add: bitlen_shift k_def)
  have b: "2 ^ 52 \<le> n * 2 ^ k \<and> n * 2 ^ k < 2 ^ 53"
    using bitlen_bounds [of "n * 2 ^ k"] assms(1) by (simp add: L)
  have e': "max (0 + int (bitlen n) - 53) (-1074) = int (bitlen n) - 53" using pos by simp
  have nk: "nat (53 - int (bitlen n)) = k" by (simp add: k_def)
  have m': "(if int (bitlen n) - 53 \<le> (0::int) then n * 2 ^ nat (0 - (int (bitlen n) - 53))
             else shift_rne n (nat (int (bitlen n) - 53 - 0))) = n * 2 ^ k"
    using le by (simp add: nk)
  have "f64_round False n 0 = F64_Fin False (n * 2 ^ k) (int (bitlen n) - 53)"
    unfolding f64_round_def Let_def e' m' using b le by (simp add: f64_pack_def)
  then show ?thesis using assms(1) by (simp add: f64_of_nat_def k_def)
qed

lemma f64_of_nat_valid: "f64_valid (f64_of_nat n)"
  by (simp add: f64_of_nat_def f64_round_valid)

lemma f64_to_u64_of_nat:
  assumes "n < 2 ^ 53"
  shows "f64_to_u64 (f64_of_nat n) = n"
proof (cases "n = 0")
  case True
  then show ?thesis by (simp add: f64_of_nat_def f64_zero_def)
next
  case False
  have le: "bitlen n \<le> 53" using assms by (rule bitlen_less)
  have nu: "n \<le> u64_max" using assms by (simp add: u64_max_def)
  show ?thesis
  proof (cases "bitlen n = 53")
    case True
    then show ?thesis using False assms nu by (simp add: f64_of_nat_fin)
  next
    case neq: False
    have "nat (- (int (bitlen n) - 53)) = 53 - bitlen n" by simp
    then show ?thesis using False assms nu neq le by (simp add: f64_of_nat_fin)
  qed
qed

lemma f64_of_nat_not_neg: "\<not> f64_lt (f64_of_nat n) f64_zero"
proof -
  have "f64_of_nat n = F64_Inf False \<or> (\<exists>m e. f64_of_nat n = F64_Fin False m e)"
    unfolding f64_of_nat_def f64_round_def f64_pack_def f64_zero_def Let_def
    by (cases "n = 0") auto
  then show ?thesis by (auto simp: f64_zero_def align_exp_def f64_signed_def Let_def)
qed

lemma f64_fract_of_nat:
  assumes "n < 2 ^ 53"
  shows "f64_eq (f64_fract (f64_of_nat n)) f64_zero"
proof (cases "n = 0")
  case True
  then show ?thesis
    by (simp add: f64_of_nat_def f64_zero_def f64_fract_def f64_sub_def align_exp_def f64_signed_def)
next
  case False
  have le: "bitlen n \<le> 53" using assms by (rule bitlen_less)
  have "nat (- (int (bitlen n) - 53)) = 53 - bitlen n" by simp
  then have "f64_trunc (f64_of_nat n) = f64_of_nat n"
    using False assms le by (auto simp: f64_of_nat_fin Let_def) (simp add: f64_of_nat_def f64_of_nat_fin [symmetric])
  then show ?thesis
    using False assms
    by (simp add: f64_fract_def f64_sub_def f64_of_nat_fin align_exp_def f64_signed_def Let_def f64_zero_def)
qed

section \<open>Evaluation at numerals\<close>

lemma bitlen_numeral:
  "bitlen 1 = 1" "bitlen (Suc 0) = 1"
  "bitlen (numeral (Num.Bit0 n)) = Suc (bitlen (numeral n))"
  "bitlen (numeral (Num.Bit1 n)) = Suc (bitlen (numeral n))"
  by (subst bitlen.simps, simp)+

lemmas f64_eval = f64_sub_def f64_zero_def f64_one_def f64_of_int_def f64_of_nat_def f64_round_def f64_pack_def
  bitlen_numeral align_exp_def f64_signed_def shift_rne_def f64_le_def f64_max_def f64_min_def f64_is_nan_def
  f64_MIN_POSITIVE_def f64_MAX_def f64_MIN_def i32_min_def i32_max_def u64_max_def Let_def

end
