(* ===== verification/Store_Bins.thy ===== *)
theory Store_Bins
  imports Float64 "HOL-Library.Multiset"
begin

text \<open>
  The \<^verbatim>\<open>Store\<close> trait of the canonical DDSketch (\<^verbatim>\<open>lib/ddsketch/src/canonical/store/mod.rs\<close>), the protobuf
  form of a store, and the loops over contiguous bins that the three dense stores share.

  A trait is a record of its operations, so that code generic over the trait takes the record as an
  argument. The contract of the trait is the locale \<open>sketch_store\<close>: a store is observed as the
  multiset of the bin indices it counts.
\<close>

section \<open>The trait\<close>

datatype proto_error =
    MissingMapping
  | GammaMismatch f64 f64
  | NonZeroIndexOffset f64
  | UnsupportedInterpolation int
  | NegativeBinCount int f64
  | NonIntegerBinCount int f64
  | NegativeZeroCount f64
  | NonIntegerZeroCount f64

text \<open>The generated message \<^verbatim>\<open>sketches::Store\<close>; the map is in its iteration order.\<close>

record proto_store =
  binCounts :: "(int, f64) hash_map"
  contiguousBinCounts :: "f64 list"
  contiguousBinIndexOffset :: int

definition proto_store_new :: proto_store where
  "proto_store_new = \<lparr>binCounts = [], contiguousBinCounts = [], contiguousBinIndexOffset = 0\<rparr>"

definition validate_proto_count :: "int \<Rightarrow> f64 \<Rightarrow> proto_error + nat" where
  "validate_proto_count index cnt =
     (if f64_lt cnt f64_zero then Inl (NegativeBinCount index cnt)
      else if \<not> f64_eq (f64_fract cnt) f64_zero then Inl (NonIntegerBinCount index cnt)
      else Inr (f64_to_u64 cnt))"

text \<open>
  \<^const>\<open>None\<close> is a panic. A method that takes \<^verbatim>\<open>&mut self\<close> returns the store it leaves, next to its
  result where it has one. The last field is the store's \<^verbatim>\<open>Default\<close>, which the readers start from.
\<close>

record 's store_ops =
  so_add :: "int \<Rightarrow> nat \<Rightarrow> 's \<Rightarrow> 's option"
  so_total_count :: "'s \<Rightarrow> nat"
  so_min_index :: "'s \<Rightarrow> int option option"
  so_max_index :: "'s \<Rightarrow> int option option"
  so_key_at_rank :: "nat \<Rightarrow> 's \<Rightarrow> int option option"
  so_merge :: "'s \<Rightarrow> 's \<Rightarrow> 's option"
  so_is_empty :: "'s \<Rightarrow> bool"
  so_clear :: "'s \<Rightarrow> 's"
  so_merge_from_proto :: "proto_store \<Rightarrow> 's \<Rightarrow> ('s \<times> (proto_error + unit)) option"
  so_to_proto :: "'s \<Rightarrow> proto_store"
  so_default :: 's

section \<open>Loops over contiguous bins\<close>

definition bin_key :: "int \<Rightarrow> nat \<Rightarrow> int option" where
  "bin_key offset i = i32_add offset (as_i32 i)"

fun find_nonzero :: "int \<Rightarrow> (nat \<times> nat) list \<Rightarrow> int option option" where
  "find_nonzero offset [] = Some None"
| "find_nonzero offset ((i, cnt) # rest) =
     (if cnt > 0 then map_option Some (bin_key offset i) else find_nonzero offset rest)"

definition bins_min_index :: "int \<Rightarrow> nat list \<Rightarrow> int option option" where
  "bins_min_index offset bins = (if bins = [] then Some None else find_nonzero offset (enumerate 0 bins))"

definition bins_max_index :: "int \<Rightarrow> nat list \<Rightarrow> int option option" where
  "bins_max_index offset bins = (if bins = [] then Some None else find_nonzero offset (rev (enumerate 0 bins)))"

fun rank_loop :: "int \<Rightarrow> nat \<Rightarrow> nat \<Rightarrow> nat \<Rightarrow> nat list \<Rightarrow> int option option" where
  "rank_loop offset rank cumulative i [] = Some None"
| "rank_loop offset rank cumulative i (cnt # rest) = do {
     cumulative' \<leftarrow> u64_add cumulative cnt;
     if cumulative' > rank then map_option Some (bin_key offset i)
     else rank_loop offset rank cumulative' (i + 1) rest
   }"

text \<open>The two loops of \<^verbatim>\<open>merge_from_proto\<close>; \<open>add\<close> is the store's own \<^verbatim>\<open>add\<close>.\<close>

fun proto_sparse_loop ::
    "(int \<Rightarrow> nat \<Rightarrow> 's \<Rightarrow> 's option) \<Rightarrow> (int \<times> f64) list \<Rightarrow> 's \<Rightarrow> ('s \<times> (proto_error + unit)) option" where
  "proto_sparse_loop add [] s = Some (s, Inr ())"
| "proto_sparse_loop add ((index, cnt) # rest) s =
     (case validate_proto_count index cnt of
        Inl e \<Rightarrow> Some (s, Inl e)
      | Inr n \<Rightarrow> do {
          s' \<leftarrow> (if n > 0 then add index n s else Some s);
          proto_sparse_loop add rest s'
        })"

fun proto_contiguous_loop ::
    "(int \<Rightarrow> nat \<Rightarrow> 's \<Rightarrow> 's option) \<Rightarrow> int \<Rightarrow> nat \<Rightarrow> f64 list \<Rightarrow> 's \<Rightarrow> ('s \<times> (proto_error + unit)) option" where
  "proto_contiguous_loop add offset i [] s = Some (s, Inr ())"
| "proto_contiguous_loop add offset i (cnt # rest) s = do {
     index \<leftarrow> bin_key offset i;
     case validate_proto_count index cnt of
       Inl e \<Rightarrow> Some (s, Inl e)
     | Inr n \<Rightarrow> do {
         s' \<leftarrow> (if n > 0 then add index n s else Some s);
         proto_contiguous_loop add offset (i + 1) rest s'
       }
   }"

definition merge_from_proto_with ::
    "(int \<Rightarrow> nat \<Rightarrow> 's \<Rightarrow> 's option) \<Rightarrow> proto_store \<Rightarrow> 's \<Rightarrow> ('s \<times> (proto_error + unit)) option" where
  "merge_from_proto_with add proto s = do {
     (s', r) \<leftarrow> proto_sparse_loop add (binCounts proto) s;
     case r of
       Inl e \<Rightarrow> Some (s', Inl e)
     | Inr _ \<Rightarrow> proto_contiguous_loop add (contiguousBinIndexOffset proto) 0 (contiguousBinCounts proto) s'
   }"

text \<open>The loop of the collapsing stores' \<^verbatim>\<open>merge\<close>: every non-empty bin of the other store is added.\<close>

fun add_bins_loop ::
    "(int \<Rightarrow> nat \<Rightarrow> 's \<Rightarrow> 's option) \<Rightarrow> int \<Rightarrow> nat \<Rightarrow> nat list \<Rightarrow> 's \<Rightarrow> 's option" where
  "add_bins_loop add offset i [] s = Some s"
| "add_bins_loop add offset i (cnt # rest) s =
     (if cnt > 0
      then do { index \<leftarrow> bin_key offset i; s' \<leftarrow> add index cnt s; add_bins_loop add offset (i + 1) rest s' }
      else add_bins_loop add offset (i + 1) rest s)"

definition bins_to_proto :: "int \<Rightarrow> nat list \<Rightarrow> proto_store" where
  "bins_to_proto offset bins =
     (if bins = [] then proto_store_new
      else proto_store_new\<lparr>contiguousBinIndexOffset := offset, contiguousBinCounts := map f64_of_nat bins\<rparr>)"

text \<open>\<^verbatim>\<open>self.bins[i] = self.bins[i].saturating_add(count)\<close>.\<close>

definition bins_add :: "nat \<Rightarrow> nat \<Rightarrow> nat list \<Rightarrow> nat list option" where
  "bins_add i n bins = vec_upd bins i (\<lambda>c. sat_add c n)"

section \<open>The indices that bins cnt\<close>

text \<open>The sorted list of counted indices: as many copies of each index as its bin says.\<close>

fun expand :: "int \<Rightarrow> nat list \<Rightarrow> int list" where
  "expand offset [] = []"
| "expand offset (c # cs) = replicate c offset @ expand (offset + 1) cs"

definition bins_mset :: "int \<Rightarrow> nat list \<Rightarrow> int multiset" where
  "bins_mset offset bins = mset (expand offset bins)"

text \<open>
  Indices for which no index arithmetic of a store can leave \<^verbatim>\<open>i32\<close>. With the accuracies in use the
  mappings stay within a few tens of thousands of zero.
\<close>

definition safe_index :: "int \<Rightarrow> bool" where
  "safe_index i \<longleftrightarrow> - 1073741824 < i \<and> i < 1073741824"

definition safe_window :: "int \<Rightarrow> nat list \<Rightarrow> bool" where
  "safe_window offset bins \<longleftrightarrow> (bins \<noteq> [] \<longrightarrow> safe_index offset \<and> safe_index (offset + int (length bins) - 1))"

lemma length_expand [simp]: "length (expand offset bins) = sum_list bins"
  by (induction offset bins rule: expand.induct) auto

lemma size_bins_mset [simp]: "size (bins_mset offset bins) = sum_list bins"
  by (simp add: bins_mset_def)

lemma expand_append: "expand offset (xs @ ys) = expand offset xs @ expand (offset + int (length xs)) ys"
  by (induction offset xs rule: expand.induct) (auto simp: algebra_simps)

lemma expand_zeros [simp]: "expand offset (replicate k 0) = []"
  by (induction k arbitrary: offset) auto

lemma bins_mset_Nil [simp]: "bins_mset offset [] = {#}"
  by (simp add: bins_mset_def)

lemma bins_mset_Cons: "bins_mset offset (c # cs) = replicate_mset c offset + bins_mset (offset + 1) cs"
  by (simp add: bins_mset_def)

lemma bins_mset_append:
  "bins_mset offset (xs @ ys) = bins_mset offset xs + bins_mset (offset + int (length xs)) ys"
  by (simp add: bins_mset_def expand_append)

lemma bins_mset_zeros [simp]: "bins_mset offset (replicate k 0) = {#}"
  by (simp add: bins_mset_def)

lemma bins_mset_single [simp]: "bins_mset offset [c] = replicate_mset c offset"
  by (simp add: bins_mset_Cons)

lemma expand_range: "k \<in> set (expand offset bins) \<Longrightarrow> offset \<le> k \<and> k < offset + int (length bins)"
  by (induction offset bins rule: expand.induct) force+

lemma bins_mset_range: "k \<in># bins_mset offset bins \<Longrightarrow> offset \<le> k \<and> k < offset + int (length bins)"
  by (simp add: bins_mset_def expand_range)

lemma sorted_expand: "sorted (expand offset bins)"
proof (induction offset bins rule: expand.induct)
  case (2 offset c cs)
  then show ?case by (fastforce simp: sorted_append dest: expand_range)
qed simp

lemma sorted_bins_mset: "sorted_list_of_multiset (bins_mset offset bins) = expand offset bins"
  unfolding bins_mset_def sorted_list_of_multiset_mset using sorted_expand by (rule sorted_sort_id)

lemma bins_mset_update:
  "i < length bins \<Longrightarrow>
   bins_mset offset (bins[i := bins ! i + n]) = bins_mset offset bins + replicate_mset n (offset + int i)"
proof (induction bins arbitrary: i offset)
  case (Cons c cs)
  show ?case
  proof (cases i)
    case 0
    then show ?thesis by (simp add: bins_mset_Cons multiset_eq_iff)
  next
    case (Suc j)
    then show ?thesis using Cons.IH [of j "offset + 1"] Cons.prems by (simp add: bins_mset_Cons algebra_simps)
  qed
qed simp

lemma sum_list_bins_update:
  "i < length (bins :: nat list) \<Longrightarrow> sum_list (bins[i := bins ! i + n]) = sum_list bins + n"
  by (simp add: sum_list_update member_le_sum_list)

lemma bins_add_exact:
  assumes "i < length bins" and "sum_list bins + n \<le> u64_max"
  shows "bins_add i n bins = Some (bins[i := bins ! i + n])"
proof -
  have "bins ! i \<le> sum_list bins" using assms(1) by (simp add: member_le_sum_list)
  with assms show ?thesis by (simp add: bins_add_def vec_upd_def sat_add_exact)
qed

lemma bin_key_ok:
  assumes "safe_window offset bins" and "i < length bins"
  shows "bin_key offset i = Some (offset + int i)"
proof -
  have w: "safe_index offset" "safe_index (offset + int (length bins) - 1)"
    using assms by (auto simp: safe_window_def)
  then have "int i \<le> i32_max" using assms(2) by (auto simp: safe_index_def i32_max_def)
  with w assms(2) show ?thesis by (auto simp: bin_key_def safe_index_def is_i32_bounds i32_add_Some)
qed

text \<open>The rank loop returns the element at that rank of the sorted list of counted indices.\<close>

lemma rank_loop_spec:
  assumes "safe_window offset (pre @ bins)" and "cum = sum_list pre" and "cum \<le> rank"
    and "sum_list (pre @ bins) \<le> u64_max" and "i = length pre"
  shows "rank_loop offset rank cum i bins =
    Some (if rank < sum_list (pre @ bins) then Some (expand offset (pre @ bins) ! rank) else None)"
  using assms
proof (induction bins arbitrary: pre cum i)
  case (Cons c cs)
  have key: "bin_key offset i = Some (offset + int i)"
    by (rule bin_key_ok [OF Cons.prems(1)]) (simp add: Cons.prems(5))
  have add: "u64_add cum c = Some (cum + c)" using Cons.prems(2,4) by simp
  show ?case
  proof (cases "rank < cum + c")
    case True
    then have less: "rank - sum_list pre < c" using Cons.prems(2,3) by linarith
    have "expand offset (pre @ c # cs) ! rank = (expand offset pre @ replicate c (offset + int (length pre)) @
        expand (offset + int (length pre) + 1) cs) ! rank"
      by (simp add: expand_append)
    also have "\<dots> = offset + int i"
      using less Cons.prems(2,3,5) by (simp add: nth_append)
    finally show ?thesis using True key add Cons.prems(2) by simp
  next
    case False
    then show ?thesis using Cons.IH [of "pre @ [c]" "cum + c" "i + 1"] Cons.prems add by simp
  qed
qed simp

lemma key_at_rank_spec:
  assumes "safe_window offset bins" and "sum_list bins \<le> u64_max"
  shows "rank_loop offset rank 0 0 bins =
    Some (if rank < sum_list bins then Some (sorted_list_of_multiset (bins_mset offset bins) ! rank) else None)"
  using rank_loop_spec [of offset "[]" bins 0 rank 0] assms by (simp add: sorted_bins_mset)

section \<open>Smallest and largest index\<close>

lemma find_nonzero_first:
  assumes "\<forall>j < length bins. bin_key offset (i + j) = Some (offset + int (i + j))"
  shows "find_nonzero offset (enumerate i bins) =
    Some (if expand (offset + int i) bins = [] then None else Some (hd (expand (offset + int i) bins)))"
  using assms
proof (induction bins arbitrary: i)
  case (Cons c cs)
  have key: "bin_key offset i = Some (offset + int i)" using Cons.prems by (metis add.right_neutral length_greater_0_conv list.distinct(1))
  show ?case
  proof (cases c)
    case 0
    have "\<forall>j < length cs. bin_key offset (Suc i + j) = Some (offset + int (Suc i + j))"
      using Cons.prems by (metis Suc_less_eq add_Suc_shift length_Cons)
    then show ?thesis using Cons.IH [of "Suc i"] 0 by (simp add: algebra_simps)
  next
    case (Suc m)
    then show ?thesis using key by simp
  qed
qed simp

lemma find_nonzero_last:
  assumes "\<forall>j < length bins. bin_key offset j = Some (offset + int j)"
  shows "find_nonzero offset (rev (enumerate 0 bins)) =
    Some (if expand offset bins = [] then None else Some (last (expand offset bins)))"
  using assms
proof (induction bins rule: rev_induct)
  case (snoc c cs)
  show ?case
  proof (cases c)
    case 0
    then show ?thesis using snoc by (simp add: enumerate_append_eq expand_append)
  next
    case (Suc m)
    then show ?thesis using snoc.prems by (simp add: enumerate_append_eq expand_append)
  qed
qed simp

lemma Max_mset_union: "A \<noteq> {#} \<Longrightarrow> B \<noteq> {#} \<Longrightarrow> Max_mset (A + B) = max (Max_mset A) (Max_mset B)"
  by (simp add: Max_Un)

lemma Min_mset_union: "A \<noteq> {#} \<Longrightarrow> B \<noteq> {#} \<Longrightarrow> Min_mset (A + B) = min (Min_mset A) (Min_mset B)"
  by (simp add: Min_Un)

lemma hd_sorted_list_of_multiset: "M \<noteq> {#} \<Longrightarrow> hd (sorted_list_of_multiset M) = Min_mset M"
proof -
  assume "M \<noteq> {#}"
  then have ne: "sorted_list_of_multiset M \<noteq> []" by (metis mset.simps(1) mset_sorted_list_of_multiset)
  have "sorted (sorted_list_of_multiset M)" by simp
  with ne show ?thesis
    by (cases "sorted_list_of_multiset M")
      (auto intro!: Min_eqI [symmetric] simp flip: set_sorted_list_of_multiset)
qed

lemma last_sorted_list_of_multiset: "M \<noteq> {#} \<Longrightarrow> last (sorted_list_of_multiset M) = Max_mset M"
proof -
  assume "M \<noteq> {#}"
  then have ne: "sorted_list_of_multiset M \<noteq> []" by (metis mset.simps(1) mset_sorted_list_of_multiset)
  have "sorted (sorted_list_of_multiset M)" by simp
  with ne show ?thesis
    by (cases "sorted_list_of_multiset M" rule: rev_cases)
      (auto intro!: Max_eqI [symmetric] simp: sorted_append simp flip: set_sorted_list_of_multiset)
qed

lemma expand_Nil_iff: "expand offset bins = [] \<longleftrightarrow> bins_mset offset bins = {#}"
  by (simp add: bins_mset_def)

lemma min_index_spec:
  assumes "safe_window offset bins"
  shows "bins_min_index offset bins =
    Some (if bins_mset offset bins = {#} then None else Some (Min_mset (bins_mset offset bins)))"
  using find_nonzero_first [of bins offset 0] bin_key_ok [OF assms]
    hd_sorted_list_of_multiset [of "bins_mset offset bins"]
  by (auto simp: bins_min_index_def expand_Nil_iff sorted_bins_mset)

lemma max_index_spec:
  assumes "safe_window offset bins"
  shows "bins_max_index offset bins =
    Some (if bins_mset offset bins = {#} then None else Some (Max_mset (bins_mset offset bins)))"
  using find_nonzero_last [of bins offset] bin_key_ok [OF assms]
    last_sorted_list_of_multiset [of "bins_mset offset bins"]
  by (auto simp: bins_max_index_def expand_Nil_iff sorted_bins_mset)

lemma safe_window_member: "safe_window offset bins \<Longrightarrow> k \<in># bins_mset offset bins \<Longrightarrow> safe_index k"
  by (cases "bins = []") (auto simp: safe_window_def safe_index_def dest!: bins_mset_range)

section \<open>Clamping\<close>

lemma image_max_below: "\<forall>k\<in>#M. k \<le> (f :: int) \<Longrightarrow> image_mset (max f) M = replicate_mset (size M) f"
  by (induction M) auto

lemma image_max_above: "\<forall>k\<in>#M. (f :: int) \<le> k \<Longrightarrow> image_mset (max f) M = M"
  by (induction M) auto

lemma image_min_above: "\<forall>k\<in>#M. (f :: int) \<le> k \<Longrightarrow> image_mset (min f) M = replicate_mset (size M) f"
  by (induction M) auto

lemma image_min_below: "\<forall>k\<in>#M. k \<le> (f :: int) \<Longrightarrow> image_mset (min f) M = M"
  by (induction M) auto

lemma collapse_low_mset:
  assumes "n < length bins"
  shows "bins_mset (offset + int n) ((bins ! n + sum_list (take n bins)) # drop (Suc n) bins) =
    image_mset (max (offset + int n)) (bins_mset offset bins)"
proof -
  let ?f = "offset + int n"
  have "bins = take n bins @ bins ! n # drop (Suc n) bins" using assms by (rule id_take_nth_drop)
  then have split: "bins_mset offset bins =
      bins_mset offset (take n bins) + bins_mset ?f (bins ! n # drop (Suc n) bins)"
    using assms bins_mset_append [of offset "take n bins"] by (metis length_take min.absorb4)
  have low: "image_mset (max ?f) (bins_mset offset (take n bins)) = replicate_mset (sum_list (take n bins)) ?f"
    by (subst image_max_below) (use assms in \<open>auto dest: bins_mset_range\<close>)
  have high: "image_mset (max ?f) (bins_mset ?f (bins ! n # drop (Suc n) bins)) =
      bins_mset ?f (bins ! n # drop (Suc n) bins)"
    by (rule image_max_above) (auto dest: bins_mset_range)
  show ?thesis unfolding split image_mset_union low high
    by (simp add: bins_mset_Cons multiset_eq_iff)
qed

lemma collapse_all_low:
  "offset + int (length bins) - 1 \<le> f \<Longrightarrow>
   image_mset (max f) (bins_mset offset bins) = replicate_mset (sum_list bins) f"
  by (subst image_max_below) (auto dest: bins_mset_range)

lemma collapse_high_mset:
  assumes "0 < k" and "k < length bins"
  shows "bins_mset offset (take (k - 1) bins @ [bins ! (k - 1) + sum_list (drop k bins)]) =
    image_mset (min (offset + int k - 1)) (bins_mset offset bins)"
proof -
  let ?f = "offset + int k - 1"
  have "bins = take (k - 1) bins @ bins ! (k - 1) # drop (Suc (k - 1)) bins"
    using assms by (intro id_take_nth_drop) simp
  then have "bins = (take (k - 1) bins @ [bins ! (k - 1)]) @ drop k bins" using assms by simp
  then have split: "bins_mset offset bins =
      bins_mset offset (take (k - 1) bins @ [bins ! (k - 1)]) + bins_mset (offset + int k) (drop k bins)"
    using bins_mset_append [of offset "take (k - 1) bins @ [bins ! (k - 1)]" "drop k bins"] assms
    by (simp add: of_nat_diff)
  have low: "image_mset (min ?f) (bins_mset offset (take (k - 1) bins @ [bins ! (k - 1)])) =
      bins_mset offset (take (k - 1) bins @ [bins ! (k - 1)])"
    by (rule image_min_below) (use assms in \<open>auto dest: bins_mset_range\<close>)
  have high: "image_mset (min ?f) (bins_mset (offset + int k) (drop k bins)) =
      replicate_mset (sum_list (drop k bins)) ?f"
    by (subst image_min_above) (auto dest: bins_mset_range)
  show ?thesis unfolding split image_mset_union low high
    using assms by (simp add: bins_mset_append multiset_eq_iff of_nat_diff)
qed

lemma collapse_all_high:
  "f \<le> offset \<Longrightarrow> image_mset (min f) (bins_mset offset bins) = replicate_mset (sum_list bins) f"
  by (subst image_min_above) (auto dest: bins_mset_range)

section \<open>Stores that represent their observations\<close>

text \<open>
  The first half of the contract: \<open>rep s M\<close> says that the store \<open>s\<close> represents the observations \<open>M\<close>,
  and adding an observation that fits keeps that relation. Loops of additions follow.
\<close>

locale store_add =
  fixes add :: "int \<Rightarrow> nat \<Rightarrow> 's \<Rightarrow> 's option"
    and rep :: "'s \<Rightarrow> int multiset \<Rightarrow> bool"
  assumes rep_add:
    "rep s M \<Longrightarrow> safe_index i \<Longrightarrow> size M + n \<le> u64_max \<Longrightarrow>
     \<exists>s'. add i n s = Some s' \<and> rep s' (M + replicate_mset n i)"
begin

lemma rep_add_bins:
  assumes "rep s M" and "safe_window offset (pre @ bins)" and "i = length pre"
    and "size M + sum_list bins \<le> u64_max"
  shows "\<exists>s'. add_bins_loop add offset i bins s = Some s' \<and> rep s' (M + bins_mset (offset + int i) bins)"
  using assms
proof (induction bins arbitrary: pre i s M)
  case (Cons c cs)
  have key: "bin_key offset i = Some (offset + int i)"
    by (rule bin_key_ok [OF Cons.prems(2)]) (simp add: Cons.prems(3))
  have safe: "safe_index (offset + int i)" using Cons.prems(2,3) by (auto simp: safe_window_def safe_index_def)
  obtain s' where s': "add (offset + int i) c s = Some s'" "rep s' (M + replicate_mset c (offset + int i))"
    using rep_add [OF Cons.prems(1) safe, of c] Cons.prems(4) by auto
  have ih: "\<exists>s''. add_bins_loop add offset (i + 1) cs t = Some s'' \<and> rep s'' (N + bins_mset (offset + int i + 1) cs)"
    if "rep t N" "size N + sum_list cs \<le> u64_max" for t N
    using Cons.IH [of t N "pre @ [c]" "i + 1"] Cons.prems(2,3) that by (simp add: algebra_simps)
  show ?case
  proof (cases "c = 0")
    case True
    then show ?thesis using ih [OF Cons.prems(1)] Cons.prems(4) by (simp add: bins_mset_Cons)
  next
    case False
    then show ?thesis using ih [OF s'(2)] Cons.prems(4) s'(1) key
      by (auto simp: bins_mset_Cons ac_simps)
  qed
qed simp

end

text \<open>What a protobuf store holds, when every count is an integer below \<open>2 ^ 53\<close>.\<close>

definition pairs_mset :: "(int \<times> nat) list \<Rightarrow> int multiset" where
  "pairs_mset kcs = (\<Sum>(k, c)\<leftarrow>kcs. replicate_mset c k)"

lemma pairs_mset_simps [simp]:
  "pairs_mset [] = {#}" "pairs_mset ((k, c) # kcs) = replicate_mset c k + pairs_mset kcs"
  by (simp_all add: pairs_mset_def)

definition proto_holds :: "proto_store \<Rightarrow> int multiset \<Rightarrow> bool" where
  "proto_holds p M \<longleftrightarrow>
     (\<exists>kcs cs. binCounts p = map (\<lambda>(k, c). (k, f64_of_nat c)) kcs \<and>
        contiguousBinCounts p = map f64_of_nat cs \<and>
        (\<forall>(k, c)\<in>set kcs. safe_index k \<and> c < 2 ^ 53) \<and>
        safe_window (contiguousBinIndexOffset p) cs \<and> (\<forall>c\<in>set cs. c < 2 ^ 53) \<and>
        M = pairs_mset kcs + bins_mset (contiguousBinIndexOffset p) cs)"

lemma validate_proto_count_of_nat: "n < 2 ^ 53 \<Longrightarrow> validate_proto_count i (f64_of_nat n) = Inr n"
  by (simp add: validate_proto_count_def f64_of_nat_not_neg f64_fract_of_nat f64_to_u64_of_nat)

lemma bins_to_proto_holds:
  assumes "safe_window offset bins" and "sum_list bins < 2 ^ 53"
  shows "proto_holds (bins_to_proto offset bins) (bins_mset offset bins)"
proof -
  have small: "\<forall>c\<in>set bins. c < 2 ^ 53"
  proof
    fix c
    assume "c \<in> set bins"
    then have "c \<le> sum_list bins" by (simp add: member_le_sum_list)
    with assms(2) show "c < 2 ^ 53" by linarith
  qed
  show ?thesis
  proof (cases "bins = []")
    case True
    then show ?thesis unfolding proto_holds_def
      by (intro exI [of _ "[]"]) (simp add: bins_to_proto_def proto_store_new_def safe_window_def)
  next
    case False
    show ?thesis unfolding proto_holds_def
      by (rule exI [of _ "[]"], rule exI [of _ bins])
        (use False small assms(1) in \<open>simp add: bins_to_proto_def proto_store_new_def\<close>)
  qed
qed

context store_add
begin

lemma rep_proto_sparse:
  assumes "rep s M" and "\<forall>(k, c)\<in>set kcs. safe_index k \<and> c < 2 ^ 53" and "size M + size (pairs_mset kcs) \<le> u64_max"
  shows "\<exists>s'. proto_sparse_loop add (map (\<lambda>(k, c). (k, f64_of_nat c)) kcs) s = Some (s', Inr ()) \<and>
    rep s' (M + pairs_mset kcs)"
  using assms
proof (induction kcs arbitrary: s M)
  case (Cons p kcs)
  obtain k c where p: "p = (k, c)" by (cases p)
  obtain s' where s': "add k c s = Some s'" "rep s' (M + replicate_mset c k)"
    using rep_add [OF Cons.prems(1), of k c] Cons.prems(2,3) p by auto
  have "validate_proto_count k (f64_of_nat c) = Inr c"
    using Cons.prems(2) p by (intro validate_proto_count_of_nat) auto
  with Cons.IH [OF s'(2)] Cons.IH [OF Cons.prems(1)] Cons.prems s' show ?case
    by (cases "c = 0") (auto simp: p ac_simps)
qed simp

lemma rep_proto_contiguous:
  assumes "rep s M" and "safe_window offset (pre @ bins)" and "i = length pre"
    and "\<forall>c\<in>set bins. c < 2 ^ 53" and "size M + sum_list bins \<le> u64_max"
  shows "\<exists>s'. proto_contiguous_loop add offset i (map f64_of_nat bins) s = Some (s', Inr ()) \<and>
    rep s' (M + bins_mset (offset + int i) bins)"
  using assms
proof (induction bins arbitrary: pre i s M)
  case (Cons c cs)
  have key: "bin_key offset i = Some (offset + int i)"
    by (rule bin_key_ok [OF Cons.prems(2)]) (simp add: Cons.prems(3))
  have safe: "safe_index (offset + int i)" using Cons.prems(2,3) by (auto simp: safe_window_def safe_index_def)
  have v: "validate_proto_count (offset + int i) (f64_of_nat c) = Inr c"
    using Cons.prems(4) by (intro validate_proto_count_of_nat) auto
  obtain s' where s': "add (offset + int i) c s = Some s'" "rep s' (M + replicate_mset c (offset + int i))"
    using rep_add [OF Cons.prems(1) safe, of c] Cons.prems(5) by auto
  have ih: "\<exists>s''. proto_contiguous_loop add offset (i + 1) (map f64_of_nat cs) t = Some (s'', Inr ()) \<and>
      rep s'' (N + bins_mset (offset + int i + 1) cs)"
    if "rep t N" "size N + sum_list cs \<le> u64_max" for t N
    using Cons.IH [of t N "pre @ [c]" "i + 1"] Cons.prems(2,3,4) that by (simp add: algebra_simps)
  show ?case
  proof (cases "c = 0")
    case True
    then show ?thesis using ih [OF Cons.prems(1)] Cons.prems(5) key v by (simp add: bins_mset_Cons)
  next
    case False
    then show ?thesis using ih [OF s'(2)] Cons.prems(5) s'(1) key v by (auto simp: bins_mset_Cons ac_simps)
  qed
qed simp

lemma rep_merge_from_proto:
  assumes "rep s M" and "proto_holds p M'" and "size M + size M' \<le> u64_max"
  shows "\<exists>s'. merge_from_proto_with add p s = Some (s', Inr ()) \<and> rep s' (M + M')"
proof -
  from assms(2) obtain kcs cs where p: "binCounts p = map (\<lambda>(k, c). (k, f64_of_nat c)) kcs"
      "contiguousBinCounts p = map f64_of_nat cs" "\<forall>(k, c)\<in>set kcs. safe_index k \<and> c < 2 ^ 53"
      "safe_window (contiguousBinIndexOffset p) cs" "\<forall>c\<in>set cs. c < 2 ^ 53"
      "M' = pairs_mset kcs + bins_mset (contiguousBinIndexOffset p) cs"
    unfolding proto_holds_def by blast
  from rep_proto_sparse [OF assms(1) p(3)] assms(3) p(6) obtain s1 where
    s1: "proto_sparse_loop add (binCounts p) s = Some (s1, Inr ())" "rep s1 (M + pairs_mset kcs)"
    by (auto simp: p(1))
  from rep_proto_contiguous [OF s1(2), of "contiguousBinIndexOffset p" "[]" cs 0] p assms(3) obtain s2 where
    s2: "proto_contiguous_loop add (contiguousBinIndexOffset p) 0 (contiguousBinCounts p) s1 = Some (s2, Inr ())"
      "rep s2 (M + pairs_mset kcs + bins_mset (contiguousBinIndexOffset p) cs)"
    by auto
  with s1 p(6) show ?thesis by (auto simp: merge_from_proto_with_def ac_simps)
qed

end

text \<open>
  The whole contract of the trait. \<open>view M\<close> is the multiset of indices a store reports when it
  represents \<open>M\<close>: \<open>M\<close> itself for the stores that never collapse.
\<close>

locale sketch_store = store_add "so_add ops" rep
  for ops :: "'s store_ops" and rep :: "'s \<Rightarrow> int multiset \<Rightarrow> bool" +
  fixes init :: 's and view :: "int multiset \<Rightarrow> int multiset"
  assumes rep_init: "rep init {#}"
    and size_view: "size (view M) = size M"
    and rep_total: "rep s M \<Longrightarrow> so_total_count ops s = size M \<and> size M \<le> u64_max"
    and rep_is_empty: "rep s M \<Longrightarrow> so_is_empty ops s \<longleftrightarrow> M = {#}"
    and rep_key_at_rank: "rep s M \<Longrightarrow> so_key_at_rank ops r s =
      Some (if r < size M then Some (sorted_list_of_multiset (view M) ! r) else None)"
    and rep_min_index: "rep s M \<Longrightarrow> so_min_index ops s =
      Some (if M = {#} then None else Some (Min_mset (view M)))"
    and rep_max_index: "rep s M \<Longrightarrow> so_max_index ops s =
      Some (if M = {#} then None else Some (Max_mset (view M)))"
    and rep_merge: "rep s M \<Longrightarrow> rep t M' \<Longrightarrow> size M + size M' \<le> u64_max \<Longrightarrow>
      \<exists>s'. so_merge ops t s = Some s' \<and> rep s' (M + M')"
    and rep_clear: "rep s M \<Longrightarrow> rep (so_clear ops s) {#}"
    and rep_view: "rep t M' \<Longrightarrow> rep s (M + view M') \<Longrightarrow> rep s (M + M')"
    and merge_from_proto_loop: "so_merge_from_proto ops p s = merge_from_proto_with (so_add ops) p s"
    and rep_to_proto: "rep s M \<Longrightarrow> size M < 2 ^ 53 \<Longrightarrow> proto_holds (so_to_proto ops s) (view M)"
begin

text \<open>Everything observable depends on the observations alone, not on the order they came in.\<close>

lemma same_observations:
  "rep s M \<Longrightarrow> rep t M \<Longrightarrow>
   so_key_at_rank ops r s = so_key_at_rank ops r t \<and> so_total_count ops s = so_total_count ops t \<and>
   so_min_index ops s = so_min_index ops t \<and> so_max_index ops s = so_max_index ops t"
  by (simp add: rep_key_at_rank rep_total rep_min_index rep_max_index)

end

end
