(* ===== verification/Index_Mapping.thy ===== *)
theory Index_Mapping
  imports Store_Bins
begin

text \<open>
  The index mappings of the canonical DDSketch: the trait \<^verbatim>\<open>IndexMapping\<close> (\<^verbatim>\<open>mapping/mod.rs\<close>) as a record of
  its operations, \<^verbatim>\<open>LogarithmicMapping\<close> (\<^verbatim>\<open>mapping/logarithmic.rs\<close>) and \<^verbatim>\<open>FixedLogarithmicMapping\<close>
  (\<^verbatim>\<open>mapping/fixed.rs\<close>).

  The transcendental functions of the platform's math library, the comparison \<^verbatim>\<open>approx_eq_ratio\<close> of the
  \<^verbatim>\<open>float_cmp\<close> package and the total order of the \<^verbatim>\<open>ordered_float\<close> package are the record \<open>math\<close>, an argument of
  the definitions that use them.
\<close>

record math =
  ln_f64 :: "f64 \<Rightarrow> f64"
  ln_1p_f64 :: "f64 \<Rightarrow> f64"
  exp_f64 :: "f64 \<Rightarrow> f64"
  powf_f64 :: "f64 \<Rightarrow> f64 \<Rightarrow> f64"
  approx_eq_ratio :: "f64 \<Rightarrow> f64 \<Rightarrow> f64 \<Rightarrow> bool"
  ordered_eq :: "f64 \<Rightarrow> f64 \<Rightarrow> bool"
  ordered_le :: "f64 \<Rightarrow> f64 \<Rightarrow> bool"

section \<open>The trait\<close>

datatype interpolation = NONE | LINEAR | QUADRATIC | CUBIC

fun interpolation_i32 :: "interpolation \<Rightarrow> int" where
  "interpolation_i32 NONE = 0"
| "interpolation_i32 LINEAR = 1"
| "interpolation_i32 QUADRATIC = 2"
| "interpolation_i32 CUBIC = 3"

text \<open>
  The message \<^verbatim>\<open>IndexMapping\<close>; the enumeration travels as a number, and a number that names no
  variant reads as the default one.
\<close>

record proto_mapping =
  pm_gamma :: f64
  pm_indexOffset :: f64
  pm_interpolation :: int

definition enum_value_or_default :: "int \<Rightarrow> interpolation" where
  "enum_value_or_default i = (if i = 1 then LINEAR else if i = 2 then QUADRATIC else if i = 3 then CUBIC else NONE)"

record 'm mapping_ops =
  mo_index :: "'m \<Rightarrow> f64 \<Rightarrow> int option"
  mo_value :: "'m \<Rightarrow> int \<Rightarrow> f64"
  mo_lower_bound :: "'m \<Rightarrow> int \<Rightarrow> f64"
  mo_relative_accuracy :: "'m \<Rightarrow> f64"
  mo_min_indexable_value :: "'m \<Rightarrow> f64"
  mo_max_indexable_value :: "'m \<Rightarrow> f64"
  mo_gamma :: "'m \<Rightarrow> f64"
  mo_index_offset :: "'m \<Rightarrow> f64"
  mo_interpolation :: "'m \<Rightarrow> interpolation"
  mo_validate_proto_mapping :: "'m \<Rightarrow> proto_mapping \<Rightarrow> proto_error + unit"
  mo_to_proto :: "'m \<Rightarrow> proto_mapping"

text \<open>\<^verbatim>\<open>RATIO_ERROR\<close> is the double nearest to \<open>1e-8\<close>.\<close>

definition RATIO_ERROR :: f64 where
  "RATIO_ERROR = F64_Fin False 6044629098073146 (-79)"

definition float_eq :: "math \<Rightarrow> f64 \<Rightarrow> f64 \<Rightarrow> bool" where
  "float_eq mt l r \<longleftrightarrow>
     (f64_is_nan l \<and> f64_is_nan r) \<or> approx_eq_ratio mt l r RATIO_ERROR"

section \<open>The logarithmic mapping\<close>

record logarithmic_mapping =
  lm_gamma :: f64
  lm_index_offset :: f64
  lm_multiplier :: f64

definition logarithmic_new :: "math \<Rightarrow> f64 \<Rightarrow> string + logarithmic_mapping" where
  "logarithmic_new mt relative_accuracy =
     (if f64_le relative_accuracy f64_zero \<or> f64_le f64_one relative_accuracy
      then Inl ''relative accuracy must be between 0 and 1 (exclusive)''
      else let gamma = f64_div (f64_add f64_one relative_accuracy) (f64_sub f64_one relative_accuracy)
        in if f64_le gamma f64_one then Inl ''gamma must be greater than 1''
           else Inr \<lparr>lm_gamma = gamma, lm_index_offset = f64_zero,
                     lm_multiplier = f64_div f64_one (ln_f64 mt gamma)\<rparr>)"

definition logarithmic_new_with_gamma_and_offset :: "math \<Rightarrow> f64 \<Rightarrow> f64 \<Rightarrow> string + logarithmic_mapping" where
  "logarithmic_new_with_gamma_and_offset mt gamma index_offset =
     (if f64_le gamma f64_one then Inl ''gamma must be greater than 1''
      else Inr \<lparr>lm_gamma = gamma, lm_index_offset = index_offset,
                lm_multiplier = f64_div f64_one (ln_f64 mt gamma)\<rparr>)"

definition logarithmic_new_with_gamma :: "math \<Rightarrow> f64 \<Rightarrow> string + logarithmic_mapping" where
  "logarithmic_new_with_gamma mt gamma = logarithmic_new_with_gamma_and_offset mt gamma f64_zero"

text \<open>The last step of both \<^verbatim>\<open>index\<close> functions; \<^verbatim>\<open>(index as i32) - 1\<close> may overflow.\<close>

definition round_index :: "f64 \<Rightarrow> int option" where
  "round_index index = (if f64_le f64_zero index then Some (f64_to_i32 index) else i32_sub (f64_to_i32 index) 1)"

definition logarithmic_index :: "math \<Rightarrow> logarithmic_mapping \<Rightarrow> f64 \<Rightarrow> int option" where
  "logarithmic_index mt m v =
     round_index (f64_add (f64_mul (ln_f64 mt v) (lm_multiplier m)) (lm_index_offset m))"

definition logarithmic_relative_accuracy :: "logarithmic_mapping \<Rightarrow> f64" where
  "logarithmic_relative_accuracy m = f64_div (f64_sub (lm_gamma m) f64_one) (f64_add (lm_gamma m) f64_one)"

definition logarithmic_lower_bound :: "math \<Rightarrow> logarithmic_mapping \<Rightarrow> int \<Rightarrow> f64" where
  "logarithmic_lower_bound mt m i =
     exp_f64 mt (f64_div (f64_sub (f64_of_int i) (lm_index_offset m)) (lm_multiplier m))"

definition logarithmic_value :: "math \<Rightarrow> logarithmic_mapping \<Rightarrow> int \<Rightarrow> f64" where
  "logarithmic_value mt m i =
     f64_mul (logarithmic_lower_bound mt m i) (f64_add f64_one (logarithmic_relative_accuracy m))"

definition logarithmic_min_indexable_value :: "math \<Rightarrow> logarithmic_mapping \<Rightarrow> f64" where
  "logarithmic_min_indexable_value mt m =
     f64_max f64_MIN_POSITIVE
       (exp_f64 mt (f64_add (f64_div (f64_sub (f64_of_int i32_min) (lm_index_offset m)) (lm_multiplier m)) f64_one))"

definition logarithmic_max_indexable_value :: "math \<Rightarrow> logarithmic_mapping \<Rightarrow> f64" where
  "logarithmic_max_indexable_value mt m =
     f64_min
       (exp_f64 mt (f64_sub (f64_div (f64_sub (f64_of_int i32_max) (lm_index_offset m)) (lm_multiplier m)) f64_one))
       (f64_div f64_MAX (lm_gamma m))"

definition logarithmic_validate_proto_mapping :: "math \<Rightarrow> logarithmic_mapping \<Rightarrow> proto_mapping \<Rightarrow> proto_error + unit" where
  "logarithmic_validate_proto_mapping mt m proto =
     (if \<not> float_eq mt (pm_gamma proto) (lm_gamma m) then Inl (GammaMismatch (lm_gamma m) (pm_gamma proto))
      else if \<not> float_eq mt (pm_indexOffset proto) (lm_index_offset m)
      then Inl (NonZeroIndexOffset (pm_indexOffset proto))
      else let interpolation = enum_value_or_default (pm_interpolation proto)
        in if interpolation \<noteq> NONE then Inl (UnsupportedInterpolation (interpolation_i32 interpolation))
           else Inr ())"

definition logarithmic_to_proto :: "logarithmic_mapping \<Rightarrow> proto_mapping" where
  "logarithmic_to_proto m =
     \<lparr>pm_gamma = lm_gamma m, pm_indexOffset = lm_index_offset m, pm_interpolation = interpolation_i32 NONE\<rparr>"

definition logarithmic_ops :: "math \<Rightarrow> logarithmic_mapping mapping_ops" where
  "logarithmic_ops mt =
     \<lparr>mo_index = logarithmic_index mt, mo_value = logarithmic_value mt, mo_lower_bound = logarithmic_lower_bound mt,
      mo_relative_accuracy = logarithmic_relative_accuracy,
      mo_min_indexable_value = logarithmic_min_indexable_value mt,
      mo_max_indexable_value = logarithmic_max_indexable_value mt,
      mo_gamma = lm_gamma, mo_index_offset = lm_index_offset, mo_interpolation = (\<lambda>_. NONE),
      mo_validate_proto_mapping = logarithmic_validate_proto_mapping mt, mo_to_proto = logarithmic_to_proto\<rparr>"

text \<open>\<^verbatim>\<open>LogarithmicMapping::default\<close>: the accuracy is the double nearest to \<open>0.01\<close>.\<close>

definition logarithmic_default :: "math \<Rightarrow> logarithmic_mapping option" where
  "logarithmic_default mt = (case logarithmic_new mt (F64_Fin False 5764607523034235 (-59)) of
     Inl _ \<Rightarrow> None | Inr m \<Rightarrow> Some m)"

section \<open>The fixed mapping\<close>

definition fixed_GAMMA :: f64 where
  "fixed_GAMMA = F64_Fin False 4594581438024445 (-52)"

definition fixed_MULTIPLIER :: f64 where
  "fixed_MULTIPLIER = F64_Fin False 7036639849030512 (-47)"

definition fixed_RELATIVE_ACCURACY :: f64 where
  "fixed_RELATIVE_ACCURACY = F64_Fin False 5764607523034235 (-59)"

definition fixed_index :: "math \<Rightarrow> f64 \<Rightarrow> int option" where
  "fixed_index mt v = round_index (f64_mul (ln_f64 mt v) fixed_MULTIPLIER)"

definition fixed_lower_bound :: "math \<Rightarrow> int \<Rightarrow> f64" where
  "fixed_lower_bound mt i = exp_f64 mt (f64_div (f64_of_int i) fixed_MULTIPLIER)"

definition fixed_value :: "math \<Rightarrow> int \<Rightarrow> f64" where
  "fixed_value mt i = f64_mul (fixed_lower_bound mt i) (f64_add f64_one fixed_RELATIVE_ACCURACY)"

definition fixed_min_indexable_value :: "math \<Rightarrow> f64" where
  "fixed_min_indexable_value mt =
     f64_max f64_MIN_POSITIVE (powf_f64 mt fixed_GAMMA (f64_add (f64_of_int i32_min) f64_one))"

definition fixed_max_indexable_value :: "math \<Rightarrow> f64" where
  "fixed_max_indexable_value mt =
     f64_min (powf_f64 mt fixed_GAMMA (f64_sub (f64_of_int i32_max) f64_one)) (f64_div f64_MAX fixed_GAMMA)"

definition fixed_validate_proto_mapping :: "math \<Rightarrow> proto_mapping \<Rightarrow> proto_error + unit" where
  "fixed_validate_proto_mapping mt proto =
     (if \<not> float_eq mt (pm_gamma proto) fixed_GAMMA then Inl (GammaMismatch fixed_GAMMA (pm_gamma proto))
      else if \<not> f64_eq (pm_indexOffset proto) f64_zero then Inl (NonZeroIndexOffset (pm_indexOffset proto))
      else let interpolation = enum_value_or_default (pm_interpolation proto)
        in if interpolation \<noteq> NONE then Inl (UnsupportedInterpolation (interpolation_i32 interpolation))
           else Inr ())"

definition fixed_to_proto :: proto_mapping where
  "fixed_to_proto = \<lparr>pm_gamma = fixed_GAMMA, pm_indexOffset = f64_zero, pm_interpolation = interpolation_i32 NONE\<rparr>"

definition fixed_ops :: "math \<Rightarrow> unit mapping_ops" where
  "fixed_ops mt =
     \<lparr>mo_index = (\<lambda>_. fixed_index mt), mo_value = (\<lambda>_. fixed_value mt), mo_lower_bound = (\<lambda>_. fixed_lower_bound mt),
      mo_relative_accuracy = (\<lambda>_. fixed_RELATIVE_ACCURACY),
      mo_min_indexable_value = (\<lambda>_. fixed_min_indexable_value mt),
      mo_max_indexable_value = (\<lambda>_. fixed_max_indexable_value mt),
      mo_gamma = (\<lambda>_. fixed_GAMMA), mo_index_offset = (\<lambda>_. f64_zero), mo_interpolation = (\<lambda>_. NONE),
      mo_validate_proto_mapping = (\<lambda>_. fixed_validate_proto_mapping mt), mo_to_proto = (\<lambda>_. fixed_to_proto)\<rparr>"

section \<open>The contract of a mapping\<close>

lemma f64_lt_zero_iff [simp]: "f64_lt f64_zero (F64_Fin s m e) \<longleftrightarrow> \<not> s \<and> 0 < m"
  by (auto simp: f64_zero_def align_exp_def f64_signed_def Let_def zero_less_mult_iff)

lemma f64_lt_pos_trans: "f64_lt (F64_Fin False m e) y \<Longrightarrow> f64_lt f64_zero y"
proof (cases y)
  case (F64_Fin s m' e')
  assume "f64_lt (F64_Fin False m e) y"
  then have "align_exp (min e e') False m e < align_exp (min e e') s m' e'" by (simp add: F64_Fin Let_def)
  moreover have "0 \<le> align_exp (min e e') False m e" by (simp add: align_exp_def f64_signed_def)
  ultimately have "0 < align_exp (min e e') s m' e'" by linarith
  then show ?thesis
    by (cases s) (auto simp: F64_Fin align_exp_def f64_signed_def zero_less_mult_iff)
qed (auto simp: f64_zero_def)

lemma f64_lt_neg_pos:
  assumes y: "f64_lt f64_zero y" and v: "f64_lt v (f64_neg y)"
  shows "f64_lt v f64_zero"
proof (cases v; cases y)
  fix s m e s' m' e'
  assume [simp]: "v = F64_Fin s m e" "y = F64_Fin s' m' e'"
  have "\<not> s'" using y by simp
  then have "align_exp (min e e') s m e < align_exp (min e e') True m' e'" using v by (simp add: Let_def)
  moreover have "align_exp (min e e') True m' e' \<le> 0" by (simp add: align_exp_def f64_signed_def)
  ultimately have "align_exp (min e e') s m e < 0" by linarith
  then show ?thesis
    by (cases s) (auto simp: f64_zero_def align_exp_def f64_signed_def Let_def mult_less_0_iff zero_less_mult_iff)
qed (use y v in \<open>auto simp: f64_zero_def\<close>)

lemma f64_lt_not_le: "f64_lt x y \<Longrightarrow> \<not> f64_le y x"
  by (cases x; cases y) (auto simp: f64_le_def Let_def min.commute)

text \<open>
  What the sketches rely on: the values sent to the bins are bounded away from zero, and a mapping
  accepts its own protobuf form.
\<close>

locale index_mapping =
  fixes ops :: "'m mapping_ops" and ok :: "'m \<Rightarrow> bool"
  assumes min_indexable_pos: "ok m \<Longrightarrow> f64_lt f64_zero (mo_min_indexable_value ops m)"
    and own_proto: "ok m \<Longrightarrow> mo_validate_proto_mapping ops m (mo_to_proto ops m) = Inr ()"
begin

lemma nonneg_not_below:
  assumes "ok m" and "f64_le f64_zero v"
  shows "\<not> f64_lt v (f64_neg (mo_min_indexable_value ops m))"
  using f64_lt_neg_pos [OF min_indexable_pos [OF assms(1)]] f64_lt_not_le assms(2) by blast

end

text \<open>
  The comparison by ratio accepts a finite number against itself at the tolerance the code passes:
  the two differ by nothing, and nothing is within the tolerance. Of infinities, whose difference is
  not a number, and of other tolerances nothing is assumed.
\<close>

definition ratio_reflexive :: "math \<Rightarrow> bool" where
  "ratio_reflexive mt \<longleftrightarrow> (\<forall>x. f64_is_finite x \<longrightarrow> approx_eq_ratio mt x x RATIO_ERROR)"

lemma float_eq_refl: "ratio_reflexive mt \<Longrightarrow> f64_is_finite x \<Longrightarrow> float_eq mt x x"
  by (simp add: float_eq_def ratio_reflexive_def)

definition logarithmic_ok :: "math \<Rightarrow> logarithmic_mapping \<Rightarrow> bool" where
  "logarithmic_ok mt m \<longleftrightarrow> ratio_reflexive mt \<and> f64_is_finite (lm_gamma m) \<and> f64_is_finite (lm_index_offset m)"

lemma max_MIN_POSITIVE_pos: "f64_lt f64_zero (f64_max f64_MIN_POSITIVE y)"
proof -
  have "f64_lt f64_zero f64_MIN_POSITIVE" by (simp add: f64_MIN_POSITIVE_def)
  moreover have "f64_lt f64_MIN_POSITIVE y \<Longrightarrow> f64_lt f64_zero y"
    by (simp add: f64_MIN_POSITIVE_def f64_lt_pos_trans)
  ultimately show ?thesis by (auto simp: f64_max_def f64_is_nan_def f64_MIN_POSITIVE_def)
qed

interpretation log_map: index_mapping "logarithmic_ops mt" "logarithmic_ok mt" for mt
  by unfold_locales
    (simp_all add: logarithmic_ok_def logarithmic_ops_def logarithmic_min_indexable_value_def max_MIN_POSITIVE_pos
      logarithmic_validate_proto_mapping_def logarithmic_to_proto_def float_eq_refl enum_value_or_default_def)

interpretation fixed_map: index_mapping "fixed_ops mt" "\<lambda>m. ratio_reflexive mt" for mt
  by unfold_locales
    (simp_all add: fixed_ops_def fixed_min_indexable_value_def max_MIN_POSITIVE_pos
      fixed_validate_proto_mapping_def fixed_to_proto_def enum_value_or_default_def,
     simp add: f64_zero_def float_eq_refl fixed_GAMMA_def)

text \<open>The fixed mapping indexes as the dynamic one that has its constants.\<close>

definition fixed_as_logarithmic :: logarithmic_mapping where
  "fixed_as_logarithmic = \<lparr>lm_gamma = fixed_GAMMA, lm_index_offset = f64_zero, lm_multiplier = fixed_MULTIPLIER\<rparr>"

lemma f64_mul_valid: "f64_valid (f64_mul x y)"
  by (cases "(x, y)" rule: f64_mul.cases) (auto simp: f64_round_valid)

lemma round_index_add_zero: "f64_valid x \<Longrightarrow> round_index (f64_add x f64_zero) = round_index x"
proof (cases "x = F64_Fin True 0 (-1074)")
  case True
  then show ?thesis
    by (simp add: round_index_def f64_le_def f64_zero_def align_exp_def f64_signed_def)
qed (simp add: f64_add_zero)

lemma fixed_index_agrees: "fixed_index mt v = logarithmic_index mt fixed_as_logarithmic v"
  by (simp add: fixed_index_def logarithmic_index_def fixed_as_logarithmic_def round_index_add_zero f64_mul_valid)

text \<open>An accuracy that is not a number passes both range checks.\<close>

lemma logarithmic_new_nan:
  "logarithmic_new mt F64_NaN =
     Inr \<lparr>lm_gamma = F64_NaN, lm_index_offset = f64_zero, lm_multiplier = f64_div f64_one (ln_f64 mt F64_NaN)\<rparr>"
  by (simp add: logarithmic_new_def f64_le_def f64_sub_def f64_one_def f64_zero_def)

section \<open>A stand-in for the math library\<close>

text \<open>Its logarithm and its exponential are the identity, and its comparison is equality.\<close>

definition example_math :: math where
  "example_math = \<lparr>ln_f64 = (\<lambda>x. x), ln_1p_f64 = (\<lambda>x. x), exp_f64 = (\<lambda>x. x), powf_f64 = (\<lambda>x y. y),
     approx_eq_ratio = (\<lambda>x y r. x = y), ordered_eq = (\<lambda>x y. x = y),
     ordered_le = (\<lambda>x y. y = F64_NaN \<or> f64_le x y)\<rparr>"

lemma example_reflexive: "ratio_reflexive example_math"
  by (simp add: ratio_reflexive_def example_math_def)

end
