(* ===== verification/Float_Rank.thy ===== *)
theory Float_Rank
  imports Float64
begin

text \<open>
  The floating-point arithmetic behind quantile ranks: \<^verbatim>\<open>(q * (count - 1) as f64).round_ties_even() as u64\<close>.
  Rounding never passes an integer below \<open>2 ^ 53\<close>, so for such counts the rank stays below the count.
\<close>

fun f64_round_ties_even :: "f64 \<Rightarrow> f64" where
  "f64_round_ties_even (F64_Fin s m e) =
     (if 0 \<le> e then F64_Fin s m e
      else let q = shift_rne m (nat (- e))
           in if q = 0 then F64_Fin s 0 (-1074) else f64_round s q 0)"
| "f64_round_ties_even x = x"

text \<open>\<^verbatim>\<open>f64::round\<close> rounds half away from zero.\<close>

fun f64_round_half_away :: "f64 \<Rightarrow> f64" where
  "f64_round_half_away (F64_Fin s m e) =
     (if 0 \<le> e then F64_Fin s m e
      else let q = (2 * m + 2 ^ nat (- e)) div (2 * 2 ^ nat (- e))
           in if q = 0 then F64_Fin s 0 (-1074) else f64_round s q 0)"
| "f64_round_half_away x = x"

definition quantile_rank :: "f64 \<Rightarrow> nat \<Rightarrow> nat" where
  "quantile_rank q n = f64_to_u64 (f64_round_ties_even (f64_mul q (f64_of_nat n)))"

text \<open>\<open>m * 2 ^ e \<le> c\<close>, without fractions.\<close>

definition le_nat :: "nat \<Rightarrow> int \<Rightarrow> nat \<Rightarrow> bool" where
  "le_nat m e c \<longleftrightarrow> (if 0 \<le> e then m * 2 ^ nat e \<le> c else m \<le> c * 2 ^ nat (- e))"

lemma shift_rne_le: "m \<le> C * 2 ^ k \<Longrightarrow> shift_rne m k \<le> C"
proof -
  assume m: "m \<le> C * 2 ^ k"
  have le: "m div 2 ^ k \<le> C" using div_le_mono [OF m, of "2 ^ k"] by simp
  show ?thesis
  proof (cases "m div 2 ^ k = C")
    case True
    then have "m = C * 2 ^ k" using m div_times_less_eq_dividend [of m "2 ^ k"] by simp
    then show ?thesis by simp
  next
    case False
    then show ?thesis using le shift_rne_bounds [of m k] by linarith
  qed
qed

lemma le_nat_target:
  assumes m: "0 < m" and le: "le_nat m e c" and c: "c < 2 ^ 53"
    and e': "e' = max (e + int (bitlen m) - 53) (-1074)"
    and m': "m' = (if e' \<le> e then m * 2 ^ nat (e - e') else shift_rne m (nat (e' - e)))"
  shows "e' \<le> 0 \<and> m' \<le> c * 2 ^ nat (- e')"
proof -
  note b = bitlen_bounds [OF m]
  have neg: "e' \<le> 0"
  proof (cases "0 \<le> e")
    case True
    then have "m * 2 ^ nat e < 2 ^ 53" using le c by (simp add: le_nat_def)
    then have "bitlen (m * 2 ^ nat e) \<le> 53" by (rule bitlen_less)
    then show ?thesis using m True e' by (simp add: bitlen_shift)
  next
    case False
    then have "m \<le> c * 2 ^ nat (- e)" using le by (simp add: le_nat_def)
    also have "\<dots> < 2 ^ 53 * 2 ^ nat (- e)" using c by simp
    finally have "m < 2 ^ (53 + nat (- e))" by (simp add: power_add)
    then have "bitlen m \<le> 53 + nat (- e)" by (rule bitlen_less)
    then show ?thesis using False e' by simp
  qed
  show ?thesis
  proof (cases "0 \<le> e")
    case True
    then have "nat (e - e') = nat e + nat (- e')" using neg by simp
    moreover have "m * 2 ^ nat e * 2 ^ nat (- e') \<le> c * 2 ^ nat (- e')" using le True by (simp add: le_nat_def)
    ultimately show ?thesis using True neg m' by (simp add: power_add mult.assoc)
  next
    case neg_e: False
    then have mc: "m \<le> c * 2 ^ nat (- e)" using le by (simp add: le_nat_def)
    show ?thesis
    proof (cases "e' \<le> e")
      case True
      then have "nat (- e') = nat (- e) + nat (e - e')" using neg_e by simp
      moreover have "m * 2 ^ nat (e - e') \<le> c * 2 ^ nat (- e) * 2 ^ nat (e - e')" using mc by simp
      ultimately show ?thesis using True neg m' by (simp add: power_add mult.assoc)
    next
      case False
      then have "nat (- e) = nat (- e') + nat (e' - e)" using neg by simp
      then have "m \<le> c * 2 ^ nat (- e') * 2 ^ nat (e' - e)" using mc by (simp add: power_add mult.assoc)
      then show ?thesis using False neg m' by (simp add: shift_rne_le)
    qed
  qed
qed

lemma f64_round_le_nat:
  assumes m: "0 < m" and le: "le_nat m e c" and c: "c < 2 ^ 53"
  shows "\<exists>m' e'. f64_round s m e = F64_Fin s m' e' \<and> le_nat m' e' c"
proof -
  define e' where "e' = max (e + int (bitlen m) - 53) (-1074)"
  define m' where "m' = (if e' \<le> e then m * 2 ^ nat (e - e') else shift_rne m (nat (e' - e)))"
  have t: "e' \<le> 0" "m' \<le> c * 2 ^ nat (- e')" using le_nat_target [OF m le c e'_def m'_def] by auto
  have R: "f64_round s m e = (if m' = 2 ^ 53 then f64_pack s (2 ^ 52) (e' + 1) else f64_pack s m' e')"
    unfolding f64_round_def Let_def e'_def m'_def by simp
  show ?thesis
  proof (cases "m' = 2 ^ 53")
    case True
    have "e' \<noteq> 0" using True t c by auto
    then have "0 < nat (- e')" using t(1) by simp
    then obtain k where k: "nat (- e') = Suc k" using gr0_implies_Suc by blast
    then have e1: "nat (- (e' + 1)) = k" "e' + 1 \<le> 0" using t(1) by auto
    have "(2 :: nat) ^ 52 * 2 \<le> c * 2 ^ k * 2" using True t(2) k by simp
    then have "(2 :: nat) ^ 52 \<le> c * 2 ^ k" by simp
    then have "le_nat (2 ^ 52) (e' + 1) c" using e1 by (cases "e' + 1 = 0") (auto simp: le_nat_def)
    then show ?thesis using True R e1 by (auto simp: f64_pack_def)
  next
    case False
    have "le_nat m' e' c" using t by (cases "e' = 0") (auto simp: le_nat_def)
    then show ?thesis using False R t(1) by (auto simp: f64_pack_def)
  qed
qed

lemma quantile_product_le:
  assumes q: "f64_le f64_zero q" "f64_le q f64_one" and n: "n < 2 ^ 53"
  shows "\<exists>s m e. f64_mul q (f64_of_nat n) = F64_Fin s m e \<and> (s \<longrightarrow> m = 0) \<and> le_nat m e n"
proof -
  obtain s2 m2 e2 where Q: "q = F64_Fin s2 m2 e2"
    using q by (cases q) (auto simp: f64_le_def f64_zero_def f64_one_def split: if_splits)
  have s2: "s2 \<longrightarrow> m2 = 0"
    using q(1) by (auto simp: Q f64_le_def f64_zero_def align_exp_def f64_signed_def Let_def zero_less_mult_iff
        mult_less_0_iff split: if_splits)
  show ?thesis
  proof (cases "n = 0 \<or> m2 = 0")
    case True
    then have "\<exists>s. f64_mul q (f64_of_nat n) = F64_Fin s 0 (-1074)"
    proof (cases "n = 0")
      case True
      then show ?thesis by (simp add: Q f64_of_nat_def f64_zero_def)
    next
      case False
      with True n f64_of_nat_fin [of n] show ?thesis by (simp add: Q)
    qed
    then obtain s where "f64_mul q (f64_of_nat n) = F64_Fin s 0 (-1074)" by blast
    moreover have "le_nat 0 (-1074) n" by (simp add: le_nat_def)
    ultimately show ?thesis by blast
  next
    case False
    then have pos: "0 < n" "0 < m2" "\<not> s2" using s2 by auto
    define k where "k = 53 - bitlen n"
    have x: "f64_of_nat n = F64_Fin False (n * 2 ^ k) (- int k)"
      using f64_of_nat_fin [OF pos(1) n] bitlen_less [OF n] by (simp add: k_def of_nat_diff)
    have one: "int m2 * 2 ^ nat (e2 - min e2 (-52)) \<le> 2 ^ 52 * 2 ^ nat (- 52 - min e2 (-52))"
      using q(2) pos(3) by (auto simp: Q f64_le_def f64_one_def align_exp_def f64_signed_def Let_def)
    have e2: "e2 \<le> 0 \<and> m2 \<le> 2 ^ nat (- e2)"
    proof (cases "-52 \<le> e2")
      case True
      then have "min e2 (-52) = -52" by simp
      then have "int m2 * 2 ^ nat (e2 + 52) \<le> 2 ^ 52" using one by simp
      then have "int (m2 * 2 ^ nat (e2 + 52)) \<le> int (2 ^ 52)" by simp
      then have l: "m2 * 2 ^ nat (e2 + 52) \<le> 2 ^ 52" by (simp only: of_nat_le_iff)
      have "e2 \<le> 0"
      proof (rule ccontr)
        assume "\<not> e2 \<le> 0"
        then have "(2 :: nat) ^ 53 \<le> 2 ^ nat (e2 + 52)" by (intro power_increasing) auto
        moreover have "2 ^ nat (e2 + 52) \<le> m2 * 2 ^ nat (e2 + 52)" using pos(2) by simp
        ultimately have "(2 :: nat) ^ 53 \<le> 2 ^ 52" using l by linarith
        then show False by simp
      qed
      moreover have "(52 :: nat) = nat (- e2) + nat (e2 + 52)" using True \<open>e2 \<le> 0\<close> by simp
      then have "(2 :: nat) ^ 52 = 2 ^ nat (- e2) * 2 ^ nat (e2 + 52)" by (metis power_add)
      then have "m2 * 2 ^ nat (e2 + 52) \<le> 2 ^ nat (- e2) * 2 ^ nat (e2 + 52)" using l by argo
      then have "m2 \<le> 2 ^ nat (- e2)" by simp
      ultimately show ?thesis by blast
    next
      case False
      then have "int m2 \<le> 2 ^ 52 * 2 ^ nat (- 52 - e2)" using one by (simp add: min_def)
      then have "int m2 \<le> int (2 ^ (52 + nat (- 52 - e2)))" by (simp add: power_add)
      then have "m2 \<le> 2 ^ (52 + nat (- 52 - e2))" by (simp only: of_nat_le_iff)
      moreover have "52 + nat (- 52 - e2) = nat (- e2)" using False by simp
      ultimately show ?thesis using False by simp
    qed
    have "le_nat (m2 * (n * 2 ^ k)) (e2 + - int k) n"
    proof (cases "e2 - int k = 0")
      case True
      then have "e2 = 0" "k = 0" using e2 by auto
      then show ?thesis using e2 by (simp add: le_nat_def)
    next
      case False
      then have s: "nat (- (e2 + - int k)) = nat (- e2) + k" "\<not> 0 \<le> e2 + - int k" using e2 by auto
      have "m2 * (n * 2 ^ k) \<le> 2 ^ nat (- e2) * (n * 2 ^ k)" using e2 by simp
      also have "\<dots> = n * 2 ^ (nat (- e2) + k)" by (simp add: power_add ac_simps)
      finally show ?thesis using s by (simp add: le_nat_def)
    qed
    moreover have "0 < m2 * (n * 2 ^ k)" using pos by simp
    ultimately obtain m' e' where "f64_round False (m2 * (n * 2 ^ k)) (e2 + - int k) = F64_Fin False m' e'"
        "le_nat m' e' n"
      using f64_round_le_nat [OF _ _ n] by blast
    then have "f64_mul q (f64_of_nat n) = F64_Fin False m' e'" using pos by (simp add: Q x)
    with \<open>le_nat m' e' n\<close> show ?thesis by blast
  qed
qed

lemma quantile_rank_le:
  assumes q: "f64_le f64_zero q" "f64_le q f64_one" and n: "n < 2 ^ 53"
  shows "quantile_rank q n \<le> n"
proof -
  obtain s m e where p: "f64_mul q (f64_of_nat n) = F64_Fin s m e" "s \<longrightarrow> m = 0" "le_nat m e n"
    using quantile_product_le [OF assms] by blast
  show ?thesis
  proof (cases "0 \<le> e")
    case True
    then show ?thesis using p by (auto simp: quantile_rank_def le_nat_def)
  next
    case False
    define r where "r = shift_rne m (nat (- e))"
    have r: "r \<le> n" using p(3) False by (simp add: le_nat_def r_def shift_rne_le)
    show ?thesis
    proof (cases "r = 0")
      case True
      then show ?thesis using False p(1) by (simp add: quantile_rank_def r_def)
    next
      case pos: False
      have "\<not> s"
      proof
        assume s
        then have "r = 0" using p(2) by (simp add: r_def shift_rne_def)
        with pos show False by simp
      qed
      then have "f64_round_ties_even (F64_Fin s m e) = f64_of_nat r"
        using False pos by (simp add: r_def [symmetric] f64_of_nat_def Let_def)
      then have "quantile_rank q n = r" using p(1) f64_to_u64_of_nat [of r] r n by (simp add: quantile_rank_def)
      then show ?thesis using r by simp
    qed
  qed
qed

text \<open>From \<open>2 ^ 54\<close> observations on, the last rank rounds up to the count itself.\<close>

lemma quantile_rank_overshoots: "quantile_rank f64_one (2 ^ 54 - 1) = 2 ^ 54"
proof -
  have "bitlen 18014398509481983 = 54" "bitlen 20282409603651670423947251286016 = 105"
    using bitlen_unique [of 53] bitlen_unique [of 104] by simp_all
  then show ?thesis
    by (simp add: quantile_rank_def f64_one_def f64_of_nat_def f64_round_def f64_pack_def shift_rne_def Let_def u64_max_def)
qed

end
