(* ===== verification/Canonical_Sketch.thy ===== *)
theory Canonical_Sketch
  imports Index_Mapping Float_Rank
begin

text \<open>
  The canonical DDSketch (\<^verbatim>\<open>lib/ddsketch/src/canonical/sketch.rs\<close>): \<^verbatim>\<open>DDSketch\<close> and \<^verbatim>\<open>PositiveOnlyDDSketch\<close>,
  generic over an index mapping and a store. The trait parameters are the records of the operations.
  The lemmas are proved once in the locale \<open>dd_sketch\<close>, over the contract of a store, and interpreted
  on the four stores in the theory \<open>Canonical_Stores\<close>.
\<close>

section \<open>DDSketch\<close>

record ('m, 's) ddsketch =
  dd_mapping :: 'm
  dd_positive_store :: 's
  dd_negative_store :: 's
  dd_zero_count :: nat

text \<open>The message \<^verbatim>\<open>DDSketch\<close>.\<close>

record proto_ddsketch =
  pd_mapping :: "proto_mapping option"
  pd_positiveValues :: "proto_store option"
  pd_negativeValues :: "proto_store option"
  pd_zeroCount :: f64

definition dd_new :: "'m \<Rightarrow> 's \<Rightarrow> 's \<Rightarrow> ('m, 's) ddsketch" where
  "dd_new mapping positive_store negative_store =
     \<lparr>dd_mapping = mapping, dd_positive_store = positive_store, dd_negative_store = negative_store,
      dd_zero_count = 0\<rparr>"

definition dd_add_n ::
    "'m mapping_ops \<Rightarrow> 's store_ops \<Rightarrow> f64 \<Rightarrow> nat \<Rightarrow> ('m, 's) ddsketch \<Rightarrow> ('m, 's) ddsketch option" where
  "dd_add_n mo so v n sk =
     (if n = 0 then Some sk
      else if f64_lt (mo_min_indexable_value mo (dd_mapping sk)) v then do {
        index \<leftarrow> mo_index mo (dd_mapping sk) v;
        st \<leftarrow> so_add so index n (dd_positive_store sk);
        Some (sk\<lparr>dd_positive_store := st\<rparr>)
      }
      else if f64_lt v (f64_neg (mo_min_indexable_value mo (dd_mapping sk))) then do {
        index \<leftarrow> mo_index mo (dd_mapping sk) (f64_neg v);
        st \<leftarrow> so_add so index n (dd_negative_store sk);
        Some (sk\<lparr>dd_negative_store := st\<rparr>)
      }
      else do {
        z \<leftarrow> u64_add (dd_zero_count sk) n;
        Some (sk\<lparr>dd_zero_count := z\<rparr>)
      })"

definition dd_add ::
    "'m mapping_ops \<Rightarrow> 's store_ops \<Rightarrow> f64 \<Rightarrow> ('m, 's) ddsketch \<Rightarrow> ('m, 's) ddsketch option" where
  "dd_add mo so v sk = dd_add_n mo so v 1 sk"

definition dd_count :: "'s store_ops \<Rightarrow> ('m, 's) ddsketch \<Rightarrow> nat option" where
  "dd_count so sk = do {
     c \<leftarrow> u64_add (so_total_count so (dd_negative_store sk)) (so_total_count so (dd_positive_store sk));
     u64_add c (dd_zero_count sk)
   }"

definition dd_is_empty :: "'s store_ops \<Rightarrow> ('m, 's) ddsketch \<Rightarrow> bool option" where
  "dd_is_empty so sk = do { c \<leftarrow> dd_count so sk; Some (c = 0) }"

text \<open>
  The outer option is a panic (an arithmetic overflow or the \<^verbatim>\<open>unreachable!\<close> at the end), the inner one
  the result.
\<close>

definition dd_quantile :: "'m mapping_ops \<Rightarrow> 's store_ops \<Rightarrow> f64 \<Rightarrow> ('m, 's) ddsketch \<Rightarrow> f64 option option" where
  "dd_quantile mo so q sk = do {
     empty \<leftarrow> dd_is_empty so sk;
     if empty then Some None
     else if \<not> (f64_le f64_zero q \<and> f64_le q f64_one) then Some None
     else do {
       c \<leftarrow> dd_count so sk;
       n \<leftarrow> u64_sub c 1;
       let rank = quantile_rank q n;
       let negative_count = so_total_count so (dd_negative_store sk);
       total_negative_and_zero \<leftarrow> u64_add negative_count (dd_zero_count sk);
       if rank < negative_count then do {
         d \<leftarrow> u64_sub negative_count rank;
         reverse_rank \<leftarrow> u64_sub d 1;
         key \<leftarrow> so_key_at_rank so reverse_rank (dd_negative_store sk);
         index \<leftarrow> key;
         Some (Some (f64_neg (mo_value mo (dd_mapping sk) index)))
       }
       else if rank < total_negative_and_zero then Some (Some f64_zero)
       else do {
         positive_rank \<leftarrow> u64_sub rank total_negative_and_zero;
         key \<leftarrow> so_key_at_rank so positive_rank (dd_positive_store sk);
         index \<leftarrow> key;
         Some (Some (mo_value mo (dd_mapping sk) index))
       }
     }
   }"

definition dd_merge :: "'s store_ops \<Rightarrow> ('m, 's) ddsketch \<Rightarrow> ('m, 's) ddsketch \<Rightarrow> ('m, 's) ddsketch option" where
  "dd_merge so other sk = do {
     empty \<leftarrow> dd_is_empty so other;
     if empty then Some sk
     else do {
       p \<leftarrow> so_merge so (dd_positive_store other) (dd_positive_store sk);
       n \<leftarrow> so_merge so (dd_negative_store other) (dd_negative_store sk);
       z \<leftarrow> u64_add (dd_zero_count sk) (dd_zero_count other);
       Some (sk\<lparr>dd_positive_store := p, dd_negative_store := n, dd_zero_count := z\<rparr>)
     }
   }"

definition dd_clear :: "'s store_ops \<Rightarrow> ('m, 's) ddsketch \<Rightarrow> ('m, 's) ddsketch" where
  "dd_clear so sk = sk\<lparr>dd_positive_store := so_clear so (dd_positive_store sk),
     dd_negative_store := so_clear so (dd_negative_store sk), dd_zero_count := 0\<rparr>"

text \<open>The validation of the zero count, and a store filled from an optional message.\<close>

definition proto_zero_count :: "f64 \<Rightarrow> proto_error + nat" where
  "proto_zero_count z =
     (if f64_lt z f64_zero then Inl (NegativeZeroCount z)
      else if \<not> f64_eq (f64_fract z) f64_zero then Inl (NonIntegerZeroCount z)
      else Inr (f64_to_u64 z))"

definition store_from_proto :: "'s store_ops \<Rightarrow> proto_store option \<Rightarrow> (proto_error + 's) option" where
  "store_from_proto so values =
     (case values of
        None \<Rightarrow> Some (Inr (so_default so))
      | Some p \<Rightarrow> do {
          (st, r) \<leftarrow> so_merge_from_proto so p (so_default so);
          Some (case r of Inl e \<Rightarrow> Inl e | Inr _ \<Rightarrow> Inr st)
        })"

definition dd_from_proto ::
    "'m mapping_ops \<Rightarrow> 's store_ops \<Rightarrow> proto_ddsketch \<Rightarrow> 'm \<Rightarrow> (proto_error + ('m, 's) ddsketch) option" where
  "dd_from_proto mo so proto mapping =
     (case pd_mapping proto of
        None \<Rightarrow> Some (Inl MissingMapping)
      | Some pm \<Rightarrow> (case mo_validate_proto_mapping mo mapping pm of
          Inl e \<Rightarrow> Some (Inl e)
        | Inr _ \<Rightarrow> (case proto_zero_count (pd_zeroCount proto) of
            Inl e \<Rightarrow> Some (Inl e)
          | Inr zero_count \<Rightarrow> do {
              p \<leftarrow> store_from_proto so (pd_positiveValues proto);
              (case p of
                 Inl e \<Rightarrow> Some (Inl e)
               | Inr positive_store \<Rightarrow> do {
                   n \<leftarrow> store_from_proto so (pd_negativeValues proto);
                   (case n of
                      Inl e \<Rightarrow> Some (Inl e)
                    | Inr negative_store \<Rightarrow>
                        Some (Inr \<lparr>dd_mapping = mapping, dd_positive_store = positive_store,
                                   dd_negative_store = negative_store, dd_zero_count = zero_count\<rparr>))
                 })
            })))"

definition store_proto_field :: "'s store_ops \<Rightarrow> 's \<Rightarrow> proto_store option" where
  "store_proto_field so st = (if so_is_empty so st then None else Some (so_to_proto so st))"

definition dd_to_proto :: "'m mapping_ops \<Rightarrow> 's store_ops \<Rightarrow> ('m, 's) ddsketch \<Rightarrow> proto_ddsketch" where
  "dd_to_proto mo so sk =
     \<lparr>pd_mapping = Some (mo_to_proto mo (dd_mapping sk)),
      pd_positiveValues = store_proto_field so (dd_positive_store sk),
      pd_negativeValues = store_proto_field so (dd_negative_store sk),
      pd_zeroCount = f64_of_nat (dd_zero_count sk)\<rparr>"

section \<open>PositiveOnlyDDSketch\<close>

record ('m, 's) positive_sketch =
  po_mapping :: 'm
  po_positive_store :: 's
  po_zero_count :: nat

definition po_new :: "'m \<Rightarrow> 's \<Rightarrow> ('m, 's) positive_sketch" where
  "po_new mapping positive_store = \<lparr>po_mapping = mapping, po_positive_store = positive_store, po_zero_count = 0\<rparr>"

definition po_add_n ::
    "'m mapping_ops \<Rightarrow> 's store_ops \<Rightarrow> f64 \<Rightarrow> nat \<Rightarrow> ('m, 's) positive_sketch \<Rightarrow> ('m, 's) positive_sketch option" where
  "po_add_n mo so v n sk =
     (if n = 0 then Some sk
      else if f64_lt (mo_min_indexable_value mo (po_mapping sk)) v then do {
        index \<leftarrow> mo_index mo (po_mapping sk) v;
        st \<leftarrow> so_add so index n (po_positive_store sk);
        Some (sk\<lparr>po_positive_store := st\<rparr>)
      }
      else do {
        z \<leftarrow> u64_add (po_zero_count sk) n;
        Some (sk\<lparr>po_zero_count := z\<rparr>)
      })"

definition po_add ::
    "'m mapping_ops \<Rightarrow> 's store_ops \<Rightarrow> f64 \<Rightarrow> ('m, 's) positive_sketch \<Rightarrow> ('m, 's) positive_sketch option" where
  "po_add mo so v sk = po_add_n mo so v 1 sk"

definition po_count :: "'s store_ops \<Rightarrow> ('m, 's) positive_sketch \<Rightarrow> nat option" where
  "po_count so sk = u64_add (so_total_count so (po_positive_store sk)) (po_zero_count sk)"

definition po_is_empty :: "'s store_ops \<Rightarrow> ('m, 's) positive_sketch \<Rightarrow> bool option" where
  "po_is_empty so sk = do { c \<leftarrow> po_count so sk; Some (c = 0) }"

definition po_quantile :: "'m mapping_ops \<Rightarrow> 's store_ops \<Rightarrow> f64 \<Rightarrow> ('m, 's) positive_sketch \<Rightarrow> f64 option option" where
  "po_quantile mo so q sk = do {
     empty \<leftarrow> po_is_empty so sk;
     if empty then Some None
     else if \<not> (f64_le f64_zero q \<and> f64_le q f64_one) then Some None
     else do {
       c \<leftarrow> po_count so sk;
       n \<leftarrow> u64_sub c 1;
       let rank = quantile_rank q n;
       if rank < po_zero_count sk then Some (Some f64_zero)
       else do {
         positive_rank \<leftarrow> u64_sub rank (po_zero_count sk);
         key \<leftarrow> so_key_at_rank so positive_rank (po_positive_store sk);
         index \<leftarrow> key;
         Some (Some (mo_value mo (po_mapping sk) index))
       }
     }
   }"

definition po_merge :: "'s store_ops \<Rightarrow> ('m, 's) positive_sketch \<Rightarrow> ('m, 's) positive_sketch \<Rightarrow> ('m, 's) positive_sketch option" where
  "po_merge so other sk = do {
     empty \<leftarrow> po_is_empty so other;
     if empty then Some sk
     else do {
       p \<leftarrow> so_merge so (po_positive_store other) (po_positive_store sk);
       z \<leftarrow> u64_add (po_zero_count sk) (po_zero_count other);
       Some (sk\<lparr>po_positive_store := p, po_zero_count := z\<rparr>)
     }
   }"

definition po_clear :: "'s store_ops \<Rightarrow> ('m, 's) positive_sketch \<Rightarrow> ('m, 's) positive_sketch" where
  "po_clear so sk = sk\<lparr>po_positive_store := so_clear so (po_positive_store sk), po_zero_count := 0\<rparr>"

definition po_from_proto ::
    "'m mapping_ops \<Rightarrow> 's store_ops \<Rightarrow> proto_ddsketch \<Rightarrow> 'm \<Rightarrow> (proto_error + ('m, 's) positive_sketch) option" where
  "po_from_proto mo so proto mapping =
     (case pd_mapping proto of
        None \<Rightarrow> Some (Inl MissingMapping)
      | Some pm \<Rightarrow> (case mo_validate_proto_mapping mo mapping pm of
          Inl e \<Rightarrow> Some (Inl e)
        | Inr _ \<Rightarrow> (case proto_zero_count (pd_zeroCount proto) of
            Inl e \<Rightarrow> Some (Inl e)
          | Inr zero_count \<Rightarrow> do {
              p \<leftarrow> store_from_proto so (pd_positiveValues proto);
              Some (case p of
                 Inl e \<Rightarrow> Inl e
               | Inr positive_store \<Rightarrow>
                   Inr \<lparr>po_mapping = mapping, po_positive_store = positive_store, po_zero_count = zero_count\<rparr>)
            })))"

definition po_to_proto :: "'m mapping_ops \<Rightarrow> 's store_ops \<Rightarrow> ('m, 's) positive_sketch \<Rightarrow> proto_ddsketch" where
  "po_to_proto mo so sk =
     \<lparr>pd_mapping = Some (mo_to_proto mo (po_mapping sk)),
      pd_positiveValues = store_proto_field so (po_positive_store sk),
      pd_negativeValues = None,
      pd_zeroCount = f64_of_nat (po_zero_count sk)\<rparr>"

section \<open>What a sketch has observed\<close>

text \<open>
  A value falls into a bucket: a bin of one of the stores, or the zero counter. A sketch represents
  the multiset of the buckets of the values it was given.
\<close>

datatype slot = BNeg int | BZero | BPos int

definition bucket_of :: "'m mapping_ops \<Rightarrow> 'm \<Rightarrow> f64 \<Rightarrow> slot option" where
  "bucket_of mo m v =
     (if f64_lt (mo_min_indexable_value mo m) v then map_option BPos (mo_index mo m v)
      else if f64_lt v (f64_neg (mo_min_indexable_value mo m)) then map_option BNeg (mo_index mo m (f64_neg v))
      else Some BZero)"

fun safe_bucket :: "slot \<Rightarrow> bool" where
  "safe_bucket (BNeg i) = safe_index i"
| "safe_bucket BZero = True"
| "safe_bucket (BPos i) = safe_index i"

fun pos_of :: "slot \<Rightarrow> int multiset" where
  "pos_of (BPos i) = {#i#}"
| "pos_of _ = {#}"

fun neg_of :: "slot \<Rightarrow> int multiset" where
  "neg_of (BNeg i) = {#i#}"
| "neg_of _ = {#}"

fun zero_of :: "slot \<Rightarrow> nat" where
  "zero_of BZero = 1"
| "zero_of _ = 0"

definition pos_part :: "slot multiset \<Rightarrow> int multiset" where
  "pos_part M = (\<Sum>b\<in>#M. pos_of b)"

definition neg_part :: "slot multiset \<Rightarrow> int multiset" where
  "neg_part M = (\<Sum>b\<in>#M. neg_of b)"

definition zero_part :: "slot multiset \<Rightarrow> nat" where
  "zero_part M = (\<Sum>b\<in>#M. zero_of b)"

lemma parts_empty [simp]: "pos_part {#} = {#}" "neg_part {#} = {#}" "zero_part {#} = 0"
  by (simp_all add: pos_part_def neg_part_def zero_part_def)

lemma parts_add_mset [simp]:
  "pos_part (add_mset b M) = pos_of b + pos_part M"
  "neg_part (add_mset b M) = neg_of b + neg_part M"
  "zero_part (add_mset b M) = zero_of b + zero_part M"
  by (simp_all add: pos_part_def neg_part_def zero_part_def)

lemma parts_union [simp]:
  "pos_part (M + M') = pos_part M + pos_part M'"
  "neg_part (M + M') = neg_part M + neg_part M'"
  "zero_part (M + M') = zero_part M + zero_part M'"
  by (simp_all add: pos_part_def neg_part_def zero_part_def)

lemma parts_replicate_pos [simp]:
  "pos_part (replicate_mset n (BPos i)) = replicate_mset n i"
  "neg_part (replicate_mset n (BPos i)) = {#}"
  "zero_part (replicate_mset n (BPos i)) = 0"
  by (induction n) simp_all

lemma parts_replicate_neg [simp]:
  "pos_part (replicate_mset n (BNeg i)) = {#}"
  "neg_part (replicate_mset n (BNeg i)) = replicate_mset n i"
  "zero_part (replicate_mset n (BNeg i)) = 0"
  by (induction n) simp_all

lemma parts_replicate_zero [simp]:
  "pos_part (replicate_mset n BZero) = {#}"
  "neg_part (replicate_mset n BZero) = {#}"
  "zero_part (replicate_mset n BZero) = n"
  by (induction n) simp_all

lemma size_parts: "size M = size (neg_part M) + zero_part M + size (pos_part M)"
proof (induction M)
  case (add b M)
  then show ?case by (cases b) simp_all
qed simp

definition dd_rep :: "('s \<Rightarrow> int multiset \<Rightarrow> bool) \<Rightarrow> ('m, 's) ddsketch \<Rightarrow> slot multiset \<Rightarrow> bool" where
  "dd_rep rep sk M \<longleftrightarrow>
     rep (dd_positive_store sk) (pos_part M) \<and> rep (dd_negative_store sk) (neg_part M) \<and>
     dd_zero_count sk = zero_part M \<and> size M \<le> u64_max"

text \<open>
  The representative values of the observations in increasing order of their buckets: \<open>view\<close> is what
  the store makes of the indices it was given.
\<close>

definition obs_values ::
    "'m mapping_ops \<Rightarrow> 'm \<Rightarrow> (int multiset \<Rightarrow> int multiset) \<Rightarrow> slot multiset \<Rightarrow> f64 list" where
  "obs_values mo m view M =
     map (\<lambda>i. f64_neg (mo_value mo m i)) (rev (sorted_list_of_multiset (view (neg_part M)))) @
     replicate (zero_part M) f64_zero @
     map (mo_value mo m) (sorted_list_of_multiset (view (pos_part M)))"

text \<open>A sketch that is given a list of values with their counts.\<close>

fun dd_fill ::
    "'m mapping_ops \<Rightarrow> 's store_ops \<Rightarrow> (f64 \<times> nat) list \<Rightarrow> ('m, 's) ddsketch \<Rightarrow> ('m, 's) ddsketch option" where
  "dd_fill mo so [] sk = Some sk"
| "dd_fill mo so ((v, n) # vs) sk = do { sk' \<leftarrow> dd_add_n mo so v n sk; dd_fill mo so vs sk' }"

definition indexable :: "'m mapping_ops \<Rightarrow> 'm \<Rightarrow> (f64 \<times> nat) list \<Rightarrow> bool" where
  "indexable mo m vs \<longleftrightarrow>
     list_all (\<lambda>(v, n). case bucket_of mo m v of None \<Rightarrow> False | Some b \<Rightarrow> safe_bucket b) vs"

definition observed :: "'m mapping_ops \<Rightarrow> 'm \<Rightarrow> (f64 \<times> nat) list \<Rightarrow> slot multiset" where
  "observed mo m vs = (\<Sum>(v, n)\<leftarrow>vs. replicate_mset n (the (bucket_of mo m v)))"

lemma size_observed: "size (observed mo m vs) = sum_list (map snd vs)"
  by (induction vs) (auto simp: observed_def)

lemma observed_append [simp]: "observed mo m (vs @ ws) = observed mo m vs + observed mo m ws"
  by (simp add: observed_def)

lemma observed_permutation: "mset vs = mset ws \<Longrightarrow> observed mo m vs = observed mo m ws"
  by (simp add: observed_def sum_mset_sum_list [symmetric])

section \<open>The sketch over any store\<close>

lemma nth_rev_sorted:
  "r < size M \<Longrightarrow> rev (sorted_list_of_multiset M) ! r = sorted_list_of_multiset M ! (size M - r - 1)"
  by (simp add: rev_nth size_mset [symmetric] del: size_mset)

locale dd_sketch = sketch_store ops rep init view + index_mapping mo ok
  for ops :: "'s store_ops" and rep :: "'s \<Rightarrow> int multiset \<Rightarrow> bool" and init :: 's
    and view :: "int multiset \<Rightarrow> int multiset" and mo :: "'m mapping_ops" and ok :: "'m \<Rightarrow> bool"
begin

lemma dd_rep_new: "dd_rep rep (dd_new m init init) {#}"
  by (simp add: dd_rep_def dd_new_def rep_init)

lemma dd_count_rep: "dd_rep rep sk M \<Longrightarrow> dd_count ops sk = Some (size M)"
proof -
  assume sk: "dd_rep rep sk M"
  then have "so_total_count ops (dd_negative_store sk) = size (neg_part M)"
      "so_total_count ops (dd_positive_store sk) = size (pos_part M)"
    using rep_total by (auto simp: dd_rep_def)
  then show ?thesis using sk size_parts [of M] by (simp add: dd_rep_def dd_count_def)
qed

lemma dd_is_empty_rep: "dd_rep rep sk M \<Longrightarrow> dd_is_empty ops sk = Some (M = {#})"
  by (simp add: dd_is_empty_def dd_count_rep)

lemma dd_add_n_rep:
  assumes sk: "dd_rep rep sk M" and b: "bucket_of mo (dd_mapping sk) v = Some b" "safe_bucket b"
    and n: "size M + n \<le> u64_max"
  shows "\<exists>sk'. dd_add_n mo ops v n sk = Some sk' \<and> dd_mapping sk' = dd_mapping sk \<and>
    dd_rep rep sk' (M + replicate_mset n b)"
proof (cases "n = 0")
  case True
  then show ?thesis using sk by (simp add: dd_add_n_def)
next
  case False
  have sz: "size (pos_part M) + n \<le> u64_max" "size (neg_part M) + n \<le> u64_max" "zero_part M + n \<le> u64_max"
    using n size_parts [of M] by auto
  show ?thesis
  proof (cases b)
    case (BPos i)
    then have i: "f64_lt (mo_min_indexable_value mo (dd_mapping sk)) v" "mo_index mo (dd_mapping sk) v = Some i"
      using b(1) by (auto simp: bucket_of_def split: if_splits)
    obtain st where "so_add ops i n (dd_positive_store sk) = Some st" "rep st (pos_part M + replicate_mset n i)"
      using rep_add [of "dd_positive_store sk" "pos_part M" i n] sk b(2) sz(1) BPos by (auto simp: dd_rep_def)
    then show ?thesis using False sk i n BPos by (simp add: dd_add_n_def dd_rep_def)
  next
    case (BNeg i)
    then have i: "\<not> f64_lt (mo_min_indexable_value mo (dd_mapping sk)) v"
        "f64_lt v (f64_neg (mo_min_indexable_value mo (dd_mapping sk)))"
        "mo_index mo (dd_mapping sk) (f64_neg v) = Some i"
      using b(1) by (auto simp: bucket_of_def split: if_splits)
    obtain st where "so_add ops i n (dd_negative_store sk) = Some st" "rep st (neg_part M + replicate_mset n i)"
      using rep_add [of "dd_negative_store sk" "neg_part M" i n] sk b(2) sz(2) BNeg by (auto simp: dd_rep_def)
    then show ?thesis using False sk i n BNeg by (simp add: dd_add_n_def dd_rep_def)
  next
    case BZero
    then have "\<not> f64_lt (mo_min_indexable_value mo (dd_mapping sk)) v"
        "\<not> f64_lt v (f64_neg (mo_min_indexable_value mo (dd_mapping sk)))"
      using b(1) by (auto simp: bucket_of_def split: if_splits)
    then show ?thesis using False sk sz(3) n BZero by (simp add: dd_add_n_def dd_rep_def)
  qed
qed

lemma dd_fill_rep:
  assumes "dd_rep rep sk M" and "indexable mo (dd_mapping sk) vs" and "size M + sum_list (map snd vs) \<le> u64_max"
  shows "\<exists>sk'. dd_fill mo ops vs sk = Some sk' \<and> dd_mapping sk' = dd_mapping sk \<and>
    dd_rep rep sk' (M + observed mo (dd_mapping sk) vs)"
  using assms
proof (induction vs arbitrary: sk M)
  case (Cons vn vs)
  obtain v n where vn: "vn = (v, n)" by (cases vn)
  obtain b where b: "bucket_of mo (dd_mapping sk) v = Some b" "safe_bucket b"
    using Cons.prems(2) by (auto simp: indexable_def vn split: option.splits)
  obtain sk1 where sk1: "dd_add_n mo ops v n sk = Some sk1" "dd_mapping sk1 = dd_mapping sk"
      "dd_rep rep sk1 (M + replicate_mset n b)"
    using dd_add_n_rep [OF Cons.prems(1) b, of n] Cons.prems(3) by (auto simp: vn)
  obtain sk2 where "dd_fill mo ops vs sk1 = Some sk2" "dd_mapping sk2 = dd_mapping sk1"
      "dd_rep rep sk2 (M + replicate_mset n b + observed mo (dd_mapping sk1) vs)"
    using Cons.IH [OF sk1(3)] Cons.prems(2,3) sk1(2) by (auto simp: indexable_def vn)
  then show ?case using sk1 b(1) by (simp add: vn observed_def add.assoc)
qed (simp add: observed_def)

lemma dd_merge_rep:
  assumes a: "dd_rep rep sk M" and b: "dd_rep rep other M'" and n: "size M + size M' \<le> u64_max"
  shows "\<exists>sk'. dd_merge ops other sk = Some sk' \<and> dd_mapping sk' = dd_mapping sk \<and> dd_rep rep sk' (M + M')"
proof (cases "M' = {#}")
  case True
  then show ?thesis using a b by (simp add: dd_merge_def dd_is_empty_rep)
next
  case False
  have sz: "size (pos_part M) + size (pos_part M') \<le> u64_max"
      "size (neg_part M) + size (neg_part M') \<le> u64_max" "zero_part M + zero_part M' \<le> u64_max"
    using n size_parts [of M] size_parts [of M'] by auto
  obtain p where "so_merge ops (dd_positive_store other) (dd_positive_store sk) = Some p"
      "rep p (pos_part M + pos_part M')"
    using rep_merge [OF _ _ sz(1)] a b by (auto simp: dd_rep_def)
  moreover obtain g where "so_merge ops (dd_negative_store other) (dd_negative_store sk) = Some g"
      "rep g (neg_part M + neg_part M')"
    using rep_merge [OF _ _ sz(2)] a b by (auto simp: dd_rep_def)
  ultimately show ?thesis
    using False a b sz(3) n by (simp add: dd_merge_def dd_is_empty_rep) (simp add: dd_rep_def)
qed

lemma dd_clear_rep: "dd_rep rep sk M \<Longrightarrow> dd_rep rep (dd_clear ops sk) {#}"
  by (auto simp: dd_rep_def dd_clear_def intro: rep_clear)

lemma length_obs_values: "length (obs_values mo m view M) = size M"
proof -
  have "length (sorted_list_of_multiset (view X)) = size X" for X
    using size_view [of X] by (metis mset_sorted_list_of_multiset size_mset)
  then show ?thesis by (simp add: obs_values_def size_parts [of M])
qed

lemma obs_values_nth:
  assumes r: "r < size M"
  shows "obs_values mo m view M ! r =
    (if r < size (neg_part M) then f64_neg (mo_value mo m (sorted_list_of_multiset (view (neg_part M)) ! (size (neg_part M) - r - 1)))
     else if r < size (neg_part M) + zero_part M then f64_zero
     else mo_value mo m (sorted_list_of_multiset (view (pos_part M)) ! (r - (size (neg_part M) + zero_part M))))"
proof -
  have L: "length (sorted_list_of_multiset (view X)) = size X" for X
    using size_view [of X] by (metis mset_sorted_list_of_multiset size_mset)
  have R: "r < size X \<Longrightarrow> rev (sorted_list_of_multiset (view X)) ! r =
      sorted_list_of_multiset (view X) ! (size X - r - 1)" for X
    using nth_rev_sorted [of r "view X"] by (simp add: size_view)
  show ?thesis
    using r size_parts [of M] by (auto simp: obs_values_def nth_append L R rev_nth)
qed

text \<open>The quantile is the element of its rank; for counts up to \<open>2 ^ 53\<close> the rank is a valid one.\<close>

lemma dd_quantile_rank:
  assumes sk: "dd_rep rep sk M" and M: "M \<noteq> {#}" and q: "f64_le f64_zero q" "f64_le q f64_one"
  shows "dd_quantile mo ops q sk =
    (if quantile_rank q (size M - 1) < size M
     then Some (Some (obs_values mo (dd_mapping sk) view M ! quantile_rank q (size M - 1))) else None)"
proof -
  define r where "r = quantile_rank q (size M - 1)"
  have pos: "0 < size M" using M by (simp add: nonempty_has_size)
  have parts: "rep (dd_positive_store sk) (pos_part M)" "rep (dd_negative_store sk) (neg_part M)"
      "dd_zero_count sk = zero_part M"
    using sk by (auto simp: dd_rep_def)
  have le: "size (neg_part M) + zero_part M \<le> u64_max"
    using sk size_parts [of M] by (simp add: dd_rep_def)
  have total: "so_total_count ops (dd_negative_store sk) = size (neg_part M)" using rep_total parts(2) by blast
  have c: "u64_sub (size M) 1 = Some (size M - 1)" using pos by (simp add: u64_sub_def)
  have base: "dd_quantile mo ops q sk =
     (if r < size (neg_part M) then do {
         d \<leftarrow> u64_sub (size (neg_part M)) r;
         reverse_rank \<leftarrow> u64_sub d 1;
         key \<leftarrow> so_key_at_rank ops reverse_rank (dd_negative_store sk);
         index \<leftarrow> key;
         Some (Some (f64_neg (mo_value mo (dd_mapping sk) index)))
       }
       else if r < size (neg_part M) + zero_part M then Some (Some f64_zero)
       else do {
         positive_rank \<leftarrow> u64_sub r (size (neg_part M) + zero_part M);
         key \<leftarrow> so_key_at_rank ops positive_rank (dd_positive_store sk);
         index \<leftarrow> key;
         Some (Some (mo_value mo (dd_mapping sk) index))
       })"
    using M q le c
    by (simp add: dd_quantile_def dd_is_empty_rep [OF sk] dd_count_rep [OF sk] total parts(3) Let_def r_def)
  show ?thesis
  proof (cases "r < size M")
    case True
    then show ?thesis
      unfolding base r_def [symmetric] obs_values_nth [OF True]
      using size_parts [of M]
      by (auto simp: u64_sub_def rep_key_at_rank [OF parts(1)] rep_key_at_rank [OF parts(2)])
  next
    case False
    then have "\<not> r < size (neg_part M)" "\<not> r < size (neg_part M) + zero_part M"
        "\<not> r - (size (neg_part M) + zero_part M) < size (pos_part M)"
      using size_parts [of M] by auto
    then show ?thesis
      unfolding base r_def [symmetric] using False
      by (simp add: u64_sub_def rep_key_at_rank [OF parts(1)])
  qed
qed

lemma dd_quantile_rep:
  assumes sk: "dd_rep rep sk M" and small: "size M \<le> 2 ^ 53"
  shows "dd_quantile mo ops q sk =
    Some (if M = {#} \<or> \<not> (f64_le f64_zero q \<and> f64_le q f64_one) then None
          else Some (obs_values mo (dd_mapping sk) view M ! quantile_rank q (size M - 1)))"
proof (cases "M = {#} \<or> \<not> (f64_le f64_zero q \<and> f64_le q f64_one)")
  case True
  then show ?thesis by (auto simp: dd_quantile_def dd_is_empty_rep [OF sk])
next
  case False
  then have pos: "0 < size M" by (simp add: nonempty_has_size)
  then have "quantile_rank q (size M - 1) \<le> size M - 1"
    using False small by (intro quantile_rank_le) auto
  then show ?thesis using False pos dd_quantile_rank [OF sk, of q] by simp
qed

lemma dd_same_observations:
  assumes "dd_rep rep a M" and "dd_rep rep b M" and "dd_mapping a = dd_mapping b" and "size M \<le> 2 ^ 53"
  shows "dd_quantile mo ops q a = dd_quantile mo ops q b"
  using dd_quantile_rep [OF assms(1,4)] dd_quantile_rep [OF assms(2,4)] assms(3) by simp

end

section \<open>Merging, the protobuf form, and the positive-only sketch\<close>

lemma proto_zero_count_of_nat: "n < 2 ^ 53 \<Longrightarrow> proto_zero_count (f64_of_nat n) = Inr n"
  by (simp add: proto_zero_count_def f64_of_nat_not_neg f64_fract_of_nat f64_to_u64_of_nat)

text \<open>The sketch that a positive-only sketch stands for drops the negative store.\<close>

definition po_of :: "('m, 's) ddsketch \<Rightarrow> ('m, 's) positive_sketch" where
  "po_of sk = \<lparr>po_mapping = dd_mapping sk, po_positive_store = dd_positive_store sk,
     po_zero_count = dd_zero_count sk\<rparr>"

fun po_fill ::
    "'m mapping_ops \<Rightarrow> 's store_ops \<Rightarrow> (f64 \<times> nat) list \<Rightarrow> ('m, 's) positive_sketch \<Rightarrow> ('m, 's) positive_sketch option" where
  "po_fill mo so [] sk = Some sk"
| "po_fill mo so ((v, n) # vs) sk = do { sk' \<leftarrow> po_add_n mo so v n sk; po_fill mo so vs sk' }"

lemma po_of_update [simp]:
  "po_of (sk\<lparr>dd_positive_store := p\<rparr>) = (po_of sk)\<lparr>po_positive_store := p\<rparr>"
  "po_of (sk\<lparr>dd_zero_count := z\<rparr>) = (po_of sk)\<lparr>po_zero_count := z\<rparr>"
  "po_of (sk\<lparr>dd_negative_store := g\<rparr>) = po_of sk"
  by (simp_all add: po_of_def)

lemma po_add_n_sim:
  assumes "\<not> f64_lt v (f64_neg (mo_min_indexable_value mo (dd_mapping sk)))"
  shows "po_add_n mo so v n (po_of sk) = map_option po_of (dd_add_n mo so v n sk)"
  using assms by (auto simp: po_add_n_def dd_add_n_def po_of_def bind_eq_None_conv split: bind_splits)

lemma dd_add_n_keeps:
  assumes "\<not> f64_lt v (f64_neg (mo_min_indexable_value mo (dd_mapping sk)))" and "dd_add_n mo so v n sk = Some sk'"
  shows "dd_mapping sk' = dd_mapping sk \<and> dd_negative_store sk' = dd_negative_store sk"
  using assms by (auto simp: dd_add_n_def split: if_splits bind_splits)

context dd_sketch
begin

lemma merge_is_fill:
  assumes "indexable mo m vs" and "indexable mo m ws" and "mset us = mset vs + mset ws"
    and n: "sum_list (map snd vs) + sum_list (map snd ws) \<le> 2 ^ 53"
  shows "\<exists>a b c d. dd_fill mo ops vs (dd_new m init init) = Some a \<and>
    dd_fill mo ops ws (dd_new m init init) = Some b \<and> dd_merge ops b a = Some c \<and>
    dd_fill mo ops us (dd_new m init init) = Some d \<and>
    (\<forall>q. dd_quantile mo ops q c = dd_quantile mo ops q d)"
proof -
  have perm: "mset us = mset (vs @ ws)" using assms(3) by simp
  have "set us = set vs \<union> set ws" using mset_eq_setD [OF perm] by simp
  then have ix: "indexable mo m us" using assms(1,2) by (auto simp: indexable_def list_all_iff)
  have "sum_list (map snd us) = sum_list (map snd (vs @ ws))"
    using perm by (metis mset_map sum_mset_sum_list)
  then have nu: "sum_list (map snd us) = sum_list (map snd vs) + sum_list (map snd ws)" by simp
  have big: "(2 :: nat) ^ 53 \<le> u64_max" by (simp add: u64_max_def)
  have new: "dd_mapping (dd_new m init init) = m" by (simp add: dd_new_def)
  note fill = dd_fill_rep [OF dd_rep_new [of m], unfolded new, simplified]
  obtain a where a: "dd_fill mo ops vs (dd_new m init init) = Some a" "dd_mapping a = m"
      "dd_rep rep a (observed mo m vs)"
    using fill [OF assms(1)] n big by auto
  obtain b where b: "dd_fill mo ops ws (dd_new m init init) = Some b" "dd_rep rep b (observed mo m ws)"
    using fill [OF assms(2)] n big by auto
  obtain d where d: "dd_fill mo ops us (dd_new m init init) = Some d" "dd_mapping d = m"
      "dd_rep rep d (observed mo m us)"
    using fill [OF ix] nu n big by auto
  obtain c where c: "dd_merge ops b a = Some c" "dd_mapping c = m"
      "dd_rep rep c (observed mo m vs + observed mo m ws)"
    using dd_merge_rep [OF a(3) b(2)] n big a(2) by (auto simp: size_observed)
  have eq: "observed mo m us = observed mo m vs + observed mo m ws"
    using observed_permutation [OF perm] by simp
  have "dd_quantile mo ops q c = dd_quantile mo ops q d" for q
    using dd_same_observations [OF c(3) d(3) [unfolded eq]] c(2) d(2) n by (simp add: size_observed)
  then show ?thesis using a(1) b(1) c(1) d(1) by blast
qed

text \<open>A sketch whose two stores can be read back is read back with its mapping and its zeros.\<close>

lemma dd_from_to_proto:
  assumes "store_from_proto ops (store_proto_field ops (dd_positive_store sk)) = Some (Inr p)"
    and "store_from_proto ops (store_proto_field ops (dd_negative_store sk)) = Some (Inr g)"
    and "dd_zero_count sk < 2 ^ 53" and "ok (dd_mapping sk)"
  shows "dd_from_proto mo ops (dd_to_proto mo ops sk) (dd_mapping sk) =
    Some (Inr \<lparr>dd_mapping = dd_mapping sk, dd_positive_store = p, dd_negative_store = g, dd_zero_count = dd_zero_count sk\<rparr>)"
  using assms own_proto [OF assms(4)] proto_zero_count_of_nat [OF assms(3)]
  by (simp add: dd_from_proto_def dd_to_proto_def)

text \<open>A positive-only sketch answers as the full sketch that has no negative value.\<close>

lemma po_quantile_sim:
  assumes sk: "dd_rep rep sk M" and no_neg: "neg_part M = {#}"
  shows "po_quantile mo ops q (po_of sk) = dd_quantile mo ops q sk"
proof -
  have total: "so_total_count ops (dd_negative_store sk) = 0"
      "so_total_count ops (dd_positive_store sk) = size (pos_part M)"
    using sk no_neg rep_total by (auto simp: dd_rep_def)
  have le: "size (pos_part M) + zero_part M \<le> u64_max" using sk size_parts [of M] no_neg by (simp add: dd_rep_def)
  have z: "dd_zero_count sk = zero_part M" using sk by (simp add: dd_rep_def)
  have "po_count ops (po_of sk) = dd_count ops sk"
    using total le z by (simp add: po_count_def dd_count_def po_of_def)
  then show ?thesis
    using total le z
    by (simp add: po_quantile_def dd_quantile_def po_is_empty_def dd_is_empty_def po_of_def Let_def cong: if_cong)
qed

lemma po_fill_sim:
  assumes "ok (dd_mapping sk)" and "list_all (\<lambda>(v, n). f64_le f64_zero v) vs"
  shows "po_fill mo so vs (po_of sk) = map_option po_of (dd_fill mo so vs sk)"
  using assms
proof (induction vs arbitrary: sk)
  case (Cons vn vs)
  obtain v n where vn: "vn = (v, n)" by (cases vn)
  have nb: "\<not> f64_lt v (f64_neg (mo_min_indexable_value mo (dd_mapping sk)))"
    using nonneg_not_below [OF Cons.prems(1)] Cons.prems(2) by (simp add: vn)
  show ?case
  proof (cases "dd_add_n mo so v n sk")
    case None
    then show ?thesis using po_add_n_sim [OF nb, of so n] by (simp add: vn)
  next
    case (Some sk')
    then show ?thesis
      using po_add_n_sim [OF nb, of so n] dd_add_n_keeps [OF nb Some] Cons.IH [of sk'] Cons.prems by (simp add: vn)
  qed
qed simp

lemma observed_no_neg:
  assumes "ok m" and "list_all (\<lambda>(v, n). f64_le f64_zero v) vs" and "indexable mo m vs"
  shows "neg_part (observed mo m vs) = {#}"
  using assms(2,3)
proof (induction vs)
  case (Cons vn vs)
  obtain v n where vn: "vn = (v, n)" by (cases vn)
  have nb: "\<not> f64_lt v (f64_neg (mo_min_indexable_value mo m))"
    using nonneg_not_below [OF assms(1)] Cons.prems(1) by (simp add: vn)
  then have "neg_part (replicate_mset n (the (bucket_of mo m v))) = {#}"
    using Cons.prems(2) by (auto simp: vn indexable_def bucket_of_def split: if_splits option.splits)
  then show ?case using Cons by (simp add: vn observed_def indexable_def)
qed (simp add: observed_def)

lemma positive_only_agrees:
  assumes m: "ok m" and v: "list_all (\<lambda>(v, n). f64_le f64_zero v) vs" and ix: "indexable mo m vs"
    and n: "sum_list (map snd vs) \<le> u64_max"
  shows "\<exists>a b. dd_fill mo ops vs (dd_new m init init) = Some a \<and> po_fill mo ops vs (po_new m init) = Some b \<and>
    (\<forall>q. po_quantile mo ops q b = dd_quantile mo ops q a)"
proof -
  have new: "dd_mapping (dd_new m init init) = m" "po_of (dd_new m init init) = po_new m init"
    by (simp_all add: dd_new_def po_new_def po_of_def)
  obtain a where a: "dd_fill mo ops vs (dd_new m init init) = Some a" "dd_rep rep a (observed mo m vs)"
    using dd_fill_rep [OF dd_rep_new [of m], of vs] ix n by (auto simp: new)
  have "po_fill mo ops vs (po_new m init) = Some (po_of a)"
    using po_fill_sim [of "dd_new m init init" vs ops] m v a(1) by (simp add: new)
  moreover have "po_quantile mo ops q (po_of a) = dd_quantile mo ops q a" for q
    by (rule po_quantile_sim [OF a(2) observed_no_neg [OF m v ix]])
  ultimately show ?thesis using a(1) by blast
qed

end

end
