(* ===== verification/Dense_Store.thy ===== *)
theory Dense_Store
  imports Store_Bins
begin

text \<open>
  \<^verbatim>\<open>DenseStore\<close> (\<^verbatim>\<open>lib/ddsketch/src/canonical/store/dense.rs\<close>): contiguous bins that grow without bound.
  It represents its observations exactly.
\<close>

section \<open>The store\<close>

record dense_store =
  ds_bins :: "nat list"
  ds_offset :: int
  ds_count :: nat

definition dense_new :: dense_store where
  "dense_new = \<lparr>ds_bins = [], ds_offset = 0, ds_count = 0\<rparr>"

definition dense_grow :: "int \<Rightarrow> dense_store \<Rightarrow> dense_store option" where
  "dense_grow index s =
     (if ds_bins s = [] then Some (s\<lparr>ds_bins := [0], ds_offset := index\<rparr>)
      else if index < ds_offset s then do {
        d \<leftarrow> i32_sub (ds_offset s) index;
        Some (s\<lparr>ds_bins := replicate (as_usize d) 0 @ ds_bins s, ds_offset := index\<rparr>)
      }
      else do {
        stop \<leftarrow> i32_add (ds_offset s) (as_i32 (length (ds_bins s)));
        if index \<ge> stop then do {
          d \<leftarrow> i32_sub index (ds_offset s);
          d' \<leftarrow> i32_add d 1;
          Some (s\<lparr>ds_bins := vec_resize (ds_bins s) (as_usize d') 0\<rparr>)
        }
        else Some s
      })"

definition dense_bin_index :: "int \<Rightarrow> dense_store \<Rightarrow> nat option" where
  "dense_bin_index index s = map_option as_usize (i32_sub index (ds_offset s))"

definition dense_iter_non_zero_bins :: "dense_store \<Rightarrow> (int \<times> nat) list option" where
  "dense_iter_non_zero_bins s =
     those (map (\<lambda>(i, cnt). map_option (\<lambda>k. (k, cnt)) (bin_key (ds_offset s) i))
       (filter (\<lambda>(i, cnt). cnt \<noteq> 0) (enumerate 0 (ds_bins s))))"

definition dense_add :: "int \<Rightarrow> nat \<Rightarrow> dense_store \<Rightarrow> dense_store option" where
  "dense_add index n s =
     (if n = 0 then Some s
      else do {
        s \<leftarrow> dense_grow index s;
        i \<leftarrow> dense_bin_index index s;
        bins \<leftarrow> bins_add i n (ds_bins s);
        Some (s\<lparr>ds_bins := bins, ds_count := sat_add (ds_count s) n\<rparr>)
      })"

definition dense_min_index :: "dense_store \<Rightarrow> int option option" where
  "dense_min_index s = bins_min_index (ds_offset s) (ds_bins s)"

definition dense_max_index :: "dense_store \<Rightarrow> int option option" where
  "dense_max_index s = bins_max_index (ds_offset s) (ds_bins s)"

definition dense_key_at_rank :: "nat \<Rightarrow> dense_store \<Rightarrow> int option option" where
  "dense_key_at_rank rank s =
     (if rank \<ge> ds_count s then Some None else rank_loop (ds_offset s) rank 0 0 (ds_bins s))"

fun dense_merge_loop :: "int \<Rightarrow> nat \<Rightarrow> nat list \<Rightarrow> dense_store \<Rightarrow> dense_store option" where
  "dense_merge_loop offset i [] s = Some s"
| "dense_merge_loop offset i (cnt # rest) s =
     (if cnt > 0
      then do {
        index \<leftarrow> bin_key offset i;
        j \<leftarrow> dense_bin_index index s;
        bins \<leftarrow> bins_add j cnt (ds_bins s);
        dense_merge_loop offset (i + 1) rest (s\<lparr>ds_bins := bins\<rparr>)
      }
      else dense_merge_loop offset (i + 1) rest s)"

definition dense_merge :: "dense_store \<Rightarrow> dense_store \<Rightarrow> dense_store option" where
  "dense_merge other s =
     (if ds_bins other = [] then Some s
      else do {
        lo \<leftarrow> dense_min_index other;
        hi \<leftarrow> dense_max_index other;
        s \<leftarrow> (case (lo, hi) of
              (Some other_min, Some other_max) \<Rightarrow> do {
                s \<leftarrow> dense_grow other_min s;
                s \<leftarrow> dense_grow other_max s;
                dense_merge_loop (ds_offset other) 0 (ds_bins other) s
              }
            | _ \<Rightarrow> Some s);
        Some (s\<lparr>ds_count := sat_add (ds_count s) (ds_count other)\<rparr>)
      })"

definition dense_is_empty :: "dense_store \<Rightarrow> bool" where
  "dense_is_empty s \<longleftrightarrow> ds_count s = 0"

definition dense_clear :: "dense_store \<Rightarrow> dense_store" where
  "dense_clear s = s\<lparr>ds_bins := [], ds_offset := 0, ds_count := 0\<rparr>"

definition dense_merge_from_proto ::
    "proto_store \<Rightarrow> dense_store \<Rightarrow> (dense_store \<times> (proto_error + unit)) option" where
  "dense_merge_from_proto proto s = merge_from_proto_with dense_add proto s"

definition dense_to_proto :: "dense_store \<Rightarrow> proto_store" where
  "dense_to_proto s = bins_to_proto (ds_offset s) (ds_bins s)"

definition dense_ops :: "dense_store store_ops" where
  "dense_ops =
     \<lparr>so_add = dense_add, so_total_count = ds_count, so_min_index = dense_min_index,
      so_max_index = dense_max_index, so_key_at_rank = dense_key_at_rank, so_merge = dense_merge,
      so_is_empty = dense_is_empty, so_clear = dense_clear,
      so_merge_from_proto = dense_merge_from_proto, so_to_proto = dense_to_proto, so_default = dense_new\<rparr>"

section \<open>It represents its observations\<close>

definition dense_rep :: "dense_store \<Rightarrow> int multiset \<Rightarrow> bool" where
  "dense_rep s M \<longleftrightarrow>
     M = bins_mset (ds_offset s) (ds_bins s) \<and> ds_count s = size M \<and> size M \<le> u64_max \<and>
     safe_window (ds_offset s) (ds_bins s)"

lemma dense_grow_spec:
  assumes "safe_window (ds_offset s) (ds_bins s)" and "safe_index i"
  shows "\<exists>s'. dense_grow i s = Some s' \<and> ds_count s' = ds_count s \<and>
    bins_mset (ds_offset s') (ds_bins s') = bins_mset (ds_offset s) (ds_bins s) \<and>
    safe_window (ds_offset s') (ds_bins s') \<and>
    ds_offset s' \<le> i \<and> i < ds_offset s' + int (length (ds_bins s')) \<and>
    (ds_bins s \<noteq> [] \<longrightarrow> ds_offset s' \<le> ds_offset s \<and>
       ds_offset s + int (length (ds_bins s)) \<le> ds_offset s' + int (length (ds_bins s')))"
proof (cases "ds_bins s = []")
  case True
  then show ?thesis using assms by (simp add: dense_grow_def safe_window_def bins_mset_Cons)
next
  case False
  let ?o = "ds_offset s" and ?len = "int (length (ds_bins s))"
  have w: "safe_index ?o" "safe_index (?o + ?len - 1)" using assms(1) False by (auto simp: safe_window_def)
  have len: "?len \<le> i32_max" using w by (auto simp: safe_index_def i32_max_def)
  have ne: "0 < ?len" using False by simp
  consider (below) "i < ?o" | (above) "?o + ?len \<le> i" | (inside) "?o \<le> i" "i < ?o + ?len" by linarith
  then show ?thesis
  proof cases
    case below
    have d: "i32_sub ?o i = Some (?o - i)" "as_usize (?o - i) = nat (?o - i)"
      using below w assms(2) by (auto simp: i32_add_Some i32_sub_Some safe_index_def is_i32_bounds i32_max_def)
    have "bins_mset i (replicate (nat (?o - i)) 0 @ ds_bins s) = bins_mset ?o (ds_bins s)"
      using below by (simp add: bins_mset_append)
    with below d w assms(2) False show ?thesis by (simp add: dense_grow_def safe_window_def)
  next
    case above
    have d: "i32_add ?o (as_i32 (length (ds_bins s))) = Some (?o + ?len)" "i32_sub i ?o = Some (i - ?o)"
      "i32_add (i - ?o) 1 = Some (i - ?o + 1)" "as_usize (i - ?o + 1) = nat (i - ?o + 1)"
      using above w assms(2) len ne by (auto simp: i32_add_Some i32_sub_Some safe_index_def is_i32_bounds i32_max_def)
    have g: "vec_resize (ds_bins s) (nat (i - ?o + 1)) 0 = ds_bins s @ replicate (nat (i - ?o + 1) - length (ds_bins s)) 0"
      using above by (intro vec_resize_grow) linarith
    from above ne d w assms(2) False show ?thesis
      by (auto simp: dense_grow_def safe_window_def g bins_mset_append)
  next
    case inside
    have d: "i32_add ?o (as_i32 (length (ds_bins s))) = Some (?o + ?len)"
      using w len by (auto simp: i32_add_Some i32_sub_Some safe_index_def is_i32_bounds)
    from inside d assms False show ?thesis by (simp add: dense_grow_def)
  qed
qed

lemma dense_bin_index_ok:
  assumes "safe_window (ds_offset s) (ds_bins s)" and "ds_offset s \<le> i"
    and "i < ds_offset s + int (length (ds_bins s))"
  shows "dense_bin_index i s = Some (nat (i - ds_offset s)) \<and> nat (i - ds_offset s) < length (ds_bins s)"
proof -
  have "safe_index (ds_offset s)" "safe_index (ds_offset s + int (length (ds_bins s)) - 1)"
    using assms by (auto simp: safe_window_def)
  then have "is_i32 (i - ds_offset s)" "as_usize (i - ds_offset s) = nat (i - ds_offset s)"
    using assms(2,3) by (auto simp: i32_add_Some i32_sub_Some safe_index_def is_i32_bounds i32_max_def)
  then have "dense_bin_index i s = Some (nat (i - ds_offset s))"
    by (simp add: dense_bin_index_def i32_sub_def i32_chk_def)
  with assms(2,3) show ?thesis by auto
qed

lemma dense_add_rep:
  assumes "dense_rep s M" and "safe_index i" and "size M + n \<le> u64_max"
  shows "\<exists>s'. dense_add i n s = Some s' \<and> dense_rep s' (M + replicate_mset n i)"
proof (cases "n = 0")
  case True
  then show ?thesis using assms(1) by (simp add: dense_add_def)
next
  case False
  from assms(1) have w: "safe_window (ds_offset s) (ds_bins s)" and M: "M = bins_mset (ds_offset s) (ds_bins s)"
    and c: "ds_count s = size M"
    by (auto simp: dense_rep_def)
  from dense_grow_spec [OF w assms(2)] obtain g where g: "dense_grow i s = Some g" "ds_count g = ds_count s"
      "bins_mset (ds_offset g) (ds_bins g) = M" "safe_window (ds_offset g) (ds_bins g)"
      "ds_offset g \<le> i" "i < ds_offset g + int (length (ds_bins g))"
    by (auto simp: M)
  let ?j = "nat (i - ds_offset g)"
  have j: "dense_bin_index i g = Some ?j" "?j < length (ds_bins g)" using dense_bin_index_ok [OF g(4-6)] by auto
  have sum: "sum_list (ds_bins g) = size M" using size_bins_mset [of "ds_offset g" "ds_bins g"] g(3) by simp
  have b: "bins_add ?j n (ds_bins g) = Some ((ds_bins g)[?j := ds_bins g ! ?j + n])"
    by (rule bins_add_exact [OF j(2)]) (simp add: sum assms(3))
  have "bins_mset (ds_offset g) ((ds_bins g)[?j := ds_bins g ! ?j + n]) = M + replicate_mset n i"
    using bins_mset_update [OF j(2)] g(3,5) by simp
  with False g j b c assms(3) show ?thesis
    by (auto simp: dense_add_def dense_rep_def sat_add_exact safe_window_def)
qed

interpretation dense_loops: store_add dense_add dense_rep
  by unfold_locales (rule dense_add_rep)

lemma dense_merge_loop_spec:
  assumes "safe_window (ds_offset s) (ds_bins s)" and "safe_window offset (pre @ bins)" and "i = length pre"
    and "sum_list (ds_bins s) + sum_list bins \<le> u64_max"
    and "\<forall>k\<in>#bins_mset (offset + int i) bins. ds_offset s \<le> k \<and> k < ds_offset s + int (length (ds_bins s))"
  shows "\<exists>s'. dense_merge_loop offset i bins s = Some s' \<and> ds_count s' = ds_count s \<and> ds_offset s' = ds_offset s \<and>
    length (ds_bins s') = length (ds_bins s) \<and>
    bins_mset (ds_offset s') (ds_bins s') = bins_mset (ds_offset s) (ds_bins s) + bins_mset (offset + int i) bins"
  using assms
proof (induction bins arbitrary: pre i s)
  case (Cons c cs)
  have cons: "bins_mset (offset + int i) (c # cs) = replicate_mset c (offset + int i) + bins_mset (offset + int (i + 1)) cs"
    by (simp add: bins_mset_Cons algebra_simps)
  show ?case
  proof (cases "c = 0")
    case True
    then show ?thesis
      using Cons.IH [of s "pre @ [c]" "i + 1"] Cons.prems unfolding cons by simp
  next
    case False
    let ?k = "offset + int i"
    have key: "bin_key offset i = Some ?k"
      by (rule bin_key_ok [OF Cons.prems(2)]) (simp add: Cons.prems(3))
    have range: "ds_offset s \<le> ?k" "?k < ds_offset s + int (length (ds_bins s))"
      using Cons.prems(5) False unfolding cons by auto
    let ?j = "nat (?k - ds_offset s)"
    have j: "dense_bin_index ?k s = Some ?j" "?j < length (ds_bins s)"
      using dense_bin_index_ok [OF Cons.prems(1) range] by auto
    let ?s = "s\<lparr>ds_bins := (ds_bins s)[?j := ds_bins s ! ?j + c]\<rparr>"
    have b: "bins_add ?j c (ds_bins s) = Some (ds_bins ?s)"
      using bins_add_exact [OF j(2), of c] Cons.prems(4) by simp
    have m: "bins_mset (ds_offset s) (ds_bins ?s) = bins_mset (ds_offset s) (ds_bins s) + replicate_mset c ?k"
      using bins_mset_update [OF j(2)] range by simp
    have sum: "sum_list (ds_bins ?s) = sum_list (ds_bins s) + c" using sum_list_bins_update [OF j(2)] by simp
    have "safe_window (ds_offset ?s) (ds_bins ?s)" using Cons.prems(1) by (simp add: safe_window_def)
    moreover have "\<forall>k\<in>#bins_mset (offset + int (i + 1)) cs. ds_offset s \<le> k \<and> k < ds_offset s + int (length (ds_bins s))"
      using Cons.prems(5) unfolding cons by auto
    ultimately
    obtain s' where s': "dense_merge_loop offset (i + 1) cs ?s = Some s'" "ds_count s' = ds_count s"
        "ds_offset s' = ds_offset s" "length (ds_bins s') = length (ds_bins s)"
        "bins_mset (ds_offset s') (ds_bins s') = bins_mset (ds_offset s) (ds_bins ?s) + bins_mset (offset + int (i + 1)) cs"
      using Cons.IH [of ?s "pre @ [c]" "i + 1"] Cons.prems(2-4) sum by auto
    moreover have "dense_merge_loop offset i (c # cs) s = dense_merge_loop offset (i + 1) cs ?s"
      using False key j(1) b by simp
    ultimately show ?thesis using m unfolding cons by (simp add: ac_simps)
  qed
qed simp

lemma dense_rep_empty: "dense_rep s M \<Longrightarrow> ds_count s = 0 \<longleftrightarrow> M = {#}"
  unfolding dense_rep_def by (metis size_eq_0_iff_empty)

lemma dense_merge_rep:
  assumes s: "dense_rep s M" and t: "dense_rep t M'" and size: "size M + size M' \<le> u64_max"
  shows "\<exists>s'. dense_merge t s = Some s' \<and> dense_rep s' (M + M')"
proof -
  from s t have ws: "safe_window (ds_offset s) (ds_bins s)" "safe_window (ds_offset t) (ds_bins t)"
    and M: "M = bins_mset (ds_offset s) (ds_bins s)" "M' = bins_mset (ds_offset t) (ds_bins t)"
    and c: "ds_count s = size M" "ds_count t = size M'"
    by (auto simp: dense_rep_def)
  show ?thesis
  proof (cases "M' = {#}")
    case True
    then have "dense_min_index t = Some None" "dense_max_index t = Some None"
      using ws(2) M(2) by (simp_all add: dense_min_index_def dense_max_index_def min_index_spec max_index_spec)
    then show ?thesis using True c s size by (auto simp: dense_merge_def sat_add_exact dense_rep_def)
  next
    case False
    then have mm: "dense_min_index t = Some (Some (Min_mset M'))" "dense_max_index t = Some (Some (Max_mset M'))"
      using ws(2) M(2) by (simp_all add: dense_min_index_def dense_max_index_def min_index_spec max_index_spec)
    have safe: "safe_index (Min_mset M')" "safe_index (Max_mset M')"
      using False M(2) safe_window_member [OF ws(2)] by simp_all
    from dense_grow_spec [OF ws(1) safe(1)] obtain g1 where g1: "dense_grow (Min_mset M') s = Some g1"
        "ds_count g1 = ds_count s" "bins_mset (ds_offset g1) (ds_bins g1) = M"
        "safe_window (ds_offset g1) (ds_bins g1)" "ds_offset g1 \<le> Min_mset M'"
        "Min_mset M' < ds_offset g1 + int (length (ds_bins g1))"
      by (auto simp: M)
    from g1(5,6) have "ds_bins g1 \<noteq> []" by auto
    with dense_grow_spec [OF g1(4) safe(2)] obtain g2 where g2: "dense_grow (Max_mset M') g1 = Some g2"
        "ds_count g2 = ds_count s" "bins_mset (ds_offset g2) (ds_bins g2) = M"
        "safe_window (ds_offset g2) (ds_bins g2)" "Max_mset M' < ds_offset g2 + int (length (ds_bins g2))"
        "ds_offset g2 \<le> ds_offset g1"
      using g1(2,3) by auto
    have "\<forall>k\<in>#M'. ds_offset g2 \<le> k \<and> k < ds_offset g2 + int (length (ds_bins g2))"
    proof
      fix k
      assume k: "k \<in># M'"
      then have "Min_mset M' \<le> k" "k \<le> Max_mset M'" by simp_all
      with g1(5) g2(5,6) show "ds_offset g2 \<le> k \<and> k < ds_offset g2 + int (length (ds_bins g2))" by linarith
    qed
    moreover have "sum_list (ds_bins g2) = size M" "sum_list (ds_bins t) = size M'"
      using size_bins_mset [of "ds_offset g2" "ds_bins g2"] g2(3) M(2) by simp_all
    ultimately obtain s' where s': "dense_merge_loop (ds_offset t) 0 (ds_bins t) g2 = Some s'"
        "ds_count s' = ds_count s" "ds_offset s' = ds_offset g2" "length (ds_bins s') = length (ds_bins g2)"
        "bins_mset (ds_offset s') (ds_bins s') = M + M'"
      using dense_merge_loop_spec [OF g2(4), of "ds_offset t" "[]" "ds_bins t" 0] ws(2) size g2(2,3) M(2) by auto
    have "safe_window (ds_offset s') (ds_bins s')" using g2(4) s'(3,4) by (auto simp: safe_window_def)
    moreover have "ds_bins t \<noteq> []" using False M(2) by auto
    ultimately show ?thesis
      using mm g1(1) g2(1) s' c size by (simp add: dense_merge_def dense_rep_def sat_add_exact)
  qed
qed

lemma dense_rep_total: "dense_rep s M \<Longrightarrow> ds_count s = size M \<and> size M \<le> u64_max"
  unfolding dense_rep_def by blast

lemma dense_rep_rank:
  "dense_rep s M \<Longrightarrow> dense_key_at_rank r s =
     Some (if r < size M then Some (sorted_list_of_multiset M ! r) else None)"
  using key_at_rank_spec [of "ds_offset s" "ds_bins s" r]
  by (auto simp: dense_key_at_rank_def dense_rep_def)

lemma dense_rep_to_proto: "dense_rep s M \<Longrightarrow> size M < 2 ^ 53 \<Longrightarrow> proto_holds (dense_to_proto s) M"
  using bins_to_proto_holds [of "ds_offset s" "ds_bins s"] by (simp add: dense_to_proto_def dense_rep_def)

lemma dense_rep_min_max:
  assumes "dense_rep s M"
  shows "dense_min_index s = Some (if M = {#} then None else Some (Min_mset M))"
    and "dense_max_index s = Some (if M = {#} then None else Some (Max_mset M))"
  using assms by (simp_all add: dense_min_index_def dense_max_index_def dense_rep_def min_index_spec max_index_spec)

interpretation dense: sketch_store dense_ops dense_rep dense_new "\<lambda>M. M"
proof (unfold_locales, goal_cases)
  case 1
  then show ?case by (simp add: dense_ops_def dense_add_rep)
next
  case 2
  then show ?case by (simp add: dense_new_def dense_rep_def safe_window_def)
next
  case 3
  then show ?case by simp
next
  case 4
  from dense_rep_total [OF this] show ?case by (simp add: dense_ops_def)
next
  case 5
  then show ?case by (simp add: dense_ops_def dense_is_empty_def dense_rep_empty)
next
  case 6
  then show ?case by (simp add: dense_ops_def dense_rep_rank)
next
  case 7
  then show ?case by (simp add: dense_ops_def dense_rep_min_max)
next
  case 8
  then show ?case by (simp add: dense_ops_def dense_rep_min_max)
next
  case 9
  then show ?case by (simp add: dense_ops_def dense_merge_rep)
next
  case 10
  then show ?case by (simp add: dense_ops_def dense_clear_def dense_rep_def safe_window_def)
next
  case 11
  then show ?case by simp
next
  case 12
  then show ?case by (simp add: dense_ops_def dense_merge_from_proto_def)
next
  case 13
  then show ?case by (simp add: dense_ops_def dense_rep_to_proto)
qed

end
