(* ===== verification/Collapsing_Lowest.thy ===== *)
theory Collapsing_Lowest
  imports Store_Bins
begin

text \<open>
  \<^verbatim>\<open>CollapsingLowestDenseStore\<close> (\<^verbatim>\<open>lib/ddsketch/src/canonical/store/collapsing_lowest.rs\<close>): contiguous
  bins, at most \<^verbatim>\<open>max_num_bins\<close> of them. What it reports about a multiset of observations is that
  multiset with every index below \<open>Max - max_num_bins + 1\<close> raised to that floor.
\<close>

section \<open>The store\<close>

record lowest_store =
  cl_bins :: "nat list"
  cl_offset :: int
  cl_max_num_bins :: nat
  cl_count :: nat
  cl_is_collapsed :: bool

definition lowest_new :: "nat \<Rightarrow> lowest_store option" where
  "lowest_new max_num_bins =
     (if max_num_bins \<ge> 1
      then Some \<lparr>cl_bins = [], cl_offset = 0, cl_max_num_bins = max_num_bins, cl_count = 0, cl_is_collapsed = False\<rparr>
      else None)"

text \<open>The two assertions at the end of \<^verbatim>\<open>grow\<close>.\<close>

definition lowest_grow_check :: "int \<Rightarrow> lowest_store \<Rightarrow> lowest_store option" where
  "lowest_grow_check index s = do {
     stop \<leftarrow> i32_add (cl_offset s) (as_i32 (length (cl_bins s)));
     if index < stop \<and> length (cl_bins s) \<le> cl_max_num_bins s then Some s else None
   }"

definition lowest_collapse_below :: "int \<Rightarrow> lowest_store \<Rightarrow> lowest_store option" where
  "lowest_collapse_below new_offset s =
     (if \<not> new_offset > cl_offset s then None
      else if cl_bins s = [] then Some s
      else do {
        d \<leftarrow> i32_sub new_offset (cl_offset s);
        let n = as_usize d;
        bins \<leftarrow> (if n \<ge> length (cl_bins s) then do {
                   collapsed_count \<leftarrow> sum_u64 0 (cl_bins s);
                   Some [collapsed_count]
                 }
                 else do {
                   collapsed_count \<leftarrow> sum_u64 0 (take n (cl_bins s));
                   bins \<leftarrow> vec_upd (cl_bins s) n (\<lambda>c. sat_add c collapsed_count);
                   Some (drop n bins)
                 });
        Some (s\<lparr>cl_bins := bins, cl_offset := new_offset, cl_is_collapsed := True\<rparr>)
      })"

definition lowest_grow_below :: "int \<Rightarrow> lowest_store \<Rightarrow> lowest_store option" where
  "lowest_grow_below index s = do {
     d \<leftarrow> i32_sub (cl_offset s) index;
     let num_prepend = as_usize d;
     new_len \<leftarrow> u64_add (length (cl_bins s)) num_prepend;
     if new_len > cl_max_num_bins s then do {
       widen_by \<leftarrow> u64_sub (cl_max_num_bins s) (length (cl_bins s));
       s \<leftarrow> (if widen_by > 0 then do {
             offset \<leftarrow> i32_sub (cl_offset s) (as_i32 widen_by);
             Some (s\<lparr>cl_bins := replicate widen_by 0 @ cl_bins s, cl_offset := offset\<rparr>)
           }
           else Some s);
       Some (s\<lparr>cl_is_collapsed := True\<rparr>)
     }
     else lowest_grow_check index
            (s\<lparr>cl_bins := replicate num_prepend 0 @ cl_bins s, cl_offset := index\<rparr>)
   }"

definition lowest_grow_above :: "int \<Rightarrow> lowest_store \<Rightarrow> lowest_store option" where
  "lowest_grow_above index s = do {
     d \<leftarrow> i32_sub index (cl_offset s);
     d \<leftarrow> i32_add d 1;
     let new_len = as_usize d;
     s \<leftarrow> (if new_len > cl_max_num_bins s then do {
           a \<leftarrow> i32_sub index (as_i32 (cl_max_num_bins s));
           new_offset \<leftarrow> i32_add a 1;
           lowest_collapse_below new_offset s
         }
         else Some s);
     d \<leftarrow> i32_sub index (cl_offset s);
     d \<leftarrow> i32_add d 1;
     let target_len = min (as_usize d) (cl_max_num_bins s);
     lowest_grow_check index
       (if target_len > length (cl_bins s) then s\<lparr>cl_bins := vec_resize (cl_bins s) target_len 0\<rparr> else s)
   }"

definition lowest_grow :: "int \<Rightarrow> lowest_store \<Rightarrow> lowest_store option" where
  "lowest_grow index s =
     (if cl_bins s = [] then Some (s\<lparr>cl_bins := [0], cl_offset := index\<rparr>)
      else if index < cl_offset s then lowest_grow_below index s
      else do {
        stop \<leftarrow> i32_add (cl_offset s) (as_i32 (length (cl_bins s)));
        if index \<ge> stop then lowest_grow_above index s else lowest_grow_check index s
      })"

definition lowest_bin_index :: "int \<Rightarrow> lowest_store \<Rightarrow> nat option" where
  "lowest_bin_index index s =
     (if index < cl_offset s then Some 0
      else do {
        d \<leftarrow> i32_sub index (cl_offset s);
        let idx = as_usize d;
        if \<not> idx < length (cl_bins s) then None
        else do { last_bin \<leftarrow> u64_sub (length (cl_bins s)) 1; Some (min idx last_bin) }
      })"

definition lowest_add :: "int \<Rightarrow> nat \<Rightarrow> lowest_store \<Rightarrow> lowest_store option" where
  "lowest_add index n s =
     (if n = 0 then Some s
      else do {
        s \<leftarrow> lowest_grow index s;
        bin_idx \<leftarrow> lowest_bin_index index s;
        bins \<leftarrow> bins_add bin_idx n (cl_bins s);
        Some (s\<lparr>cl_bins := bins, cl_count := sat_add (cl_count s) n\<rparr>)
      })"

definition lowest_min_index :: "lowest_store \<Rightarrow> int option option" where
  "lowest_min_index s = bins_min_index (cl_offset s) (cl_bins s)"

definition lowest_max_index :: "lowest_store \<Rightarrow> int option option" where
  "lowest_max_index s = bins_max_index (cl_offset s) (cl_bins s)"

definition lowest_key_at_rank :: "nat \<Rightarrow> lowest_store \<Rightarrow> int option option" where
  "lowest_key_at_rank rank s =
     (if rank \<ge> cl_count s then Some None else rank_loop (cl_offset s) rank 0 0 (cl_bins s))"

definition lowest_merge :: "lowest_store \<Rightarrow> lowest_store \<Rightarrow> lowest_store option" where
  "lowest_merge other s =
     (if cl_bins other = [] then Some s
      else add_bins_loop lowest_add (cl_offset other) 0 (cl_bins other)
             (if cl_is_collapsed other then s\<lparr>cl_is_collapsed := True\<rparr> else s))"

definition lowest_is_empty :: "lowest_store \<Rightarrow> bool" where
  "lowest_is_empty s \<longleftrightarrow> cl_count s = 0"

definition lowest_clear :: "lowest_store \<Rightarrow> lowest_store" where
  "lowest_clear s = s\<lparr>cl_bins := [], cl_offset := 0, cl_count := 0, cl_is_collapsed := False\<rparr>"

definition lowest_merge_from_proto ::
    "proto_store \<Rightarrow> lowest_store \<Rightarrow> (lowest_store \<times> (proto_error + unit)) option" where
  "lowest_merge_from_proto proto s = merge_from_proto_with lowest_add proto s"

definition lowest_to_proto :: "lowest_store \<Rightarrow> proto_store" where
  "lowest_to_proto s = bins_to_proto (cl_offset s) (cl_bins s)"

definition lowest_default :: lowest_store where
  "lowest_default = the (lowest_new 2048)"

definition lowest_ops :: "lowest_store store_ops" where
  "lowest_ops =
     \<lparr>so_add = lowest_add, so_total_count = cl_count, so_min_index = lowest_min_index,
      so_max_index = lowest_max_index, so_key_at_rank = lowest_key_at_rank, so_merge = lowest_merge,
      so_is_empty = lowest_is_empty, so_clear = lowest_clear,
      so_merge_from_proto = lowest_merge_from_proto, so_to_proto = lowest_to_proto, so_default = lowest_default\<rparr>"

section \<open>What it represents\<close>

definition low_floor :: "nat \<Rightarrow> int \<Rightarrow> int" where
  "low_floor N hi = hi - int N + 1"

definition low_view :: "nat \<Rightarrow> int multiset \<Rightarrow> int multiset" where
  "low_view N M = image_mset (max (low_floor N (Max_mset M))) M"

definition lowest_rep :: "nat \<Rightarrow> lowest_store \<Rightarrow> int multiset \<Rightarrow> bool" where
  "lowest_rep N s M \<longleftrightarrow>
     cl_max_num_bins s = N \<and> 1 \<le> N \<and> cl_count s = size M \<and> size M \<le> u64_max \<and>
     safe_window (cl_offset s) (cl_bins s) \<and> length (cl_bins s) \<le> N \<and>
     bins_mset (cl_offset s) (cl_bins s) = low_view N M \<and>
     (cl_bins s = [] \<longleftrightarrow> M = {#}) \<and>
     (M \<noteq> {#} \<longrightarrow> cl_offset s + int (length (cl_bins s)) - 1 = Max_mset M)"

lemma size_low_view [simp]: "size (low_view N M) = size M"
  by (simp add: low_view_def)

lemma image_max_max: "a \<le> b \<Longrightarrow> image_mset (max b) (image_mset (max a) M) = image_mset (max (b :: int)) M"
  by (simp add: image_mset.compositionality comp_def max.left_commute max.absorb2 flip: max.assoc)

lemma Max_mset_image_max: "M \<noteq> {#} \<Longrightarrow> f \<le> Max_mset M \<Longrightarrow> Max_mset (image_mset (max (f :: int)) M) = Max_mset M"
proof -
  assume M: "M \<noteq> {#}" and f: "f \<le> Max_mset M"
  show ?thesis
  proof (rule Max_eqI)
    show "\<And>y. y \<in> set_mset (image_mset (max f) M) \<Longrightarrow> y \<le> Max_mset M" using f by auto
    have "Max_mset M \<in># M" using M by simp
    then show "Max_mset M \<in> set_mset (image_mset (max f) M)" using f by force
  qed simp
qed

lemma Max_low_view: "M \<noteq> {#} \<Longrightarrow> 1 \<le> N \<Longrightarrow> Max_mset (low_view N M) = Max_mset M"
  unfolding low_view_def by (rule Max_mset_image_max) (simp_all add: low_floor_def)

lemma low_view_Nil [simp]: "low_view N {#} = {#}" "low_view N M = {#} \<longleftrightarrow> M = {#}"
  by (simp_all add: low_view_def)

section \<open>Growing\<close>

text \<open>What \<^verbatim>\<open>grow\<close> leaves: a window whose top is \<open>T\<close>, with everything below the floor of \<open>T\<close> raised to it.\<close>

definition low_grown :: "nat \<Rightarrow> lowest_store \<Rightarrow> int \<Rightarrow> int multiset \<Rightarrow> int \<Rightarrow> lowest_store \<Rightarrow> bool" where
  "low_grown N s T M i g \<longleftrightarrow>
     cl_max_num_bins g = N \<and> cl_count g = cl_count s \<and> cl_bins g \<noteq> [] \<and> length (cl_bins g) \<le> N \<and>
     cl_offset g + int (length (cl_bins g)) - 1 = T \<and> safe_index (cl_offset g) \<and>
     bins_mset (cl_offset g) (cl_bins g) = image_mset (max (low_floor N T)) M \<and>
     (i < cl_offset g \<longrightarrow> cl_offset g = low_floor N T)"

lemma lowest_check_ok:
  assumes "safe_index (cl_offset s)" and "safe_index (cl_offset s + int (length (cl_bins s)) - 1)"
    and "cl_bins s \<noteq> []" and "index < cl_offset s + int (length (cl_bins s))"
    and "length (cl_bins s) \<le> cl_max_num_bins s"
  shows "lowest_grow_check index s = Some s"
proof -
  have "int (length (cl_bins s)) \<le> i32_max" using assms(1,2) by (auto simp: safe_index_def i32_max_def)
  moreover have "is_i32 (cl_offset s + int (length (cl_bins s)))"
    using assms(1,2) by (auto simp: safe_index_def is_i32_bounds)
  ultimately show ?thesis using assms(4,5) by (simp add: lowest_grow_check_def i32_add_ok)
qed

lemma lowest_collapse_spec:
  assumes ne: "cl_bins s \<noteq> []" and above: "cl_offset s < f" and safe: "safe_index (cl_offset s)" "safe_index f"
    and sum: "sum_list (cl_bins s) \<le> u64_max"
  shows "\<exists>bins. lowest_collapse_below f s = Some (s\<lparr>cl_bins := bins, cl_offset := f, cl_is_collapsed := True\<rparr>) \<and>
    bins \<noteq> [] \<and> int (length bins) \<le> max 1 (cl_offset s + int (length (cl_bins s)) - f) \<and>
    bins_mset f bins = image_mset (max f) (bins_mset (cl_offset s) (cl_bins s))"
proof -
  define n where "n = nat (f - cl_offset s)"
  have d: "i32_sub f (cl_offset s) = Some (f - cl_offset s)" "as_usize (f - cl_offset s) = n"
    using above safe by (auto simp: i32_sub_Some n_def safe_index_def is_i32_bounds i32_max_def)
  have f: "cl_offset s + int n = f" using above by (simp add: n_def)
  show ?thesis
  proof (cases "length (cl_bins s) \<le> n")
    case True
    have "image_mset (max f) (bins_mset (cl_offset s) (cl_bins s)) = replicate_mset (sum_list (cl_bins s)) f"
      by (rule collapse_all_low) (use True f in linarith)
    then show ?thesis
      using ne above d True sum
      by (intro exI [of _ "[sum_list (cl_bins s)]"]) (simp add: lowest_collapse_below_def sum_u64_exact)
  next
    case False
    let ?c = "sum_list (take n (cl_bins s))"
    have split: "sum_list (take n (cl_bins s)) + sum_list (drop n (cl_bins s)) = sum_list (cl_bins s)"
      by (metis append_take_drop_id sum_list_append)
    have "cl_bins s ! n \<le> sum_list (drop n (cl_bins s))"
      using False by (metis Cons_nth_drop_Suc le_add1 not_le sum_list.Cons)
    with split sum have "cl_bins s ! n + ?c \<le> u64_max" by linarith
    then have upd: "drop n ((cl_bins s)[n := sat_add (cl_bins s ! n) ?c]) =
        (cl_bins s ! n + ?c) # drop (Suc n) (cl_bins s)"
      using False by (simp add: sat_add_exact drop_update_swap flip: Cons_nth_drop_Suc)
    have "sum_u64 0 (take n (cl_bins s)) = Some ?c" using sum_u64_exact [of 0] split sum by simp
    with upd collapse_low_mset [of n "cl_bins s" "cl_offset s"] ne above d False f show ?thesis
      by (intro exI [of _ "(cl_bins s ! n + ?c) # drop (Suc n) (cl_bins s)"])
        (auto simp: lowest_collapse_below_def vec_upd_def)
  qed
qed

lemma lowest_grow_empty:
  assumes "cl_bins s = []" and "safe_index i" and "cl_max_num_bins s = N" and "1 \<le> N"
  shows "\<exists>g. lowest_grow i s = Some g \<and> low_grown N s i {#} i g"
  using assms by (simp add: lowest_grow_def low_grown_def bins_mset_Cons)

lemma lowest_grow_below_spec:
  assumes rep: "lowest_rep N s M" and M: "M \<noteq> {#}" and i: "safe_index i" "i < cl_offset s"
  shows "\<exists>g. lowest_grow i s = Some g \<and> low_grown N s (Max_mset M) M i g"
proof -
  let ?o = "cl_offset s" and ?len = "length (cl_bins s)"
  have s: "cl_max_num_bins s = N" "1 \<le> N" "cl_bins s \<noteq> []" "?len \<le> N" "?o + int ?len - 1 = Max_mset M"
      "bins_mset ?o (cl_bins s) = image_mset (max (low_floor N (Max_mset M))) M"
      "safe_index ?o" "safe_index (?o + int ?len - 1)"
    using rep M by (auto simp: lowest_rep_def safe_window_def low_view_def)
  have d: "i32_sub ?o i = Some (?o - i)" "as_usize (?o - i) = nat (?o - i)"
    using i s(7) by (auto simp: i32_sub_Some safe_index_def is_i32_bounds i32_max_def)
  have len: "?len + nat (?o - i) \<le> u64_max"
    using i s(7,8) by (auto simp: safe_index_def u64_max_def)
  have start: "lowest_grow i s = lowest_grow_below i s" using i(2) s(3) by (simp add: lowest_grow_def)
  show ?thesis
  proof (cases "N < ?len + nat (?o - i)")
    case True
    let ?w = "N - ?len"
    have w: "int ?w < ?o - i" using True i(2) s(4) by linarith
    have wi: "as_i32 ?w = int ?w" "i32_sub ?o (int ?w) = Some (?o - int ?w)"
      using w i s(7) by (auto simp: i32_sub_Some safe_index_def is_i32_bounds i32_max_def)
    let ?g = "s\<lparr>cl_bins := replicate ?w 0 @ cl_bins s, cl_offset := ?o - int ?w, cl_is_collapsed := True\<rparr>"
    have "lowest_grow_below i s = Some ?g"
      using d len True s(1,4) wi by (cases "?w = 0") (simp_all add: lowest_grow_below_def u64_sub_def)
    moreover have "low_grown N s (Max_mset M) M i ?g"
      using s w i(1) by (auto simp: low_grown_def bins_mset_append low_floor_def safe_index_def of_nat_diff)
    ultimately show ?thesis using start by auto
  next
    case False
    let ?g = "s\<lparr>cl_bins := replicate (nat (?o - i)) 0 @ cl_bins s, cl_offset := i\<rparr>"
    have "lowest_grow_check i ?g = Some ?g"
      by (rule lowest_check_ok) (use i s(1,3,8) False in auto)
    then have "lowest_grow_below i s = Some ?g"
      using d len False s(1) by (simp add: lowest_grow_below_def)
    moreover have "low_grown N s (Max_mset M) M i ?g"
      using s i False by (auto simp: low_grown_def bins_mset_append)
    ultimately show ?thesis using start by auto
  qed
qed

lemma lowest_grow_inside_spec:
  assumes rep: "lowest_rep N s M" and M: "M \<noteq> {#}"
    and i: "cl_offset s \<le> i" "i < cl_offset s + int (length (cl_bins s))"
  shows "\<exists>g. lowest_grow i s = Some g \<and> low_grown N s (Max_mset M) M i g"
proof -
  have s: "cl_max_num_bins s = N" "cl_bins s \<noteq> []" "length (cl_bins s) \<le> N"
      "cl_offset s + int (length (cl_bins s)) - 1 = Max_mset M"
      "bins_mset (cl_offset s) (cl_bins s) = image_mset (max (low_floor N (Max_mset M))) M"
      "safe_index (cl_offset s)" "safe_index (cl_offset s + int (length (cl_bins s)) - 1)"
    using rep M by (auto simp: lowest_rep_def safe_window_def low_view_def)
  have "lowest_grow_check i s = Some s" by (rule lowest_check_ok) (use s i in auto)
  moreover have "i32_add (cl_offset s) (as_i32 (length (cl_bins s))) = Some (cl_offset s + int (length (cl_bins s)))"
    using s(6,7) by (auto simp: i32_add_Some safe_index_def is_i32_bounds i32_max_def as_i32_def)
  ultimately have "lowest_grow i s = Some s" using s(2) i by (simp add: lowest_grow_def)
  then show ?thesis using s i by (auto simp: low_grown_def)
qed

lemma lowest_grow_above_spec:
  assumes rep: "lowest_rep N s M" and M: "M \<noteq> {#}"
    and i: "safe_index i" "cl_offset s + int (length (cl_bins s)) \<le> i"
  shows "\<exists>g. lowest_grow i s = Some g \<and> low_grown N s i M i g"
proof -
  let ?o = "cl_offset s" and ?len = "length (cl_bins s)" and ?F = "low_floor N (Max_mset M)"
  have s: "cl_max_num_bins s = N" "1 \<le> N" "cl_bins s \<noteq> []" "?len \<le> N" "?o + int ?len - 1 = Max_mset M"
      "bins_mset ?o (cl_bins s) = image_mset (max ?F) M" "safe_index ?o" "safe_index (?o + int ?len - 1)"
      "sum_list (cl_bins s) \<le> u64_max"
    using rep M size_bins_mset [of ?o "cl_bins s"] by (auto simp: lowest_rep_def safe_window_def low_view_def)
  have ne: "0 < ?len" using s(3) by simp
  have d: "i32_sub i ?o = Some (i - ?o)" "i32_add (i - ?o) 1 = Some (i - ?o + 1)" "as_usize (i - ?o + 1) = nat (i - ?o + 1)"
    using i s(7) ne by (auto simp: i32_sub_Some i32_add_Some safe_index_def is_i32_bounds i32_max_def)
  have "i32_add ?o (as_i32 ?len) = Some (?o + int ?len)"
    using s(7,8) by (auto simp: i32_add_Some safe_index_def is_i32_bounds i32_max_def as_i32_def)
  then have start: "lowest_grow i s = lowest_grow_above i s" using i(2) s(3) ne by (simp add: lowest_grow_def)
  have image: "image_mset (max f) (bins_mset ?o (cl_bins s)) = image_mset (max f) M" if "?F \<le> f" for f
    using s(6) that by (simp add: image_max_max)
  have le: "?F \<le> low_floor N i" using i(2) s(5) by (simp add: low_floor_def)
  show ?thesis
  proof (cases "N < nat (i - ?o + 1)")
    case True
    let ?f = "low_floor N i"
    have f: "?o < ?f" "safe_index ?f" using True i(1) s(2,7) by (auto simp: low_floor_def safe_index_def)
    have fi: "as_i32 N = int N" "i32_sub i (int N) = Some (i - int N)" "i32_add (i - int N) 1 = Some ?f"
      using True i(1) s(7) f(2)
      by (auto simp: i32_sub_Some i32_add_Some safe_index_def is_i32_bounds i32_max_def low_floor_def)
    obtain bins where b: "lowest_collapse_below ?f s = Some (s\<lparr>cl_bins := bins, cl_offset := ?f, cl_is_collapsed := True\<rparr>)"
        "bins \<noteq> []" "int (length bins) \<le> max 1 (?o + int ?len - ?f)" "bins_mset ?f bins = image_mset (max ?f) M"
      using lowest_collapse_spec [OF s(3) f(1) s(7) f(2) s(9)] image [OF le] by auto
    have lb: "length bins \<le> N" using b(3) f(1) s(2,4) by linarith
    have d': "i32_sub i ?f = Some (i - ?f)" "i32_add (i - ?f) 1 = Some (int N)" "as_usize (int N) = N"
      using f(2) i(1) fi(1) s(2) True s(7)
      by (auto simp: i32_sub_Some i32_add_Some safe_index_def is_i32_bounds i32_max_def low_floor_def)
    let ?g = "s\<lparr>cl_bins := bins @ replicate (N - length bins) 0, cl_offset := ?f, cl_is_collapsed := True\<rparr>"
    have chk: "lowest_grow_check i ?g = Some ?g"
      by (rule lowest_check_ok) (use f i s(1) lb b(2) in \<open>auto simp: low_floor_def\<close>)
    have comm: "s\<lparr>cl_offset := ?f, cl_is_collapsed := True, cl_bins := b\<rparr> =
        s\<lparr>cl_bins := b, cl_offset := ?f, cl_is_collapsed := True\<rparr>" for b
      by (cases s) simp
    have "lowest_grow_above i s = lowest_grow_check i ?g"
      using d True s(1) fi b(1) d' lb
      by (cases "length bins < N") (simp_all add: lowest_grow_above_def comm vec_resize_grow)
    moreover have "low_grown N s i M i ?g"
      using s(1,2) b lb f(2) by (auto simp: low_grown_def bins_mset_append low_floor_def)
    ultimately show ?thesis using start chk by auto
  next
    case False
    let ?n = "nat (i - ?o + 1)"
    let ?g = "s\<lparr>cl_bins := cl_bins s @ replicate (?n - ?len) 0\<rparr>"
    have n: "?len < ?n" "?n \<le> N" using i(2) False by auto
    have chk: "lowest_grow_check i ?g = Some ?g"
      by (rule lowest_check_ok) (use s i n in auto)
    have "lowest_grow_above i s = lowest_grow_check i ?g"
      using d False s(1) n by (simp add: lowest_grow_above_def vec_resize_grow min_absorb1)
    moreover have "\<forall>k\<in>#bins_mset ?o (cl_bins s). low_floor N i \<le> k"
    proof
      fix k
      assume "k \<in># bins_mset ?o (cl_bins s)"
      then have "?o \<le> k" by (simp add: bins_mset_range)
      then show "low_floor N i \<le> k" using n(2) i(2) by (simp add: low_floor_def)
    qed
    then have "image_mset (max (low_floor N i)) M = bins_mset ?o (cl_bins s)"
      using image [OF le] image_max_above by metis
    then have "low_grown N s i M i ?g" using s n i by (auto simp: low_grown_def bins_mset_append)
    ultimately show ?thesis using start chk by auto
  qed
qed

lemma lowest_grow_spec:
  assumes rep: "lowest_rep N s M" and i: "safe_index i"
  shows "\<exists>g. lowest_grow i s = Some g \<and> low_grown N s (Max_mset (add_mset i M)) M i g"
proof (cases "M = {#}")
  case True
  with rep i lowest_grow_empty [of s i N] show ?thesis by (auto simp: lowest_rep_def)
next
  case False
  let ?o = "cl_offset s" and ?len = "int (length (cl_bins s))"
  have T: "?o + ?len - 1 = Max_mset M" "0 < ?len" using rep False by (auto simp: lowest_rep_def)
  have Max: "Max_mset (add_mset i M) = max i (Max_mset M)" using False by simp
  consider "i < ?o" | "?o \<le> i" "i < ?o + ?len" | "?o + ?len \<le> i" by linarith
  then show ?thesis
  proof cases
    case 1
    then have "max i (Max_mset M) = Max_mset M" using T by linarith
    with lowest_grow_below_spec [OF rep False i 1] show ?thesis unfolding Max by simp
  next
    case 2
    then have "max i (Max_mset M) = Max_mset M" using T by linarith
    with lowest_grow_inside_spec [OF rep False 2] show ?thesis unfolding Max by simp
  next
    case 3
    then have "max i (Max_mset M) = i" using T by linarith
    with lowest_grow_above_spec [OF rep False i 3] show ?thesis unfolding Max by simp
  qed
qed

section \<open>Adding and merging\<close>

lemma low_grown_window:
  assumes "low_grown N s T M i g" and "safe_index T"
  shows "safe_window (cl_offset g) (cl_bins g)"
  using assms by (auto simp: low_grown_def safe_window_def)

lemma lowest_bin_index_spec:
  assumes "low_grown N s T M i g" and "safe_index T" and "i \<le> T"
  shows "\<exists>j. lowest_bin_index i g = Some j \<and> j < length (cl_bins g) \<and>
    cl_offset g + int j = max (low_floor N T) i"
proof (cases "i < cl_offset g")
  case True
  with assms(1) show ?thesis by (auto simp: low_grown_def lowest_bin_index_def)
next
  case False
  have g: "cl_offset g + int (length (cl_bins g)) - 1 = T" "length (cl_bins g) \<le> N" "safe_index (cl_offset g)"
    using assms(1) by (auto simp: low_grown_def)
  have d: "i32_sub i (cl_offset g) = Some (i - cl_offset g)" "as_usize (i - cl_offset g) = nat (i - cl_offset g)"
    using False g assms(2,3) by (auto simp: i32_sub_Some safe_index_def is_i32_bounds i32_max_def)
  have "nat (i - cl_offset g) < length (cl_bins g)" using False g(1) assms(3) by linarith
  moreover have "low_floor N T \<le> i" using False g(1,2) by (simp add: low_floor_def)
  ultimately show ?thesis using False d by (auto simp: lowest_bin_index_def u64_sub_def)
qed

lemma lowest_add_rep:
  assumes rep: "lowest_rep N s M" and i: "safe_index i" and size: "size M + n \<le> u64_max"
    and safe: "\<forall>k\<in>#M. safe_index k"
  shows "\<exists>s'. lowest_add i n s = Some s' \<and> lowest_rep N s' (M + replicate_mset n i)"
proof (cases "n = 0")
  case True
  then show ?thesis using rep by (simp add: lowest_add_def)
next
  case False
  define T where "T = Max_mset (add_mset i M)"
  have Max: "Max_mset (M + replicate_mset n i) = T" using False by (simp add: T_def)
  have T: "safe_index T" "i \<le> T"
    using i safe Max_in [of "set_mset (add_mset i M)"] by (auto simp: T_def)
  from lowest_grow_spec [OF rep i] obtain g where g: "lowest_grow i s = Some g" "low_grown N s T M i g"
    unfolding T_def by blast
  from lowest_bin_index_spec [OF g(2) T] obtain j where j: "lowest_bin_index i g = Some j"
      "j < length (cl_bins g)" "cl_offset g + int j = max (low_floor N T) i"
    by blast
  have gb: "bins_mset (cl_offset g) (cl_bins g) = image_mset (max (low_floor N T)) M" "cl_count g = size M"
      "cl_max_num_bins g = N" "1 \<le> N" "length (cl_bins g) \<le> N" "cl_offset g + int (length (cl_bins g)) - 1 = T"
      "cl_bins g \<noteq> []"
    using g(2) rep by (auto simp: low_grown_def lowest_rep_def)
  have sum: "sum_list (cl_bins g) = size M"
    using size_bins_mset [of "cl_offset g" "cl_bins g"] gb(1) by simp
  let ?bins = "(cl_bins g)[j := cl_bins g ! j + n]"
  have "bins_add j n (cl_bins g) = Some ?bins" using bins_add_exact [OF j(2)] sum size by simp
  then have add: "lowest_add i n s = Some (g\<lparr>cl_bins := ?bins, cl_count := size M + n\<rparr>)"
    using False g(1) j(1) gb(2) size by (simp add: lowest_add_def sat_add_exact)
  have "bins_mset (cl_offset g) ?bins = low_view N (M + replicate_mset n i)"
    unfolding low_view_def Max using bins_mset_update [OF j(2)] gb(1) j(3) by simp
  moreover have "safe_window (cl_offset g) ?bins"
    using low_grown_window [OF g(2) T(1)] by (simp add: safe_window_def)
  moreover have "M + replicate_mset n i \<noteq> {#}" using False by simp
  ultimately have "lowest_rep N (g\<lparr>cl_bins := ?bins, cl_count := size M + n\<rparr>) (M + replicate_mset n i)"
    using gb Max size by (simp add: lowest_rep_def)
  with add show ?thesis by blast
qed

text \<open>The relation used as the contract also records that the observations are in the safe range.\<close>

definition lowest_safe_rep :: "nat \<Rightarrow> lowest_store \<Rightarrow> int multiset \<Rightarrow> bool" where
  "lowest_safe_rep N s M \<longleftrightarrow> lowest_rep N s M \<and> (\<forall>k\<in>#M. safe_index k)"

lemma lowest_safe_add:
  "lowest_safe_rep N s M \<Longrightarrow> safe_index i \<Longrightarrow> size M + n \<le> u64_max \<Longrightarrow>
   \<exists>s'. lowest_add i n s = Some s' \<and> lowest_safe_rep N s' (M + replicate_mset n i)"
  using lowest_add_rep [of N s M i n] by (auto simp: lowest_safe_rep_def)

interpretation low_loops: store_add lowest_add "lowest_safe_rep N" for N
  by unfold_locales (rule lowest_safe_add)

lemma low_view_union:
  assumes "1 \<le> N"
  shows "low_view N (M + low_view N M') = low_view N (M + M')"
proof (cases "M' = {#}")
  case False
  have Max: "Max_mset (M + low_view N M') = Max_mset (M + M')"
  proof (cases "M = {#}")
    case True
    then show ?thesis using Max_low_view [OF False assms] by simp
  next
    case M: False
    have "low_view N M' \<noteq> {#}" using False by simp
    with M have "Max_mset (M + low_view N M') = max (Max_mset M) (Max_mset (low_view N M'))"
      by (rule Max_mset_union)
    also have "\<dots> = max (Max_mset M) (Max_mset M')" unfolding Max_low_view [OF False assms] ..
    also have "\<dots> = Max_mset (M + M')" by (rule Max_mset_union [OF M False, symmetric])
    finally show ?thesis .
  qed
  have "Max_mset M' \<le> Max_mset (M + M')" using False by (simp add: Max_mono)
  then have le: "low_floor N (Max_mset M') \<le> low_floor N (Max_mset (M + M'))" by (simp add: low_floor_def)
  show ?thesis
    unfolding low_view_def [of N "M + low_view N M'"] Max unfolding low_view_def image_mset_union
    using image_max_max [OF le] by simp
qed simp

lemma lowest_safe_view:
  assumes "lowest_safe_rep N s (M + low_view N M')" and "\<forall>k\<in>#M'. safe_index k"
  shows "lowest_safe_rep N s (M + M')"
proof -
  have N: "1 \<le> N" using assms(1) by (simp add: lowest_safe_rep_def lowest_rep_def)
  have "M + low_view N M' \<noteq> {#} \<Longrightarrow> Max_mset (M + low_view N M') = Max_mset (M + M')"
  proof -
    assume ne: "M + low_view N M' \<noteq> {#}"
    then have "Max_mset (low_view N (M + low_view N M')) = Max_mset (M + low_view N M')" by (rule Max_low_view [OF _ N])
    moreover have "Max_mset (low_view N (M + M')) = Max_mset (M + M')" using ne by (intro Max_low_view [OF _ N]) simp
    ultimately show ?thesis using low_view_union [OF N, of M M'] by simp
  qed
  with assms show ?thesis
    by (auto simp: lowest_safe_rep_def lowest_rep_def low_view_union [OF N])
qed

lemma lowest_merge_rep:
  assumes s: "lowest_safe_rep N s M" and t: "lowest_safe_rep N t M'" and size: "size M + size M' \<le> u64_max"
  shows "\<exists>s'. lowest_merge t s = Some s' \<and> lowest_safe_rep N s' (M + M')"
proof (cases "M' = {#}")
  case True
  then show ?thesis using s t by (auto simp: lowest_merge_def lowest_safe_rep_def lowest_rep_def)
next
  case False
  let ?s = "if cl_is_collapsed t then s\<lparr>cl_is_collapsed := True\<rparr> else s"
  have t': "cl_bins t \<noteq> []" "safe_window (cl_offset t) (cl_bins t)" "bins_mset (cl_offset t) (cl_bins t) = low_view N M'"
    using t False by (auto simp: lowest_safe_rep_def lowest_rep_def)
  have sum: "sum_list (cl_bins t) = size M'"
    using size_bins_mset [of "cl_offset t" "cl_bins t"] t'(3) by simp
  have "lowest_safe_rep N ?s M" using s by (simp add: lowest_safe_rep_def lowest_rep_def)
  from low_loops.rep_add_bins [OF this, of "cl_offset t" "[]" "cl_bins t" 0] t' sum size
  obtain s' where s': "add_bins_loop lowest_add (cl_offset t) 0 (cl_bins t) ?s = Some s'"
      "lowest_safe_rep N s' (M + low_view N M')"
    by auto
  have "\<forall>k\<in>#M'. safe_index k" using t by (simp add: lowest_safe_rep_def)
  with s' t'(1) lowest_safe_view show ?thesis unfolding lowest_merge_def by auto
qed

lemma lowest_rep_empty: "lowest_rep N s M \<Longrightarrow> cl_count s = 0 \<longleftrightarrow> M = {#}"
  unfolding lowest_rep_def by (metis size_eq_0_iff_empty)

lemma lowest_rep_sum: "lowest_rep N s M \<Longrightarrow> sum_list (cl_bins s) = size M"
  using size_bins_mset [of "cl_offset s" "cl_bins s"] by (simp add: lowest_rep_def)

lemma lowest_rep_rank:
  assumes "lowest_rep N s M"
  shows "lowest_key_at_rank r s = Some (if r < size M then Some (sorted_list_of_multiset (low_view N M) ! r) else None)"
  using key_at_rank_spec [of "cl_offset s" "cl_bins s" r] lowest_rep_sum [OF assms] assms
  by (simp add: lowest_key_at_rank_def lowest_rep_def)

lemma lowest_rep_min_max:
  assumes "lowest_rep N s M"
  shows "lowest_min_index s = Some (if M = {#} then None else Some (Min_mset (low_view N M)))"
    and "lowest_max_index s = Some (if M = {#} then None else Some (Max_mset (low_view N M)))"
  using assms min_index_spec [of "cl_offset s" "cl_bins s"] max_index_spec [of "cl_offset s" "cl_bins s"]
  by (simp_all add: lowest_min_index_def lowest_max_index_def lowest_rep_def)

lemma lowest_rep_to_proto: "lowest_rep N s M \<Longrightarrow> size M < 2 ^ 53 \<Longrightarrow> proto_holds (lowest_to_proto s) (low_view N M)"
  using bins_to_proto_holds [of "cl_offset s" "cl_bins s"] lowest_rep_sum [of N s M]
  by (simp add: lowest_to_proto_def lowest_rep_def)

interpretation low: sketch_store lowest_ops "lowest_safe_rep (Suc n)" "the (lowest_new (Suc n))" "low_view (Suc n)"
  for n
proof (unfold_locales, goal_cases)
  case 1
  then show ?case by (simp add: lowest_ops_def lowest_safe_add)
next
  case 2
  then show ?case by (simp add: lowest_new_def lowest_safe_rep_def lowest_rep_def safe_window_def)
next
  case 3
  then show ?case by simp
next
  case 4
  then show ?case by (simp add: lowest_ops_def lowest_safe_rep_def lowest_rep_def)
next
  case 5
  then show ?case by (auto simp: lowest_ops_def lowest_is_empty_def lowest_safe_rep_def lowest_rep_empty)
next
  case 6
  then show ?case by (auto simp: lowest_ops_def lowest_safe_rep_def lowest_rep_rank)
next
  case 7
  then show ?case by (auto simp: lowest_ops_def lowest_safe_rep_def lowest_rep_min_max)
next
  case 8
  then show ?case by (auto simp: lowest_ops_def lowest_safe_rep_def lowest_rep_min_max)
next
  case 9
  then show ?case by (simp add: lowest_ops_def lowest_merge_rep)
next
  case 10
  then show ?case by (simp add: lowest_ops_def lowest_clear_def lowest_safe_rep_def lowest_rep_def safe_window_def)
next
  case (11 t M' s M)
  have "\<forall>k\<in>#M'. safe_index k" using 11(1) by (simp add: lowest_safe_rep_def)
  with 11(2) show ?case by (rule lowest_safe_view)
next
  case 12
  then show ?case by (simp add: lowest_ops_def lowest_merge_from_proto_def)
next
  case 13
  then show ?case by (simp add: lowest_ops_def lowest_safe_rep_def lowest_rep_to_proto)
qed

section \<open>The collapse flag\<close>

text \<open>As long as the flag is clear, nothing was collapsed.\<close>

lemma lowest_grow_flag:
  assumes "lowest_grow i s = Some g" and "\<not> cl_is_collapsed g"
  shows "\<not> cl_is_collapsed s \<and> cl_offset g \<le> i \<and> (cl_bins s \<noteq> [] \<longrightarrow> cl_offset g \<le> cl_offset s)"
  using assms
  by (auto simp: lowest_grow_def lowest_grow_below_def lowest_grow_above_def lowest_grow_check_def
      lowest_collapse_below_def Let_def split: bind_splits if_splits)

lemma low_view_exact_iff: "low_view N M = M \<longleftrightarrow> (\<forall>k\<in>#M. low_floor N (Max_mset M) \<le> k)"
proof
  assume "low_view N M = M"
  then have "k \<in># image_mset (max (low_floor N (Max_mset M))) M" if "k \<in># M" for k
    using that by (simp add: low_view_def)
  then show "\<forall>k\<in>#M. low_floor N (Max_mset M) \<le> k" by fastforce
next
  assume "\<forall>k\<in>#M. low_floor N (Max_mset M) \<le> k"
  then show "low_view N M = M" unfolding low_view_def by (rule image_max_above)
qed

definition flag_sound :: "nat \<Rightarrow> lowest_store \<Rightarrow> int multiset \<Rightarrow> bool" where
  "flag_sound N s M \<longleftrightarrow> (\<not> cl_is_collapsed s \<longrightarrow> low_view N M = M)"

lemma lowest_add_flag:
  assumes rep: "lowest_safe_rep N s M" and flag: "flag_sound N s M" and i: "safe_index i"
    and size: "size M + n \<le> u64_max" and add: "lowest_add i n s = Some s'"
  shows "flag_sound N s' (M + replicate_mset n i)"
proof (cases "n = 0")
  case True
  then show ?thesis using flag add by (simp add: lowest_add_def)
next
  case False
  have r: "lowest_rep N s M" using rep by (simp add: lowest_safe_rep_def)
  from lowest_grow_spec [OF r i] obtain g where g: "lowest_grow i s = Some g"
      "low_grown N s (Max_mset (add_mset i M)) M i g"
    by blast
  have Max: "Max_mset (M + replicate_mset n i) = Max_mset (add_mset i M)" using False by simp
  show ?thesis unfolding flag_sound_def
  proof
    assume "\<not> cl_is_collapsed s'"
    then have "\<not> cl_is_collapsed g" using add False g(1) by (auto simp: lowest_add_def split: bind_splits)
    with lowest_grow_flag [OF g(1)] have f: "\<not> cl_is_collapsed s" "cl_offset g \<le> i"
        "cl_bins s \<noteq> [] \<longrightarrow> cl_offset g \<le> cl_offset s"
      by auto
    have floor: "low_floor N (Max_mset (add_mset i M)) \<le> cl_offset g"
      using g(2) by (auto simp: low_grown_def low_floor_def)
    have "cl_offset g \<le> k" if "k \<in># M" for k
    proof -
      have "bins_mset (cl_offset s) (cl_bins s) = M" "cl_bins s \<noteq> []"
        using r flag f(1) that by (auto simp: lowest_rep_def flag_sound_def)
      with that bins_mset_range [of k "cl_offset s" "cl_bins s"] f(3) show ?thesis by auto
    qed
    with floor f(2) show "low_view N (M + replicate_mset n i) = M + replicate_mset n i"
      unfolding low_view_exact_iff Max by (auto intro: order_trans)
  qed
qed

text \<open>The stores that \<^verbatim>\<open>new\<close>, \<^verbatim>\<open>add\<close>, \<^verbatim>\<open>merge\<close> and \<^verbatim>\<open>clear\<close> produce, with what was put into them.\<close>

inductive lowest_run :: "nat \<Rightarrow> lowest_store \<Rightarrow> int multiset \<Rightarrow> bool" for N where
  run_new: "lowest_new N = Some s \<Longrightarrow> lowest_run N s {#}"
| run_add: "lowest_run N s M \<Longrightarrow> safe_index i \<Longrightarrow> size M + n \<le> u64_max \<Longrightarrow> lowest_add i n s = Some s' \<Longrightarrow>
    lowest_run N s' (M + replicate_mset n i)"
| run_merge: "lowest_run N s M \<Longrightarrow> lowest_run N t M' \<Longrightarrow> size M + size M' \<le> u64_max \<Longrightarrow>
    lowest_merge t s = Some s' \<Longrightarrow> lowest_run N s' (M + M')"
| run_clear: "lowest_run N s M \<Longrightarrow> lowest_run N (lowest_clear s) {#}"

lemma add_bins_flag:
  assumes "lowest_safe_rep N s M" and "flag_sound N s M" and "safe_window offset (pre @ bins)" and "i = length pre"
    and "size M + sum_list bins \<le> u64_max" and "add_bins_loop lowest_add offset i bins s = Some s'"
  shows "flag_sound N s' (M + bins_mset (offset + int i) bins) \<and> (cl_is_collapsed s \<longrightarrow> cl_is_collapsed s')"
  using assms
proof (induction bins arbitrary: pre i s M)
  case (Cons c cs)
  have shift: "bins_mset (offset + int i) (c # cs) = replicate_mset c (offset + int i) + bins_mset (offset + int (i + 1)) cs"
    by (simp add: bins_mset_Cons algebra_simps)
  show ?case
  proof (cases "c = 0")
    case True
    then show ?thesis
      using Cons.IH [of s M "pre @ [c]" "i + 1"] Cons.prems unfolding shift by simp
  next
    case False
    have safe: "safe_index (offset + int i)" using Cons.prems(3,4) by (auto simp: safe_window_def safe_index_def)
    have key: "bin_key offset i = Some (offset + int i)"
      by (rule bin_key_ok [OF Cons.prems(3)]) (simp add: Cons.prems(4))
    have fits: "size M + c \<le> u64_max" using Cons.prems(5) by simp
    obtain s1 where s1: "lowest_add (offset + int i) c s = Some s1"
        "lowest_safe_rep N s1 (M + replicate_mset c (offset + int i))"
      using lowest_safe_add [OF Cons.prems(1) safe fits] by blast
    have fl: "flag_sound N s1 (M + replicate_mset c (offset + int i))"
      by (rule lowest_add_flag [OF Cons.prems(1,2) safe fits s1(1)])
    have keep: "cl_is_collapsed s \<longrightarrow> cl_is_collapsed s1"
      using s1(1) lowest_grow_flag [of "offset + int i" s] False
      by (fastforce simp: lowest_add_def split: bind_splits)
    have "add_bins_loop lowest_add offset (i + 1) cs s1 = Some s'" using Cons.prems(6) False key s1(1) by simp
    with Cons.IH [OF s1(2) fl, of "pre @ [c]" "i + 1"] Cons.prems(3-5) keep show ?thesis
      unfolding shift by (auto simp: ac_simps)
  qed
qed simp

lemma lowest_merge_flag:
  assumes s: "lowest_safe_rep N s M" "flag_sound N s M" and t: "lowest_safe_rep N t M'" "flag_sound N t M'"
    and size: "size M + size M' \<le> u64_max" and merge: "lowest_merge t s = Some s'"
  shows "flag_sound N s' (M + M')"
proof (cases "M' = {#}")
  case True
  then show ?thesis using s t merge by (auto simp: lowest_merge_def lowest_safe_rep_def lowest_rep_def)
next
  case False
  let ?s = "if cl_is_collapsed t then s\<lparr>cl_is_collapsed := True\<rparr> else s"
  have t': "cl_bins t \<noteq> []" "safe_window (cl_offset t) (cl_bins t)" "bins_mset (cl_offset t) (cl_bins t) = low_view N M'"
    using t(1) False by (auto simp: lowest_safe_rep_def lowest_rep_def)
  have sum: "sum_list (cl_bins t) = size M'"
    using size_bins_mset [of "cl_offset t" "cl_bins t"] t'(3) by simp
  have s0: "lowest_safe_rep N ?s M" "flag_sound N ?s M"
    using s by (simp_all add: lowest_safe_rep_def lowest_rep_def flag_sound_def)
  have "add_bins_loop lowest_add (cl_offset t) 0 (cl_bins t) ?s = Some s'" using merge t'(1) by (simp add: lowest_merge_def)
  from add_bins_flag [OF s0, of "cl_offset t" "[]", OF _ _ _ this] t' sum size
  have "flag_sound N s' (M + low_view N M')" "cl_is_collapsed ?s \<longrightarrow> cl_is_collapsed s'"
    by auto
  then show ?thesis using t(2) by (cases "cl_is_collapsed t") (auto simp: flag_sound_def)
qed

lemma lowest_run_rep: "lowest_run N s M \<Longrightarrow> lowest_safe_rep N s M \<and> flag_sound N s M"
proof (induction rule: lowest_run.induct)
  case (run_new s)
  then show ?case
    by (auto simp: lowest_new_def lowest_safe_rep_def lowest_rep_def flag_sound_def safe_window_def split: if_splits)
next
  case (run_add s M i n s')
  then show ?case using lowest_safe_add [of N s M i n] lowest_add_flag [of N s M i n s'] by auto
next
  case (run_merge s M t M' s')
  then show ?case using lowest_merge_rep [of N s M t M'] lowest_merge_flag [of N s M t M' s'] by auto
next
  case (run_clear s M)
  then show ?case
    by (simp add: lowest_clear_def lowest_safe_rep_def lowest_rep_def flag_sound_def safe_window_def)
qed

end
