(* ===== verification/Collapsing_Highest.thy ===== *)
theory Collapsing_Highest
  imports Store_Bins
begin

text \<open>
  \<^verbatim>\<open>CollapsingHighestDenseStore\<close> (\<^verbatim>\<open>lib/ddsketch/src/canonical/store/collapsing_highest.rs\<close>): contiguous
  bins, at most \<^verbatim>\<open>max_num_bins\<close> of them. What it reports about a multiset of observations is that
  multiset with every index above \<open>Min + max_num_bins - 1\<close> lowered to that ceiling.
\<close>

section \<open>The store\<close>

record highest_store =
  ch_bins :: "nat list"
  ch_offset :: int
  ch_max_num_bins :: nat
  ch_count :: nat
  ch_is_collapsed :: bool

definition highest_new :: "nat \<Rightarrow> highest_store option" where
  "highest_new max_num_bins =
     (if max_num_bins \<ge> 1
      then Some \<lparr>ch_bins = [], ch_offset = 0, ch_max_num_bins = max_num_bins, ch_count = 0, ch_is_collapsed = False\<rparr>
      else None)"

text \<open>The two assertions at the end of \<^verbatim>\<open>grow\<close>.\<close>

definition highest_grow_check :: "int \<Rightarrow> highest_store \<Rightarrow> highest_store option" where
  "highest_grow_check index s =
     (if index \<ge> ch_offset s \<and> length (ch_bins s) \<le> ch_max_num_bins s then Some s else None)"

definition highest_collapse_above :: "int \<Rightarrow> highest_store \<Rightarrow> highest_store option" where
  "highest_collapse_above new_ceiling s =
     (if ch_bins s = [] then Some s
      else
        (let keep = nat (max (new_ceiling - ch_offset s + 1) 0) in
         if keep = 0 then do {
           collapsed_count \<leftarrow> sum_u64 0 (ch_bins s);
           Some (s\<lparr>ch_bins := [collapsed_count], ch_offset := new_ceiling, ch_is_collapsed := True\<rparr>)
         }
         else if keep < length (ch_bins s) then do {
           collapsed_count \<leftarrow> sum_u64 0 (drop keep (ch_bins s));
           bins \<leftarrow> vec_upd (ch_bins s) (keep - 1) (\<lambda>c. sat_add c collapsed_count);
           Some (s\<lparr>ch_bins := take keep bins, ch_is_collapsed := True\<rparr>)
         }
         else Some (s\<lparr>ch_is_collapsed := True\<rparr>)))"

definition highest_grow_above :: "int \<Rightarrow> highest_store \<Rightarrow> highest_store option" where
  "highest_grow_above index s = do {
     d \<leftarrow> i32_sub index (ch_offset s);
     d \<leftarrow> i32_add d 1;
     let new_len = as_usize d;
     if new_len > ch_max_num_bins s then
       Some (s\<lparr>ch_bins := (if length (ch_bins s) < ch_max_num_bins s
                            then vec_resize (ch_bins s) (ch_max_num_bins s) 0 else ch_bins s),
               ch_is_collapsed := True\<rparr>)
     else highest_grow_check index (s\<lparr>ch_bins := vec_resize (ch_bins s) new_len 0\<rparr>)
   }"

definition highest_grow_below :: "int \<Rightarrow> highest_store \<Rightarrow> highest_store option" where
  "highest_grow_below index s = do {
     d \<leftarrow> i32_sub (ch_offset s) index;
     new_len \<leftarrow> u64_add (length (ch_bins s)) (as_usize d);
     s \<leftarrow> (if new_len > ch_max_num_bins s then do {
           a \<leftarrow> i32_add index (as_i32 (ch_max_num_bins s));
           new_ceiling \<leftarrow> i32_sub a 1;
           highest_collapse_above new_ceiling s
         }
         else Some s);
     d \<leftarrow> i32_sub (ch_offset s) index;
     let num_prepend = as_usize d;
     highest_grow_check index
       (if num_prepend > 0
        then s\<lparr>ch_bins := replicate num_prepend 0 @ ch_bins s, ch_offset := index\<rparr> else s)
   }"

definition highest_grow :: "int \<Rightarrow> highest_store \<Rightarrow> highest_store option" where
  "highest_grow index s =
     (if ch_bins s = [] then Some (s\<lparr>ch_bins := [0], ch_offset := index\<rparr>)
      else do {
        stop \<leftarrow> i32_add (ch_offset s) (as_i32 (length (ch_bins s)));
        if index \<ge> stop then highest_grow_above index s
        else if index < ch_offset s then highest_grow_below index s
        else highest_grow_check index s
      })"

definition highest_bin_index :: "int \<Rightarrow> highest_store \<Rightarrow> nat option" where
  "highest_bin_index index s = do {
     stop \<leftarrow> i32_add (ch_offset s) (as_i32 (length (ch_bins s)));
     if index \<ge> stop then u64_sub (length (ch_bins s)) 1
     else if \<not> index \<ge> ch_offset s then None
     else map_option as_usize (i32_sub (max index (ch_offset s)) (ch_offset s))
   }"

definition highest_add :: "int \<Rightarrow> nat \<Rightarrow> highest_store \<Rightarrow> highest_store option" where
  "highest_add index n s =
     (if n = 0 then Some s
      else do {
        s \<leftarrow> highest_grow index s;
        bin_idx \<leftarrow> highest_bin_index index s;
        bins \<leftarrow> bins_add bin_idx n (ch_bins s);
        Some (s\<lparr>ch_bins := bins, ch_count := sat_add (ch_count s) n\<rparr>)
      })"

definition highest_min_index :: "highest_store \<Rightarrow> int option option" where
  "highest_min_index s = bins_min_index (ch_offset s) (ch_bins s)"

definition highest_max_index :: "highest_store \<Rightarrow> int option option" where
  "highest_max_index s = bins_max_index (ch_offset s) (ch_bins s)"

definition highest_key_at_rank :: "nat \<Rightarrow> highest_store \<Rightarrow> int option option" where
  "highest_key_at_rank rank s =
     (if rank \<ge> ch_count s then Some None else rank_loop (ch_offset s) rank 0 0 (ch_bins s))"

definition highest_merge :: "highest_store \<Rightarrow> highest_store \<Rightarrow> highest_store option" where
  "highest_merge other s =
     (if ch_bins other = [] then Some s
      else add_bins_loop highest_add (ch_offset other) 0 (ch_bins other)
             (if ch_is_collapsed other then s\<lparr>ch_is_collapsed := True\<rparr> else s))"

definition highest_is_empty :: "highest_store \<Rightarrow> bool" where
  "highest_is_empty s \<longleftrightarrow> ch_count s = 0"

definition highest_clear :: "highest_store \<Rightarrow> highest_store" where
  "highest_clear s = s\<lparr>ch_bins := [], ch_offset := 0, ch_count := 0, ch_is_collapsed := False\<rparr>"

definition highest_merge_from_proto ::
    "proto_store \<Rightarrow> highest_store \<Rightarrow> (highest_store \<times> (proto_error + unit)) option" where
  "highest_merge_from_proto proto s = merge_from_proto_with highest_add proto s"

definition highest_to_proto :: "highest_store \<Rightarrow> proto_store" where
  "highest_to_proto s = bins_to_proto (ch_offset s) (ch_bins s)"

definition highest_default :: highest_store where
  "highest_default = the (highest_new 2048)"

definition highest_ops :: "highest_store store_ops" where
  "highest_ops =
     \<lparr>so_add = highest_add, so_total_count = ch_count, so_min_index = highest_min_index,
      so_max_index = highest_max_index, so_key_at_rank = highest_key_at_rank, so_merge = highest_merge,
      so_is_empty = highest_is_empty, so_clear = highest_clear,
      so_merge_from_proto = highest_merge_from_proto, so_to_proto = highest_to_proto, so_default = highest_default\<rparr>"

section \<open>What it represents\<close>

definition high_ceiling :: "nat \<Rightarrow> int \<Rightarrow> int" where
  "high_ceiling N lo = lo + int N - 1"

definition high_view :: "nat \<Rightarrow> int multiset \<Rightarrow> int multiset" where
  "high_view N M = image_mset (min (high_ceiling N (Min_mset M))) M"

definition highest_rep :: "nat \<Rightarrow> highest_store \<Rightarrow> int multiset \<Rightarrow> bool" where
  "highest_rep N s M \<longleftrightarrow>
     ch_max_num_bins s = N \<and> 1 \<le> N \<and> ch_count s = size M \<and> size M \<le> u64_max \<and>
     safe_window (ch_offset s) (ch_bins s) \<and> length (ch_bins s) \<le> N \<and>
     bins_mset (ch_offset s) (ch_bins s) = high_view N M \<and>
     (ch_bins s = [] \<longleftrightarrow> M = {#}) \<and> (\<forall>k\<in>#M. safe_index k) \<and>
     (M \<noteq> {#} \<longrightarrow> ch_offset s = Min_mset M)"

lemma size_high_view [simp]: "size (high_view N M) = size M"
  by (simp add: high_view_def)

lemma high_view_Nil [simp]: "high_view N {#} = {#}" "high_view N M = {#} \<longleftrightarrow> M = {#}"
  by (simp_all add: high_view_def)

lemma image_min_min: "b \<le> a \<Longrightarrow> image_mset (min b) (image_mset (min a) M) = image_mset (min (b :: int)) M"
  by (simp add: image_mset.compositionality comp_def min.absorb1 flip: min.assoc)

lemma Min_high_view: "M \<noteq> {#} \<Longrightarrow> 1 \<le> N \<Longrightarrow> Min_mset (high_view N M) = Min_mset M"
proof -
  assume M: "M \<noteq> {#}" and N: "1 \<le> N"
  let ?f = "high_ceiling N (Min_mset M)"
  have f: "Min_mset M \<le> ?f" using N by (simp add: high_ceiling_def)
  show ?thesis unfolding high_view_def
  proof (rule Min_eqI)
    show "\<And>y. y \<in> set_mset (image_mset (min ?f) M) \<Longrightarrow> Min_mset M \<le> y" using f by auto
    have "Min_mset M \<in># M" using M by simp
    then show "Min_mset M \<in> set_mset (image_mset (min ?f) M)" using f by force
  qed simp
qed

section \<open>Growing\<close>

text \<open>What \<^verbatim>\<open>grow\<close> leaves: a window that starts at \<open>L\<close>, with everything above its ceiling lowered to it.\<close>

definition high_grown :: "nat \<Rightarrow> highest_store \<Rightarrow> int \<Rightarrow> int multiset \<Rightarrow> int \<Rightarrow> highest_store \<Rightarrow> bool" where
  "high_grown N s L M i g \<longleftrightarrow>
     ch_max_num_bins g = N \<and> ch_count g = ch_count s \<and> ch_bins g \<noteq> [] \<and> length (ch_bins g) \<le> N \<and>
     ch_offset g = L \<and> safe_index L \<and> safe_index (L + int (length (ch_bins g)) - 1) \<and>
     bins_mset L (ch_bins g) = image_mset (min (high_ceiling N L)) M \<and>
     (L + int (length (ch_bins g)) \<le> i \<longrightarrow> length (ch_bins g) = N)"

lemma high_stop:
  assumes "safe_index (ch_offset s)" and "safe_index (ch_offset s + int (length (ch_bins s)) - 1)"
  shows "i32_add (ch_offset s) (as_i32 (length (ch_bins s))) = Some (ch_offset s + int (length (ch_bins s)))"
  using assms by (auto simp: i32_add_Some safe_index_def is_i32_bounds i32_max_def as_i32_def)

lemma highest_collapse_spec:
  assumes ne: "ch_bins s \<noteq> []" and below: "c < ch_offset s + int (length (ch_bins s)) - 1"
    and sum: "sum_list (ch_bins s) \<le> u64_max"
  shows "\<exists>bins. highest_collapse_above c s =
      Some (s\<lparr>ch_bins := bins, ch_offset := min c (ch_offset s), ch_is_collapsed := True\<rparr>) \<and>
    bins \<noteq> [] \<and> min c (ch_offset s) + int (length bins) - 1 = c \<and>
    bins_mset (min c (ch_offset s)) bins = image_mset (min c) (bins_mset (ch_offset s) (ch_bins s))"
proof (cases "c < ch_offset s")
  case True
  have "image_mset (min c) (bins_mset (ch_offset s) (ch_bins s)) = replicate_mset (sum_list (ch_bins s)) c"
    by (rule collapse_all_high) (use True in simp)
  with True ne sum show ?thesis
    by (intro exI [of _ "[sum_list (ch_bins s)]"]) (simp add: highest_collapse_above_def sum_u64_exact)
next
  case False
  define k where "k = nat (c - ch_offset s + 1)"
  have k: "0 < k" "k < length (ch_bins s)" "ch_offset s + int k - 1 = c" "nat (max (c - ch_offset s + 1) 0) = k"
    using False below by (auto simp: k_def)
  let ?c = "sum_list (drop k (ch_bins s))"
  have split: "sum_list (take k (ch_bins s)) + ?c = sum_list (ch_bins s)"
    by (metis append_take_drop_id sum_list_append)
  have take_k: "take k (ch_bins s) = take (k - 1) (ch_bins s) @ [ch_bins s ! (k - 1)]"
    using k(1,2) by (metis Suc_diff_1 less_imp_diff_less take_Suc_conv_app_nth)
  then have "ch_bins s ! (k - 1) \<le> sum_list (take k (ch_bins s))" by simp
  with split sum have fits: "ch_bins s ! (k - 1) + ?c \<le> u64_max" by linarith
  have upd: "take k ((ch_bins s)[k - 1 := sat_add (ch_bins s ! (k - 1)) ?c]) =
      take (k - 1) (ch_bins s) @ [ch_bins s ! (k - 1) + ?c]"
    using k(1,2) take_k fits by (simp add: take_update_swap sat_add_exact list_update_append)
  have "sum_u64 0 (drop k (ch_bins s)) = Some ?c" using sum_u64_exact [of 0] split sum by simp
  with upd k ne False collapse_high_mset [OF k(1,2), of "ch_offset s"] show ?thesis
    by (intro exI [of _ "take (k - 1) (ch_bins s) @ [ch_bins s ! (k - 1) + ?c]"])
      (auto simp: highest_collapse_above_def vec_upd_def min_def of_nat_diff)
qed

lemma highest_rep_sum: "highest_rep N s M \<Longrightarrow> sum_list (ch_bins s) = size M"
  unfolding highest_rep_def by (metis size_bins_mset size_high_view)

lemma highest_rep_facts:
  assumes "highest_rep N s M" and "M \<noteq> {#}"
  shows "ch_max_num_bins s = N" "1 \<le> N" "ch_bins s \<noteq> []" "length (ch_bins s) \<le> N" "ch_offset s = Min_mset M"
    "bins_mset (ch_offset s) (ch_bins s) = image_mset (min (high_ceiling N (Min_mset M))) M"
    "safe_index (ch_offset s)" "safe_index (ch_offset s + int (length (ch_bins s)) - 1)"
    "sum_list (ch_bins s) \<le> u64_max"
  using assms highest_rep_sum [OF assms(1)]
  by (auto simp: highest_rep_def safe_window_def high_view_def)

lemma highest_grow_inside_spec:
  assumes rep: "highest_rep N s M" and M: "M \<noteq> {#}"
    and i: "ch_offset s \<le> i" "i < ch_offset s + int (length (ch_bins s))"
  shows "\<exists>g. highest_grow i s = Some g \<and> high_grown N s (Min_mset M) M i g"
proof -
  note s = highest_rep_facts [OF rep M]
  have "highest_grow i s = Some s"
    using high_stop [OF s(7,8)] s(1,3,4) i by (simp add: highest_grow_def highest_grow_check_def)
  then show ?thesis using s i by (auto simp: high_grown_def)
qed

lemma highest_grow_above_spec:
  assumes rep: "highest_rep N s M" and M: "M \<noteq> {#}"
    and i: "safe_index i" "ch_offset s + int (length (ch_bins s)) \<le> i"
  shows "\<exists>g. highest_grow i s = Some g \<and> high_grown N s (Min_mset M) M i g"
proof -
  note s = highest_rep_facts [OF rep M]
  let ?o = "ch_offset s" and ?len = "length (ch_bins s)"
  have ne: "0 < ?len" using s(3) by simp
  have d: "i32_sub i ?o = Some (i - ?o)" "i32_add (i - ?o) 1 = Some (i - ?o + 1)" "as_usize (i - ?o + 1) = nat (i - ?o + 1)"
    using i s(7) ne by (auto simp: i32_sub_Some i32_add_Some safe_index_def is_i32_bounds i32_max_def)
  have start: "highest_grow i s = highest_grow_above i s"
    using high_stop [OF s(7,8)] i(2) s(3) by (simp add: highest_grow_def)
  show ?thesis
  proof (cases "N < nat (i - ?o + 1)")
    case True
    let ?g = "s\<lparr>ch_bins := ch_bins s @ replicate (N - ?len) 0, ch_is_collapsed := True\<rparr>"
    have "highest_grow_above i s = Some ?g"
      using d True s(1,4) by (cases "?len < N") (simp_all add: highest_grow_above_def vec_resize_grow)
    moreover have "safe_index (?o + int N - 1)" using True i(1) s(2,7) by (auto simp: safe_index_def)
    then have "high_grown N s (Min_mset M) M i ?g"
      using s(1-7) by (auto simp: high_grown_def bins_mset_append of_nat_diff)
    ultimately show ?thesis using start by auto
  next
    case False
    let ?n = "nat (i - ?o + 1)"
    have n: "?len < ?n" "?n \<le> N" using i(2) False by auto
    let ?g = "s\<lparr>ch_bins := ch_bins s @ replicate (?n - ?len) 0\<rparr>"
    have "highest_grow_above i s = Some ?g"
      using d False s(1) n i(2) by (simp add: highest_grow_above_def highest_grow_check_def vec_resize_grow)
    moreover have "high_grown N s (Min_mset M) M i ?g"
      using s(1-7) n i by (auto simp: high_grown_def bins_mset_append)
    ultimately show ?thesis using start by auto
  qed
qed

lemma highest_grow_below_spec:
  assumes rep: "highest_rep N s M" and M: "M \<noteq> {#}" and i: "safe_index i" "i < ch_offset s"
  shows "\<exists>g. highest_grow i s = Some g \<and> high_grown N s i M i g"
proof -
  note s = highest_rep_facts [OF rep M]
  let ?o = "ch_offset s" and ?len = "length (ch_bins s)" and ?c = "high_ceiling N i"
  have ne: "0 < ?len" using s(3) by simp
  have d: "i32_sub ?o i = Some (?o - i)" "as_usize (?o - i) = nat (?o - i)"
    using i s(7) by (auto simp: i32_sub_Some safe_index_def is_i32_bounds i32_max_def)
  have len: "?len + nat (?o - i) \<le> u64_max" using i s(7,8) by (auto simp: safe_index_def u64_max_def)
  have start: "highest_grow i s = highest_grow_below i s"
    using high_stop [OF s(7,8)] i(2) s(3) ne by (simp add: highest_grow_def)
  have le: "?c \<le> high_ceiling N (Min_mset M)" using i(2) s(5) by (simp add: high_ceiling_def)
  have image: "image_mset (min ?c) (bins_mset ?o (ch_bins s)) = image_mset (min ?c) M"
    using s(6) le by (simp add: image_min_min)
  show ?thesis
  proof (cases "N < ?len + nat (?o - i)")
    case True
    have c: "?c < ?o + int ?len - 1" "i \<le> ?c" using True i(2) s(2) by (auto simp: high_ceiling_def)
    have ci: "as_i32 N = int N" "i32_add i (int N) = Some (i + int N)" "i32_sub (i + int N) 1 = Some ?c"
      using True i s(7,8) by (auto simp: i32_sub_Some i32_add_Some safe_index_def is_i32_bounds i32_max_def high_ceiling_def)
    let ?o' = "min ?c ?o"
    obtain bins where b: "highest_collapse_above ?c s = Some (s\<lparr>ch_bins := bins, ch_offset := ?o', ch_is_collapsed := True\<rparr>)"
        "bins \<noteq> []" "?o' + int (length bins) - 1 = ?c" "bins_mset ?o' bins = image_mset (min ?c) M"
      using highest_collapse_spec [OF s(3) c(1) s(9)] image by auto
    have o': "i \<le> ?o'" "safe_index ?o'" using c(2) i s(7,8) c(1) by (auto simp: safe_index_def)
    have d': "i32_sub ?o' i = Some (?o' - i)" "as_usize (?o' - i) = nat (?o' - i)"
      using i(1) o' by (auto simp: i32_sub_Some safe_index_def is_i32_bounds i32_max_def)
    let ?g = "s\<lparr>ch_bins := replicate (nat (?o' - i)) 0 @ bins, ch_offset := i, ch_is_collapsed := True\<rparr>"
    have comm: "s\<lparr>ch_is_collapsed := True, ch_bins := b, ch_offset := i\<rparr> =
        s\<lparr>ch_bins := b, ch_offset := i, ch_is_collapsed := True\<rparr>" for b
      by (cases s) simp
    have lg: "length (replicate (nat (?o' - i)) 0 @ bins) = N"
      using b(3) o'(1) unfolding high_ceiling_def length_append length_replicate by linarith
    have "highest_grow_below i s = Some ?g"
    proof (cases "?o' = i")
      case eq: True
      then show ?thesis
        using d len True s(1) ci b(1) d' lg by (simp add: highest_grow_below_def highest_grow_check_def)
    next
      case neq: False
      then have "0 < nat (?o' - i)" using o'(1) by linarith
      then show ?thesis
        using d len True s(1) ci b(1) d' lg by (simp add: highest_grow_below_def highest_grow_check_def comm)
    qed
    moreover have "high_grown N s i M i ?g"
      using s(1,2) i b(2,4) o' lg c(1,2) s(8) by (auto simp: high_grown_def bins_mset_append high_ceiling_def safe_index_def)
    ultimately show ?thesis using start by auto
  next
    case False
    let ?g = "s\<lparr>ch_bins := replicate (nat (?o - i)) 0 @ ch_bins s, ch_offset := i\<rparr>"
    have "highest_grow_below i s = Some ?g"
      using d len False s(1) i(2) by (simp add: highest_grow_below_def highest_grow_check_def)
    moreover have "\<forall>k\<in>#bins_mset ?o (ch_bins s). k \<le> ?c"
    proof
      fix k
      assume "k \<in># bins_mset ?o (ch_bins s)"
      then have "k < ?o + int ?len" by (simp add: bins_mset_range)
      then show "k \<le> ?c" using False i(2) by (simp add: high_ceiling_def)
    qed
    then have "image_mset (min ?c) M = bins_mset ?o (ch_bins s)" using image image_min_below by metis
    then have "high_grown N s i M i ?g"
      using s(1-8) i False by (auto simp: high_grown_def bins_mset_append)
    ultimately show ?thesis using start by auto
  qed
qed

lemma highest_grow_spec:
  assumes rep: "highest_rep N s M" and i: "safe_index i"
  shows "\<exists>g. highest_grow i s = Some g \<and> high_grown N s (Min_mset (add_mset i M)) M i g"
proof (cases "M = {#}")
  case True
  with rep i show ?thesis by (auto simp: highest_rep_def highest_grow_def high_grown_def bins_mset_Cons)
next
  case False
  let ?o = "ch_offset s" and ?len = "int (length (ch_bins s))"
  have L: "?o = Min_mset M" "0 < ?len" using rep False by (auto simp: highest_rep_def)
  have Min: "Min_mset (add_mset i M) = min i (Min_mset M)" using False by simp
  consider "i < ?o" | "?o \<le> i" "i < ?o + ?len" | "?o + ?len \<le> i" by linarith
  then show ?thesis
  proof cases
    case 1
    then have "min i (Min_mset M) = i" using L by linarith
    with highest_grow_below_spec [OF rep False i 1] show ?thesis unfolding Min by simp
  next
    case 2
    then have "min i (Min_mset M) = Min_mset M" using L by linarith
    with highest_grow_inside_spec [OF rep False 2] show ?thesis unfolding Min by simp
  next
    case 3
    then have "min i (Min_mset M) = Min_mset M" using L by linarith
    with highest_grow_above_spec [OF rep False i 3] show ?thesis unfolding Min by simp
  qed
qed

section \<open>Adding and merging\<close>

lemma highest_bin_index_spec:
  assumes g: "high_grown N s L M i g" and "L \<le> i" and "safe_index i"
  shows "\<exists>j. highest_bin_index i g = Some j \<and> j < length (ch_bins g) \<and> ch_offset g + int j = min (high_ceiling N L) i"
proof -
  have f: "ch_offset g = L" "ch_bins g \<noteq> []" "safe_index L" "safe_index (L + int (length (ch_bins g)) - 1)"
      "length (ch_bins g) \<le> N" "L + int (length (ch_bins g)) \<le> i \<longrightarrow> length (ch_bins g) = N"
    using g by (auto simp: high_grown_def)
  have stop: "i32_add L (as_i32 (length (ch_bins g))) = Some (L + int (length (ch_bins g)))"
    using high_stop [of g] f by simp
  show ?thesis
  proof (cases "L + int (length (ch_bins g)) \<le> i")
    case True
    then have "highest_bin_index i g = Some (length (ch_bins g) - 1)"
      using stop f(1,2) by (simp add: highest_bin_index_def u64_sub_def Suc_leI)
    then show ?thesis using True f by (auto simp: high_ceiling_def of_nat_diff Suc_leI)
  next
    case False
    have d: "i32_sub i L = Some (i - L)" "as_usize (i - L) = nat (i - L)"
      using assms(2,3) f(3) by (auto simp: i32_sub_Some safe_index_def is_i32_bounds i32_max_def)
    then have "highest_bin_index i g = Some (nat (i - L))"
      using stop f(1) False assms(2) by (simp add: highest_bin_index_def max_absorb1)
    then show ?thesis using False f assms(2) by (auto simp: high_ceiling_def)
  qed
qed

lemma highest_add_rep:
  assumes rep: "highest_rep N s M" and i: "safe_index i" and size: "size M + n \<le> u64_max"
  shows "\<exists>s'. highest_add i n s = Some s' \<and> highest_rep N s' (M + replicate_mset n i)"
proof (cases "n = 0")
  case True
  then show ?thesis using rep by (simp add: highest_add_def)
next
  case False
  define L where "L = Min_mset (add_mset i M)"
  have Min: "Min_mset (M + replicate_mset n i) = L" using False by (simp add: L_def)
  have L: "L \<le> i" by (simp add: L_def)
  from highest_grow_spec [OF rep i] obtain g where g: "highest_grow i s = Some g" "high_grown N s L M i g"
    unfolding L_def by blast
  from highest_bin_index_spec [OF g(2) L i] obtain j where j: "highest_bin_index i g = Some j"
      "j < length (ch_bins g)" "ch_offset g + int j = min (high_ceiling N L) i"
    by blast
  have gb: "bins_mset (ch_offset g) (ch_bins g) = image_mset (min (high_ceiling N L)) M" "ch_count g = size M"
      "ch_max_num_bins g = N" "1 \<le> N" "length (ch_bins g) \<le> N" "ch_offset g = L" "ch_bins g \<noteq> []"
      "safe_window (ch_offset g) (ch_bins g)" "\<forall>k\<in>#M. safe_index k"
    using g(2) rep by (auto simp: high_grown_def highest_rep_def safe_window_def)
  have sum: "sum_list (ch_bins g) = size M"
    using size_bins_mset [of "ch_offset g" "ch_bins g"] gb(1) by simp
  let ?bins = "(ch_bins g)[j := ch_bins g ! j + n]"
  have "bins_add j n (ch_bins g) = Some ?bins" using bins_add_exact [OF j(2)] sum size by simp
  then have add: "highest_add i n s = Some (g\<lparr>ch_bins := ?bins, ch_count := size M + n\<rparr>)"
    using False g(1) j(1) gb(2) size by (simp add: highest_add_def sat_add_exact)
  have "bins_mset (ch_offset g) ?bins = high_view N (M + replicate_mset n i)"
    unfolding high_view_def Min using bins_mset_update [OF j(2)] gb(1) j(3) by simp
  moreover have "safe_window (ch_offset g) ?bins" using gb(8) by (simp add: safe_window_def)
  moreover have "M + replicate_mset n i \<noteq> {#}" using False by simp
  ultimately have "highest_rep N (g\<lparr>ch_bins := ?bins, ch_count := size M + n\<rparr>) (M + replicate_mset n i)"
    using gb Min size i by (auto simp: highest_rep_def)
  with add show ?thesis by blast
qed

interpretation high_loops: store_add highest_add "highest_rep N" for N
  by unfold_locales (rule highest_add_rep)

lemma high_view_union:
  assumes "1 \<le> N"
  shows "high_view N (M + high_view N M') = high_view N (M + M') \<and>
    (M + M' \<noteq> {#} \<longrightarrow> Min_mset (M + high_view N M') = Min_mset (M + M'))"
proof (cases "M' = {#}")
  case False
  have Min: "Min_mset (M + high_view N M') = Min_mset (M + M')"
  proof (cases "M = {#}")
    case True
    then show ?thesis using Min_high_view [OF False assms] by simp
  next
    case M: False
    have "high_view N M' \<noteq> {#}" using False by simp
    with M have "Min_mset (M + high_view N M') = min (Min_mset M) (Min_mset (high_view N M'))"
      by (rule Min_mset_union)
    also have "\<dots> = min (Min_mset M) (Min_mset M')" unfolding Min_high_view [OF False assms] ..
    also have "\<dots> = Min_mset (M + M')" by (rule Min_mset_union [OF M False, symmetric])
    finally show ?thesis .
  qed
  have "Min_mset (M + M') \<le> Min_mset M'" using False by (simp add: Min_antimono)
  then have le: "high_ceiling N (Min_mset (M + M')) \<le> high_ceiling N (Min_mset M')" by (simp add: high_ceiling_def)
  have "high_view N (M + high_view N M') = high_view N (M + M')"
    unfolding high_view_def [of N "M + high_view N M'"] Min unfolding high_view_def image_mset_union
    using image_min_min [OF le] by simp
  with Min show ?thesis by simp
qed simp

lemma highest_view:
  assumes "highest_rep N s (M + high_view N M')" and "\<forall>k\<in>#M'. safe_index k"
  shows "highest_rep N s (M + M')"
proof -
  have N: "1 \<le> N" using assms(1) by (simp add: highest_rep_def)
  have ne: "M + high_view N M' = {#} \<longleftrightarrow> M + M' = {#}" by simp
  from assms high_view_union [OF N, of M M'] ne show ?thesis
    unfolding highest_rep_def by (auto simp del: union_eq_empty)
qed

lemma highest_merge_rep:
  assumes s: "highest_rep N s M" and t: "highest_rep N t M'" and size: "size M + size M' \<le> u64_max"
  shows "\<exists>s'. highest_merge t s = Some s' \<and> highest_rep N s' (M + M')"
proof (cases "M' = {#}")
  case True
  then show ?thesis using s t by (auto simp: highest_merge_def highest_rep_def)
next
  case False
  let ?s = "if ch_is_collapsed t then s\<lparr>ch_is_collapsed := True\<rparr> else s"
  have t': "ch_bins t \<noteq> []" "safe_window (ch_offset t) (ch_bins t)" "bins_mset (ch_offset t) (ch_bins t) = high_view N M'"
    using t False by (auto simp: highest_rep_def)
  have "highest_rep N ?s M" using s by (simp add: highest_rep_def)
  from high_loops.rep_add_bins [OF this, of "ch_offset t" "[]" "ch_bins t" 0] t' highest_rep_sum [OF t] size
  obtain s' where s': "add_bins_loop highest_add (ch_offset t) 0 (ch_bins t) ?s = Some s'"
      "highest_rep N s' (M + high_view N M')"
    by auto
  have "\<forall>k\<in>#M'. safe_index k" using t by (simp add: highest_rep_def)
  with s' t'(1) highest_view show ?thesis unfolding highest_merge_def by auto
qed

lemma highest_rep_empty: "highest_rep N s M \<Longrightarrow> ch_count s = 0 \<longleftrightarrow> M = {#}"
  unfolding highest_rep_def by (metis size_eq_0_iff_empty)

lemma highest_rep_rank:
  assumes "highest_rep N s M"
  shows "highest_key_at_rank r s = Some (if r < size M then Some (sorted_list_of_multiset (high_view N M) ! r) else None)"
  using key_at_rank_spec [of "ch_offset s" "ch_bins s" r] highest_rep_sum [OF assms] assms
  by (simp add: highest_key_at_rank_def highest_rep_def)

lemma highest_rep_min_max:
  assumes "highest_rep N s M"
  shows "highest_min_index s = Some (if M = {#} then None else Some (Min_mset (high_view N M)))"
    and "highest_max_index s = Some (if M = {#} then None else Some (Max_mset (high_view N M)))"
proof -
  have w: "safe_window (ch_offset s) (ch_bins s)" and v: "bins_mset (ch_offset s) (ch_bins s) = high_view N M"
    using assms by (auto simp: highest_rep_def)
  show "highest_min_index s = Some (if M = {#} then None else Some (Min_mset (high_view N M)))"
    "highest_max_index s = Some (if M = {#} then None else Some (Max_mset (high_view N M)))"
    unfolding highest_min_index_def highest_max_index_def min_index_spec [OF w] max_index_spec [OF w] v by simp_all
qed

lemma highest_rep_to_proto: "highest_rep N s M \<Longrightarrow> size M < 2 ^ 53 \<Longrightarrow> proto_holds (highest_to_proto s) (high_view N M)"
  using bins_to_proto_holds [of "ch_offset s" "ch_bins s"] highest_rep_sum [of N s M]
  by (simp add: highest_to_proto_def highest_rep_def)

interpretation high: sketch_store highest_ops "highest_rep (Suc n)" "the (highest_new (Suc n))" "high_view (Suc n)"
  for n
proof (unfold_locales, goal_cases)
  case 1
  then show ?case by (simp add: highest_ops_def highest_add_rep)
next
  case 2
  then show ?case by (simp add: highest_new_def highest_rep_def safe_window_def)
next
  case 3
  then show ?case by simp
next
  case 4
  then show ?case by (simp add: highest_ops_def highest_rep_def)
next
  case 5
  then show ?case by (simp add: highest_ops_def highest_is_empty_def highest_rep_empty)
next
  case 6
  then show ?case by (simp add: highest_ops_def highest_rep_rank)
next
  case 7
  then show ?case by (simp add: highest_ops_def highest_rep_min_max)
next
  case 8
  then show ?case by (simp add: highest_ops_def highest_rep_min_max)
next
  case 9
  then show ?case by (simp add: highest_ops_def highest_merge_rep)
next
  case 10
  then show ?case by (simp add: highest_ops_def highest_clear_def highest_rep_def safe_window_def)
next
  case (11 t M' s M)
  have "\<forall>k\<in>#M'. safe_index k" using 11(1) by (simp add: highest_rep_def)
  with 11(2) show ?case by (rule highest_view)
next
  case 12
  then show ?case by (simp add: highest_ops_def highest_merge_from_proto_def)
next
  case 13
  then show ?case by (simp add: highest_ops_def highest_rep_to_proto)
qed

text \<open>The stores that \<^verbatim>\<open>new\<close>, \<^verbatim>\<open>add\<close>, \<^verbatim>\<open>merge\<close> and \<^verbatim>\<open>clear\<close> produce, with what was put into them.\<close>

inductive highest_run :: "nat \<Rightarrow> highest_store \<Rightarrow> int multiset \<Rightarrow> bool" for N where
  hrun_new: "highest_new N = Some s \<Longrightarrow> highest_run N s {#}"
| hrun_add: "highest_run N s M \<Longrightarrow> safe_index i \<Longrightarrow> size M + n \<le> u64_max \<Longrightarrow> highest_add i n s = Some s' \<Longrightarrow>
    highest_run N s' (M + replicate_mset n i)"
| hrun_merge: "highest_run N s M \<Longrightarrow> highest_run N t M' \<Longrightarrow> size M + size M' \<le> u64_max \<Longrightarrow>
    highest_merge t s = Some s' \<Longrightarrow> highest_run N s' (M + M')"
| hrun_clear: "highest_run N s M \<Longrightarrow> highest_run N (highest_clear s) {#}"

lemma highest_run_rep: "highest_run N s M \<Longrightarrow> highest_rep N s M"
proof (induction rule: highest_run.induct)
  case (hrun_new s)
  then show ?case by (auto simp: highest_new_def highest_rep_def safe_window_def split: if_splits)
next
  case (hrun_add s M i n s')
  then show ?case using highest_add_rep [of N s M i n] by auto
next
  case (hrun_merge s M t M' s')
  then show ?case using highest_merge_rep [of N s M t M'] by auto
next
  case (hrun_clear s M)
  then show ?case by (simp add: highest_clear_def highest_rep_def safe_window_def)
qed

end
