(* ===== verification/Sparse_Store.thy ===== *)
theory Sparse_Store
  imports Store_Bins
begin

text \<open>
  \<^verbatim>\<open>SparseStore\<close> (\<^verbatim>\<open>lib/ddsketch/src/canonical/store/sparse.rs\<close>). Its \<^verbatim>\<open>BTreeMap\<close> is the list of its
  entries in key order. It represents its observations exactly.
\<close>

section \<open>The store\<close>

record sparse_store =
  ss_bins :: "(int \<times> nat) list"
  ss_count :: nat

definition sparse_new :: sparse_store where
  "sparse_new = \<lparr>ss_bins = [], ss_count = 0\<rparr>"

text \<open>\<^verbatim>\<open>*bins.entry(index).or_insert(0) += count\<close>, which panics on overflow.\<close>

fun entry_add :: "int \<Rightarrow> nat \<Rightarrow> (int \<times> nat) list \<Rightarrow> (int \<times> nat) list option" where
  "entry_add index n [] = do { c \<leftarrow> u64_add 0 n; Some [(index, c)] }"
| "entry_add index n ((k, c) # rest) =
     (if index = k then do { c' \<leftarrow> u64_add c n; Some ((k, c') # rest) }
      else if index < k then do { c' \<leftarrow> u64_add 0 n; Some ((index, c') # (k, c) # rest) }
      else do { rest' \<leftarrow> entry_add index n rest; Some ((k, c) # rest') })"

definition sparse_add :: "int \<Rightarrow> nat \<Rightarrow> sparse_store \<Rightarrow> sparse_store option" where
  "sparse_add index n s =
     (if n = 0 then Some s
      else do {
        bins \<leftarrow> entry_add index n (ss_bins s);
        Some (s\<lparr>ss_bins := bins, ss_count := sat_add (ss_count s) n\<rparr>)
      })"

definition sparse_min_index :: "sparse_store \<Rightarrow> int option" where
  "sparse_min_index s = map_option fst (List.find (\<lambda>(_, c). c > 0) (ss_bins s))"

definition sparse_max_index :: "sparse_store \<Rightarrow> int option" where
  "sparse_max_index s = map_option fst (List.find (\<lambda>(_, c). c > 0) (rev (ss_bins s)))"

fun sparse_rank_loop :: "nat \<Rightarrow> nat \<Rightarrow> (int \<times> nat) list \<Rightarrow> int option option" where
  "sparse_rank_loop rank cumulative [] = Some None"
| "sparse_rank_loop rank cumulative ((index, c) # rest) = do {
     cumulative' \<leftarrow> u64_add cumulative c;
     if cumulative' > rank then Some (Some index) else sparse_rank_loop rank cumulative' rest
   }"

definition sparse_key_at_rank :: "nat \<Rightarrow> sparse_store \<Rightarrow> int option option" where
  "sparse_key_at_rank rank s =
     (if rank \<ge> ss_count s then Some None else sparse_rank_loop rank 0 (ss_bins s))"

fun sparse_merge_loop :: "(int \<times> nat) list \<Rightarrow> (int \<times> nat) list \<Rightarrow> (int \<times> nat) list option" where
  "sparse_merge_loop [] bins = Some bins"
| "sparse_merge_loop ((index, c) # rest) bins =
     (if c > 0 then do { bins' \<leftarrow> entry_add index c bins; sparse_merge_loop rest bins' }
      else sparse_merge_loop rest bins)"

definition sparse_merge :: "sparse_store \<Rightarrow> sparse_store \<Rightarrow> sparse_store option" where
  "sparse_merge other s = do {
     bins \<leftarrow> sparse_merge_loop (ss_bins other) (ss_bins s);
     Some (s\<lparr>ss_bins := bins, ss_count := sat_add (ss_count s) (ss_count other)\<rparr>)
   }"

definition sparse_is_empty :: "sparse_store \<Rightarrow> bool" where
  "sparse_is_empty s \<longleftrightarrow> ss_count s = 0"

definition sparse_clear :: "sparse_store \<Rightarrow> sparse_store" where
  "sparse_clear s = s\<lparr>ss_bins := [], ss_count := 0\<rparr>"

definition sparse_merge_from_proto ::
    "proto_store \<Rightarrow> sparse_store \<Rightarrow> (sparse_store \<times> (proto_error + unit)) option" where
  "sparse_merge_from_proto proto s = merge_from_proto_with sparse_add proto s"

text \<open>The keys are distinct, so inserting them one by one keeps every entry.\<close>

definition sparse_to_proto :: "sparse_store \<Rightarrow> proto_store" where
  "sparse_to_proto s =
     proto_store_new\<lparr>binCounts :=
       fold (\<lambda>(index, c) m. if c > 0 then hm_insert index (f64_of_nat c) m else m) (ss_bins s) []\<rparr>"

definition sparse_ops :: "sparse_store store_ops" where
  "sparse_ops =
     \<lparr>so_add = sparse_add, so_total_count = ss_count, so_min_index = (\<lambda>s. Some (sparse_min_index s)),
      so_max_index = (\<lambda>s. Some (sparse_max_index s)), so_key_at_rank = sparse_key_at_rank,
      so_merge = sparse_merge, so_is_empty = sparse_is_empty, so_clear = sparse_clear,
      so_merge_from_proto = sparse_merge_from_proto, so_to_proto = sparse_to_proto, so_default = sparse_new\<rparr>"

section \<open>It represents its observations\<close>

definition bt_ok :: "(int \<times> nat) list \<Rightarrow> bool" where
  "bt_ok m \<longleftrightarrow> sorted_wrt (<) (map fst m) \<and> (\<forall>(k, c)\<in>set m. 0 < c)"

definition sparse_rep :: "sparse_store \<Rightarrow> int multiset \<Rightarrow> bool" where
  "sparse_rep s M \<longleftrightarrow>
     bt_ok (ss_bins s) \<and> pairs_mset (ss_bins s) = M \<and> ss_count s = size M \<and> size M \<le> u64_max \<and>
     (\<forall>k\<in>#M. safe_index k)"

definition pairs_list :: "(int \<times> nat) list \<Rightarrow> int list" where
  "pairs_list m = concat (map (\<lambda>(k, c). replicate c k) m)"

lemma pairs_list_simps [simp]:
  "pairs_list [] = []" "pairs_list ((k, c) # m) = replicate c k @ pairs_list m"
  "pairs_list (m @ m') = pairs_list m @ pairs_list m'"
  by (simp_all add: pairs_list_def)

lemma mset_pairs_list: "mset (pairs_list m) = pairs_mset m"
  by (induction m) auto

lemma bt_ok_Cons: "bt_ok ((k, c) # m) \<longleftrightarrow> 0 < c \<and> bt_ok m \<and> (\<forall>k'\<in>fst ` set m. k < k')"
  by (auto simp: bt_ok_def)

lemma set_pairs_list: "bt_ok m \<Longrightarrow> set (pairs_list m) = fst ` set m"
proof (induction m)
  case (Cons p m)
  then show ?case by (cases p) (simp add: bt_ok_Cons)
qed simp

lemma sorted_pairs_list: "bt_ok m \<Longrightarrow> sorted (pairs_list m)"
proof (induction m)
  case (Cons p m)
  obtain k c where p: "p = (k, c)" by (cases p)
  have "bt_ok m" "\<forall>k'\<in>fst ` set m. k < k'" using Cons.prems by (auto simp: p bt_ok_Cons)
  then show ?case using Cons.IH set_pairs_list [of m] by (auto simp: p sorted_append order.strict_implies_order)
qed simp

lemma sorted_pairs_mset: "bt_ok m \<Longrightarrow> sorted_list_of_multiset (pairs_mset m) = pairs_list m"
  unfolding mset_pairs_list [symmetric] sorted_list_of_multiset_mset
  by (rule sorted_sort_id) (rule sorted_pairs_list)

lemma set_mset_pairs: "bt_ok m \<Longrightarrow> set_mset (pairs_mset m) = fst ` set m"
  unfolding mset_pairs_list [symmetric] using set_pairs_list by simp

lemma pairs_mset_Nil_iff: "bt_ok m \<Longrightarrow> pairs_mset m = {#} \<longleftrightarrow> m = []"
  by (cases m) (auto simp: bt_ok_Cons)

lemma entry_add_spec:
  assumes "bt_ok m" and "0 < n" and "size (pairs_mset m) + n \<le> u64_max"
  shows "\<exists>m'. entry_add i n m = Some m' \<and> bt_ok m' \<and> pairs_mset m' = pairs_mset m + replicate_mset n i \<and>
    fst ` set m' = insert i (fst ` set m)"
  using assms
proof (induction m)
  case Nil
  then have "n \<le> u64_max" by simp
  then have "entry_add i n [] = Some [(i, n)]" by simp
  moreover have "bt_ok [(i, n)]" using Nil.prems(2) by (simp add: bt_ok_def)
  ultimately show ?case by simp
next
  case (Cons p m)
  obtain k c where p: "p = (k, c)" by (cases p)
  have ok: "bt_ok m" "0 < c" "\<forall>k'\<in>fst ` set m. k < k'" using Cons.prems(1) by (auto simp: p bt_ok_Cons)
  consider "i = k" | "i < k" | "k < i" by linarith
  then show ?case
  proof cases
    case 1
    have "c + n \<le> u64_max" using Cons.prems(3) by (simp add: p)
    then have e: "entry_add i n (p # m) = Some ((k, c + n) # m)" using 1 by (simp add: p)
    have "bt_ok ((k, c + n) # m)" using ok by (simp add: bt_ok_Cons)
    moreover have "replicate_mset (c + n) k = replicate_mset c k + replicate_mset n k" by (simp add: multiset_eq_iff)
    ultimately show ?thesis using e 1 by (simp add: p)
  next
    case 2
    have "n \<le> u64_max" using Cons.prems(3) by simp
    then have e: "entry_add i n (p # m) = Some ((i, n) # p # m)" using 2 by (simp add: p)
    have "bt_ok ((i, n) # p # m)" using 2 ok Cons.prems(1,2) by (auto simp: p bt_ok_Cons)
    with e show ?thesis by (simp add: p add.commute)
  next
    case 3
    obtain m' where m': "entry_add i n m = Some m'" "bt_ok m'" "pairs_mset m' = pairs_mset m + replicate_mset n i"
        "fst ` set m' = insert i (fst ` set m)"
    proof -
      have "size (pairs_mset m) + n \<le> u64_max" using Cons.prems(3) by (simp add: p)
      with Cons.IH [OF ok(1) Cons.prems(2)] that show ?thesis by blast
    qed
    have e: "entry_add i n (p # m) = Some ((k, c) # m')" using m'(1) 3 by (simp add: p)
    have "bt_ok ((k, c) # m')" using m'(2,4) 3 ok by (simp add: bt_ok_Cons)
    moreover have "fst ` set ((k, c) # m') = insert i (fst ` set (p # m))" using m'(4) by (auto simp: p)
    ultimately show ?thesis using e m'(3) by (intro exI [of _ "(k, c) # m'"]) (simp add: p add.assoc)
  qed
qed

lemma sparse_add_rep:
  assumes "sparse_rep s M" and "safe_index i" and "size M + n \<le> u64_max"
  shows "\<exists>s'. sparse_add i n s = Some s' \<and> sparse_rep s' (M + replicate_mset n i)"
proof (cases "n = 0")
  case True
  then show ?thesis using assms(1) by (simp add: sparse_add_def)
next
  case False
  from assms(1) have s: "bt_ok (ss_bins s)" "pairs_mset (ss_bins s) = M" "ss_count s = size M" "\<forall>k\<in>#M. safe_index k"
    by (auto simp: sparse_rep_def)
  obtain m' where "entry_add i n (ss_bins s) = Some m'" "bt_ok m'" "pairs_mset m' = M + replicate_mset n i"
    using entry_add_spec [OF s(1), of n i] False assms(3) s(2) by auto
  with False s assms(2,3) show ?thesis by (auto simp: sparse_add_def sparse_rep_def sat_add_exact)
qed

interpretation sparse_loops: store_add sparse_add sparse_rep
  by unfold_locales (rule sparse_add_rep)

lemma sparse_merge_loop_spec:
  assumes "bt_ok bins" and "size (pairs_mset bins) + size (pairs_mset kcs) \<le> u64_max"
  shows "\<exists>m. sparse_merge_loop kcs bins = Some m \<and> bt_ok m \<and> pairs_mset m = pairs_mset bins + pairs_mset kcs"
  using assms
proof (induction kcs arbitrary: bins)
  case (Cons p kcs)
  obtain k c where p: "p = (k, c)" by (cases p)
  show ?case
  proof (cases "c = 0")
    case True
    then show ?thesis using Cons by (simp add: p)
  next
    case False
    obtain m where m: "entry_add k c bins = Some m" "bt_ok m" "pairs_mset m = pairs_mset bins + replicate_mset c k"
      using entry_add_spec [OF Cons.prems(1), of c k] False Cons.prems(2) by (auto simp: p)
    have "size (pairs_mset m) + size (pairs_mset kcs) \<le> u64_max" using m(3) Cons.prems(2) by (simp add: p)
    from Cons.IH [OF m(2) this] m False show ?thesis by (auto simp: p ac_simps)
  qed
qed simp

lemma sparse_merge_rep:
  assumes s: "sparse_rep s M" and t: "sparse_rep t M'" and size: "size M + size M' \<le> u64_max"
  shows "\<exists>s'. sparse_merge t s = Some s' \<and> sparse_rep s' (M + M')"
  using sparse_merge_loop_spec [of "ss_bins s" "ss_bins t"] assms
  by (auto simp: sparse_merge_def sparse_rep_def sat_add_exact)

lemma sparse_rank_loop_spec:
  assumes "cum \<le> rank" and "cum + length (pairs_list m) \<le> u64_max"
  shows "sparse_rank_loop rank cum m =
    Some (if rank < cum + length (pairs_list m) then Some (pairs_list m ! (rank - cum)) else None)"
  using assms
proof (induction m arbitrary: cum)
  case (Cons p m)
  obtain k c where p: "p = (k, c)" by (cases p)
  show ?case
  proof (cases "rank < cum + c")
    case True
    then have "rank - cum < c" using Cons.prems(1) by linarith
    then show ?thesis using True Cons.prems(2) by (simp add: p nth_append)
  next
    case False
    then have "rank - cum - c = rank - (cum + c)" "\<not> rank - cum < c" by simp_all
    then show ?thesis using False Cons.IH [of "cum + c"] Cons.prems(2) by (simp add: p nth_append)
  qed
qed simp

lemma sparse_rep_rank:
  assumes "sparse_rep s M"
  shows "sparse_key_at_rank r s = Some (if r < size M then Some (sorted_list_of_multiset M ! r) else None)"
proof -
  have s: "bt_ok (ss_bins s)" "pairs_mset (ss_bins s) = M" "ss_count s = size M" "size M \<le> u64_max"
    using assms by (auto simp: sparse_rep_def)
  have len: "length (pairs_list (ss_bins s)) = size M"
    using mset_pairs_list [of "ss_bins s"] s(2) by (metis size_mset)
  have "sorted_list_of_multiset M = pairs_list (ss_bins s)" using sorted_pairs_mset [OF s(1)] s(2) by simp
  with sparse_rank_loop_spec [of 0 r "ss_bins s"] s len show ?thesis by (simp add: sparse_key_at_rank_def)
qed

lemma find_positive: "\<forall>(k, c)\<in>set m. 0 < c \<Longrightarrow> List.find (\<lambda>(_, c). c > (0 :: nat)) m = (if m = [] then None else Some (hd m))"
  by (cases m) auto

lemma sparse_rep_min_max:
  assumes "sparse_rep s M"
  shows "sparse_min_index s = (if M = {#} then None else Some (Min_mset M))"
    and "sparse_max_index s = (if M = {#} then None else Some (Max_mset M))"
proof -
  have ok: "bt_ok (ss_bins s)" and M: "pairs_mset (ss_bins s) = M" using assms by (auto simp: sparse_rep_def)
  have pos: "\<forall>(k, c)\<in>set (ss_bins s). 0 < c" "\<forall>(k, c)\<in>set (rev (ss_bins s)). 0 < c"
    using ok by (auto simp: bt_ok_def)
  have sorted: "sorted_wrt (<) (map fst (ss_bins s))" using ok by (simp add: bt_ok_def)
  have set: "set_mset M = fst ` set (ss_bins s)" using set_mset_pairs [OF ok] M by simp
  note first = find_positive [OF pos(1)] find_positive [OF pos(2)]
  show "sparse_min_index s = (if M = {#} then None else Some (Min_mset M))"
    unfolding sparse_min_index_def first
  proof (cases "ss_bins s")
    case Nil
    then show "map_option fst (if ss_bins s = [] then None else Some (hd (ss_bins s))) =
        (if M = {#} then None else Some (Min_mset M))"
      using M by auto
  next
    case (Cons p m)
    have "Min_mset M = fst p" unfolding set Cons
      by (rule Min_eqI) (use sorted in \<open>auto simp: Cons\<close>)
    then show "map_option fst (if ss_bins s = [] then None else Some (hd (ss_bins s))) =
        (if M = {#} then None else Some (Min_mset M))"
      using Cons pairs_mset_Nil_iff [OF ok] M by auto
  qed
  show "sparse_max_index s = (if M = {#} then None else Some (Max_mset M))"
    unfolding sparse_max_index_def first
  proof (cases "ss_bins s" rule: rev_cases)
    case Nil
    then show "map_option fst (if rev (ss_bins s) = [] then None else Some (hd (rev (ss_bins s)))) =
        (if M = {#} then None else Some (Max_mset M))"
      using M by auto
  next
    case (snoc m p)
    have "Max_mset M = fst p" unfolding set snoc
      by (rule Max_eqI) (use sorted in \<open>auto simp: snoc sorted_wrt_append\<close>)
    then show "map_option fst (if rev (ss_bins s) = [] then None else Some (hd (rev (ss_bins s)))) =
        (if M = {#} then None else Some (Max_mset M))"
      using snoc pairs_mset_Nil_iff [OF ok] M by auto
  qed
qed

lemma sparse_proto_fold:
  assumes "bt_ok m" and "fst ` set m \<inter> fst ` set acc = {}"
  shows "fold (\<lambda>(index, c) m. if c > 0 then hm_insert index (f64_of_nat c) m else m) m acc =
    acc @ map (\<lambda>(k, c). (k, f64_of_nat c)) m"
  using assms
proof (induction m arbitrary: acc)
  case (Cons p m)
  obtain k c where p: "p = (k, c)" by (cases p)
  have "hm_insert k (f64_of_nat c) acc = acc @ [(k, f64_of_nat c)]"
    using Cons.prems(2) by (intro hm_insert_new) (auto simp: p hm_contains_def)
  moreover have "fst ` set m \<inter> fst ` set (acc @ [(k, f64_of_nat c)]) = {}"
    using Cons.prems by (auto simp: p bt_ok_Cons)
  ultimately show ?case using Cons.IH [of "acc @ [(k, f64_of_nat c)]"] Cons.prems(1) by (simp add: p bt_ok_Cons)
qed simp

lemma pairs_mset_member_le: "(k, c) \<in> set m \<Longrightarrow> c \<le> size (pairs_mset m)"
  by (induction m) auto

lemma sparse_rep_to_proto:
  assumes "sparse_rep s M" and "size M < 2 ^ 53"
  shows "proto_holds (sparse_to_proto s) M"
proof -
  have s: "bt_ok (ss_bins s)" "pairs_mset (ss_bins s) = M" "\<forall>k\<in>#M. safe_index k"
    using assms by (auto simp: sparse_rep_def)
  have "safe_index k \<and> c < 2 ^ 53" if "(k, c) \<in> set (ss_bins s)" for k c
  proof
    have "k \<in># M" using set_mset_pairs [OF s(1)] s(2) that by force
    with s(3) show "safe_index k" by blast
    show "c < 2 ^ 53" using pairs_mset_member_le [OF that] s(2) assms(2) by simp
  qed
  then have "\<forall>(k, c)\<in>set (ss_bins s). safe_index k \<and> c < 2 ^ 53" by blast
  then show ?thesis unfolding proto_holds_def
    by (intro exI [of _ "ss_bins s"] exI [of _ "[]"])
      (use s(2) sparse_proto_fold [OF s(1), of "[]"] in
        \<open>simp add: sparse_to_proto_def proto_store_new_def safe_window_def\<close>)
qed

lemma sparse_rep_empty: "sparse_rep s M \<Longrightarrow> ss_count s = 0 \<longleftrightarrow> M = {#}"
  unfolding sparse_rep_def by (metis size_eq_0_iff_empty)

lemma sparse_rep_total: "sparse_rep s M \<Longrightarrow> ss_count s = size M \<and> size M \<le> u64_max"
  unfolding sparse_rep_def by blast

interpretation sparse: sketch_store sparse_ops sparse_rep sparse_new "\<lambda>M. M"
proof (unfold_locales, goal_cases)
  case 1
  then show ?case by (simp add: sparse_ops_def sparse_add_rep)
next
  case 2
  then show ?case by (simp add: sparse_new_def sparse_rep_def bt_ok_def)
next
  case 3
  then show ?case by simp
next
  case 4
  from sparse_rep_total [OF this] show ?case by (simp add: sparse_ops_def)
next
  case 5
  then show ?case by (simp add: sparse_ops_def sparse_is_empty_def sparse_rep_empty)
next
  case 6
  then show ?case by (simp add: sparse_ops_def sparse_rep_rank)
next
  case 7
  then show ?case by (simp add: sparse_ops_def sparse_rep_min_max)
next
  case 8
  then show ?case by (simp add: sparse_ops_def sparse_rep_min_max)
next
  case 9
  then show ?case by (simp add: sparse_ops_def sparse_merge_rep)
next
  case 10
  then show ?case by (simp add: sparse_ops_def sparse_clear_def sparse_rep_def bt_ok_def)
next
  case 11
  then show ?case by simp
next
  case 12
  then show ?case by (simp add: sparse_ops_def sparse_merge_from_proto_def)
next
  case 13
  then show ?case by (simp add: sparse_ops_def sparse_rep_to_proto)
qed

end
