(* ===== verification/Sketch_Properties.thy ===== *)
theory Sketch_Properties
  imports Canonical_Sketch Dense_Store Collapsing_Lowest Collapsing_Highest Sparse_Store
begin

text \<open>
  The canonical sketch over its four stores: the lemmas of the locale \<open>dd_sketch\<close> for each of them, the
  constructor that fixes the default mapping and store, and the properties of stores and sketches.
\<close>

definition dd_with_relative_accuracy ::
    "math \<Rightarrow> f64 \<Rightarrow> string + (logarithmic_mapping, lowest_store) ddsketch" where
  "dd_with_relative_accuracy mt relative_accuracy =
     (case logarithmic_new mt relative_accuracy of
        Inl e \<Rightarrow> Inl e
      | Inr mapping \<Rightarrow> Inr (dd_new mapping lowest_default lowest_default))"

section \<open>The four stores under one sketch\<close>

interpretation dd_dense: dd_sketch dense_ops dense_rep dense_new "\<lambda>M. M" "logarithmic_ops mt"
  "logarithmic_ok mt" for mt ..

interpretation dd_sparse: dd_sketch sparse_ops sparse_rep sparse_new "\<lambda>M. M" "logarithmic_ops mt"
  "logarithmic_ok mt" for mt ..

interpretation dd_low: dd_sketch lowest_ops "lowest_safe_rep (Suc n)" "the (lowest_new (Suc n))" "low_view (Suc n)"
  "logarithmic_ops mt" "logarithmic_ok mt" for n mt ..

interpretation dd_high: dd_sketch highest_ops "highest_rep (Suc n)" "the (highest_new (Suc n))" "high_view (Suc n)"
  "logarithmic_ops mt" "logarithmic_ok mt" for n mt ..

interpretation dd_fixed: dd_sketch lowest_ops "lowest_safe_rep (Suc n)" "the (lowest_new (Suc n))" "low_view (Suc n)"
  "fixed_ops mt" "\<lambda>m. ratio_reflexive mt" for n mt ..

text \<open>A store with any bound on its bins is one of the interpreted ones.\<close>

lemma lowest_new_Suc: "lowest_new N = Some s \<Longrightarrow> \<exists>n. N = Suc n \<and> s = the (lowest_new (Suc n))"
  by (cases N) (auto simp: lowest_new_def split: if_splits)

section \<open>An example mapping\<close>

text \<open>With multiplier one and the stand-in math library, a value falls into the bin of its integral part.\<close>

definition example_mapping :: logarithmic_mapping where
  "example_mapping = \<lparr>lm_gamma = f64_of_nat 2, lm_index_offset = f64_zero, lm_multiplier = f64_one\<rparr>"

abbreviation example_ops :: "logarithmic_mapping mapping_ops" where
  "example_ops \<equiv> logarithmic_ops example_math"

lemma example_min: "mo_min_indexable_value example_ops example_mapping = f64_MIN_POSITIVE"
  by (simp add: logarithmic_ops_def logarithmic_min_indexable_value_def example_math_def example_mapping_def
      f64_eval)

lemma example_index: "mo_index example_ops example_mapping (f64_of_nat 3) = Some 3"
    "mo_index example_ops example_mapping (f64_of_nat 7) = Some 7"
  by (simp_all add: logarithmic_ops_def logarithmic_index_def round_index_def example_math_def example_mapping_def
      f64_eval)

lemma example_bucket: "bucket_of example_ops example_mapping (f64_of_nat 3) = Some (BPos 3)"
    "bucket_of example_ops example_mapping (f64_of_nat 7) = Some (BPos 7)"
  by (simp_all add: bucket_of_def example_min example_index) (simp_all add: f64_eval)

lemma example_indexable:
  "indexable example_ops example_mapping [(f64_of_nat 3, 2)]" "indexable example_ops example_mapping [(f64_of_nat 7, 1)]"
  by (simp_all add: indexable_def example_bucket safe_index_def)

lemma example_finite: "f64_is_finite (lm_gamma example_mapping)" "f64_is_finite (lm_index_offset example_mapping)"
  by (simp_all add: example_mapping_def f64_eval)

lemma example_ok: "logarithmic_ok example_math example_mapping"
  by (simp add: logarithmic_ok_def example_reflexive example_finite)

lemma example_nonneg: "f64_le f64_zero (f64_of_nat 3)"
  by (simp add: f64_eval)

section \<open>The stores\<close>

text \<open>A store that is given a list of indices with their counts.\<close>

fun store_fill :: "'s store_ops \<Rightarrow> (int \<times> nat) list \<Rightarrow> 's \<Rightarrow> 's option" where
  "store_fill so [] s = Some s"
| "store_fill so ((i, n) # xs) s = do { s' \<leftarrow> so_add so i n s; store_fill so xs s' }"

context sketch_store
begin

lemma store_fill_rep:
  assumes "rep s M" and "list_all (\<lambda>(i, n). safe_index i) xs" and "size M + sum_list (map snd xs) \<le> u64_max"
  shows "\<exists>s'. store_fill ops xs s = Some s' \<and> rep s' (M + pairs_mset xs)"
  using assms
proof (induction xs arbitrary: s M)
  case (Cons x xs)
  obtain i n where x: "x = (i, n)" by (cases x)
  obtain s1 where "so_add ops i n s = Some s1" "rep s1 (M + replicate_mset n i)"
    using rep_add [OF Cons.prems(1), of i n] Cons.prems(2,3) by (auto simp: x)
  then show ?case
    using Cons.IH [of s1 "M + replicate_mset n i"] Cons.prems(2,3) by (auto simp: x pairs_mset_def add.assoc)
qed (simp add: pairs_mset_def)

end

lemma low_rank:
  "lowest_safe_rep N s M \<Longrightarrow> lowest_key_at_rank r s =
    Some (if r < size M then Some (sorted_list_of_multiset (low_view N M) ! r) else None)"
proof -
  assume rep: "lowest_safe_rep N s M"
  then obtain n where "N = Suc n" by (cases N) (auto simp: lowest_safe_rep_def lowest_rep_def)
  then show ?thesis using low.rep_key_at_rank [of n s M r] rep by (simp add: lowest_ops_def)
qed

text \<open>
  C13. A collapsing-lowest store with room for N bins, reached by any sequence of additions, merges and
  clears, answers rank queries as the sorted list of everything it was given would, with the indices
  more than N - 1 below the largest raised to that floor; ranks past the end give nothing.
\<close>

theorem lowest_store_refines:
  "lowest_run N s M \<Longrightarrow> lowest_key_at_rank r s =
    Some (if r < size M
          then Some (sorted_list_of_multiset (image_mset (max (Max_mset M - int N + 1)) M) ! r) else None)"
  using low_rank [of N s M r] lowest_run_rep [of N s M] by (simp add: low_view_def low_floor_def)

lemma example_low_run: "\<exists>s. lowest_run 2 s {#5, 9#}"
proof -
  obtain s0 where s0: "lowest_new 2 = Some s0" by (auto simp: lowest_new_def)
  have r0: "lowest_run 2 s0 {#}" using s0 by (rule run_new)
  obtain s1 where s1: "lowest_add 5 1 s0 = Some s1"
    using lowest_safe_add [of 2 s0 "{#}" 5 1] lowest_run_rep [OF r0] by (auto simp: safe_index_def u64_max_def)
  have r1: "lowest_run 2 s1 {#5#}"
    using run_add [OF r0 _ _ s1] by (simp add: safe_index_def u64_max_def)
  obtain s2 where s2: "lowest_add 9 1 s1 = Some s2"
    using lowest_safe_add [of 2 s1 "{#5#}" 9 1] lowest_run_rep [OF r1] by (auto simp: safe_index_def u64_max_def)
  have "lowest_run 2 s2 {#5, 9#}"
    using run_add [OF r1 _ _ s2] by (simp add: safe_index_def u64_max_def add_mset_commute)
  then show ?thesis by blast
qed

theorem lowest_store_refines_witness:
  "\<exists>s. lowest_run 2 s {#5, 9#} \<and> lowest_key_at_rank 0 s = Some (Some 8) \<and> lowest_key_at_rank 2 s = Some None"
proof -
  obtain s where s: "lowest_run 2 s {#5, 9#}" using example_low_run by blast
  have "sorted_list_of_multiset {#8, 9 :: int#} = [8, 9]" by simp
  then show ?thesis using s lowest_store_refines [OF s, of 0] lowest_store_refines [OF s, of 2] by auto
qed

text \<open>
  C27. A collapsing-lowest store never holds more than N bins, counts every observation, and as long as
  its flag does not say that it collapsed, its view of the observations is exact.
\<close>

theorem lowest_bins_bounded:
  "lowest_run N s M \<Longrightarrow>
   length (cl_bins s) \<le> N \<and> cl_count s = size M \<and> bins_mset (cl_offset s) (cl_bins s) = low_view N M \<and>
   (\<not> cl_is_collapsed s \<longrightarrow> bins_mset (cl_offset s) (cl_bins s) = M)"
  using lowest_run_rep [of N s M] by (auto simp: lowest_safe_rep_def lowest_rep_def flag_sound_def)

theorem lowest_bins_bounded_witness: "\<exists>s. lowest_run 2 s {#5, 9#} \<and> length (cl_bins s) \<le> 2 \<and> cl_count s = 2"
proof -
  obtain s where s: "lowest_run 2 s {#5, 9#}" using example_low_run by blast
  then show ?thesis using lowest_bins_bounded [OF s] by auto
qed

text \<open>
  The collapsing-highest store mirrors it: indices more than N - 1 above the smallest are lowered
  to that ceiling, and there are never more than N bins.
\<close>

theorem highest_store_refines:
  "highest_run N s M \<Longrightarrow> length (ch_bins s) \<le> N \<and> highest_key_at_rank r s =
    Some (if r < size M
          then Some (sorted_list_of_multiset (image_mset (min (Min_mset M + int N - 1)) M) ! r) else None)"
proof -
  assume run: "highest_run N s M"
  have rep: "highest_rep N s M" using highest_run_rep [OF run] by simp
  then obtain n where n: "N = Suc n" by (cases N) (auto simp: highest_rep_def)
  show ?thesis
    using rep high.rep_key_at_rank [of n s M r] n
    by (simp add: highest_ops_def highest_rep_def high_view_def high_ceiling_def)
qed

theorem highest_store_refines_witness:
  "\<exists>s. highest_run 2 s {#} \<and> length (ch_bins s) \<le> 2 \<and> highest_key_at_rank 0 s = Some None"
proof -
  obtain s where "highest_new 2 = Some s" by (auto simp: highest_new_def)
  then have s: "highest_run 2 s {#}" by (rule highest_run.intros(1))
  then show ?thesis using highest_store_refines [OF s, of 0] by auto
qed

text \<open>
  The dense and the sparse store are interchangeable: given the same additions neither panics, and
  they answer every rank, minimum, maximum and count alike.
\<close>

theorem dense_and_sparse_agree:
  assumes "list_all (\<lambda>(i, n). safe_index i) xs" and "sum_list (map snd xs) \<le> u64_max"
  shows "\<exists>d s. store_fill dense_ops xs dense_new = Some d \<and> store_fill sparse_ops xs sparse_new = Some s \<and>
    dense_key_at_rank r d = sparse_key_at_rank r s \<and> ds_count d = ss_count s \<and>
    dense_min_index d = Some (sparse_min_index s) \<and> dense_max_index d = Some (sparse_max_index s)"
proof -
  obtain d where d: "store_fill dense_ops xs dense_new = Some d" "dense_rep d (pairs_mset xs)"
    using dense.store_fill_rep [OF dense.rep_init assms(1)] assms(2) by auto
  obtain s where s: "store_fill sparse_ops xs sparse_new = Some s" "sparse_rep s (pairs_mset xs)"
    using sparse.store_fill_rep [OF sparse.rep_init assms(1)] assms(2) by auto
  have "so_key_at_rank dense_ops r d = so_key_at_rank sparse_ops r s"
    using dense.rep_key_at_rank [OF d(2)] sparse.rep_key_at_rank [OF s(2)] by simp
  moreover have "so_total_count dense_ops d = so_total_count sparse_ops s"
    using dense.rep_total [OF d(2)] sparse.rep_total [OF s(2)] by simp
  moreover have "so_min_index dense_ops d = so_min_index sparse_ops s"
    using dense.rep_min_index [OF d(2)] sparse.rep_min_index [OF s(2)] by simp
  moreover have "so_max_index dense_ops d = so_max_index sparse_ops s"
    using dense.rep_max_index [OF d(2)] sparse.rep_max_index [OF s(2)] by simp
  ultimately show ?thesis using d(1) s(1) by (simp add: dense_ops_def sparse_ops_def)
qed

theorem dense_and_sparse_agree_witness:
  "\<exists>d s. store_fill dense_ops [(4, 2), (- 3, 1)] dense_new = Some d \<and>
    store_fill sparse_ops [(4, 2), (- 3, 1)] sparse_new = Some s \<and>
    dense_key_at_rank 1 d = sparse_key_at_rank 1 s"
  using dense_and_sparse_agree [of "[(4, 2), (- 3, 1)]" 1] by (auto simp: safe_index_def u64_max_def)

section \<open>The sketch\<close>

text \<open>
  C6. Sketches merge fully: two sketches over collapsing-lowest stores of the same size, filled from
  two lists of values and merged, answer every quantile query exactly as one sketch that was given all
  the values in any order, and no step panics.
\<close>

theorem sketch_fully_mergeable:
  assumes "lowest_new N = Some s0"
    and "indexable (logarithmic_ops mt) m vs" and "indexable (logarithmic_ops mt) m ws"
    and "mset us = mset vs + mset ws" and "sum_list (map snd vs) + sum_list (map snd ws) \<le> 2 ^ 53"
  shows "\<exists>a b c d.
    dd_fill (logarithmic_ops mt) lowest_ops vs (dd_new m s0 s0) = Some a \<and>
    dd_fill (logarithmic_ops mt) lowest_ops ws (dd_new m s0 s0) = Some b \<and>
    dd_merge lowest_ops b a = Some c \<and>
    dd_fill (logarithmic_ops mt) lowest_ops us (dd_new m s0 s0) = Some d \<and>
    (\<forall>q. dd_quantile (logarithmic_ops mt) lowest_ops q c = dd_quantile (logarithmic_ops mt) lowest_ops q d)"
proof -
  obtain n where "N = Suc n" "s0 = the (lowest_new (Suc n))" using lowest_new_Suc [OF assms(1)] by blast
  then show ?thesis using dd_low.merge_is_fill [OF assms(2-5), where n = n] by simp
qed

theorem sketch_fully_mergeable_witness:
  "\<exists>s0 a b c d. lowest_new 2 = Some s0 \<and>
    dd_fill example_ops lowest_ops [(f64_of_nat 3, 2)] (dd_new example_mapping s0 s0) = Some a \<and>
    dd_fill example_ops lowest_ops [(f64_of_nat 7, 1)] (dd_new example_mapping s0 s0) = Some b \<and>
    dd_merge lowest_ops b a = Some c \<and>
    dd_fill example_ops lowest_ops [(f64_of_nat 7, 1), (f64_of_nat 3, 2)] (dd_new example_mapping s0 s0) = Some d \<and>
    dd_quantile example_ops lowest_ops f64_one c = dd_quantile example_ops lowest_ops f64_one d"
proof -
  obtain s0 where s0: "lowest_new 2 = Some s0" by (auto simp: lowest_new_def)
  have m: "mset [(f64_of_nat 7, 1), (f64_of_nat 3, 2 :: nat)] = mset [(f64_of_nat 3, 2)] + mset [(f64_of_nat 7, 1)]"
    by simp
  show ?thesis
    using sketch_fully_mergeable [OF s0 example_indexable m] s0 by auto
qed

text \<open>
  C9. A quantile query on a filled sketch of at most \<open>2 ^ 53\<close> observations never reaches the
  unreachable branch: outside \<open>[0, 1]\<close> or on an empty sketch it gives nothing, and otherwise the
  representative value at the rounded rank of all observations in order.
\<close>

theorem quantile_is_ranked_observation:
  assumes "indexable (logarithmic_ops mt) m vs" and "sum_list (map snd vs) \<le> 2 ^ 53"
  shows "\<exists>sk. dd_fill (logarithmic_ops mt) dense_ops vs (dd_new m dense_new dense_new) = Some sk \<and>
    dd_quantile (logarithmic_ops mt) dense_ops q sk =
      Some (if sum_list (map snd vs) = 0 \<or> \<not> (f64_le f64_zero q \<and> f64_le q f64_one) then None
            else Some (obs_values (logarithmic_ops mt) m (\<lambda>M. M) (observed (logarithmic_ops mt) m vs) !
                         quantile_rank q (sum_list (map snd vs) - 1)))"
proof -
  have "(2 :: nat) ^ 53 \<le> u64_max" by (simp add: u64_max_def)
  then obtain sk where sk: "dd_fill (logarithmic_ops mt) dense_ops vs (dd_new m dense_new dense_new) = Some sk"
      "dd_mapping sk = m" "dd_rep dense_rep sk (observed (logarithmic_ops mt) m vs)"
    using dd_dense.dd_fill_rep [OF dd_dense.dd_rep_new [of m], of mt vs] assms by (auto simp: dd_new_def)
  have sz: "size (observed (logarithmic_ops mt) m vs) = sum_list (map snd vs)" by (rule size_observed)
  then have "observed (logarithmic_ops mt) m vs = {#} \<longleftrightarrow> sum_list (map snd vs) = 0" by (metis size_eq_0_iff_empty)
  then show ?thesis
    using dd_dense.dd_quantile_rep [OF sk(3), of mt q] assms(2) sk(1,2) sz by simp
qed

theorem quantile_is_ranked_observation_witness:
  "\<exists>sk. dd_fill example_ops dense_ops [(f64_of_nat 3, 2)] (dd_new example_mapping dense_new dense_new) = Some sk \<and>
    dd_quantile example_ops dense_ops f64_one sk \<noteq> None \<and>
    dd_quantile example_ops dense_ops F64_NaN sk = Some None"
proof -
  obtain sk where sk: "dd_fill example_ops dense_ops [(f64_of_nat 3, 2)] (dd_new example_mapping dense_new dense_new) = Some sk"
      "dd_quantile example_ops dense_ops f64_one sk \<noteq> None"
    using quantile_is_ranked_observation [OF example_indexable(1), of f64_one] by auto
  moreover have "dd_quantile example_ops dense_ops F64_NaN sk = Some None"
    using quantile_is_ranked_observation [OF example_indexable(1), of F64_NaN] sk(1) by (auto simp: f64_le_def)
  ultimately show ?thesis by blast
qed

text \<open>
  Above that bound the query does panic: after a single weighted addition of \<open>2 ^ 54\<close> zeros, the
  quantile 1.0 has the rank \<open>2 ^ 54\<close>, one past the last observation.
\<close>

theorem quantile_panics_past_2_54:
  "\<exists>sk. dd_add_n (logarithmic_ops mt) lowest_ops f64_zero (2 ^ 54) (dd_new m lowest_default lowest_default) = Some sk \<and>
    dd_quantile (logarithmic_ops mt) lowest_ops f64_one sk = None"
proof -
  let ?M = "replicate_mset (2 ^ 54) BZero"
  have min: "f64_lt f64_zero (mo_min_indexable_value (logarithmic_ops mt) m)"
    by (simp add: logarithmic_ops_def logarithmic_min_indexable_value_def max_MIN_POSITIVE_pos)
  have "\<not> f64_lt (mo_min_indexable_value (logarithmic_ops mt) m) f64_zero"
    using f64_lt_not_le [OF min] by (auto simp: f64_le_def)
  moreover have "\<not> f64_lt f64_zero (f64_neg (mo_min_indexable_value (logarithmic_ops mt) m))"
    using f64_lt_neg_pos [OF min, of f64_zero] by (auto simp: f64_zero_def)
  ultimately have b: "bucket_of (logarithmic_ops mt) m f64_zero = Some BZero" by (simp add: bucket_of_def)
  have d: "the (lowest_new (Suc 2047)) = lowest_default" by (simp add: lowest_default_def)
  have map: "dd_mapping (dd_new m lowest_default lowest_default) = m" by (simp add: dd_new_def)
  obtain sk where sk: "dd_add_n (logarithmic_ops mt) lowest_ops f64_zero (2 ^ 54) (dd_new m lowest_default lowest_default) = Some sk"
      "dd_rep (lowest_safe_rep (Suc 2047)) sk ?M"
    using dd_low.dd_add_n_rep [OF dd_low.dd_rep_new [of 2047 m, unfolded d], of mt f64_zero BZero "2 ^ 54"] b
    by (auto simp: map u64_max_def)
  have "f64_le f64_zero f64_one" "f64_le f64_one f64_one" by (simp_all add: f64_eval)
  then have "dd_quantile (logarithmic_ops mt) lowest_ops f64_one sk = None"
    using dd_low.dd_quantile_rank [OF sk(2), of f64_one mt] quantile_rank_overshoots by simp
  then show ?thesis using sk(1) by blast
qed

text \<open>
  What is read back starts from the default store of 2048 bins, which keeps apart every two bins that
  a store with at most as many kept apart.
\<close>

lemma low_view_wider: "1 \<le> N \<Longrightarrow> N \<le> N' \<Longrightarrow> low_view N' (low_view N M) = low_view N M"
proof (cases "M = {#}")
  case False
  assume N: "1 \<le> N" "N \<le> N'"
  then have "low_floor N' (Max_mset M) \<le> low_floor N (Max_mset M)" by (simp add: low_floor_def)
  then show ?thesis
    unfolding low_view_exact_iff Max_low_view [OF False N(1)] by (auto simp: low_view_def)
qed simp

lemma lowest_from_to_proto:
  assumes rep: "lowest_safe_rep N s M" and small: "size M < 2 ^ 53"
  shows "\<exists>s'. store_from_proto lowest_ops (store_proto_field lowest_ops s) = Some (Inr s') \<and>
    lowest_safe_rep 2048 s' (low_view N M)"
proof -
  obtain n where n: "N = Suc n"
    using rep by (cases N) (auto simp: lowest_safe_rep_def lowest_rep_def)
  have default: "so_default lowest_ops = the (lowest_new (Suc 2047))" by (simp add: lowest_ops_def lowest_default_def)
  have init: "lowest_safe_rep 2048 (so_default lowest_ops) {#}" unfolding default using low.rep_init [of 2047] by simp
  show ?thesis
  proof (cases "M = {#}")
    case True
    then show ?thesis
      using low.rep_is_empty [OF rep [unfolded n]] init by (simp add: store_proto_field_def store_from_proto_def)
  next
    case False
    have holds: "proto_holds (so_to_proto lowest_ops s) (low_view N M)"
      unfolding n by (rule low.rep_to_proto [OF rep [unfolded n] small])
    have "size (low_view N M) \<le> u64_max" using small by (simp add: u64_max_def)
    from low_loops.rep_merge_from_proto [OF init holds] this obtain s' where
      "merge_from_proto_with lowest_add (so_to_proto lowest_ops s) (so_default lowest_ops) = Some (s', Inr ())"
      "lowest_safe_rep 2048 s' (low_view N M)" by auto
    then show ?thesis
      using False low.rep_is_empty [OF rep [unfolded n]]
      by (simp add: store_proto_field_def store_from_proto_def lowest_ops_def lowest_merge_from_proto_def)
  qed
qed

lemma lowest_read_back:
  assumes rep: "lowest_safe_rep N s M" and small: "size M < 2 ^ 53" and N: "N \<le> 2048"
  obtains s' where "store_from_proto lowest_ops (store_proto_field lowest_ops s) = Some (Inr s')"
    and "cl_count s' = cl_count s" and "\<forall>r. lowest_key_at_rank r s' = lowest_key_at_rank r s"
proof -
  obtain s' where s': "store_from_proto lowest_ops (store_proto_field lowest_ops s) = Some (Inr s')"
      "lowest_safe_rep 2048 s' (low_view N M)" using lowest_from_to_proto [OF rep small] by blast
  have reps: "lowest_rep N s M" "lowest_rep 2048 s' (low_view N M)"
    using rep s'(2) by (simp_all add: lowest_safe_rep_def)
  have "1 \<le> N" using reps(1) by (simp add: lowest_rep_def)
  from low_view_wider [OF this N] show ?thesis
    using that [OF s'(1)] lowest_rep_rank [OF reps(1)] lowest_rep_rank [OF reps(2)] reps
    by (simp add: lowest_rep_def)
qed

text \<open>A quantile depends on the mapping, the zeros, and what the two stores count and find at each rank.\<close>

lemma dd_quantile_stores:
  assumes "dd_mapping b = dd_mapping a" and "dd_zero_count b = dd_zero_count a"
    and "so_total_count ops (dd_positive_store b) = so_total_count ops (dd_positive_store a)"
    and "so_total_count ops (dd_negative_store b) = so_total_count ops (dd_negative_store a)"
    and "\<And>r. so_key_at_rank ops r (dd_positive_store b) = so_key_at_rank ops r (dd_positive_store a)"
    and "\<And>r. so_key_at_rank ops r (dd_negative_store b) = so_key_at_rank ops r (dd_negative_store a)"
  shows "dd_quantile mo ops q b = dd_quantile mo ops q a"
  unfolding dd_quantile_def dd_is_empty_def dd_count_def assms ..

text \<open>
  C31. A filled sketch survives its protobuf form: reading back what was written succeeds, with a
  mapping that the writer accepts as its own, and the copy answers every quantile query alike. The
  reader builds the default store of 2048 bins whatever the writer's bound was, and the sketch may
  have been filled with any bound up to that one.
\<close>

theorem sketch_proto_round_trip:
  assumes "ratio_reflexive mt" and "f64_is_finite (lm_gamma m)" and "f64_is_finite (lm_index_offset m)"
    and "lowest_new N = Some s0" and "N \<le> 2048" and "indexable (logarithmic_ops mt) m vs"
    and "sum_list (map snd vs) < 2 ^ 53"
  shows "\<exists>a b. dd_fill (logarithmic_ops mt) lowest_ops vs (dd_new m s0 s0) = Some a \<and>
    dd_from_proto (logarithmic_ops mt) lowest_ops (dd_to_proto (logarithmic_ops mt) lowest_ops a) m = Some (Inr b) \<and>
    (\<forall>q. dd_quantile (logarithmic_ops mt) lowest_ops q b = dd_quantile (logarithmic_ops mt) lowest_ops q a)"
proof -
  obtain n where n: "N = Suc n" "s0 = the (lowest_new (Suc n))" using lowest_new_Suc [OF assms(4)] by blast
  have big: "(2 :: nat) ^ 53 \<le> u64_max" by (simp add: u64_max_def)
  let ?M = "observed (logarithmic_ops mt) m vs"
  obtain a where a: "dd_fill (logarithmic_ops mt) lowest_ops vs (dd_new m s0 s0) = Some a" "dd_mapping a = m"
      "dd_rep (lowest_safe_rep N) a ?M"
    using dd_low.dd_fill_rep [OF dd_low.dd_rep_new [of n m], of mt vs] assms(6,7) big n by (auto simp: dd_new_def)
  have "size ?M < 2 ^ 53" using assms(7) by (simp add: size_observed)
  then have sz: "size (pos_part ?M) < 2 ^ 53" "size (neg_part ?M) < 2 ^ 53" "dd_zero_count a < 2 ^ 53"
    using size_parts [of ?M] a(3) by (auto simp: dd_rep_def)
  have reps: "lowest_safe_rep N (dd_positive_store a) (pos_part ?M)" "lowest_safe_rep N (dd_negative_store a) (neg_part ?M)"
    using a(3) by (simp_all add: dd_rep_def)
  obtain p where p: "store_from_proto lowest_ops (store_proto_field lowest_ops (dd_positive_store a)) = Some (Inr p)"
      "cl_count p = cl_count (dd_positive_store a)" "\<forall>r. lowest_key_at_rank r p = lowest_key_at_rank r (dd_positive_store a)"
    using reps(1) sz(1) assms(5) by (rule lowest_read_back)
  obtain g where g: "store_from_proto lowest_ops (store_proto_field lowest_ops (dd_negative_store a)) = Some (Inr g)"
      "cl_count g = cl_count (dd_negative_store a)" "\<forall>r. lowest_key_at_rank r g = lowest_key_at_rank r (dd_negative_store a)"
    using reps(2) sz(2) assms(5) by (rule lowest_read_back)
  let ?b = "\<lparr>dd_mapping = m, dd_positive_store = p, dd_negative_store = g, dd_zero_count = dd_zero_count a\<rparr>"
  have "logarithmic_ok mt (dd_mapping a)" using assms(1-3) a(2) by (simp add: logarithmic_ok_def)
  from dd_low.dd_from_to_proto [OF p(1) g(1) sz(3) this]
  have b: "dd_from_proto (logarithmic_ops mt) lowest_ops (dd_to_proto (logarithmic_ops mt) lowest_ops a) m = Some (Inr ?b)"
    by (simp add: a(2))
  have "dd_quantile (logarithmic_ops mt) lowest_ops q ?b = dd_quantile (logarithmic_ops mt) lowest_ops q a" for q
    by (rule dd_quantile_stores) (simp_all add: a(2) p(2,3) g(2,3) lowest_ops_def)
  then show ?thesis using a(1) b by blast
qed

theorem sketch_proto_round_trip_witness:
  "\<exists>s0 a b. lowest_new 2 = Some s0 \<and>
    dd_fill example_ops lowest_ops [(f64_of_nat 3, 2)] (dd_new example_mapping s0 s0) = Some a \<and>
    dd_from_proto example_ops lowest_ops (dd_to_proto example_ops lowest_ops a) example_mapping = Some (Inr b) \<and>
    dd_quantile example_ops lowest_ops f64_one b = dd_quantile example_ops lowest_ops f64_one a"
proof -
  obtain s0 where s0: "lowest_new 2 = Some s0" by (auto simp: lowest_new_def)
  show ?thesis
    using sketch_proto_round_trip [OF example_reflexive example_finite s0 _ example_indexable(1)] s0 by auto
qed

text \<open>
  The memory-saving positive-only sketch is equivalent to the full sketch on non-negative values:
  both are filled without a panic and answer every quantile query alike.
\<close>

theorem positive_only_equivalent:
  assumes "logarithmic_ok mt m" and "lowest_new N = Some s0" and "list_all (\<lambda>(v, n). f64_le f64_zero v) vs"
    and "indexable (logarithmic_ops mt) m vs" and "sum_list (map snd vs) \<le> u64_max"
  shows "\<exists>a b. dd_fill (logarithmic_ops mt) lowest_ops vs (dd_new m s0 s0) = Some a \<and>
    po_fill (logarithmic_ops mt) lowest_ops vs (po_new m s0) = Some b \<and>
    (\<forall>q. po_quantile (logarithmic_ops mt) lowest_ops q b = dd_quantile (logarithmic_ops mt) lowest_ops q a)"
proof -
  obtain n where "N = Suc n" "s0 = the (lowest_new (Suc n))" using lowest_new_Suc [OF assms(2)] by blast
  then show ?thesis using dd_low.positive_only_agrees [OF assms(1,3-5), where n = n] by simp
qed

theorem positive_only_equivalent_witness:
  "\<exists>s0 a b. lowest_new 2 = Some s0 \<and>
    dd_fill example_ops lowest_ops [(f64_of_nat 3, 2)] (dd_new example_mapping s0 s0) = Some a \<and>
    po_fill example_ops lowest_ops [(f64_of_nat 3, 2)] (po_new example_mapping s0) = Some b \<and>
    po_quantile example_ops lowest_ops f64_one b = dd_quantile example_ops lowest_ops f64_one a"
proof -
  obtain s0 where s0: "lowest_new 2 = Some s0" by (auto simp: lowest_new_def)
  show ?thesis
    using positive_only_equivalent [OF example_ok s0 _ example_indexable(1)] s0
    by (auto simp: example_nonneg u64_max_def)
qed

text \<open>
  The zero-sized fixed mapping puts every value into the same bin as the configurable mapping that
  has its constants and offset zero.
\<close>

theorem fixed_mapping_equivalent:
  "mo_index (fixed_ops mt) () v = mo_index (logarithmic_ops mt) fixed_as_logarithmic v"
  by (simp add: fixed_ops_def logarithmic_ops_def fixed_index_agrees)

text \<open>
  The constructor rejects accuracies outside the open interval from 0 to 1, but lets one that is
  not a number through: the result is a sketch whose base is not a number.
\<close>

theorem nan_accuracy_accepted:
  "(f64_le a f64_zero \<or> f64_le f64_one a \<longleftrightarrow>
     dd_with_relative_accuracy mt a = Inl ''relative accuracy must be between 0 and 1 (exclusive)'') \<and>
   (\<exists>sk. dd_with_relative_accuracy mt F64_NaN = Inr sk \<and> lm_gamma (dd_mapping sk) = F64_NaN)"
  by (simp add: dd_with_relative_accuracy_def logarithmic_new_nan dd_new_def)
    (simp add: logarithmic_new_def Let_def)

end
