(* ===== verification/Agent_Sketch.thy ===== *)
theory Agent_Sketch
  imports Index_Mapping Float_Rank
begin

text \<open>
  The sketch of the Datadog Agent (\<^verbatim>\<open>lib/ddsketch/src/agent\<close>): bins with 16-bit keys and 32-bit counts,
  the configuration computed at build time, insertion of values, of histogram buckets and of other
  sketches, quantiles, and the \<^verbatim>\<open>Dogsketch\<close> message.

  The assertions of the \<^verbatim>\<open>saluki_antithesis\<close> crate compile to nothing and have no counterpart.
\<close>

section \<open>Configuration\<close>

record config =
  bin_limit :: nat
  gamma_v :: f64
  gamma_ln :: f64
  norm_min :: f64
  norm_bias :: int

text \<open>\<^verbatim>\<open>build.rs\<close> computes the constants of the generated module; its assertions stop the build.\<close>

definition calculate_configuration_params :: "math \<Rightarrow> nat \<Rightarrow> f64 \<Rightarrow> f64 \<Rightarrow> config option" where
  "calculate_configuration_params mt limit eps min_value =
     (if f64_lt f64_zero eps \<and> f64_lt eps f64_one \<and> f64_lt f64_zero min_value \<and> 0 < limit then do {
        let eps2 = f64_mul eps (f64_of_nat 2);
        let g = f64_add f64_one eps2;
        let g_ln = ln_1p_f64 mt eps2;
        let norm_eff_min = f64_to_i32 (f64_floor (f64_div (ln_f64 mt min_value) g_ln));
        neg \<leftarrow> i32_sub 0 norm_eff_min;
        bias \<leftarrow> i32_add neg 1;
        d \<leftarrow> i32_sub 1 bias;
        let n_min = powf_f64 mt g (f64_of_int d);
        if f64_le n_min min_value
        then Some \<lparr>bin_limit = limit, gamma_v = g, gamma_ln = g_ln, norm_min = n_min, norm_bias = bias\<rparr>
        else None
      }
      else None)"

definition MAX_KEY :: int where
  "MAX_KEY = 32767"

definition MAX_BIN_WIDTH :: nat where
  "MAX_BIN_WIDTH = u32_max"

definition wrap_i32 :: "int \<Rightarrow> int" where
  "wrap_i32 x = (x + 2 ^ 31) mod 2 ^ 32 - 2 ^ 31"

definition log_gamma :: "math \<Rightarrow> config \<Rightarrow> f64 \<Rightarrow> f64" where
  "log_gamma mt c v = f64_div (ln_f64 mt v) (gamma_ln c)"

text \<open>Both functions call themselves once, on the negated argument, which is not negative.\<close>

definition bin_lower_bound_nonneg :: "math \<Rightarrow> config \<Rightarrow> int \<Rightarrow> f64 option" where
  "bin_lower_bound_nonneg mt c k =
     (if k = MAX_KEY then Some (F64_Inf False)
      else if k = 0 then Some f64_zero
      else do {
        d \<leftarrow> i32_sub k (norm_bias c);
        Some (powf_f64 mt (gamma_v c) (f64_of_int d))
      })"

definition bin_lower_bound :: "math \<Rightarrow> config \<Rightarrow> int \<Rightarrow> f64 option" where
  "bin_lower_bound mt c k =
     (if k < 0 then (if - k \<le> MAX_KEY then map_option f64_neg (bin_lower_bound_nonneg mt c (- k)) else None)
      else bin_lower_bound_nonneg mt c k)"

definition config_key_nonneg :: "math \<Rightarrow> config \<Rightarrow> f64 \<Rightarrow> int" where
  "config_key_nonneg mt c v =
     (if f64_eq v f64_zero \<or> (f64_lt f64_zero v \<and> f64_lt v (norm_min c)) \<or>
         (f64_lt v f64_zero \<and> f64_lt (f64_neg (norm_min c)) v)
      then 0
      else let rounded = f64_to_i32 (f64_round_ties_even (log_gamma mt c v));
               key = wrap_i32 (rounded + norm_bias c)
           in max 1 (min MAX_KEY key))"

definition config_key :: "math \<Rightarrow> config \<Rightarrow> f64 \<Rightarrow> int" where
  "config_key mt c v =
     (if f64_lt v f64_zero then - config_key_nonneg mt c (f64_neg v) else config_key_nonneg mt c v)"

section \<open>Bins\<close>

record bin =
  bin_k :: int
  bin_n :: nat

text \<open>\<^verbatim>\<open>Bin::increment\<close>: the bin and the count that did not fit.\<close>

definition bin_increment :: "nat \<Rightarrow> bin \<Rightarrow> (bin \<times> nat) option" where
  "bin_increment n b = do {
     next_n \<leftarrow> u64_add n (bin_n b);
     if next_n > MAX_BIN_WIDTH then Some (b\<lparr>bin_n := MAX_BIN_WIDTH\<rparr>, next_n - MAX_BIN_WIDTH)
     else Some (b\<lparr>bin_n := next_n\<rparr>, 0)
   }"

definition generate_bins :: "bin list \<Rightarrow> int \<Rightarrow> nat \<Rightarrow> bin list" where
  "generate_bins bins k n =
     (if n < MAX_BIN_WIDTH then bins @ [\<lparr>bin_k = k, bin_n = n\<rparr>]
      else let overflow = n mod MAX_BIN_WIDTH
           in bins @ (if overflow \<noteq> 0 then [\<lparr>bin_k = k, bin_n = overflow\<rparr>] else []) @
              replicate (n div MAX_BIN_WIDTH) \<lparr>bin_k = k, bin_n = MAX_BIN_WIDTH\<rparr>)"

definition trim_left :: "bin list \<Rightarrow> nat \<Rightarrow> bin list option" where
  "trim_left bins limit =
     (if limit = 0 \<or> length bins \<le> limit then Some bins
      else do {
        let num_to_remove = length bins - limit;
        missing \<leftarrow> sum_u64 0 (map bin_n (take num_to_remove bins));
        (b, _) \<leftarrow> bin_increment missing (bins ! num_to_remove);
        Some (drop num_to_remove (bins[num_to_remove := b]))
      })"

text \<open>On the keys from the start index on, which are not empty.\<close>

definition buf_count_leading_equal :: "int list \<Rightarrow> nat" where
  "buf_count_leading_equal keys =
     (if length keys = 1 then 1 else length (takeWhile (\<lambda>k. k = hd keys) keys))"

section \<open>The sketch\<close>

record agent_sketch =
  ag_bins :: "bin list"
  ag_count :: nat
  ag_min :: f64
  ag_max :: f64
  ag_sum :: f64
  ag_avg :: f64

definition agent_default :: agent_sketch where
  "agent_default = \<lparr>ag_bins = [], ag_count = 0, ag_min = f64_MAX, ag_max = f64_MIN, ag_sum = f64_zero, ag_avg = f64_zero\<rparr>"

definition agent_remap_mapping :: "math \<Rightarrow> config \<Rightarrow> logarithmic_mapping option" where
  "agent_remap_mapping mt c =
     (case logarithmic_new_with_gamma_and_offset mt (gamma_v c)
            (f64_add (f64_of_int (norm_bias c)) (f64_div f64_one (f64_of_nat 2))) of
        Inl _ \<Rightarrow> None
      | Inr m \<Rightarrow> Some m)"

definition agent_value_for_key :: "math \<Rightarrow> config \<Rightarrow> int \<Rightarrow> f64 option" where
  "agent_value_for_key mt c key = bin_lower_bound mt c key"

definition agent_is_empty :: "agent_sketch \<Rightarrow> bool" where
  "agent_is_empty sk \<longleftrightarrow> ag_count sk = 0"

definition agent_set_count :: "nat \<Rightarrow> agent_sketch \<Rightarrow> agent_sketch" where
  "agent_set_count n sk = sk\<lparr>ag_count := n\<rparr>"

definition agent_set_sum :: "f64 \<Rightarrow> agent_sketch \<Rightarrow> agent_sketch" where
  "agent_set_sum x sk = sk\<lparr>ag_sum := x\<rparr>"

definition agent_set_avg :: "f64 \<Rightarrow> agent_sketch \<Rightarrow> agent_sketch" where
  "agent_set_avg x sk = sk\<lparr>ag_avg := x\<rparr>"

definition agent_set_min :: "f64 \<Rightarrow> agent_sketch \<Rightarrow> agent_sketch" where
  "agent_set_min x sk = sk\<lparr>ag_min := x\<rparr>"

definition agent_set_max :: "f64 \<Rightarrow> agent_sketch \<Rightarrow> agent_sketch" where
  "agent_set_max x sk = sk\<lparr>ag_max := x\<rparr>"

definition agent_min :: "agent_sketch \<Rightarrow> f64 option" where
  "agent_min sk = (if agent_is_empty sk then None else Some (ag_min sk))"

definition agent_max :: "agent_sketch \<Rightarrow> f64 option" where
  "agent_max sk = (if agent_is_empty sk then None else Some (ag_max sk))"

definition agent_sum :: "agent_sketch \<Rightarrow> f64 option" where
  "agent_sum sk = (if agent_is_empty sk then None else Some (ag_sum sk))"

definition agent_avg :: "agent_sketch \<Rightarrow> f64 option" where
  "agent_avg sk = (if agent_is_empty sk then None else Some (ag_avg sk))"

definition agent_clear :: "agent_sketch \<Rightarrow> agent_sketch" where
  "agent_clear sk = sk\<lparr>ag_count := 0, ag_min := f64_MAX, ag_max := f64_MIN, ag_avg := f64_zero,
     ag_sum := f64_zero, ag_bins := []\<rparr>"

definition adjust_basic_stats :: "f64 \<Rightarrow> nat \<Rightarrow> agent_sketch \<Rightarrow> agent_sketch option" where
  "adjust_basic_stats v n sk = do {
     let mn = (if f64_lt v (ag_min sk) then v else ag_min sk);
     let mx = (if f64_lt (ag_max sk) v then v else ag_max sk);
     c \<leftarrow> u64_add (ag_count sk) n;
     let s = f64_add (ag_sum sk) (f64_mul v (f64_of_nat n));
     let a = (if n = 1 then f64_add (ag_avg sk) (f64_div (f64_sub v (ag_avg sk)) (f64_of_nat c))
              else f64_add (ag_avg sk) (f64_div (f64_mul (f64_sub v (ag_avg sk)) (f64_of_nat n)) (f64_of_nat c)));
     Some (sk\<lparr>ag_min := mn, ag_max := mx, ag_count := c, ag_sum := s, ag_avg := a\<rparr>)
   }"

text \<open>The merge loop of \<^verbatim>\<open>insert_key_counts\<close>: the bins and the counts not yet consumed, and the new bins.\<close>

fun key_counts_loop :: "bin list \<Rightarrow> (int \<times> nat) list \<Rightarrow> bin list \<Rightarrow> bin list option" where
  "key_counts_loop (b # bs) ((vk, kn) # cs) temp =
     (if bin_k b > vk then key_counts_loop (b # bs) cs (generate_bins temp vk kn)
      else if bin_k b < vk then key_counts_loop bs ((vk, kn) # cs) (temp @ [b])
      else do {
        n \<leftarrow> u64_add (bin_n b) kn;
        key_counts_loop bs cs (generate_bins temp (bin_k b) n)
      })"
| "key_counts_loop [] ((vk, kn) # cs) temp = key_counts_loop [] cs (generate_bins temp vk kn)"
| "key_counts_loop bs [] temp = Some (temp @ bs)"

definition insert_key_counts :: "config \<Rightarrow> (int \<times> nat) list \<Rightarrow> agent_sketch \<Rightarrow> agent_sketch option" where
  "insert_key_counts c counts sk = do {
     temp \<leftarrow> key_counts_loop (ag_bins sk) counts [];
     bins \<leftarrow> trim_left temp (bin_limit c);
     Some (sk\<lparr>ag_bins := bins\<rparr>)
   }"

text \<open>The merge loop of \<^verbatim>\<open>insert_keys\<close>, over sorted keys.\<close>

lemma buf_count_pos: "keys \<noteq> [] \<Longrightarrow> 0 < buf_count_leading_equal keys"
  by (cases keys) (auto simp: buf_count_leading_equal_def)

function keys_loop :: "bin list \<Rightarrow> int list \<Rightarrow> bin list \<Rightarrow> bin list option" where
  "keys_loop (b # bs) (vk # ks) temp =
     (if bin_k b > vk
      then let kn = buf_count_leading_equal (vk # ks)
           in keys_loop (b # bs) (drop kn (vk # ks)) (generate_bins temp vk kn)
      else if bin_k b < vk then keys_loop bs (vk # ks) (temp @ [b])
      else do {
        let kn = buf_count_leading_equal (vk # ks);
        n \<leftarrow> u64_add (bin_n b) kn;
        keys_loop bs (drop kn (vk # ks)) (generate_bins temp (bin_k b) n)
      })"
| "keys_loop [] (vk # ks) temp =
     (let kn = buf_count_leading_equal (vk # ks)
      in keys_loop [] (drop kn (vk # ks)) (generate_bins temp vk kn))"
| "keys_loop bs [] temp = Some (temp @ bs)"
  by pat_completeness auto

termination keys_loop
proof (relation "measure (\<lambda>(bs, ks, temp). length bs + length ks)", goal_cases)
  case (2 b bs vk ks temp kn)
  then show ?case using buf_count_pos [of "vk # ks"] by simp
next
  case (5 vk ks temp kn)
  then show ?case using buf_count_pos [of "vk # ks"] by simp
qed simp_all

definition insert_keys :: "config \<Rightarrow> int list \<Rightarrow> agent_sketch \<Rightarrow> agent_sketch option" where
  "insert_keys c keys sk =
     (if length keys \<le> u32_max then do {
        temp \<leftarrow> keys_loop (ag_bins sk) (sort keys) [];
        bins \<leftarrow> trim_left temp (bin_limit c);
        Some (sk\<lparr>ag_bins := bins\<rparr>)
      }
      else None)"

text \<open>
  The scan of \<^verbatim>\<open>insert\<close>: \<^const>\<open>Inl\<close> is the early return after a bin had room, \<^const>\<open>Inr\<close> the bins with the new
  one inserted or pushed.
\<close>

fun insert_scan :: "int \<Rightarrow> bin list \<Rightarrow> bin list + bin list" where
  "insert_scan key [] = Inr [\<lparr>bin_k = key, bin_n = 1\<rparr>]"
| "insert_scan key (b # bs) =
     (if bin_k b = key then
        (if bin_n b < MAX_BIN_WIDTH then Inl (b\<lparr>bin_n := bin_n b + 1\<rparr> # bs)
         else Inr (\<lparr>bin_k = key, bin_n = 1\<rparr> # b # bs))
      else if bin_k b > key then Inr (\<lparr>bin_k = key, bin_n = 1\<rparr> # b # bs)
      else (case insert_scan key bs of Inl bs' \<Rightarrow> Inl (b # bs') | Inr bs' \<Rightarrow> Inr (b # bs')))"

definition agent_insert :: "math \<Rightarrow> config \<Rightarrow> f64 \<Rightarrow> agent_sketch \<Rightarrow> agent_sketch option" where
  "agent_insert mt c v sk = do {
     sk1 \<leftarrow> adjust_basic_stats v 1 sk;
     let key = config_key mt c v;
     case insert_scan key (ag_bins sk1) of
       Inl bins \<Rightarrow> Some (sk1\<lparr>ag_bins := bins\<rparr>)
     | Inr bins \<Rightarrow> do {
         bins' \<leftarrow> trim_left bins (bin_limit c);
         Some (sk1\<lparr>ag_bins := bins'\<rparr>)
       }
   }"

fun insert_many_loop :: "math \<Rightarrow> config \<Rightarrow> f64 list \<Rightarrow> int list \<Rightarrow> agent_sketch \<Rightarrow> (agent_sketch \<times> int list) option" where
  "insert_many_loop mt c [] keys sk = Some (sk, keys)"
| "insert_many_loop mt c (v # vs) keys sk = do {
     sk' \<leftarrow> adjust_basic_stats v 1 sk;
     insert_many_loop mt c vs (keys @ [config_key mt c v]) sk'
   }"

definition agent_insert_many :: "math \<Rightarrow> config \<Rightarrow> f64 list \<Rightarrow> agent_sketch \<Rightarrow> agent_sketch option" where
  "agent_insert_many mt c vs sk = do {
     (sk', keys) \<leftarrow> insert_many_loop mt c vs [] sk;
     insert_keys c keys sk'
   }"

definition agent_insert_n :: "math \<Rightarrow> config \<Rightarrow> f64 \<Rightarrow> nat \<Rightarrow> agent_sketch \<Rightarrow> agent_sketch option" where
  "agent_insert_n mt c v n sk =
     (if n = 1 then agent_insert mt c v sk
      else do {
        sk' \<leftarrow> adjust_basic_stats v n sk;
        insert_key_counts c [(config_key mt c v, n)] sk'
      })"

section \<open>Histogram buckets\<close>

text \<open>The whole part of a key's share of the count, and the fractions carried to the next key.\<close>

definition interpolate_share :: "f64 \<Rightarrow> f64 \<Rightarrow> (nat \<times> f64) option" where
  "interpolate_share fkn remainder =
     (let remainder1 = (if f64_lt f64_one fkn then f64_add remainder (f64_sub fkn (f64_trunc fkn)) else remainder)
      in if f64_lt f64_one remainder1
         then do { kn \<leftarrow> u64_add (f64_to_u64 fkn) 1; Some (kn, f64_sub remainder1 f64_one) }
         else Some (f64_to_u64 fkn, remainder1))"

text \<open>
  The loop of \<^verbatim>\<open>insert_interpolate_bucket\<close> over the keys from the end index on: the key at the start index,
  the lower bound, the carried remainder, the count still to place, the counts collected so far.
\<close>

fun interpolate_loop ::
    "math \<Rightarrow> config \<Rightarrow> f64 \<Rightarrow> nat \<Rightarrow> int list \<Rightarrow> int \<Rightarrow> f64 \<Rightarrow> f64 \<Rightarrow> nat \<Rightarrow> (int \<times> nat) list \<Rightarrow> agent_sketch \<Rightarrow>
     (int \<times> nat \<times> (int \<times> nat) list \<times> agent_sketch) option" where
  "interpolate_loop mt c distance cnt [] start lower_bound remainder remaining key_counts sk =
     Some (start, remaining, key_counts, sk)"
| "interpolate_loop mt c distance cnt (k # ks) start lower_bound remainder remaining key_counts sk =
     (if remaining = 0 then Some (start, remaining, key_counts, sk)
      else do {
        upper_bound \<leftarrow> bin_lower_bound mt c k;
        (kn, remainder2) \<leftarrow>
          interpolate_share (f64_mul (f64_div (f64_sub upper_bound lower_bound) distance) (f64_of_nat cnt)) remainder;
        if kn > 0 then do {
          let kn' = (if kn > remaining then remaining else kn);
          sk' \<leftarrow> adjust_basic_stats lower_bound kn' sk;
          interpolate_loop mt c distance cnt ks k upper_bound remainder2 (remaining - kn')
            (key_counts @ [(start, kn')]) sk'
        }
        else interpolate_loop mt c distance cnt ks start lower_bound remainder2 remaining key_counts sk
      })"

definition insert_interpolate_bucket ::
    "math \<Rightarrow> config \<Rightarrow> f64 \<Rightarrow> f64 \<Rightarrow> nat \<Rightarrow> agent_sketch \<Rightarrow> agent_sketch option" where
  "insert_interpolate_bucket mt c lower upper cnt sk =
     (case [config_key mt c lower..config_key mt c upper] of
        [] \<Rightarrow> None
      | first # rest \<Rightarrow> do {
          lower_bound \<leftarrow> bin_lower_bound mt c first;
          (last_key, remaining, key_counts, sk1) \<leftarrow>
            interpolate_loop mt c (f64_sub upper lower) cnt rest first lower_bound f64_zero cnt [] sk;
          (key_counts', sk2) \<leftarrow>
            (if remaining > 0 then do {
               lb \<leftarrow> bin_lower_bound mt c last_key;
               sk' \<leftarrow> adjust_basic_stats lb remaining sk1;
               Some (key_counts @ [(last_key, remaining)], sk')
             }
             else Some (key_counts, sk1));
          insert_key_counts c (sort_key fst key_counts') sk2
        })"

record bucket =
  upper_limit :: f64
  bucket_count :: nat

fun interpolate_buckets_loop :: "math \<Rightarrow> config \<Rightarrow> f64 \<Rightarrow> bucket list \<Rightarrow> agent_sketch \<Rightarrow> agent_sketch option" where
  "interpolate_buckets_loop mt c lower [] sk = Some sk"
| "interpolate_buckets_loop mt c lower (b # bs) sk = do {
     let upper = upper_limit b;
     let (lower', upper') =
       (if upper = F64_Inf False then (lower, lower)
        else if lower = F64_Inf True then (upper, upper)
        else if f64_eq lower f64_zero \<and> f64_lt f64_zero upper then (upper, upper)
        else (lower, upper));
     sk' \<leftarrow> insert_interpolate_bucket mt c lower' upper' (bucket_count b) sk;
     interpolate_buckets_loop mt c (upper_limit b) bs sk'
   }"

definition insert_interpolate_buckets ::
    "math \<Rightarrow> config \<Rightarrow> bucket list \<Rightarrow> agent_sketch \<Rightarrow> (agent_sketch \<times> (string + unit)) option" where
  "insert_interpolate_buckets mt c buckets sk =
     (let sorted_buckets = sort_by (\<lambda>a b. ordered_le mt (upper_limit a) (upper_limit b)) buckets
      in if list_ex (\<lambda>b. bucket_count b > u32_max) sorted_buckets
         then Some (sk, Inl ''bucket size greater than u32::MAX'')
         else do {
           sk' \<leftarrow> interpolate_buckets_loop mt c (F64_Inf True) sorted_buckets sk;
           Some (sk', Inr ())
         })"

section \<open>Quantiles, merging and the message\<close>

definition agent_rank :: "nat \<Rightarrow> f64 \<Rightarrow> f64 option" where
  "agent_rank cnt q = do {
     n \<leftarrow> u64_sub cnt 1;
     Some (f64_round_ties_even (f64_mul q (f64_of_nat n)))
   }"

text \<open>The loop of \<^verbatim>\<open>quantile\<close> at index \<open>i\<close>; \<open>len\<close> is the number of bins.\<close>

fun quantile_loop ::
    "math \<Rightarrow> config \<Rightarrow> agent_sketch \<Rightarrow> f64 \<Rightarrow> nat \<Rightarrow> f64 \<Rightarrow> nat \<Rightarrow> bin list \<Rightarrow> f64 option option" where
  "quantile_loop mt c sk wanted_rank len n i [] = Some None"
| "quantile_loop mt c sk wanted_rank len n i (b # bs) =
     (let n' = f64_add n (f64_of_nat (bin_n b))
      in if f64_le n' wanted_rank then quantile_loop mt c sk wanted_rank len n' (i + 1) bs
         else do {
           let weight = f64_div (f64_sub n' wanted_rank) (f64_of_nat (bin_n b));
           low \<leftarrow> bin_lower_bound mt c (bin_k b);
           let high = f64_mul low (gamma_v c);
           let (v_low, v_high) =
             (if i = len then (low, ag_max sk) else if i = 0 then (ag_min sk, high) else (low, high));
           Some (Some (f64_add (f64_mul v_low weight) (f64_mul v_high (f64_sub f64_one weight))))
         })"

definition agent_quantile :: "math \<Rightarrow> config \<Rightarrow> f64 \<Rightarrow> agent_sketch \<Rightarrow> f64 option option" where
  "agent_quantile mt c q sk =
     (if ag_count sk = 0 then Some None
      else if f64_le q f64_zero then Some (Some (ag_min sk))
      else if f64_le f64_one q then Some (Some (ag_max sk))
      else do {
        wanted_rank \<leftarrow> agent_rank (ag_count sk) q;
        estimated \<leftarrow> quantile_loop mt c sk wanted_rank (length (ag_bins sk)) f64_zero 0 (ag_bins sk);
        (case estimated of
           None \<Rightarrow> Some (Some F64_NaN)
         | Some v \<Rightarrow> map_option Some (f64_clamp (ag_min sk) (ag_max sk) v))
      })"

definition merge_summary :: "agent_sketch \<Rightarrow> agent_sketch \<Rightarrow> agent_sketch option" where
  "merge_summary other sk =
     (if ag_count sk = 0
      then Some (sk\<lparr>ag_count := ag_count other, ag_min := ag_min other, ag_max := ag_max other,
                    ag_sum := ag_sum other, ag_avg := ag_avg other\<rparr>)
      else if ag_count other > 0 then do {
        n \<leftarrow> u64_add (ag_count sk) (ag_count other);
        let mx = (if f64_lt (ag_max sk) (ag_max other) then ag_max other else ag_max sk);
        let mn = (if f64_lt (ag_min other) (ag_min sk) then ag_min other else ag_min sk);
        let s = f64_add (ag_sum sk) (ag_sum other);
        let a = f64_add (ag_avg sk)
          (f64_div (f64_mul (f64_sub (ag_avg other) (ag_avg sk)) (f64_of_nat (ag_count other))) (f64_of_nat n));
        Some (sk\<lparr>ag_count := n, ag_max := mx, ag_min := mn, ag_sum := s, ag_avg := a\<rparr>)
      }
      else Some sk)"

text \<open>The loop over the other sketch's bins, with this sketch's bins from the current index on.\<close>

fun merge_bins_loop :: "bin list \<Rightarrow> bin list \<Rightarrow> bin list \<Rightarrow> bin list option" where
  "merge_bins_loop [] bs temp = Some (temp @ bs)"
| "merge_bins_loop (ob # obs) bs temp = do {
     let skipped = takeWhile (\<lambda>b. bin_k b < bin_k ob) bs;
     let temp1 = temp @ skipped;
     (case drop (length skipped) bs of
        [] \<Rightarrow> merge_bins_loop obs [] (temp1 @ [ob])
      | b # bs' \<Rightarrow>
          if bin_k b > bin_k ob then merge_bins_loop obs (b # bs') (temp1 @ [ob])
          else if bin_k b = bin_k ob then do {
            n \<leftarrow> u64_add (bin_n ob) (bin_n b);
            merge_bins_loop obs bs' (generate_bins temp1 (bin_k ob) n)
          }
          else merge_bins_loop obs (b # bs') temp1)
   }"

definition agent_merge :: "config \<Rightarrow> agent_sketch \<Rightarrow> agent_sketch \<Rightarrow> agent_sketch option" where
  "agent_merge c other sk = do {
     sk1 \<leftarrow> merge_summary other sk;
     temp \<leftarrow> merge_bins_loop (ag_bins other) (ag_bins sk1) [];
     bins \<leftarrow> trim_left temp (bin_limit c);
     Some (sk1\<lparr>ag_bins := bins\<rparr>)
   }"

text \<open>\<^verbatim>\<open>PartialEq::eq\<close>.\<close>

definition agent_eq :: "math \<Rightarrow> agent_sketch \<Rightarrow> agent_sketch \<Rightarrow> bool" where
  "agent_eq mt sk other \<longleftrightarrow>
     ag_count sk = ag_count other \<and> float_eq mt (ag_min sk) (ag_min other) \<and> float_eq mt (ag_max sk) (ag_max other) \<and>
     float_eq mt (ag_sum sk) (ag_sum other) \<and> float_eq mt (ag_avg sk) (ag_avg other) \<and> ag_bins sk = ag_bins other"

text \<open>The message \<^verbatim>\<open>Dogsketch\<close>.\<close>

record dogsketch =
  dg_cnt :: int
  dg_min :: f64
  dg_max :: f64
  dg_avg :: f64
  dg_sum :: f64
  dg_k :: "int list"
  dg_n :: "nat list"

definition i64_max :: int where
  "i64_max = 2 ^ 63 - 1"

definition merge_to_dogsketch :: "agent_sketch \<Rightarrow> dogsketch \<Rightarrow> dogsketch" where
  "merge_to_dogsketch sk d =
     d\<lparr>dg_cnt := min (int (ag_count sk)) i64_max, dg_min := ag_min sk, dg_max := ag_max sk, dg_avg := ag_avg sk,
       dg_sum := ag_sum sk, dg_k := map bin_k (ag_bins sk), dg_n := map bin_n (ag_bins sk)\<rparr>"

fun dogsketch_bins :: "(int \<times> nat) list \<Rightarrow> bin list \<Rightarrow> string + bin list" where
  "dogsketch_bins [] bins = Inr bins"
| "dogsketch_bins ((k, n) # rest) bins =
     (if -32768 \<le> k \<and> k \<le> 32767 then dogsketch_bins rest (bins @ [\<lparr>bin_k = k, bin_n = n\<rparr>])
      else Inl ''bin key overflows i16'')"

definition agent_try_from :: "dogsketch \<Rightarrow> string + agent_sketch" where
  "agent_try_from d =
     (if dg_cnt d < 0 then Inl ''sketch count overflows u64 or is negative''
      else if length (dg_k d) \<noteq> length (dg_n d) then Inl ''k and n bin vectors have differing lengths''
      else case dogsketch_bins (zip (dg_k d) (dg_n d)) [] of
        Inl e \<Rightarrow> Inl e
      | Inr bins \<Rightarrow> Inr \<lparr>ag_bins = bins, ag_count = nat (dg_cnt d), ag_min = dg_min d, ag_max = dg_max d,
                        ag_sum = dg_sum d, ag_avg = dg_avg d\<rparr>)"

end
