(* ===== verification/Agent_Bins.thy ===== *)
theory Agent_Bins
  imports Agent_Sketch
begin

text \<open>
  What the bins of the agent sketch count: a multiset of keys. Each loop over bins adds its keys, and
  trimming raises the lowest keys to the lowest that is kept, so that the bins depend on the keys alone
  and not on the order they came in, as long as no bin overflows its 32 bits.
\<close>

section \<open>Well-formed bins and their keys\<close>

definition bins_ok :: "bin list \<Rightarrow> bool" where
  "bins_ok bins \<longleftrightarrow> sorted_wrt (<) (map bin_k bins) \<and> (\<forall>b\<in>set bins. 0 < bin_n b \<and> bin_n b \<le> u32_max)"

definition bins_keys :: "bin list \<Rightarrow> int multiset" where
  "bins_keys bins = (\<Sum>b\<leftarrow>bins. replicate_mset (bin_n b) (bin_k b))"

lemma bins_keys_simps [simp]:
  "bins_keys [] = {#}" "bins_keys (b # bs) = replicate_mset (bin_n b) (bin_k b) + bins_keys bs"
  "bins_keys (as @ bs) = bins_keys as + bins_keys bs"
  by (simp_all add: bins_keys_def)

lemma bins_ok_simps [simp]:
  "bins_ok []"
  "bins_ok (b # bs) \<longleftrightarrow> 0 < bin_n b \<and> bin_n b \<le> u32_max \<and> (\<forall>b'\<in>set bs. bin_k b < bin_k b') \<and> bins_ok bs"
  "bins_ok (as @ bs) \<longleftrightarrow> bins_ok as \<and> bins_ok bs \<and> (\<forall>a\<in>set as. \<forall>b\<in>set bs. bin_k a < bin_k b)"
  by (auto simp: bins_ok_def sorted_wrt_append)

lemma set_bins_keys: "bins_ok bins \<Longrightarrow> set_mset (bins_keys bins) = bin_k ` set bins"
  by (induction bins) auto

lemma size_bins_keys: "size (bins_keys bins) = sum_list (map bin_n bins)"
  by (induction bins) auto

lemma generate_bins_single:
  assumes "0 < n" and "n \<le> u32_max"
  shows "generate_bins bins k n = bins @ [\<lparr>bin_k = k, bin_n = n\<rparr>]"
proof (cases "n = u32_max")
  case True
  then have "n mod u32_max = 0" "n div u32_max = 1" using assms by auto
  then show ?thesis using True by (simp add: generate_bins_def MAX_BIN_WIDTH_def)
qed (use assms in \<open>simp add: generate_bins_def MAX_BIN_WIDTH_def\<close>)

text \<open>Two well-formed lists of bins that count the same keys are the same list.\<close>

lemma replicate_mset_plus: "replicate_mset (a + b) k = replicate_mset a k + replicate_mset b k"
  by (simp add: multiset_eq_iff)

lemma count_bins_below: "(\<forall>b\<in>set bins. k < bin_k b) \<Longrightarrow> Multiset.count (bins_keys bins) k = 0"
  by (induction bins) auto

lemma bins_unique: "bins_ok as \<Longrightarrow> bins_ok bs \<Longrightarrow> bins_keys as = bins_keys bs \<Longrightarrow> as = bs"
proof (induction as arbitrary: bs)
  case Nil
  then show ?case by (cases bs) auto
next
  case (Cons a as)
  obtain b bs' where bs: "bs = b # bs'" using Cons.prems by (cases bs) auto
  have ends: "\<forall>x\<in>set as. bin_k a < bin_k x" "\<forall>x\<in>set bs'. bin_k b < bin_k x" "0 < bin_n a" "0 < bin_n b"
    using Cons.prems bs by auto
  have eq: "replicate_mset (bin_n a) (bin_k a) + bins_keys as = replicate_mset (bin_n b) (bin_k b) + bins_keys bs'"
    using Cons.prems bs by simp
  have "bin_k ` set (a # as) = bin_k ` set (b # bs')"
    using set_bins_keys [OF Cons.prems(1)] set_bins_keys [OF Cons.prems(2)] Cons.prems(3) bs by argo
  then have mem: "bin_k a \<in> bin_k ` set (b # bs')" "bin_k b \<in> bin_k ` set (a # as)" by auto
  have "x \<in> bin_k ` set (b # bs') \<Longrightarrow> bin_k b \<le> x" for x using ends(2) by (auto intro: less_imp_le)
  moreover have "x \<in> bin_k ` set (a # as) \<Longrightarrow> bin_k a \<le> x" for x using ends(1) by (auto intro: less_imp_le)
  ultimately have k: "bin_k a = bin_k b" using mem by (intro order.antisym) blast+
  have "Multiset.count (bins_keys as) (bin_k a) = 0" "Multiset.count (bins_keys bs') (bin_k a) = 0"
    using ends k by (auto intro!: count_bins_below)
  then have n: "bin_n a = bin_n b"
    using arg_cong [OF eq, of "\<lambda>M. Multiset.count M (bin_k a)"] k by simp
  then have "bins_keys as = bins_keys bs'" using eq k by simp
  then have "as = bs'" using Cons.IH [of bs'] Cons.prems bs by simp
  then show ?case using k n bs by simp
qed

section \<open>The loops\<close>

definition counts_ok :: "(int \<times> nat) list \<Rightarrow> bool" where
  "counts_ok cs \<longleftrightarrow> sorted_wrt (<) (map fst cs) \<and> (\<forall>c\<in>set cs. 0 < snd c)"

lemma counts_ok_simps [simp]:
  "counts_ok []" "counts_ok ((k, n) # cs) \<longleftrightarrow> 0 < n \<and> (\<forall>c\<in>set cs. k < fst c) \<and> counts_ok cs"
  by (auto simp: counts_ok_def)

lemma key_counts_loop_spec:
  assumes "bins_ok (temp @ bs)" and "counts_ok cs" and "\<forall>b\<in>set temp. \<forall>c\<in>set cs. bin_k b < fst c"
    and "size (bins_keys temp + bins_keys bs + pairs_mset cs) \<le> u32_max"
  shows "\<exists>r. key_counts_loop bs cs temp = Some r \<and> bins_ok r \<and>
    bins_keys r = bins_keys temp + bins_keys bs + pairs_mset cs"
  using assms
proof (induction bs cs temp rule: key_counts_loop.induct)
  case (1 b bs vk kn cs temp)
  have u: "u64_add (bin_n b) kn = Some (bin_n b + kn)"
    using "1.prems"(4) by (simp add: u64_max_def u32_max_def)
  consider "bin_k b > vk" | "bin_k b < vk" | "bin_k b = vk" by linarith
  then show ?case
  proof cases
    case gt: 1
    let ?t = "temp @ [\<lparr>bin_k = vk, bin_n = kn\<rparr>]"
    have g: "generate_bins temp vk kn = ?t" using "1.prems" by (intro generate_bins_single) auto
    have "\<exists>r. key_counts_loop (b # bs) cs ?t = Some r \<and> bins_ok r \<and>
        bins_keys r = bins_keys ?t + bins_keys (b # bs) + pairs_mset cs"
      using "1.prems" gt by (intro "1.IH"(1) [OF gt, unfolded g]) auto
    then show ?thesis using gt g by (simp add: add.assoc add.left_commute)
  next
    case lt: 2
    have "\<exists>r. key_counts_loop bs ((vk, kn) # cs) (temp @ [b]) = Some r \<and> bins_ok r \<and>
        bins_keys r = bins_keys (temp @ [b]) + bins_keys bs + pairs_mset ((vk, kn) # cs)"
      using "1.prems" lt by (intro "1.IH"(2)) auto
    then show ?thesis using lt by (simp add: add.assoc)
  next
    case eq: 3
    let ?t = "temp @ [\<lparr>bin_k = bin_k b, bin_n = bin_n b + kn\<rparr>]"
    have g: "generate_bins temp (bin_k b) (bin_n b + kn) = ?t"
      using "1.prems" by (intro generate_bins_single) auto
    have "\<exists>r. key_counts_loop bs cs ?t = Some r \<and> bins_ok r \<and> bins_keys r = bins_keys ?t + bins_keys bs + pairs_mset cs"
      using "1.prems" eq by (intro "1.IH"(3) [of "bin_n b + kn", unfolded g]) (auto simp: u replicate_mset_plus)
    then show ?thesis using eq g u by (simp add: replicate_mset_plus add.assoc add.left_commute)
  qed
next
  case (2 vk kn cs temp)
  let ?t = "temp @ [\<lparr>bin_k = vk, bin_n = kn\<rparr>]"
  have g: "generate_bins temp vk kn = ?t" using "2.prems" by (intro generate_bins_single) auto
  have "\<exists>r. key_counts_loop [] cs ?t = Some r \<and> bins_ok r \<and> bins_keys r = bins_keys ?t + bins_keys [] + pairs_mset cs"
    using "2.prems" by (intro "2.IH" [unfolded g]) auto
  then show ?case using g by (simp add: add.assoc)
next
  case (3 bs temp)
  then show ?case by simp
qed

text \<open>Inserting sorted keys is inserting their run lengths.\<close>

function run_lengths :: "int list \<Rightarrow> (int \<times> nat) list" where
  "run_lengths [] = []"
| "run_lengths (k # ks) =
     (let n = buf_count_leading_equal (k # ks) in (k, n) # run_lengths (drop n (k # ks)))"
  by pat_completeness auto

termination run_lengths
proof (relation "measure length", goal_cases)
  case (2 k ks n)
  then show ?case using buf_count_pos [of "k # ks"] by simp
qed simp

lemma keys_loop_run_lengths: "keys_loop bs ks temp = key_counts_loop bs (run_lengths ks) temp"
  by (induction bs ks temp rule: keys_loop.induct)
    (auto simp: Let_def intro: Option.bind_cong)

lemma leading_equal:
  "buf_count_leading_equal (k # ks) = Suc (length (takeWhile (\<lambda>x. x = k) ks))"
  by (cases ks) (simp_all add: buf_count_leading_equal_def)

lemma drop_takeWhile: "drop (length (takeWhile P xs)) xs = dropWhile P xs"
  by (induction xs) auto

lemma sorted_dropWhile_eq: "sorted (k # ks) \<Longrightarrow> x \<in> set (dropWhile (\<lambda>x. x = k) ks) \<Longrightarrow> k < x"
proof (induction ks)
  case (Cons y ys)
  then show ?case by (cases "y = k") (auto simp: order.strict_iff_order)
qed simp

lemma mset_takeWhile_eq: "mset (takeWhile (\<lambda>x. x = k) ks) = replicate_mset (length (takeWhile (\<lambda>x. x = k) ks)) k"
  by (induction ks) auto

lemma run_lengths_ok: "sorted ks \<Longrightarrow> counts_ok (run_lengths ks) \<and> pairs_mset (run_lengths ks) = mset ks \<and>
    fst ` set (run_lengths ks) = set ks"
proof (induction ks rule: run_lengths.induct)
  case (2 k ks)
  define n where "n = buf_count_leading_equal (k # ks)"
  let ?rest = "dropWhile (\<lambda>x. x = k) ks"
  have d: "drop n (k # ks) = ?rest" by (simp add: n_def leading_equal drop_takeWhile)
  have srt: "sorted ?rest" using "2.prems" by (auto intro: sorted_dropWhile)
  note IH = "2.IH" [OF n_def, unfolded d, OF srt]
  have gt: "\<forall>x\<in>set ?rest. k < x" using sorted_dropWhile_eq [OF "2.prems"] by blast
  have split: "mset ks = mset (takeWhile (\<lambda>x. x = k) ks) + mset ?rest"
    by (metis mset_append takeWhile_dropWhile_id)
  have r: "run_lengths (k # ks) = (k, n) # run_lengths ?rest" by (simp add: Let_def n_def [symmetric] d)
  have np: "0 < n" by (simp add: n_def leading_equal)
  have "counts_ok (run_lengths (k # ks))" using IH gt np unfolding r by force
  moreover have "pairs_mset (run_lengths (k # ks)) = mset (k # ks)"
    using IH unfolding r by (simp add: split mset_takeWhile_eq [of k ks] n_def leading_equal)
  moreover have "set ks = set (takeWhile (\<lambda>x. x = k) ks) \<union> set ?rest"
    by (metis set_append takeWhile_dropWhile_id)
  then have "fst ` set (run_lengths (k # ks)) = set (k # ks)"
    using IH set_takeWhileD [of _ "\<lambda>x. x = k" ks] unfolding r by auto
  ultimately show ?case by blast
qed simp

lemma insert_scan_spec:
  assumes "bins_ok bs" and "size (bins_keys bs) < u32_max"
  shows "\<exists>r. (insert_scan key bs = Inl r \<and> length r = length bs \<or> insert_scan key bs = Inr r) \<and> bins_ok r \<and>
    bins_keys r = add_mset key (bins_keys bs) \<and> bin_k ` set r = insert key (bin_k ` set bs)"
  using assms
proof (induction bs)
  case Nil
  then show ?case by (simp add: u32_max_def)
next
  case (Cons b bs)
  consider "bin_k b = key" | "bin_k b > key" | "bin_k b < key" by linarith
  then show ?case
  proof cases
    case 1
    then have "bin_n b < u32_max" using Cons.prems by simp
    then show ?thesis using 1 Cons.prems by (simp add: MAX_BIN_WIDTH_def)
  next
    case 2
    then show ?thesis using Cons.prems by (auto simp: u32_max_def)
  next
    case 3
    obtain r where r: "insert_scan key bs = Inl r \<and> length r = length bs \<or> insert_scan key bs = Inr r" "bins_ok r"
        "bins_keys r = add_mset key (bins_keys bs)" "bin_k ` set r = insert key (bin_k ` set bs)"
      using Cons.IH Cons.prems by auto
    have lt: "\<forall>b'\<in>set r. bin_k b < bin_k b'"
    proof
      fix b' assume "b' \<in> set r"
      then have "bin_k b' \<in> insert key (bin_k ` set bs)" using r(4) by blast
      then show "bin_k b < bin_k b'" using 3 Cons.prems by auto
    qed
    have "insert_scan key (b # bs) = Inl (b # r) \<and> length r = length bs \<or> insert_scan key (b # bs) = Inr (b # r)"
      using r(1) 3 by auto
    moreover have "bins_ok (b # r)" using r(2) lt Cons.prems by simp
    moreover have "bins_keys (b # r) = add_mset key (bins_keys (b # bs))" using r(3) by simp
    moreover have "bin_k ` set (b # r) = insert key (bin_k ` set (b # bs))" using r(4) by auto
    ultimately show ?thesis by (intro exI [of _ "b # r"]) simp
  qed
qed

lemma merge_bins_loop_spec:
  assumes "bins_ok (temp @ bs)" and "bins_ok (temp @ obs)"
    and "size (bins_keys temp + bins_keys bs + bins_keys obs) \<le> u32_max"
  shows "\<exists>r. merge_bins_loop obs bs temp = Some r \<and> bins_ok r \<and>
    bins_keys r = bins_keys temp + bins_keys bs + bins_keys obs"
  using assms
proof (induction obs arbitrary: bs temp)
  case Nil
  then show ?case by simp
next
  case (Cons ob obs)
  define skipped where "skipped = takeWhile (\<lambda>b. bin_k b < bin_k ob) bs"
  define rest where "rest = dropWhile (\<lambda>b. bin_k b < bin_k ob) bs"
  have bs: "bs = skipped @ rest" by (simp add: skipped_def rest_def)
  have d: "drop (length skipped) bs = rest" by (simp add: bs)
  have sk: "\<forall>b\<in>set skipped. bin_k b < bin_k ob" by (auto simp: skipped_def dest: set_takeWhileD)
  have loop: "merge_bins_loop (ob # obs) bs temp =
    (case rest of
        [] \<Rightarrow> merge_bins_loop obs [] (temp @ skipped @ [ob])
      | b # bs' \<Rightarrow>
          if bin_k b > bin_k ob then merge_bins_loop obs (b # bs') (temp @ skipped @ [ob])
          else if bin_k b = bin_k ob then do {
            n \<leftarrow> u64_add (bin_n ob) (bin_n b);
            merge_bins_loop obs bs' (generate_bins (temp @ skipped) (bin_k ob) n)
          }
          else merge_bins_loop obs (b # bs') (temp @ skipped))"
    by (simp add: skipped_def [symmetric] d Let_def append_assoc cong: list.case_cong if_cong)
  have obs_gt: "\<forall>o'\<in>set obs. bin_k ob < bin_k o'" using Cons.prems(2) by simp
  then have skip_lt: "\<forall>b\<in>set skipped. \<forall>o'\<in>set obs. bin_k b < bin_k o'" using sk by fastforce
  show ?case
  proof (cases rest)
    case Nil
    have "\<exists>r. merge_bins_loop obs [] (temp @ skipped @ [ob]) = Some r \<and> bins_ok r \<and>
        bins_keys r = bins_keys (temp @ skipped @ [ob]) + bins_keys [] + bins_keys obs"
      using Cons.prems sk skip_lt unfolding bs Nil by (intro Cons.IH) (auto simp: add.assoc)
    then show ?thesis unfolding loop using Nil by (simp add: bs add.assoc)
  next
    case (Cons b bs')
    have nl: "\<not> bin_k b < bin_k ob" using Cons hd_dropWhile [of "\<lambda>b. bin_k b < bin_k ob" bs] by (simp add: rest_def)
    show ?thesis
    proof (cases "bin_k b = bin_k ob")
      case True
      let ?n = "bin_n ob + bin_n b"
      let ?t = "(temp @ skipped) @ [\<lparr>bin_k = bin_k ob, bin_n = ?n\<rparr>]"
      have sz: "?n \<le> u32_max" using Cons.prems(3) unfolding bs Cons by simp
      then have u: "u64_add (bin_n ob) (bin_n b) = Some ?n" by (simp add: u64_max_def u32_max_def)
      have g: "generate_bins (temp @ skipped) (bin_k ob) ?n = ?t"
        using Cons.prems(2) sz by (intro generate_bins_single) auto
      have "\<exists>r. merge_bins_loop obs bs' ?t = Some r \<and> bins_ok r \<and>
          bins_keys r = bins_keys ?t + bins_keys bs' + bins_keys obs"
        using Cons.prems sk skip_lt obs_gt True unfolding bs Cons
        by (intro Cons.IH) (auto simp: replicate_mset_plus)
      then show ?thesis
        unfolding loop using Cons True u g
        by (simp add: bs replicate_mset_plus add.assoc add.commute add.left_commute)
    next
      case False
      then have gt: "bin_k ob < bin_k b" using nl by simp
      have gt': "\<forall>x\<in>set bs'. bin_k ob < bin_k x" using gt Cons.prems(1) unfolding bs Cons by force
      have "\<exists>r. merge_bins_loop obs (b # bs') (temp @ skipped @ [ob]) = Some r \<and> bins_ok r \<and>
          bins_keys r = bins_keys (temp @ skipped @ [ob]) + bins_keys (b # bs') + bins_keys obs"
        using Cons.prems sk skip_lt gt gt' unfolding bs Cons by (intro Cons.IH) auto
      then show ?thesis
        unfolding loop using Cons gt by (simp add: bs add.assoc add.commute add.left_commute)
    qed
  qed
qed

section \<open>Trimming\<close>

text \<open>With room for \<open>L\<close> bins, keys below the \<open>L\<close>-th largest are raised to it.\<close>

definition top_view :: "nat \<Rightarrow> int multiset \<Rightarrow> int multiset" where
  "top_view L M =
     (let ks = sorted_list_of_set (set_mset M)
      in if L = 0 \<or> length ks \<le> L then M else image_mset (max (ks ! (length ks - L))) M)"

lemma size_top_view [simp]: "size (top_view L M) = size M"
  by (simp add: top_view_def Let_def)

lemma above_sorted_nth:
  assumes "sorted_wrt (<) ks" and "i < length ks"
  shows "{x \<in> set ks. (ks ! i :: int) \<le> x} = set (drop i ks)"
proof
  show "{x \<in> set ks. ks ! i \<le> x} \<subseteq> set (drop i ks)"
  proof
    fix x assume "x \<in> {x \<in> set ks. ks ! i \<le> x}"
    then obtain j where j: "j < length ks" "x = ks ! j" "ks ! i \<le> ks ! j" by (auto simp: in_set_conv_nth)
    then have "i \<le> j" using sorted_wrt_nth_less [OF assms(1), of j i] assms(2) by (meson linorder_not_le)
    then have "drop i ks ! (j - i) = x" "j - i < length (drop i ks)" using j by auto
    then show "x \<in> set (drop i ks)" by (metis nth_mem)
  qed
  show "set (drop i ks) \<subseteq> {x \<in> set ks. ks ! i \<le> x}"
  proof
    fix x assume "x \<in> set (drop i ks)"
    then obtain j where "j < length (drop i ks)" "x = ks ! (i + j)" by (auto simp: in_set_conv_nth)
    then have j: "i + j < length ks" "x = ks ! (i + j)" by simp_all
    then have "ks ! i \<le> x" using sorted_wrt_nth_less [OF assms(1), of i "i + j"] by (cases j) auto
    then show "x \<in> {x \<in> set ks. ks ! i \<le> x}" using j by simp
  qed
qed

lemma kth_largest:
  assumes "finite S" and "0 < L" and "L \<le> card S"
  shows "sorted_list_of_set S ! (card S - L) = g \<longleftrightarrow> g \<in> S \<and> card {x \<in> S. (g :: int) \<le> x} = L"
proof -
  define ks where "ks = sorted_list_of_set S"
  have ks: "sorted_wrt (<) ks" "set ks = S" "length ks = card S" "distinct ks"
    using assms(1) by (simp_all add: ks_def)
  have above: "i < length ks \<Longrightarrow> card {x \<in> S. ks ! i \<le> x} = length ks - i" for i
    using above_sorted_nth [OF ks(1), of i] ks(2,4) distinct_card [of "drop i ks"] by simp
  show ?thesis
  proof
    assume "sorted_list_of_set S ! (card S - L) = g"
    then have g: "ks ! (length ks - L) = g" by (simp add: ks_def ks(3) [unfolded ks_def])
    have i: "length ks - L < length ks" using assms ks(3) by simp
    then have "g \<in> S" using g ks(2) nth_mem by blast
    then show "g \<in> S \<and> card {x \<in> S. g \<le> x} = L" using above [OF i] g assms ks(3) by simp
  next
    assume a: "g \<in> S \<and> card {x \<in> S. g \<le> x} = L"
    then obtain j where j: "j < length ks" "ks ! j = g" using ks(2) by (metis in_set_conv_nth)
    then have "length ks - j = L" using above [OF j(1)] a by simp
    then have "j = card S - L" using j(1) ks(3) by linarith
    then show "sorted_list_of_set S ! (card S - L) = g" using j(2) by (simp add: ks_def)
  qed
qed

lemma image_max_id: "\<forall>k\<in>#M. f \<le> k \<Longrightarrow> image_mset (max (f :: int)) M = M"
  by (induction M) auto

lemma top_view_floor:
  assumes "0 < L" and "L < card (set_mset M)" and "g \<in># M" and "card {x \<in> set_mset M. g \<le> x} = L"
  shows "top_view L M = image_mset (max g) M"
  using assms kth_largest [of "set_mset M" L g] by (simp add: top_view_def Let_def)

lemma top_view_exact: "L = 0 \<or> card (set_mset M) \<le> L \<Longrightarrow> top_view L M = M"
  by (auto simp: top_view_def Let_def)

text \<open>Trimming early loses nothing that trimming late would keep.\<close>

lemma top_view_union: "top_view L (top_view L M + N) = top_view L (M + N)"
proof (cases "L = 0 \<or> card (set_mset M) \<le> L")
  case True
  then show ?thesis by (simp add: top_view_exact)
next
  case False
  define f where "f = sorted_list_of_set (set_mset M) ! (card (set_mset M) - L)"
  have L: "0 < L" using False by simp
  have f: "f \<in># M" "card {x \<in> set_mset M. f \<le> x} = L"
    using kth_largest [of "set_mset M" L f] False by (auto simp: f_def)
  have V: "top_view L M = image_mset (max f) M" using False f by (intro top_view_floor) auto
  define A where "A = {x \<in> set_mset M. f \<le> x} \<union> set_mset N"
  have setV: "set_mset (top_view L M + N) = A"
    using f(1) by (auto simp: V A_def image_iff max_def)
  have finA: "finite A" by (simp add: A_def)
  have B: "set_mset (M + N) = A \<union> {x \<in> set_mset M. x < f}" by (auto simp: A_def)
  show ?thesis
  proof (cases "card A \<le> L")
    case True
    then have "{x \<in> set_mset M. f \<le> x} = A"
      using f(2) finA by (intro card_seteq) (auto simp: A_def)
    then have N: "\<forall>k\<in>#N. f \<le> k" "set_mset N \<subseteq> set_mset M" by (auto simp: A_def)
    have "set_mset (M + N) = set_mset M" using N(2) by auto
    then have "top_view L (M + N) = image_mset (max f) (M + N)"
      using False f by (intro top_view_floor) auto
    moreover have "top_view L (top_view L M + N) = top_view L M + N"
      using True setV by (intro top_view_exact) simp
    ultimately show ?thesis using image_max_id [OF N(1)] V by simp
  next
    case bigA: False
    define g where "g = sorted_list_of_set A ! (card A - L)"
    have g: "g \<in> A" "card {x \<in> A. g \<le> x} = L" using kth_largest [OF finA L, of g] bigA by (auto simp: g_def)
    have "f \<le> g"
    proof (rule ccontr)
      assume "\<not> f \<le> g"
      then have "insert g {x \<in> set_mset M. f \<le> x} \<subseteq> {x \<in> A. g \<le> x}" using g(1) by (auto simp: A_def)
      then have "card (insert g {x \<in> set_mset M. f \<le> x}) \<le> L" using card_mono [of "{x \<in> A. g \<le> x}"] finA g(2) by simp
      then show False using \<open>\<not> f \<le> g\<close> f(2) by simp
    qed
    then have above: "{x \<in> set_mset (M + N). g \<le> x} = {x \<in> A. g \<le> x}" unfolding B by auto
    have "card A \<le> card (set_mset (M + N))" unfolding B by (intro card_mono) (auto simp: A_def)
    moreover have "g \<in># M + N" using g(1) B by blast
    ultimately have "top_view L (M + N) = image_mset (max g) (M + N)"
      using g(2) L bigA above by (intro top_view_floor) simp_all
    moreover have "top_view L (top_view L M + N) = image_mset (max g) (top_view L M + N)"
      using g L bigA setV by (intro top_view_floor) auto
    moreover have "max g (max f k) = max g k" for k using \<open>f \<le> g\<close> by simp
    ultimately show ?thesis by (simp add: V multiset.map_comp comp_def)
  qed
qed

lemma sum_replicated: "image_mset (max k) (bins_keys bs) = replicate_mset (size (bins_keys bs)) k"
  if "\<forall>b\<in>set bs. bin_k b < k"
  using that by (induction bs) (auto simp: replicate_mset_plus)

lemma image_max_above_bins: "\<forall>b\<in>set bs. k < bin_k b \<Longrightarrow> image_mset (max k) (bins_keys bs) = bins_keys bs"
  by (induction bs) auto

lemma keys_of_bins: "bins_ok bins \<Longrightarrow> sorted_list_of_set (set_mset (bins_keys bins)) = map bin_k bins"
proof -
  assume ok: "bins_ok bins"
  then have "sorted (map bin_k bins)" "distinct (map bin_k bins)" by (simp_all add: bins_ok_def strict_sorted_iff)
  then have "sorted_list_of_set (set (map bin_k bins)) = map bin_k bins"
    by (rule sorted_list_of_set.idem_if_sorted_distinct)
  then show ?thesis using set_bins_keys [OF ok] by simp
qed

lemma trim_left_spec:
  assumes ok: "bins_ok bins" and sz: "size (bins_keys bins) \<le> u32_max"
  shows "\<exists>r. trim_left bins L = Some r \<and> bins_ok r \<and> bins_keys r = top_view L (bins_keys bins) \<and>
    (0 < L \<longrightarrow> length r \<le> L)"
proof (cases "L = 0 \<or> length bins \<le> L")
  case True
  then show ?thesis using ok by (auto simp: trim_left_def top_view_def keys_of_bins Let_def)
next
  case False
  define i where "i = length bins - L"
  have i: "i < length bins" using False unfolding i_def by linarith
  define pre where "pre = take i bins"
  define b where "b = bins ! i"
  define post where "post = drop (Suc i) bins"
  have bins: "bins = pre @ b # post" using i by (simp add: pre_def b_def post_def id_take_nth_drop)
  have len: "length pre = i" using i by (simp add: pre_def)
  have sum: "sum_list (map bin_n pre) + bin_n b \<le> u32_max" using sz by (simp add: bins size_bins_keys)
  let ?n = "sum_list (map bin_n pre) + bin_n b"
  let ?r = "b\<lparr>bin_n := ?n\<rparr> # post"
  have "?n \<le> u64_max" using sum by (simp add: u32_max_def u64_max_def)
  then have "sum_u64 0 (map bin_n pre) = Some (sum_list (map bin_n pre))"
      "bin_increment (sum_list (map bin_n pre)) b = Some (b\<lparr>bin_n := ?n\<rparr>, 0)"
    using sum_u64_exact [of 0 "map bin_n pre"] sum by (auto simp: bin_increment_def MAX_BIN_WIDTH_def)
  then have t: "trim_left bins L = Some ?r"
    using False by (simp add: trim_left_def Let_def i_def [symmetric] pre_def [symmetric] b_def [symmetric])
      (simp add: bins len [symmetric])
  have okr: "bins_ok ?r" using ok sum by (auto simp: bins)
  have "map bin_k bins ! (length bins - L) = bin_k b" using i by (simp add: i_def b_def)
  then have "top_view L (bins_keys bins) = image_mset (max (bin_k b)) (bins_keys bins)"
    using False by (simp add: top_view_def keys_of_bins [OF ok])
  also have "\<dots> = bins_keys ?r"
    using ok sum_replicated [of pre "bin_k b"] image_max_above_bins [of post "bin_k b"]
    by (simp add: bins replicate_mset_plus size_bins_keys)
  finally have "bins_keys ?r = top_view L (bins_keys bins)" by simp
  moreover have "length ?r \<le> L" using False by (simp add: post_def i_def)
  ultimately show ?thesis using t okr by (intro exI [of _ ?r]) simp
qed

section \<open>What a sketch has been given\<close>

text \<open>
  A sketch represents the multiset of the keys of its samples, up to \<open>2 ^ 32 - 1\<close> of them, beyond which
  a collapsed bin may overflow.
\<close>

definition agent_rep :: "config \<Rightarrow> agent_sketch \<Rightarrow> int multiset \<Rightarrow> bool" where
  "agent_rep c sk M \<longleftrightarrow>
     bins_ok (ag_bins sk) \<and> bins_keys (ag_bins sk) = top_view (bin_limit c) M \<and> ag_count sk = size M \<and>
     size M \<le> u32_max \<and> (0 < bin_limit c \<longrightarrow> length (ag_bins sk) \<le> bin_limit c)"

lemma agent_rep_default: "agent_rep c agent_default {#}"
  by (simp add: agent_rep_def agent_default_def top_view_def)

lemma agent_rep_clear: "agent_rep c (agent_clear sk) {#}"
  by (simp add: agent_rep_def agent_clear_def top_view_def)

lemma adjust_ok:
  assumes "ag_count sk + n \<le> u64_max"
  shows "\<exists>sk'. adjust_basic_stats v n sk = Some sk' \<and> ag_bins sk' = ag_bins sk \<and> ag_count sk' = ag_count sk + n"
  using assms by (simp add: adjust_basic_stats_def Let_def)

lemma trim_rep:
  assumes "bins_ok bins" and "bins_keys bins = top_view (bin_limit c) M + N" and "size M + size N \<le> u32_max"
    and "ag_count sk = size M + size N"
  shows "\<exists>r. trim_left bins (bin_limit c) = Some r \<and> agent_rep c (sk\<lparr>ag_bins := r\<rparr>) (M + N)"
proof -
  have "size (bins_keys bins) \<le> u32_max" using assms(2,3) by simp
  from trim_left_spec [OF assms(1) this, of "bin_limit c"] show ?thesis
    using assms(2-4) by (auto simp: agent_rep_def top_view_union)
qed

lemma insert_key_counts_rep:
  assumes bins: "bins_ok (ag_bins sk)" "bins_keys (ag_bins sk) = top_view (bin_limit c) M"
    and n: "ag_count sk = size M + size (pairs_mset cs)" "ag_count sk \<le> u32_max" and cs: "counts_ok cs"
  shows "\<exists>sk'. insert_key_counts c cs sk = Some sk' \<and> agent_rep c sk' (M + pairs_mset cs)"
proof -
  obtain t where t: "key_counts_loop (ag_bins sk) cs [] = Some t" "bins_ok t"
      "bins_keys t = top_view (bin_limit c) M + pairs_mset cs"
    using key_counts_loop_spec [of "[]" "ag_bins sk" cs] bins n cs by auto
  then show ?thesis using trim_rep [OF t(2,3), of sk] n by (auto simp: insert_key_counts_def)
qed

lemma insert_keys_rep:
  assumes bins: "bins_ok (ag_bins sk)" "bins_keys (ag_bins sk) = top_view (bin_limit c) M"
    and n: "ag_count sk = size M + length ks" "ag_count sk \<le> u32_max"
  shows "\<exists>sk'. insert_keys c ks sk = Some sk' \<and> agent_rep c sk' (M + mset ks)"
proof -
  have rl: "counts_ok (run_lengths (sort ks))" "pairs_mset (run_lengths (sort ks)) = mset ks"
    using run_lengths_ok [of "sort ks"] by auto
  obtain sk' where "insert_key_counts c (run_lengths (sort ks)) sk = Some sk'"
      "agent_rep c sk' (M + mset ks)"
    using insert_key_counts_rep [OF bins, of "run_lengths (sort ks)"] rl n by auto
  then show ?thesis
    using n by (simp add: insert_keys_def insert_key_counts_def keys_loop_run_lengths)
qed

lemma agent_insert_rep:
  assumes "agent_rep c sk M" and "size M < u32_max"
  shows "\<exists>sk'. agent_insert mt c v sk = Some sk' \<and> agent_rep c sk' (add_mset (config_key mt c v) M)"
proof -
  have rep: "bins_ok (ag_bins sk)" "bins_keys (ag_bins sk) = top_view (bin_limit c) M" "ag_count sk = size M"
    using assms(1) by (auto simp: agent_rep_def)
  obtain s1 where s1: "adjust_basic_stats v 1 sk = Some s1" "ag_bins s1 = ag_bins sk" "ag_count s1 = size M + 1"
    using adjust_ok [of sk 1 v] rep(3) assms(2) by (auto simp: u32_max_def u64_max_def)
  obtain r where r: "insert_scan (config_key mt c v) (ag_bins sk) = Inl r \<and> length r = length (ag_bins sk) \<or>
        insert_scan (config_key mt c v) (ag_bins sk) = Inr r"
      "bins_ok r" "bins_keys r = top_view (bin_limit c) M + {#config_key mt c v#}"
    using insert_scan_spec [OF rep(1), of "config_key mt c v"] rep(2) assms(2) by auto
  obtain t where t: "trim_left r (bin_limit c) = Some t" "agent_rep c (s1\<lparr>ag_bins := t\<rparr>) (M + {#config_key mt c v#})"
    using trim_rep [OF r(2,3), of s1] s1(3) assms(2) by auto
  from r(1) show ?thesis
  proof
    assume fast: "insert_scan (config_key mt c v) (ag_bins sk) = Inl r \<and> length r = length (ag_bins sk)"
    then have "bin_limit c = 0 \<or> length r \<le> bin_limit c" using assms(1) by (auto simp: agent_rep_def)
    then have "t = r" using t(1) by (simp add: trim_left_def)
    then show ?thesis using fast s1 t(2) by (simp add: agent_insert_def)
  next
    assume "insert_scan (config_key mt c v) (ag_bins sk) = Inr r"
    then show ?thesis using s1 t by (simp add: agent_insert_def)
  qed
qed

lemma agent_insert_n_rep:
  assumes "agent_rep c sk M" and "size M + n \<le> u32_max" and "0 < n"
  shows "\<exists>sk'. agent_insert_n mt c v n sk = Some sk' \<and> agent_rep c sk' (M + replicate_mset n (config_key mt c v))"
proof (cases "n = 1")
  case True
  then show ?thesis using agent_insert_rep [OF assms(1), of mt v] assms(2) by (simp add: agent_insert_n_def)
next
  case False
  have rep: "bins_ok (ag_bins sk)" "bins_keys (ag_bins sk) = top_view (bin_limit c) M" "ag_count sk = size M"
    using assms(1) by (auto simp: agent_rep_def)
  obtain s1 where s1: "adjust_basic_stats v n sk = Some s1" "ag_bins s1 = ag_bins sk" "ag_count s1 = size M + n"
    using adjust_ok [of sk n v] rep(3) assms(2) by (auto simp: u32_max_def u64_max_def)
  then show ?thesis
    using False insert_key_counts_rep [of s1 c M "[(config_key mt c v, n)]"] rep(1,2) assms(2,3)
    by (simp add: agent_insert_n_def)
qed

lemma insert_many_loop_spec:
  assumes "ag_count sk + length vs \<le> u64_max"
  shows "\<exists>sk'. insert_many_loop mt c vs ks sk = Some (sk', ks @ map (config_key mt c) vs) \<and> ag_bins sk' = ag_bins sk \<and>
    ag_count sk' = ag_count sk + length vs"
  using assms
proof (induction vs arbitrary: ks sk)
  case (Cons v vs)
  obtain s1 where "adjust_basic_stats v 1 sk = Some s1" "ag_bins s1 = ag_bins sk" "ag_count s1 = ag_count sk + 1"
    using adjust_ok [of sk 1 v] Cons.prems by auto
  then show ?case using Cons.IH [of s1 "ks @ [config_key mt c v]"] Cons.prems by simp
qed simp

lemma agent_insert_many_rep:
  assumes "agent_rep c sk M" and "size M + length vs \<le> u32_max"
  shows "\<exists>sk'. agent_insert_many mt c vs sk = Some sk' \<and> agent_rep c sk' (M + image_mset (config_key mt c) (mset vs))"
proof -
  have rep: "bins_ok (ag_bins sk)" "bins_keys (ag_bins sk) = top_view (bin_limit c) M" "ag_count sk = size M"
    using assms(1) by (auto simp: agent_rep_def)
  obtain s1 where s1: "insert_many_loop mt c vs [] sk = Some (s1, map (config_key mt c) vs)"
      "ag_bins s1 = ag_bins sk" "ag_count s1 = size M + length vs"
    using insert_many_loop_spec [of sk vs mt c "[]"] rep(3) assms(2) by (auto simp: u32_max_def u64_max_def)
  then show ?thesis
    using insert_keys_rep [of s1 c M "map (config_key mt c) vs"] rep(1,2) assms(2) by (simp add: agent_insert_many_def)
qed

lemma merge_summary_ok:
  assumes "ag_count sk + ag_count other \<le> u64_max"
  shows "\<exists>s. merge_summary other sk = Some s \<and> ag_bins s = ag_bins sk \<and> ag_count s = ag_count sk + ag_count other"
  using assms by (simp add: merge_summary_def Let_def)

lemma agent_merge_rep:
  assumes a: "agent_rep c sk M" and b: "agent_rep c other N" and n: "size M + size N \<le> u32_max"
  shows "\<exists>sk'. agent_merge c other sk = Some sk' \<and> agent_rep c sk' (M + N)"
proof -
  have cnt: "ag_count sk = size M" "ag_count other = size N" using a b by (auto simp: agent_rep_def)
  have "size M + size N \<le> u64_max" using n by (simp add: u32_max_def u64_max_def)
  then obtain s1 where s1: "merge_summary other sk = Some s1" "ag_bins s1 = ag_bins sk" "ag_count s1 = size M + size N"
    using merge_summary_ok [of sk other] cnt by auto
  obtain t where t: "merge_bins_loop (ag_bins other) (ag_bins sk) [] = Some t" "bins_ok t"
      "bins_keys t = top_view (bin_limit c) M + top_view (bin_limit c) N"
    using merge_bins_loop_spec [of "[]" "ag_bins sk" "ag_bins other"] a b n by (auto simp: agent_rep_def)
  obtain r where "trim_left t (bin_limit c) = Some r" "agent_rep c (s1\<lparr>ag_bins := r\<rparr>) (M + top_view (bin_limit c) N)"
    using trim_rep [OF t(2,3), of s1] s1(3) n by auto
  moreover have "top_view (bin_limit c) (M + top_view (bin_limit c) N) = top_view (bin_limit c) (M + N)"
    using top_view_union [of "bin_limit c" N M] by (simp add: add.commute)
  ultimately show ?thesis using s1 t(1) by (simp add: agent_merge_def agent_rep_def)
qed

lemma agent_rep_unique: "agent_rep c a M \<Longrightarrow> agent_rep c b M \<Longrightarrow> ag_bins a = ag_bins b"
  by (rule bins_unique) (auto simp: agent_rep_def)

end
