(* ===== verification/Agent_Widths.thy ===== *)
theory Agent_Widths
  imports Agent_Sketch
begin

text \<open>
  The bins of the agent sketch when counts pass 32 bits: a count that does not fit is split over several bins of the
  same key, and trimming stops at the largest count. The lemmas here hold for any number of samples.
\<close>

section \<open>Bins that fit their fields\<close>

definition key_fits :: "int \<Rightarrow> bool" where
  "key_fits k \<longleftrightarrow> -32767 \<le> k \<and> k \<le> 32767"

definition bin_fits :: "bin \<Rightarrow> bool" where
  "bin_fits b \<longleftrightarrow> key_fits (bin_k b) \<and> 0 < bin_n b \<and> bin_n b < 2 ^ 32"

definition bins_fit :: "bin list \<Rightarrow> bool" where
  "bins_fit bins \<longleftrightarrow> sorted (map bin_k bins) \<and> list_all bin_fits bins"

definition bins_total :: "bin list \<Rightarrow> nat" where
  "bins_total bins = sum_list (map bin_n bins)"

lemma bins_fit_simps [simp]:
  "bins_fit []" "bins_fit (b # bs) \<longleftrightarrow> bin_fits b \<and> (\<forall>b'\<in>set bs. bin_k b \<le> bin_k b') \<and> bins_fit bs"
  "bins_fit (as @ bs) \<longleftrightarrow> bins_fit as \<and> bins_fit bs \<and> (\<forall>a\<in>set as. \<forall>b\<in>set bs. bin_k a \<le> bin_k b)"
  by (auto simp: bins_fit_def sorted_append)

lemma bins_total_simps [simp]:
  "bins_total [] = 0" "bins_total (b # bs) = bin_n b + bins_total bs" "bins_total (as @ bs) = bins_total as + bins_total bs"
  by (simp_all add: bins_total_def)

lemma config_key_fits: "key_fits (config_key mt c v)"
  by (auto simp: key_fits_def config_key_def config_key_nonneg_def MAX_KEY_def Let_def)

section \<open>Splitting and trimming\<close>

lemma equal_bins_fit:
  "(\<forall>b\<in>set bs. bin_k b = k \<and> 0 < bin_n b \<and> bin_n b < 2 ^ 32) \<Longrightarrow> key_fits k \<Longrightarrow> bins_fit bs"
  by (induction bs) (auto simp: bin_fits_def)

lemma generate_bins_split:
  assumes "0 < n"
  obtains gs where "generate_bins bins k n = bins @ gs"
    "\<forall>b\<in>set gs. bin_k b = k \<and> 0 < bin_n b \<and> bin_n b < 2 ^ 32" "bins_total gs = n"
proof (cases "n < MAX_BIN_WIDTH")
  case True
  then show ?thesis using assms
    by (intro that [of "[\<lparr>bin_k = k, bin_n = n\<rparr>]"]) (simp_all add: generate_bins_def MAX_BIN_WIDTH_def u32_max_def)
next
  case False
  let ?w = MAX_BIN_WIDTH
  let ?gs = "(if n mod ?w \<noteq> 0 then [\<lparr>bin_k = k, bin_n = n mod ?w\<rparr>] else []) @ replicate (n div ?w) \<lparr>bin_k = k, bin_n = ?w\<rparr>"
  have w: "0 < ?w" "?w < 2 ^ 32" by (simp_all add: MAX_BIN_WIDTH_def u32_max_def)
  then have "n mod ?w < 2 ^ 32" by (meson mod_less_divisor order.strict_trans)
  moreover have "bins_total ?gs = n mod ?w + n div ?w * ?w" by (cases "n mod ?w = 0") (simp_all only: bins_total_def if_True if_False simp_thms list.map map_append map_replicate sum_list_append sum_list.Cons sum_list.Nil sum_list_replicate bin.simps append_Nil add_0 add_0_right of_nat_id not_True_eq_False not_False_eq_True)
  then have "bins_total ?gs = n" by (simp only: mod_div_mult_eq)
  ultimately show ?thesis using False w by (intro that [of ?gs]) (auto simp: generate_bins_def Let_def)
qed

lemma generate_bins_fit:
  assumes "0 < n" "key_fits k" "bins_fit bins" "\<forall>b\<in>set bins. bin_k b \<le> k"
  shows "bins_fit (generate_bins bins k n) \<and> (\<forall>b\<in>set (generate_bins bins k n). bin_k b \<le> k) \<and>
    bins_total (generate_bins bins k n) = bins_total bins + n"
proof -
  obtain gs where gs: "generate_bins bins k n = bins @ gs"
      "\<forall>b\<in>set gs. bin_k b = k \<and> 0 < bin_n b \<and> bin_n b < 2 ^ 32" "bins_total gs = n"
    using assms(1) by (rule generate_bins_split)
  then show ?thesis using assms(3,4) equal_bins_fit [OF gs(2) assms(2)] by auto
qed

lemma sum_u64_value: "sum_u64 acc xs = Some s \<Longrightarrow> s = acc + sum_list xs"
  by (induction xs arbitrary: acc) (fastforce simp: u64_add_Some split: bind_splits)+

lemma trim_left_fit:
  assumes "trim_left bins limit = Some r" "bins_fit bins"
  shows "bins_fit r \<and> bins_total r \<le> bins_total bins \<and> (0 < limit \<longrightarrow> length r \<le> limit)"
proof (cases "limit = 0 \<or> length bins \<le> limit")
  case True
  then show ?thesis using assms by (auto simp: trim_left_def)
next
  case False
  define k where "k = length bins - limit"
  have k: "k < length bins" using False by (auto simp: k_def)
  define b where "b = bins ! k"
  have parts: "bins = take k bins @ b # drop (Suc k) bins" using k by (simp add: b_def id_take_nth_drop)
  have fit: "bins_fit (take k bins @ b # drop (Suc k) bins)" using assms(2) parts by simp
  obtain missing b' rest where m: "sum_u64 0 (map bin_n (take k bins)) = Some missing" "bin_increment missing b = Some (b', rest)"
      "r = drop k (bins[k := b'])"
    using assms(1) False by (auto simp: trim_left_def k_def b_def Let_def split: bind_splits prod.splits)
  have "missing = bins_total (take k bins)" using sum_u64_value [OF m(1)] by (simp add: bins_total_def)
  moreover have "bin_k b' = bin_k b" "0 < bin_n b'" "bin_n b' < 2 ^ 32" "bin_n b' \<le> missing + bin_n b"
    using m(2) fit by (auto simp: bin_increment_def bin_fits_def MAX_BIN_WIDTH_def u32_max_def u64_add_Some split: bind_splits if_splits)
  moreover have "r = b' # drop (Suc k) bins"
    unfolding m(3) using k by (simp add: upd_conv_take_nth_drop)
  moreover have "bins_total bins = bins_total (take k bins) + bin_n b + bins_total (drop (Suc k) bins)"
    by (subst parts) simp
  ultimately show ?thesis using fit k False by (auto simp: bin_fits_def k_def)
qed

section \<open>The loops\<close>

lemma insert_scan_fit:
  "bins_fit bs \<Longrightarrow> key_fits key \<Longrightarrow> insert_scan key bs = Inl r \<or> insert_scan key bs = Inr r \<Longrightarrow>
   bins_fit r \<and> bins_total r = Suc (bins_total bs) \<and> bin_k ` set r \<subseteq> insert key (bin_k ` set bs) \<and>
   (insert_scan key bs = Inl r \<longrightarrow> length r = length bs)"
proof (induction bs arbitrary: r)
  case Nil
  then show ?case by (auto simp: bin_fits_def)
next
  case (Cons b bs)
  show ?case
  proof (cases "key \<le> bin_k b")
    case True
    then have above: "\<forall>b'\<in>set bs. key \<le> bin_k b'" using Cons.prems(1) by auto
    have fits: "bin_fits b" "\<forall>b'\<in>set bs. bin_k b \<le> bin_k b'" "bins_fit bs" using Cons.prems(1) by simp_all
    show ?thesis
    proof (cases "bin_k b = key \<and> bin_n b < MAX_BIN_WIDTH")
      case True
      then have "insert_scan key (b # bs) = Inl (b\<lparr>bin_n := bin_n b + 1\<rparr> # bs)" by simp
      moreover have "bin_fits (b\<lparr>bin_n := bin_n b + 1\<rparr>)" using True fits(1) by (simp add: bin_fits_def MAX_BIN_WIDTH_def u32_max_def)
      ultimately show ?thesis using Cons.prems(3) fits(2,3) True by auto
    next
      case False
      then have "insert_scan key (b # bs) = Inr (\<lparr>bin_k = key, bin_n = 1\<rparr> # b # bs)" using True by auto
      moreover have "bin_fits \<lparr>bin_k = key, bin_n = 1\<rparr>" using Cons.prems(2) by (simp add: bin_fits_def)
      ultimately show ?thesis using Cons.prems(3) fits above True by auto
    qed
  next
    case False
    then obtain r' where r': "insert_scan key bs = Inl r' \<or> insert_scan key bs = Inr r'" "r = b # r'"
        "insert_scan key (b # bs) = Inl r \<longrightarrow> insert_scan key bs = Inl r'"
      using Cons.prems(3) by (cases "insert_scan key bs") auto
    have ih: "bins_fit r'" "bins_total r' = Suc (bins_total bs)" "bin_k ` set r' \<subseteq> insert key (bin_k ` set bs)"
        "insert_scan key bs = Inl r' \<longrightarrow> length r' = length bs"
      using Cons.IH [of r'] Cons.prems(1,2) r'(1) by auto
    have "\<forall>b'\<in>set r'. bin_k b \<le> bin_k b'" using ih(3) Cons.prems(1) False by fastforce
    then show ?thesis using ih r' Cons.prems(1) by auto
  qed
qed

definition counts_fit :: "(int \<times> nat) list \<Rightarrow> bool" where
  "counts_fit cs \<longleftrightarrow> sorted (map fst cs) \<and> (\<forall>(k, n)\<in>set cs. key_fits k \<and> 0 < n)"

lemma counts_fit_simps [simp]:
  "counts_fit []" "counts_fit ((k, n) # cs) \<longleftrightarrow> key_fits k \<and> 0 < n \<and> (\<forall>(k', _)\<in>set cs. k \<le> k') \<and> counts_fit cs"
  by (auto simp: counts_fit_def)

text \<open>The new bins so far come before everything that is still to be consumed.\<close>

definition leads :: "bin list \<Rightarrow> bin list \<Rightarrow> (int \<times> nat) list \<Rightarrow> bool" where
  "leads temp bs cs \<longleftrightarrow> (\<forall>t\<in>set temp. (\<forall>b\<in>set bs. bin_k t \<le> bin_k b) \<and> (\<forall>(k, _)\<in>set cs. bin_k t \<le> k))"

lemma leads_le: "\<forall>t\<in>set temp. bin_k t \<le> k \<Longrightarrow> \<forall>b\<in>set bs. k \<le> bin_k b \<Longrightarrow> \<forall>(k', _)\<in>set cs. k \<le> k' \<Longrightarrow> leads temp bs cs"
  by (fastforce simp: leads_def)

lemma generate_leads:
  assumes "0 < n" "key_fits k" "bins_fit temp" "\<forall>t\<in>set temp. bin_k t \<le> k" "\<forall>b\<in>set bs. k \<le> bin_k b" "\<forall>(k', _)\<in>set cs. k \<le> k'"
  shows "bins_fit (generate_bins temp k n)" "leads (generate_bins temp k n) bs cs"
    "bins_total (generate_bins temp k n) = bins_total temp + n"
  using generate_bins_fit [OF assms(1-4)] leads_le [OF _ assms(5,6)] by auto

lemma key_counts_loop_fit:
  assumes "key_counts_loop bs cs temp = Some r" "bins_fit temp" "bins_fit bs" "counts_fit cs" "leads temp bs cs"
  shows "bins_fit r \<and> bins_total r = bins_total temp + bins_total bs + sum_list (map snd cs)"
  using assms
proof (induction bs cs temp rule: key_counts_loop.induct)
  case (1 b bs vk kn cs temp)
  have lead: "\<forall>t\<in>set temp. bin_k t \<le> bin_k b" "\<forall>t\<in>set temp. bin_k t \<le> vk" using "1.prems"(5) by (auto simp: leads_def)
  have fits: "bin_fits b" "\<forall>b'\<in>set bs. bin_k b \<le> bin_k b'" "bins_fit bs"
      "0 < kn" "key_fits vk" "\<forall>(k', _)\<in>set cs. vk \<le> k'" "counts_fit cs"
    using "1.prems"(3,4) by simp_all
  consider "vk < bin_k b" | "bin_k b < vk" | "bin_k b = vk" by linarith
  then show ?case
  proof cases
    case 1
    have "\<forall>b'\<in>set (b # bs). vk \<le> bin_k b'" using 1 fits(2) by auto
    note g = generate_leads [OF fits(4,5) "1.prems"(2) lead(2) this fits(6)]
    show ?thesis using 1 "1.IH"(1) [OF 1 _ g(1) "1.prems"(3) fits(7) g(2)] "1.prems"(1) g(3) by simp
  next
    case 2
    then have "\<forall>(k', _)\<in>set ((vk, kn) # cs). bin_k b \<le> k'" using fits(6) by auto
    then have "leads (temp @ [b]) bs ((vk, kn) # cs)" using lead(1) fits(2) by (intro leads_le [of _ "bin_k b"]) auto
    moreover have "bins_fit (temp @ [b])" using "1.prems"(2) fits(1) lead(1) by simp
    moreover have "\<not> bin_k b > vk" using 2 by simp
    ultimately show ?thesis using 2 "1.IH"(2) [OF _ 2 _ _ fits(3) "1.prems"(4)] "1.prems"(1) by simp
  next
    case 3
    then obtain n where n: "n = bin_n b + kn" "key_counts_loop bs cs (generate_bins temp (bin_k b) n) = Some r"
        "u64_add (bin_n b) kn = Some n"
      using "1.prems"(1) by (auto simp: u64_add_Some split: bind_splits)
    have "0 < n" "key_fits (bin_k b)" "\<forall>(k', _)\<in>set cs. bin_k b \<le> k'" using n(1) 3 fits(4-6) by simp_all
    note g = generate_leads [OF this(1,2) "1.prems"(2) lead(1) fits(2) this(3)]
    have "\<not> vk < bin_k b" "\<not> bin_k b < vk" using 3 by simp_all
    from "1.IH"(3) [OF this n(3,2) g(1) fits(3,7) g(2)] show ?thesis using g(3) n(1) by simp
  qed
next
  case (2 vk kn cs temp)
  have lead: "\<forall>t\<in>set temp. bin_k t \<le> vk" using "2.prems"(5) by (auto simp: leads_def)
  have fits: "0 < kn" "key_fits vk" "\<forall>(k', _)\<in>set cs. vk \<le> k'" "counts_fit cs" "\<forall>b\<in>set []. vk \<le> bin_k b"
    using "2.prems"(4) by simp_all
  note g = generate_leads [OF fits(1,2) "2.prems"(2) lead fits(5,3)]
  show ?case using "2.IH" [OF _ g(1) _ fits(4) g(2)] "2.prems"(1) g(3) by simp
next
  case (3 bs temp)
  then show ?case by (auto simp: leads_def)
qed

lemma merge_bins_loop_fit:
  assumes "merge_bins_loop obs bs temp = Some r" "bins_fit temp" "bins_fit bs" "bins_fit obs"
    "\<forall>t\<in>set temp. \<forall>b\<in>set bs \<union> set obs. bin_k t \<le> bin_k b"
  shows "bins_fit r \<and> bins_total r = bins_total temp + bins_total bs + bins_total obs"
  using assms
proof (induction obs bs temp rule: merge_bins_loop.induct)
  case (2 ob obs bs temp)
  define skipped where "skipped = takeWhile (\<lambda>b. bin_k b < bin_k ob) bs"
  define temp1 where "temp1 = temp @ skipped"
  define rest where "rest = drop (length skipped) bs"
  have "rest = dropWhile (\<lambda>b. bin_k b < bin_k ob) bs" by (simp add: rest_def skipped_def dropWhile_eq_drop)
  then have bs: "bs = skipped @ rest" and rest0: "rest = [] \<or> bin_k ob \<le> bin_k (hd rest)"
    using hd_dropWhile [of "\<lambda>b. bin_k b < bin_k ob" bs] by (auto simp: skipped_def not_less simp del: dropWhile_eq_Nil_conv)
  have below: "\<forall>t\<in>set skipped. bin_k t < bin_k ob" unfolding skipped_def by (auto dest: set_takeWhileD)
  have fits: "bins_fit skipped" "bins_fit rest" "bins_fit obs" "bin_fits ob" "\<forall>b\<in>set obs. bin_k ob \<le> bin_k b"
    using "2.prems"(3,4) by (auto simp: bs)
  have rest: "\<forall>b\<in>set rest. bin_k ob \<le> bin_k b" using rest0 fits(2) by (cases rest) auto
  have temp1: "bins_fit temp1" "\<forall>t\<in>set temp1. bin_k t \<le> bin_k ob"
    using "2.prems"(2,5) fits(1) below by (auto simp: temp1_def bs)
  have sums: "bins_total temp1 + bins_total rest = bins_total temp + bins_total bs" by (simp add: temp1_def bs)
  note IH = "2.IH" [OF refl refl, folded skipped_def, folded temp1_def rest_def]
  have loop: "(case rest of [] \<Rightarrow> merge_bins_loop obs [] (temp1 @ [ob])
     | b # bs' \<Rightarrow> if bin_k b > bin_k ob then merge_bins_loop obs (b # bs') (temp1 @ [ob])
       else if bin_k b = bin_k ob then do { n \<leftarrow> u64_add (bin_n ob) (bin_n b); merge_bins_loop obs bs' (generate_bins temp1 (bin_k ob) n) }
       else merge_bins_loop obs (b # bs') temp1) = Some r"
    using "2.prems"(1) unfolding temp1_def by (simp add: skipped_def [symmetric] rest_def [symmetric] Let_def)
  show ?case
  proof (cases "rest = [] \<or> bin_k ob < bin_k (hd rest)")
    case True
    have eq: "merge_bins_loop obs rest (temp1 @ [ob]) = Some r" using loop True by (cases rest) auto
    have "bins_fit (temp1 @ [ob])" "\<forall>t\<in>set (temp1 @ [ob]). \<forall>b\<in>set rest \<union> set obs. bin_k t \<le> bin_k b"
      using temp1 fits rest by (auto intro: order.trans)
    then have "bins_fit r \<and> bins_total r = bins_total (temp1 @ [ob]) + bins_total rest + bins_total obs"
      using IH(1,2) True eq fits(2,3) by (cases rest) auto
    then show ?thesis using sums by simp
  next
    case False
    then obtain b bs' where b: "rest = b # bs'" "bin_k b = bin_k ob" using rest0 by (cases rest) auto
    then obtain n where n: "u64_add (bin_n ob) (bin_n b) = Some n" "merge_bins_loop obs bs' (generate_bins temp1 (bin_k ob) n) = Some r"
      using loop by (auto split: bind_splits)
    have "n = bin_n ob + bin_n b" using n(1) by (simp add: u64_add_Some)
    moreover have "0 < bin_n ob" "key_fits (bin_k ob)" using fits(4) by (simp_all add: bin_fits_def)
    ultimately have g: "bins_fit (generate_bins temp1 (bin_k ob) n)" "\<forall>t\<in>set (generate_bins temp1 (bin_k ob) n). bin_k t \<le> bin_k ob"
        "bins_total (generate_bins temp1 (bin_k ob) n) = bins_total temp1 + bin_n ob + bin_n b"
      using generate_bins_fit [OF _ _ temp1, of n] by auto
    have "\<forall>t\<in>set (generate_bins temp1 (bin_k ob) n). \<forall>b\<in>set bs' \<union> set obs. bin_k t \<le> bin_k b"
      using g(2) rest fits(5) b by (auto intro: order.trans)
    then have "bins_fit r \<and> bins_total r = bins_total (generate_bins temp1 (bin_k ob) n) + bins_total bs' + bins_total obs"
      using IH(3) [OF b(1) _ b(2) n(1,2)] g(1) fits(2,3) b by auto
    then show ?thesis using sums g(3) b(1) by simp
  qed
qed auto

end
