(* ===== verification/Float_Order.thy ===== *)
theory Float_Order
  imports Float64
begin

text \<open>
  The order of the floating-point values: comparisons at any common exponent, transitivity, and
  totality away from NaN.
\<close>

lemma align_exp_scale: "e \<le> e' \<Longrightarrow> e' \<le> e1 \<Longrightarrow> align_exp e s m e1 = align_exp e' s m e1 * 2 ^ nat (e' - e)"
proof -
  assume "e \<le> e'" "e' \<le> e1"
  then have "nat (e1 - e) = nat (e1 - e') + nat (e' - e)" by simp
  then show ?thesis by (simp add: align_exp_def power_add)
qed

lemma f64_lt_at:
  "e \<le> e1 \<Longrightarrow> e \<le> e2 \<Longrightarrow>
   f64_lt (F64_Fin s1 m1 e1) (F64_Fin s2 m2 e2) \<longleftrightarrow> align_exp e s1 m1 e1 < align_exp e s2 m2 e2"
  using align_exp_scale [of e "min e1 e2" e1 s1 m1] align_exp_scale [of e "min e1 e2" e2 s2 m2] by (simp add: Let_def)

lemma f64_eq_at:
  "e \<le> e1 \<Longrightarrow> e \<le> e2 \<Longrightarrow>
   f64_eq (F64_Fin s1 m1 e1) (F64_Fin s2 m2 e2) \<longleftrightarrow> align_exp e s1 m1 e1 = align_exp e s2 m2 e2"
  using align_exp_scale [of e "min e1 e2" e1 s1 m1] align_exp_scale [of e "min e1 e2" e2 s2 m2] by (simp add: Let_def)

lemma f64_le_at:
  "e \<le> e1 \<Longrightarrow> e \<le> e2 \<Longrightarrow>
   f64_le (F64_Fin s1 m1 e1) (F64_Fin s2 m2 e2) \<longleftrightarrow> align_exp e s1 m1 e1 \<le> align_exp e s2 m2 e2"
  by (simp add: f64_le_def f64_lt_at [of e] f64_eq_at [of e] le_less del: f64_lt.simps f64_eq.simps)

lemma f64_le_refl: "x \<noteq> F64_NaN \<Longrightarrow> f64_le x x"
  by (cases x) (auto simp: f64_le_def)

lemma f64_not_lt: "x \<noteq> F64_NaN \<Longrightarrow> y \<noteq> F64_NaN \<Longrightarrow> \<not> f64_lt x y \<longleftrightarrow> f64_le y x"
proof (cases x; cases y)
  fix s1 m1 e1 s2 m2 e2
  assume "x = F64_Fin s1 m1 e1" "y = F64_Fin s2 m2 e2"
  then show ?thesis
    by (simp add: f64_lt_at [of "min e1 e2"] f64_le_at [of "min e1 e2"] not_less del: f64_lt.simps)
qed (auto simp: f64_le_def)

lemma f64_le_trans: "f64_le x y \<Longrightarrow> f64_le y z \<Longrightarrow> f64_le x z"
proof (cases x; cases y; cases z)
  fix s1 m1 e1 s2 m2 e2 s3 m3 e3
  assume le: "f64_le x y" "f64_le y z"
    and v: "x = F64_Fin s1 m1 e1" "y = F64_Fin s2 m2 e2" "z = F64_Fin s3 m3 e3"
  define e where "e = min e1 (min e2 e3)"
  have "e \<le> e1" "e \<le> e2" "e \<le> e3" by (auto simp: e_def)
  then show ?thesis using le by (simp add: v f64_le_at [of e])
qed (auto simp: f64_le_def)

lemma f64_lt_imp_le: "f64_lt x y \<Longrightarrow> f64_le x y"
  by (simp add: f64_le_def)

lemma f64_le_not_nan: "f64_le x y \<Longrightarrow> x \<noteq> F64_NaN \<and> y \<noteq> F64_NaN"
  by (cases x; cases y) (auto simp: f64_le_def)

lemma f64_pick_min:
  "x \<noteq> F64_NaN \<Longrightarrow> y \<noteq> F64_NaN \<Longrightarrow>
   f64_le (if f64_lt y x then y else x) x \<and> f64_le (if f64_lt y x then y else x) y"
  using f64_not_lt [of y x] f64_le_refl [of x] f64_le_refl [of y] f64_lt_imp_le [of y x] by simp

lemma f64_pick_max:
  "x \<noteq> F64_NaN \<Longrightarrow> y \<noteq> F64_NaN \<Longrightarrow>
   f64_le x (if f64_lt x y then y else x) \<and> f64_le y (if f64_lt x y then y else x)"
  using f64_not_lt [of x y] f64_le_refl [of x] f64_le_refl [of y] f64_lt_imp_le [of x y] by simp

lemma f64_clamp_bounds:
  assumes "f64_clamp lo hi x = Some y" and "x \<noteq> F64_NaN"
  shows "f64_le lo y \<and> f64_le y hi"
proof -
  have le: "f64_le lo hi" using assms(1) by (auto simp: f64_clamp_def split: if_splits)
  note nn = f64_le_not_nan [OF le]
  define z where "z = (if f64_lt x lo then lo else x)"
  have z: "z \<noteq> F64_NaN" "f64_le lo z" using assms(2) nn f64_not_lt f64_le_refl by (auto simp: z_def)
  have "y = (if f64_lt hi z then hi else z)" using assms(1) le by (simp add: f64_clamp_def z_def [symmetric] Let_def)
  then show ?thesis using z le nn f64_not_lt f64_le_refl by auto
qed

text \<open>Finite values lie between the two extremes.\<close>

lemma f64_finite_bounds:
  assumes "f64_valid v" and "f64_is_finite v"
  shows "f64_le v f64_MAX \<and> f64_le f64_MIN v"
proof (cases v)
  case (F64_Fin s m e)
  then have m: "m \<le> 2 ^ 53 - 1" and e: "e \<le> 971" using assms(1) by auto
  have "int m * 1 \<le> (2 ^ 53 - 1) * 2 ^ nat (971 - e)" using m by (intro mult_mono) auto
  then have "align_exp e s m e \<le> align_exp e False (2 ^ 53 - 1) 971"
      "align_exp e True (2 ^ 53 - 1) 971 \<le> align_exp e s m e"
    by (auto simp: align_exp_def f64_signed_def)
  then show ?thesis
    using e by (simp add: F64_Fin f64_MAX_def f64_MIN_def f64_le_at [of e] del: f64_lt.simps f64_eq.simps)
qed (use assms in auto)

end
