(* ===== verification/Agent_Properties.thy ===== *)
theory Agent_Properties
  imports Agent_Bins Agent_Widths Float_Order
begin

text \<open>
  The properties of the agent sketch: what its bins and its summary say about the samples, for every
  sketch that the operations can build; quantiles; histogram buckets; the message form.
\<close>

section \<open>Summary statistics\<close>

definition sample_ok :: "f64 \<Rightarrow> bool" where
  "sample_ok v \<longleftrightarrow> f64_valid v \<and> f64_is_finite v"

lemma sample_not_nan: "sample_ok v \<Longrightarrow> v \<noteq> F64_NaN"
  by (auto simp: sample_ok_def)

definition agent_stats :: "agent_sketch \<Rightarrow> f64 multiset \<Rightarrow> bool" where
  "agent_stats sk V \<longleftrightarrow>
     ag_count sk = size V \<and> (\<forall>v\<in>#V. sample_ok v) \<and>
     (if V = {#} then ag_min sk = f64_MAX \<and> ag_max sk = f64_MIN
      else ag_min sk \<in># V \<and> ag_max sk \<in># V \<and> (\<forall>v\<in>#V. f64_le (ag_min sk) v \<and> f64_le v (ag_max sk)))"

lemma extreme_eq:
  assumes "sample_ok v"
  shows "\<not> f64_lt v f64_MAX \<Longrightarrow> v = f64_MAX" "\<not> f64_lt f64_MIN v \<Longrightarrow> v = f64_MIN"
proof -
  obtain s m e where v: "v = F64_Fin s m e" and val: "m < 2 ^ 53" "e \<le> 971"
    using assms by (cases v) (auto simp: sample_ok_def)
  have strict: "e < 971 \<Longrightarrow> int m < (2 ^ 53 - 1) * 2 ^ nat (971 - e)"
  proof -
    assume "e < 971"
    then have "2 \<le> (2 :: int) ^ nat (971 - e)" using self_le_power [of "2 :: int" "nat (971 - e)"] by simp
    then have "(2 ^ 53 - 1 :: int) * 2 \<le> (2 ^ 53 - 1) * 2 ^ nat (971 - e)" by (intro mult_left_mono) auto
    moreover have "int m < (2 ^ 53 - 1) * 2" using val(1) by simp
    ultimately show ?thesis by linarith
  qed
  show "v = f64_MAX" if "\<not> f64_lt v f64_MAX"
  proof -
    have le: "\<not> align_exp e s m e < align_exp e False (2 ^ 53 - 1) 971"
      using that val(2) by (simp add: v f64_MAX_def f64_lt_at [of e] del: f64_lt.simps)
    have "\<not> s"
    proof
      assume s
      then have "align_exp e s m e \<le> 0" by (simp add: align_exp_def f64_signed_def)
      moreover have "0 < align_exp e False (2 ^ 53 - 1) 971" by (simp add: align_exp_def f64_signed_def)
      ultimately show False using le by linarith
    qed
    then have "\<not> int m < (2 ^ 53 - 1) * 2 ^ nat (971 - e)" using le by (simp add: align_exp_def f64_signed_def)
    then have "e = 971" "m = 2 ^ 53 - 1" using strict val by (cases "e < 971"; simp)+
    then show ?thesis using \<open>\<not> s\<close> by (simp add: v f64_MAX_def)
  qed
  show "v = f64_MIN" if "\<not> f64_lt f64_MIN v"
  proof -
    have le: "\<not> align_exp e True (2 ^ 53 - 1) 971 < align_exp e s m e"
      using that val(2) by (simp add: v f64_MIN_def f64_lt_at [of e] del: f64_lt.simps)
    have s
    proof (rule ccontr)
      assume "\<not> s"
      then have "0 \<le> align_exp e s m e" by (simp add: align_exp_def f64_signed_def)
      moreover have "align_exp e True (2 ^ 53 - 1) 971 < 0" by (simp add: align_exp_def f64_signed_def)
      ultimately show False using le by linarith
    qed
    then have "\<not> int m < (2 ^ 53 - 1) * 2 ^ nat (971 - e)" using le by (simp add: align_exp_def f64_signed_def)
    then have "e = 971" "m = 2 ^ 53 - 1" using strict val by (cases "e < 971"; simp)+
    then show ?thesis using \<open>s\<close> by (simp add: v f64_MIN_def)
  qed
qed

text \<open>The new minimum and maximum that a sample or another sketch leaves.\<close>

lemma stats_union:
  assumes a: "agent_stats a V" "V \<noteq> {#}" and b: "agent_stats b W" "W \<noteq> {#}"
    and c: "ag_count c = size V + size W"
      "ag_min c = (if f64_lt (ag_min b) (ag_min a) then ag_min b else ag_min a)"
      "ag_max c = (if f64_lt (ag_max a) (ag_max b) then ag_max b else ag_max a)"
  shows "agent_stats c (V + W)"
proof -
  have ok: "sample_ok (ag_min a)" "sample_ok (ag_min b)" "sample_ok (ag_max a)" "sample_ok (ag_max b)"
    using a b by (auto simp: agent_stats_def)
  note nn = ok [THEN sample_not_nan]
  have mn: "f64_le (ag_min c) (ag_min a)" "f64_le (ag_min c) (ag_min b)"
    using f64_pick_min [OF nn(1,2)] by (simp_all only: c(2))
  have mx: "f64_le (ag_max a) (ag_max c)" "f64_le (ag_max b) (ag_max c)"
    using f64_pick_max [OF nn(3,4)] by (simp_all only: c(3))
  have "f64_le (ag_min c) v \<and> f64_le v (ag_max c)" if "v \<in># V + W" for v
  proof (cases "v \<in># V")
    case True
    then have "f64_le (ag_min a) v" "f64_le v (ag_max a)" using a by (auto simp: agent_stats_def)
    then show ?thesis using f64_le_trans [OF mn(1)] f64_le_trans [OF _ mx(1)] by blast
  next
    case False
    then have "f64_le (ag_min b) v" "f64_le v (ag_max b)" using that b by (auto simp: agent_stats_def)
    then show ?thesis using f64_le_trans [OF mn(2)] f64_le_trans [OF _ mx(2)] by blast
  qed
  moreover have "ag_min c \<in># V + W" "ag_max c \<in># V + W" using a b c by (auto simp: agent_stats_def)
  ultimately show ?thesis using a b c(1) by (auto simp: agent_stats_def)
qed

lemma stats_first:
  assumes "sample_ok v" and "0 < n" and "ag_count c = n"
    and "ag_min c = (if f64_lt v f64_MAX then v else f64_MAX)" and "ag_max c = (if f64_lt f64_MIN v then v else f64_MIN)"
  shows "agent_stats c (replicate_mset n v)"
proof -
  have "ag_min c = v" "ag_max c = v" using assms(4,5) extreme_eq [OF assms(1)] by auto
  moreover have "f64_le v v" using sample_not_nan [OF assms(1)] by (rule f64_le_refl)
  ultimately show ?thesis using assms(1-3) by (simp add: agent_stats_def)
qed

lemma adjust_stats:
  assumes "agent_stats sk V" and "sample_ok v" and "0 < n" and "adjust_basic_stats v n sk = Some sk'"
  shows "agent_stats sk' (V + replicate_mset n v)"
proof -
  have sk': "ag_count sk' = ag_count sk + n" "ag_min sk' = (if f64_lt v (ag_min sk) then v else ag_min sk)"
      "ag_max sk' = (if f64_lt (ag_max sk) v then v else ag_max sk)"
    using assms(4) by (auto simp: adjust_basic_stats_def Let_def u64_add_Some split: bind_splits)
  show ?thesis
  proof (cases "V = {#}")
    case True
    then have "ag_count sk = 0" "ag_min sk = f64_MAX" "ag_max sk = f64_MIN" using assms(1) by (auto simp: agent_stats_def)
    then show ?thesis using stats_first [OF assms(2,3), of sk'] sk' True by simp
  next
    case False
    define b where "b = agent_default\<lparr>ag_count := n, ag_min := v, ag_max := v\<rparr>"
    have "f64_le v v" using sample_not_nan [OF assms(2)] by (rule f64_le_refl)
    then have "agent_stats b (replicate_mset n v)" using assms(2,3) by (simp add: agent_stats_def b_def)
    moreover have "ag_count sk = size V" using assms(1) by (simp add: agent_stats_def)
    moreover have "ag_min b = v" "ag_max b = v" by (simp_all add: b_def)
    ultimately show ?thesis
      using stats_union [OF assms(1) False, of b "replicate_mset n v" sk'] assms(3) sk' by simp
  qed
qed

lemma agent_stats_bins [simp]: "agent_stats (sk\<lparr>ag_bins := bs\<rparr>) V = agent_stats sk V"
  by (simp add: agent_stats_def)

lemma insert_stats:
  assumes "agent_stats sk V" and "sample_ok v" and "agent_insert mt c v sk = Some sk'"
  shows "agent_stats sk' (add_mset v V)"
proof -
  obtain s1 bs where "adjust_basic_stats v 1 sk = Some s1" "sk' = s1\<lparr>ag_bins := bs\<rparr>"
    using assms(3) by (auto simp: agent_insert_def Let_def split: bind_splits sum.splits)
  then show ?thesis using adjust_stats [OF assms(1,2), of 1 s1] by simp
qed

lemma insert_n_stats:
  assumes "agent_stats sk V" and "sample_ok v" and "0 < n" and "agent_insert_n mt c v n sk = Some sk'"
  shows "agent_stats sk' (V + replicate_mset n v)"
proof (cases "n = 1")
  case True
  then show ?thesis using insert_stats [OF assms(1,2), of mt c sk'] assms(4) by (simp add: agent_insert_n_def)
next
  case False
  then obtain s1 bs where "adjust_basic_stats v n sk = Some s1" "sk' = s1\<lparr>ag_bins := bs\<rparr>"
    using assms(4) by (auto simp: agent_insert_n_def insert_key_counts_def split: bind_splits)
  then show ?thesis using adjust_stats [OF assms(1-3), of s1] by simp
qed

lemma insert_many_loop_stats:
  assumes "agent_stats sk V" and "\<forall>v\<in>set vs. sample_ok v" and "insert_many_loop mt c vs ks sk = Some (sk', ks')"
  shows "agent_stats sk' (V + mset vs)"
  using assms
proof (induction vs arbitrary: sk V ks)
  case (Cons v vs)
  obtain s1 where "adjust_basic_stats v 1 sk = Some s1"
      "insert_many_loop mt c vs (ks @ [config_key mt c v]) s1 = Some (sk', ks')"
    using Cons.prems(3) by (auto split: bind_splits)
  then show ?case
    using Cons.IH [of s1 "add_mset v V"] adjust_stats [OF Cons.prems(1), of v 1 s1] Cons.prems(2) by simp
qed simp

lemma insert_many_stats:
  assumes "agent_stats sk V" and "\<forall>v\<in>set vs. sample_ok v" and "agent_insert_many mt c vs sk = Some sk'"
  shows "agent_stats sk' (V + mset vs)"
proof -
  obtain s1 ks bs where "insert_many_loop mt c vs [] sk = Some (s1, ks)" "sk' = s1\<lparr>ag_bins := bs\<rparr>"
    using assms(3) by (auto simp: agent_insert_many_def insert_keys_def split: bind_splits if_splits)
  then show ?thesis using insert_many_loop_stats [OF assms(1,2)] by simp
qed

lemma merge_stats:
  assumes "agent_stats sk V" and "agent_stats other W" and "agent_merge c other sk = Some sk'"
  shows "agent_stats sk' (V + W)"
proof -
  obtain s1 bs where s1: "merge_summary other sk = Some s1" "sk' = s1\<lparr>ag_bins := bs\<rparr>"
    using assms(3) by (auto simp: agent_merge_def split: bind_splits)
  consider "V = {#}" | "V \<noteq> {#}" "W = {#}" | "V \<noteq> {#}" "W \<noteq> {#}" by blast
  then have "agent_stats s1 (V + W)"
  proof cases
    case 1
    then show ?thesis using s1(1) assms(1,2) by (auto simp: merge_summary_def agent_stats_def)
  next
    case 2
    then show ?thesis using s1(1) assms(1,2) by (auto simp: merge_summary_def agent_stats_def)
  next
    case 3
    then have "ag_count s1 = size V + size W"
        "ag_min s1 = (if f64_lt (ag_min other) (ag_min sk) then ag_min other else ag_min sk)"
        "ag_max s1 = (if f64_lt (ag_max sk) (ag_max other) then ag_max other else ag_max sk)"
      using s1(1) assms(1,2)
      by (auto simp: merge_summary_def agent_stats_def Let_def u64_add_Some split: if_splits bind_splits)
    then show ?thesis using stats_union [OF assms(1) 3(1) assms(2) 3(2)] by blast
  qed
  then show ?thesis using s1(2) by simp
qed

section \<open>Sketches that the operations can build\<close>

inductive agent_run :: "math \<Rightarrow> config \<Rightarrow> agent_sketch \<Rightarrow> f64 multiset \<Rightarrow> bool" for mt c where
  run_default: "agent_run mt c agent_default {#}"
| run_insert: "agent_run mt c sk V \<Longrightarrow> sample_ok v \<Longrightarrow> size V < u32_max \<Longrightarrow>
    agent_insert mt c v sk = Some sk' \<Longrightarrow> agent_run mt c sk' (add_mset v V)"
| run_insert_n: "agent_run mt c sk V \<Longrightarrow> sample_ok v \<Longrightarrow> 0 < n \<Longrightarrow> size V + n \<le> u32_max \<Longrightarrow>
    agent_insert_n mt c v n sk = Some sk' \<Longrightarrow> agent_run mt c sk' (V + replicate_mset n v)"
| run_insert_many: "agent_run mt c sk V \<Longrightarrow> \<forall>v\<in>set vs. sample_ok v \<Longrightarrow> size V + length vs \<le> u32_max \<Longrightarrow>
    agent_insert_many mt c vs sk = Some sk' \<Longrightarrow> agent_run mt c sk' (V + mset vs)"
| run_merge: "agent_run mt c sk V \<Longrightarrow> agent_run mt c other W \<Longrightarrow> size V + size W \<le> u32_max \<Longrightarrow>
    agent_merge c other sk = Some sk' \<Longrightarrow> agent_run mt c sk' (V + W)"
| run_clear: "agent_run mt c sk V \<Longrightarrow> agent_run mt c (agent_clear sk) {#}"

lemma agent_run_rep:
  "agent_run mt c sk V \<Longrightarrow> agent_rep c sk (image_mset (config_key mt c) V) \<and> agent_stats sk V"
proof (induction rule: agent_run.induct)
  case run_default
  then show ?case by (simp add: agent_rep_default) (simp add: agent_stats_def agent_default_def)
next
  case (run_insert sk V v sk')
  then show ?case using agent_insert_rep [of c sk _ mt v] insert_stats [of sk V v mt c sk'] by auto
next
  case (run_insert_n sk V v n sk')
  then show ?case
    using agent_insert_n_rep [of c sk "image_mset (config_key mt c) V" n mt v] insert_n_stats [of sk V v n mt c sk'] by auto
next
  case (run_insert_many sk V vs sk')
  then show ?case
    using agent_insert_many_rep [of c sk "image_mset (config_key mt c) V" vs mt] insert_many_stats [of sk V vs mt c sk']
    by auto
next
  case (run_merge sk V other W sk')
  then show ?case
    using agent_merge_rep [of c sk "image_mset (config_key mt c) V" other "image_mset (config_key mt c) W"]
      merge_stats [of sk V other W c sk'] by auto
next
  case (run_clear sk V)
  then show ?case by (simp add: agent_rep_clear) (simp add: agent_stats_def agent_clear_def)
qed

section \<open>Quantiles\<close>

text \<open>Every key of a sample has a lower bound as long as the bias is that of a usable configuration.\<close>

definition config_ok :: "config \<Rightarrow> bool" where
  "config_ok c \<longleftrightarrow> \<bar>norm_bias c\<bar> < 2 ^ 30"

lemma config_key_range: "\<bar>config_key mt c v\<bar> \<le> MAX_KEY"
  by (auto simp: config_key_def config_key_nonneg_def MAX_KEY_def Let_def)

lemma bin_lower_bound_ok: "config_ok c \<Longrightarrow> \<bar>k\<bar> \<le> MAX_KEY \<Longrightarrow> \<exists>x. bin_lower_bound mt c k = Some x"
  by (auto simp: bin_lower_bound_def bin_lower_bound_nonneg_def config_ok_def MAX_KEY_def i32_sub_def i32_chk_def
      is_i32_def i32_min_def i32_max_def)

lemma quantile_loop_returns:
  assumes "config_ok c" and "\<forall>b\<in>set bs. \<bar>bin_k b\<bar> \<le> MAX_KEY"
  shows "\<exists>r. quantile_loop mt c sk w len n i bs = Some r"
  using assms(2)
proof (induction bs arbitrary: n i)
  case (Cons b bs)
  then show ?case using bin_lower_bound_ok [OF assms(1), of "bin_k b" mt] by (auto simp: Let_def)
qed simp

lemma run_bin_range: "agent_run mt c sk V \<Longrightarrow> b \<in> set (ag_bins sk) \<Longrightarrow> \<bar>bin_k b\<bar> \<le> MAX_KEY"
proof -
  assume run: "agent_run mt c sk V" and b: "b \<in> set (ag_bins sk)"
  let ?M = "image_mset (config_key mt c) V"
  have rep: "bins_ok (ag_bins sk)" "bins_keys (ag_bins sk) = top_view (bin_limit c) ?M"
    using agent_run_rep [OF run] by (auto simp: agent_rep_def)
  have mem: "bin_k b \<in># top_view (bin_limit c) ?M"
    using set_bins_keys [OF rep(1)] rep(2) b by (metis imageI)
  have "set_mset (top_view (bin_limit c) ?M) \<subseteq> set_mset ?M"
  proof (cases "bin_limit c = 0 \<or> card (set_mset ?M) \<le> bin_limit c")
    case True
    then show ?thesis by (simp add: top_view_exact)
  next
    case False
    define f where "f = sorted_list_of_set (set_mset ?M) ! (card (set_mset ?M) - bin_limit c)"
    have "f \<in># ?M" using kth_largest [of "set_mset ?M" "bin_limit c" f] False by (simp add: f_def)
    moreover have "top_view (bin_limit c) ?M = image_mset (max f) ?M"
      using False by (simp add: top_view_def f_def del: set_image_mset)
    ultimately show ?thesis by (auto simp: max_def)
  qed
  then have "bin_k b \<in># ?M" using mem by blast
  then show ?thesis using config_key_range by auto
qed

lemma agent_quantile_bounded:
  assumes run: "agent_run mt c sk V" and V: "V \<noteq> {#}" and c: "config_ok c"
  shows "\<exists>v. agent_quantile mt c q sk = Some (Some v) \<and>
    (v \<noteq> F64_NaN \<longrightarrow> f64_le (ag_min sk) v \<and> f64_le v (ag_max sk))"
proof -
  have st: "ag_count sk = size V" "ag_min sk \<in># V" "ag_max sk \<in># V" "\<forall>v\<in>#V. f64_le (ag_min sk) v \<and> f64_le v (ag_max sk)"
      "\<forall>v\<in>#V. sample_ok v"
    using agent_run_rep [OF run] V by (auto simp: agent_stats_def)
  have le: "f64_le (ag_min sk) (ag_max sk)" using st(3,4) by blast
  have nn: "ag_min sk \<noteq> F64_NaN" "ag_max sk \<noteq> F64_NaN" using st sample_not_nan by blast+
  have pos: "0 < size V" using V by (simp add: nonempty_has_size)
  consider "f64_le q f64_zero" | "\<not> f64_le q f64_zero" "f64_le f64_one q" | "\<not> f64_le q f64_zero" "\<not> f64_le f64_one q" by blast
  then show ?thesis
  proof cases
    case 1
    then show ?thesis using V st(1) le f64_le_refl [OF nn(1)] by (simp add: agent_quantile_def)
  next
    case 2
    then show ?thesis using V st(1) le f64_le_refl [OF nn(2)] by (simp add: agent_quantile_def)
  next
    case 3
    define w where "w = f64_round_ties_even (f64_mul q (f64_of_nat (size V - 1)))"
    have w: "agent_rank (ag_count sk) q = Some w" using pos st(1) by (simp add: agent_rank_def u64_sub_def w_def)
    obtain r where r: "quantile_loop mt c sk w (length (ag_bins sk)) f64_zero 0 (ag_bins sk) = Some r"
      using quantile_loop_returns [OF c] run_bin_range [OF run] by blast
    have step: "agent_quantile mt c q sk =
        (case r of None \<Rightarrow> Some (Some F64_NaN) | Some v \<Rightarrow> map_option Some (f64_clamp (ag_min sk) (ag_max sk) v))"
      using 3 V st(1) w r by (simp add: agent_quantile_def)
    show ?thesis
    proof (cases r)
      case None
      then show ?thesis using step by simp
    next
      case (Some x)
      obtain y where y: "f64_clamp (ag_min sk) (ag_max sk) x = Some y" using le by (simp add: f64_clamp_def Let_def)
      have "x = F64_NaN \<Longrightarrow> y = F64_NaN" using y le by (cases "ag_max sk") (auto simp: f64_clamp_def)
      then show ?thesis using step Some y f64_clamp_bounds [OF y] by auto
    qed
  qed
qed

section \<open>Histogram buckets\<close>

lemma interpolate_loop_spec:
  assumes "interpolate_loop mt c d cnt ks start lb rm remaining kcs sk = Some (start', remaining', kcs', sk')"
    and "counts_ok kcs" and "\<forall>x\<in>set kcs. fst x < start" and "sorted_wrt (<) (start # ks)"
  shows "counts_ok kcs' \<and> (\<forall>x\<in>set kcs'. fst x < start') \<and>
    size (pairs_mset kcs') + remaining' = size (pairs_mset kcs) + remaining \<and>
    ag_count sk' + remaining' = ag_count sk + remaining \<and> ag_bins sk' = ag_bins sk"
  using assms
proof (induction ks arbitrary: start lb rm remaining kcs sk)
  case (Cons k ks)
  show ?case
  proof (cases "remaining = 0")
    case True
    then show ?thesis using Cons.prems by auto
  next
    case False
    obtain ub where ub: "bin_lower_bound mt c k = Some ub"
      using Cons.prems(1) False by (cases "bin_lower_bound mt c k") auto
    obtain kn rm2 where share:
        "interpolate_share (f64_mul (f64_div (f64_sub ub lb) d) (f64_of_nat cnt)) rm = Some (kn, rm2)"
      using Cons.prems(1) False ub
      by (cases "interpolate_share (f64_mul (f64_div (f64_sub ub lb) d) (f64_of_nat cnt)) rm") auto
    have step: "kn = 0 \<Longrightarrow> interpolate_loop mt c d cnt ks start lb rm2 remaining kcs sk = Some (start', remaining', kcs', sk')"
        "0 < kn \<Longrightarrow> \<exists>s1. adjust_basic_stats lb (min kn remaining) sk = Some s1 \<and>
           interpolate_loop mt c d cnt ks k ub rm2 (remaining - min kn remaining) (kcs @ [(start, min kn remaining)]) s1
             = Some (start', remaining', kcs', sk')"
      using Cons.prems(1) False ub share by (auto simp: Let_def min_def split: bind_splits if_splits)
    show ?thesis
    proof (cases "kn = 0")
      case True
      have "sorted_wrt (<) (start # ks)" using Cons.prems(4) by simp
      then show ?thesis using Cons.IH [OF step(1) [OF True] Cons.prems(2,3)] by blast
    next
      case kn: False
      define n where "n = min kn remaining"
      have n: "0 < n" "n \<le> remaining" using kn False by (auto simp: n_def)
      obtain s1 where s1: "adjust_basic_stats lb n sk = Some s1"
          "interpolate_loop mt c d cnt ks k ub rm2 (remaining - n) (kcs @ [(start, n)]) s1 = Some (start', remaining', kcs', sk')"
        using step(2) kn by (auto simp: n_def)
      have adj: "ag_count s1 = ag_count sk + n" "ag_bins s1 = ag_bins sk"
        using s1(1) by (auto simp: adjust_basic_stats_def Let_def u64_add_Some split: bind_splits)
      have ok: "counts_ok (kcs @ [(start, n)])"
        using Cons.prems(2,3) n by (auto simp: counts_ok_def sorted_wrt_append)
      have lt: "\<forall>x\<in>set (kcs @ [(start, n)]). fst x < k" using Cons.prems(3,4) by (auto dest: order.strict_trans)
      have srt: "sorted_wrt (<) (k # ks)" using Cons.prems(4) by simp
      have sz: "size (pairs_mset (kcs @ [(start, n)])) = size (pairs_mset kcs) + n" by (simp add: pairs_mset_def)
      show ?thesis using Cons.IH [OF s1(2) ok lt srt] adj n sz by simp
    qed
  qed
qed simp

lemma counts_sorted: "counts_ok cs \<Longrightarrow> sort_key fst cs = cs"
  by (intro sort_key_id_if_sorted) (simp add: counts_ok_def strict_sorted_iff)

lemma interpolate_loop_keys:
  "interpolate_loop mt c d cnt ks start lb rm remaining kcs sk = Some (start', remaining', kcs', sk') \<Longrightarrow>
   \<forall>x\<in>set kcs. key_fits (fst x) \<Longrightarrow> list_all key_fits (start # ks) \<Longrightarrow> (\<forall>x\<in>set kcs'. key_fits (fst x)) \<and> key_fits start'"
proof (induction ks arbitrary: start lb rm remaining kcs sk)
  case (Cons k ks)
  show ?case
  proof (cases "remaining = 0")
    case True
    then show ?thesis using Cons.prems by auto
  next
    case False
    then obtain start2 lb2 rm2 remaining2 kcs2 sk2 where
        "interpolate_loop mt c d cnt ks start2 lb2 rm2 remaining2 kcs2 sk2 = Some (start', remaining', kcs', sk')"
        "start2 = k \<or> start2 = start" "\<exists>n. kcs2 = kcs @ [(start, n)] \<or> kcs2 = kcs"
      using Cons.prems(1) by (auto simp: Let_def split: bind_splits if_splits)
    moreover from this have "\<forall>x\<in>set kcs2. key_fits (fst x)" "list_all key_fits (start2 # ks)" using Cons.prems(2,3) by auto
    ultimately show ?thesis using Cons.IH by blast
  qed
qed simp

lemma interval_fits: "key_fits a \<Longrightarrow> key_fits b \<Longrightarrow> list_all key_fits [a..b]"
  by (auto simp: key_fits_def list_all_iff)

text \<open>A histogram bucket is its count, spread over keys in increasing order.\<close>

lemma insert_interpolate_bucket_counts:
  assumes "insert_interpolate_bucket mt c lower upper n sk = Some sk'"
  obtains kcs s2 where "counts_ok kcs" "size (pairs_mset kcs) = n" "\<forall>x\<in>set kcs. key_fits (fst x)"
    "ag_count s2 = ag_count sk + n" "ag_bins s2 = ag_bins sk" "insert_key_counts c kcs s2 = Some sk'"
proof -
  obtain first rest where keys: "[config_key mt c lower..config_key mt c upper] = first # rest"
    using assms by (auto simp: insert_interpolate_bucket_def split: list.splits)
  have "sorted_wrt (<) [config_key mt c lower..config_key mt c upper]" by (simp add: strict_sorted_iff)
  then have srt: "sorted_wrt (<) (first # rest)" unfolding keys .
  have "list_all key_fits [config_key mt c lower..config_key mt c upper]" by (intro interval_fits config_key_fits)
  then have fits: "list_all key_fits (first # rest)" unfolding keys .
  obtain lb l r kcs s1 where loop:
      "interpolate_loop mt c (f64_sub upper lower) n rest first lb f64_zero n [] sk = Some (l, r, kcs, s1)"
    and final: "(if r > 0 then do { lb \<leftarrow> bin_lower_bound mt c l; s' \<leftarrow> adjust_basic_stats lb r s1; Some (kcs @ [(l, r)], s') }
        else Some (kcs, s1)) \<bind> (\<lambda>(kcs', s2). insert_key_counts c (sort_key fst kcs') s2) = Some sk'"
    using assms by (auto simp: insert_interpolate_bucket_def keys split: bind_splits)
  have L: "counts_ok kcs" "\<forall>x\<in>set kcs. fst x < l" "size (pairs_mset kcs) + r = n" "ag_count s1 + r = ag_count sk + n"
      "ag_bins s1 = ag_bins sk"
    using interpolate_loop_spec [OF loop _ _ srt] by auto
  have K: "\<forall>x\<in>set kcs. key_fits (fst x)" "key_fits l" using interpolate_loop_keys [OF loop _ fits] by auto
  show thesis
  proof (cases "r = 0")
    case True
    then show thesis using L K final counts_sorted [OF L(1)] by (intro that [of kcs s1]) auto
  next
    case False
    then obtain lb' s2 where s2: "adjust_basic_stats lb' r s1 = Some s2"
        "insert_key_counts c (sort_key fst (kcs @ [(l, r)])) s2 = Some sk'"
      using final by (auto split: bind_splits)
    have ok: "counts_ok (kcs @ [(l, r)])" using L(1,2) False by (auto simp: counts_ok_def sorted_wrt_append)
    have "ag_count s2 = ag_count s1 + r" "ag_bins s2 = ag_bins s1"
      using s2(1) by (auto simp: adjust_basic_stats_def Let_def u64_add_Some split: bind_splits)
    moreover have "size (pairs_mset (kcs @ [(l, r)])) = n" using L(3) by (simp add: pairs_mset_def)
    ultimately show thesis using L(4,5) K s2(2) ok by (intro that [of "kcs @ [(l, r)]" s2]) (auto simp: counts_sorted [OF ok])
  qed
qed

lemma insert_interpolate_bucket_spec:
  assumes "insert_interpolate_bucket mt c lower upper n sk = Some sk'" and "agent_rep c sk M" and "size M + n \<le> u32_max"
  shows "\<exists>K. size K = n \<and> agent_rep c sk' (M + K)"
proof -
  have rep: "bins_ok (ag_bins sk)" "bins_keys (ag_bins sk) = top_view (bin_limit c) M" "ag_count sk = size M"
    using assms(2) by (auto simp: agent_rep_def)
  obtain kcs s2 where k: "counts_ok kcs" "size (pairs_mset kcs) = n" "ag_count s2 = ag_count sk + n"
      "ag_bins s2 = ag_bins sk" "insert_key_counts c kcs s2 = Some sk'"
    using assms(1) by (rule insert_interpolate_bucket_counts)
  then have "agent_rep c sk' (M + pairs_mset kcs)"
    using insert_key_counts_rep [of s2 c M kcs] rep assms(3) by simp
  then show ?thesis using k(2) by blast
qed

lemma interpolate_buckets_loop_spec:
  assumes "interpolate_buckets_loop mt c lower bs sk = Some sk'" and "agent_rep c sk M"
    and "size M + sum_list (map bucket_count bs) \<le> u32_max"
  shows "\<exists>K. size K = sum_list (map bucket_count bs) \<and> agent_rep c sk' (M + K)"
  using assms
proof (induction bs arbitrary: lower sk M)
  case Nil
  then show ?case by (intro exI [of _ "{#}"]) simp
next
  case (Cons b bs)
  obtain lo up s1 where s1: "insert_interpolate_bucket mt c lo up (bucket_count b) sk = Some s1"
      "interpolate_buckets_loop mt c (upper_limit b) bs s1 = Some sk'"
    using Cons.prems(1) by (auto simp: Let_def split: bind_splits prod.splits)
  obtain K where K: "size K = bucket_count b" "agent_rep c s1 (M + K)"
    using insert_interpolate_bucket_spec [OF s1(1) Cons.prems(2)] Cons.prems(3) by auto
  obtain K' where "size K' = sum_list (map bucket_count bs)" "agent_rep c sk' (M + K + K')"
    using Cons.IH [OF s1(2) K(2)] Cons.prems(3) K(1) by auto
  then show ?case using K(1) by (intro exI [of _ "K + K'"]) (simp add: add.assoc)
qed

section \<open>The message form\<close>

lemma dogsketch_bins_spec:
  "\<forall>b\<in>set bs. -32768 \<le> bin_k b \<and> bin_k b \<le> 32767 \<Longrightarrow>
   dogsketch_bins (zip (map bin_k bs) (map bin_n bs)) acc = Inr (acc @ bs)"
  by (induction bs arbitrary: acc) auto

section \<open>Properties\<close>

definition example_config :: config where
  "example_config = \<lparr>bin_limit = 4, gamma_v = f64_of_nat 2, gamma_ln = f64_one, norm_min = f64_one, norm_bias = 0\<rparr>"

definition example_dogsketch :: dogsketch where
  "example_dogsketch = \<lparr>dg_cnt = 0, dg_min = f64_zero, dg_max = f64_zero, dg_avg = f64_zero, dg_sum = f64_zero,
     dg_k = [], dg_n = []\<rparr>"

lemma example_sample: "sample_ok (f64_of_nat 3)" "sample_ok f64_one"
  by (simp_all add: sample_ok_def f64_eval)

lemma example_run: "\<exists>sk. agent_run example_math example_config sk {#f64_of_nat 3, f64_one#}"
proof -
  let ?k = "config_key example_math example_config"
  obtain s1 where s1: "agent_insert example_math example_config f64_one agent_default = Some s1"
    using agent_insert_rep [OF agent_rep_default, where c = example_config and mt = example_math and v = f64_one] by (auto simp: u32_max_def)
  have r1: "agent_run example_math example_config s1 {#f64_one#}"
    using run_insert [OF run_default example_sample(2) _ s1] by (simp add: u32_max_def)
  have "agent_rep example_config s1 {#?k f64_one#}" using agent_run_rep [OF r1] by simp
  then obtain s2 where s2: "agent_insert example_math example_config (f64_of_nat 3) s1 = Some s2"
    using agent_insert_rep [of example_config s1 "{#?k f64_one#}" example_math "f64_of_nat 3"] by (auto simp: u32_max_def)
  have "agent_run example_math example_config s2 {#f64_of_nat 3, f64_one#}"
    using run_insert [OF r1 example_sample(1) _ s2] by (simp add: u32_max_def)
  then show ?thesis by blast
qed

text \<open>
  C4. The bins of an agent sketch, built from samples by single, weighted and bulk insertion, merging
  and clearing, count exactly the keys of the samples, the keys below the largest that fit into the
  bin limit raised to the lowest kept one; they are sorted, non-empty and within the limit.
\<close>

theorem agent_bins_refine_samples:
  "agent_run mt c sk V \<Longrightarrow>
   bins_ok (ag_bins sk) \<and> bins_keys (ag_bins sk) = top_view (bin_limit c) (image_mset (config_key mt c) V) \<and>
   ag_count sk = size V \<and> (0 < bin_limit c \<longrightarrow> length (ag_bins sk) \<le> bin_limit c)"
  using agent_run_rep [of mt c sk V] by (auto simp: agent_rep_def)

theorem agent_bins_refine_samples_witness:
  "\<exists>sk. agent_run example_math example_config sk {#f64_of_nat 3, f64_one#} \<and> ag_count sk = 2 \<and> length (ag_bins sk) \<le> 4"
proof -
  obtain sk where sk: "agent_run example_math example_config sk {#f64_of_nat 3, f64_one#}" using example_run by blast
  show ?thesis using sk agent_bins_refine_samples [OF sk] by (auto simp: example_config_def)
qed

text \<open>
  C14. Two agent sketches that were given the same samples, in whatever order, grouping and merging
  tree, have the same bins and the same count.
\<close>

theorem agent_order_independent:
  "agent_run mt c a V \<Longrightarrow> agent_run mt c b V \<Longrightarrow> ag_bins a = ag_bins b \<and> ag_count a = ag_count b"
proof -
  assume "agent_run mt c a V" "agent_run mt c b V"
  then have rep: "agent_rep c a (image_mset (config_key mt c) V)" "agent_rep c b (image_mset (config_key mt c) V)"
    using agent_run_rep by blast+
  have "ag_count a = ag_count b" using rep by (simp add: agent_rep_def)
  with agent_rep_unique [OF rep] show ?thesis by simp
qed

theorem agent_order_independent_witness:
  "\<exists>a b. agent_run example_math example_config a {#f64_of_nat 3, f64_one#} \<and>
     agent_run example_math example_config b {#f64_of_nat 3, f64_one#} \<and> ag_bins a = ag_bins b"
  using example_run agent_order_independent by blast

text \<open>
  The summary of an agent sketch is exact for its extremes: the minimum and the maximum are
  samples, and every sample lies between them.
\<close>

theorem agent_extremes_exact:
  "agent_run mt c sk V \<Longrightarrow> v \<in># V \<Longrightarrow>
   agent_min sk = Some (ag_min sk) \<and> ag_min sk \<in># V \<and> f64_le (ag_min sk) v \<and>
   agent_max sk = Some (ag_max sk) \<and> ag_max sk \<in># V \<and> f64_le v (ag_max sk)"
  using agent_run_rep [of mt c sk V]
  by (auto simp: agent_stats_def agent_min_def agent_max_def agent_is_empty_def split: if_splits)

theorem agent_extremes_exact_witness:
  "\<exists>sk. agent_run example_math example_config sk {#f64_of_nat 3, f64_one#} \<and>
     f64_le (ag_min sk) f64_one \<and> f64_le f64_one (ag_max sk)"
proof -
  obtain sk where sk: "agent_run example_math example_config sk {#f64_of_nat 3, f64_one#}" using example_run by blast
  show ?thesis using sk agent_extremes_exact [OF sk, of f64_one] by auto
qed

text \<open>
  C21. Below \<open>2 ^ 32\<close> samples no insertion and no merge of agent sketches panics: each returns a sketch,
  which again is one the operations can build.
\<close>

theorem agent_operations_return:
  assumes a: "agent_run mt c sk V" and b: "agent_run mt c other W" and w: "size V + size W \<le> u32_max"
    and v: "sample_ok v" and n: "0 < n" "size V + n \<le> u32_max"
    and vs: "\<forall>x\<in>set vs. sample_ok x" "size V + length vs \<le> u32_max"
  shows "(\<exists>s. agent_insert mt c v sk = Some s \<and> agent_run mt c s (add_mset v V)) \<and>
    (\<exists>s. agent_insert_n mt c v n sk = Some s \<and> agent_run mt c s (V + replicate_mset n v)) \<and>
    (\<exists>s. agent_insert_many mt c vs sk = Some s \<and> agent_run mt c s (V + mset vs)) \<and>
    (\<exists>s. agent_merge c other sk = Some s \<and> agent_run mt c s (V + W))"
proof (intro conjI)
  have rep: "agent_rep c sk (image_mset (config_key mt c) V)" "agent_rep c other (image_mset (config_key mt c) W)"
    using agent_run_rep [OF a] agent_run_rep [OF b] by auto
  have room: "size V < u32_max" using n by simp
  show "\<exists>s. agent_insert mt c v sk = Some s \<and> agent_run mt c s (add_mset v V)"
    using agent_insert_rep [OF rep(1), of mt v] run_insert [OF a v room] room by auto
  show "\<exists>s. agent_insert_n mt c v n sk = Some s \<and> agent_run mt c s (V + replicate_mset n v)"
    using agent_insert_n_rep [OF rep(1), of n mt v] run_insert_n [OF a v n] n by auto
  show "\<exists>s. agent_insert_many mt c vs sk = Some s \<and> agent_run mt c s (V + mset vs)"
    using agent_insert_many_rep [OF rep(1), of vs mt] run_insert_many [OF a vs] vs(2) by auto
  show "\<exists>s. agent_merge c other sk = Some s \<and> agent_run mt c s (V + W)"
    using agent_merge_rep [OF rep] run_merge [OF a b w] w by auto
qed

theorem agent_operations_return_witness:
  "\<exists>sk s t u. agent_run example_math example_config sk {#f64_of_nat 3, f64_one#} \<and>
     agent_insert_n example_math example_config f64_one 5 sk = Some s \<and>
     agent_insert_many example_math example_config [f64_of_nat 3, f64_one, f64_of_nat 3] sk = Some u \<and>
     agent_merge example_config sk sk = Some t"
proof -
  obtain sk where sk: "agent_run example_math example_config sk {#f64_of_nat 3, f64_one#}" using example_run by blast
  have "\<forall>x\<in>set [f64_of_nat 3, f64_one, f64_of_nat 3]. sample_ok x" using example_sample by simp
  then show ?thesis
    using sk agent_operations_return [OF sk sk _ example_sample(2), of 5 "[f64_of_nat 3, f64_one, f64_of_nat 3]"] by (auto simp: u32_max_def)
qed

text \<open>
  C18. A quantile query on a non-empty agent sketch returns, and a result that is a number lies between
  the minimum and the maximum of the samples.
\<close>

theorem agent_quantile_in_range:
  "agent_run mt c sk V \<Longrightarrow> V \<noteq> {#} \<Longrightarrow> config_ok c \<Longrightarrow>
   \<exists>v. agent_quantile mt c q sk = Some (Some v) \<and>
     (v \<noteq> F64_NaN \<longrightarrow> f64_le (ag_min sk) v \<and> f64_le v (ag_max sk))"
  by (rule agent_quantile_bounded)

theorem agent_quantile_in_range_witness:
  "\<exists>sk v. agent_run example_math example_config sk {#f64_of_nat 3, f64_one#} \<and>
     agent_quantile example_math example_config f64_one sk = Some (Some v)"
proof -
  obtain sk where sk: "agent_run example_math example_config sk {#f64_of_nat 3, f64_one#}" using example_run by blast
  show ?thesis using sk agent_quantile_in_range [OF sk, of f64_one] by (auto simp: config_ok_def example_config_def)
qed

text \<open>
  Interpolating histogram buckets neither loses nor invents observations: a rejected list leaves
  the sketch as it was and has a bucket over \<open>2 ^ 32 - 1\<close>; an accepted one adds as many keys as the
  buckets count together.
\<close>

theorem interpolation_conserves_count:
  assumes "insert_interpolate_buckets mt c bs sk = Some (sk', r)" and "agent_rep c sk M"
    and "size M + sum_list (map bucket_count bs) \<le> u32_max"
  shows "case r of
      Inl _ \<Rightarrow> sk' = sk \<and> list_ex (\<lambda>b. bucket_count b > u32_max) bs
    | Inr _ \<Rightarrow> (\<exists>K. size K = sum_list (map bucket_count bs) \<and> agent_rep c sk' (M + K))"
proof -
  let ?bs = "sort_by (\<lambda>a b. ordered_le mt (upper_limit a) (upper_limit b)) bs"
  have perm: "mset ?bs = mset bs" by (rule mset_sort_by)
  have set: "set ?bs = set bs" by (rule mset_eq_setD [OF perm])
  have "mset (map bucket_count ?bs) = mset (map bucket_count bs)" by (simp add: perm)
  then have sum: "sum_list (map bucket_count ?bs) = sum_list (map bucket_count bs)" by (metis sum_mset_sum_list)
  show ?thesis
  proof (cases r)
    case (Inl e)
    then show ?thesis
      using assms(1) set by (auto simp: insert_interpolate_buckets_def Let_def list_ex_iff split: if_splits bind_splits)
  next
    case (Inr u)
    then have "interpolate_buckets_loop mt c (F64_Inf True) ?bs sk = Some sk'"
      using assms(1) by (auto simp: insert_interpolate_buckets_def Let_def split: if_splits bind_splits)
    then show ?thesis using interpolate_buckets_loop_spec [of mt c _ ?bs sk sk' M] assms(2,3) sum Inr by auto
  qed
qed

lemma single_key_bucket_returns:
  assumes "config_ok c" and rep: "agent_rep c sk M" and n: "size M + n \<le> u32_max"
  shows "\<exists>sk'. insert_interpolate_bucket mt c u u n sk = Some sk'"
proof -
  let ?k = "config_key mt c u"
  obtain lb where lb: "bin_lower_bound mt c ?k = Some lb"
    using bin_lower_bound_ok [OF assms(1) config_key_range] by blast
  have bins: "bins_ok (ag_bins sk)" "bins_keys (ag_bins sk) = top_view (bin_limit c) M" "ag_count sk = size M"
    using rep by (auto simp: agent_rep_def)
  show ?thesis
  proof (cases "n = 0")
    case True
    then show ?thesis
      using lb insert_key_counts_rep [OF bins(1,2), of "[]"] bins(3) n by (auto simp: insert_interpolate_bucket_def)
  next
    case False
    obtain s1 where s1: "adjust_basic_stats lb n sk = Some s1" "ag_bins s1 = ag_bins sk" "ag_count s1 = size M + n"
      using adjust_ok [of sk n lb] bins(3) n by (auto simp: u32_max_def u64_max_def)
    then obtain s2 where "insert_key_counts c [(?k, n)] s1 = Some s2"
      using insert_key_counts_rep [of s1 c M "[(?k, n)]"] bins(1,2) n False by auto
    then show ?thesis using lb False s1(1) by (simp add: insert_interpolate_bucket_def)
  qed
qed

theorem interpolation_conserves_count_witness:
  "\<exists>sk K. insert_interpolate_buckets example_math example_config [\<lparr>upper_limit = f64_of_nat 3, bucket_count = 2\<rparr>]
     agent_default = Some (sk, Inr ()) \<and> size K = 2 \<and> agent_rep example_config sk K"
proof -
  let ?b = "\<lparr>upper_limit = f64_of_nat 3, bucket_count = 2\<rparr>"
  have "config_ok example_config" by (simp add: config_ok_def example_config_def)
  then obtain sk where "insert_interpolate_bucket example_math example_config (f64_of_nat 3) (f64_of_nat 3) 2 agent_default = Some sk"
    using single_key_bucket_returns [OF _ agent_rep_default, of example_config 2 example_math "f64_of_nat 3"]
    by (auto simp: u32_max_def)
  moreover have "f64_of_nat 3 \<noteq> F64_Inf False" using example_sample(1) by (auto simp: sample_ok_def)
  ultimately have r: "insert_interpolate_buckets example_math example_config [?b] agent_default = Some (sk, Inr ())"
    by (simp add: insert_interpolate_buckets_def sort_by_def u32_max_def)
  show ?thesis using r interpolation_conserves_count [OF r agent_rep_default] by (auto simp: u32_max_def)
qed

text \<open>
  C35. An agent sketch survives its message form unchanged.
\<close>

theorem dogsketch_round_trip:
  "agent_run mt c sk V \<Longrightarrow> agent_try_from (merge_to_dogsketch sk d) = Inr sk"
proof -
  assume run: "agent_run mt c sk V"
  have "\<forall>b\<in>set (ag_bins sk). -32768 \<le> bin_k b \<and> bin_k b \<le> 32767"
    using run_bin_range [OF run] by (force simp: MAX_KEY_def abs_le_iff)
  moreover have "ag_count sk \<le> u32_max" using agent_run_rep [OF run] by (auto simp: agent_rep_def)
  then have "int (ag_count sk) \<le> i64_max" by (simp add: u32_max_def i64_max_def)
  ultimately show ?thesis by (simp add: agent_try_from_def merge_to_dogsketch_def dogsketch_bins_spec)
qed

theorem dogsketch_round_trip_witness:
  "\<exists>sk. agent_run example_math example_config sk {#f64_of_nat 3, f64_one#} \<and>
     agent_try_from (merge_to_dogsketch sk example_dogsketch) = Inr sk"
proof -
  obtain sk where sk: "agent_run example_math example_config sk {#f64_of_nat 3, f64_one#}" using example_run by blast
  show ?thesis using sk dogsketch_round_trip [OF sk] by blast
qed

section \<open>Any number of samples\<close>
















lemma avg_after_zero: "f64_is_finite v \<Longrightarrow> f64_div (f64_mul (f64_sub v f64_zero) f64_zero) f64_zero = F64_NaN"
proof -
  have "f64_div (f64_mul x f64_zero) f64_zero = F64_NaN" for x by (cases x) (simp_all add: f64_zero_def)
  then show ?thesis by simp
qed

lemma f64_add_nan: "f64_add x F64_NaN = F64_NaN" "f64_add F64_NaN x = F64_NaN"
  by (cases x; simp)+

text \<open>
  A weighted insertion with weight zero is not a no-op: on an empty sketch it leaves no sample but
  an average that is not a number, and the average stays so when a sample follows.
\<close>

theorem insert_zero_times_poisons_average:
  "f64_is_finite v \<Longrightarrow> bin_limit c \<noteq> 0 \<Longrightarrow>
   \<exists>sk. agent_insert_n mt c v 0 agent_default = Some sk \<and> ag_count sk = 0 \<and> ag_bins sk \<noteq> [] \<and> ag_avg sk = F64_NaN \<and>
     (\<forall>w sk'. agent_insert mt c w sk = Some sk' \<longrightarrow> ag_avg sk' = F64_NaN)"
  by (auto simp: agent_insert_n_def adjust_basic_stats_def agent_default_def u64_add_def u64_max_def Let_def
      insert_key_counts_def generate_bins_def MAX_BIN_WIDTH_def u32_max_def trim_left_def avg_after_zero f64_add_nan
      f64_of_nat_def agent_insert_def split: bind_splits sum.splits if_splits)

theorem insert_zero_times_poisons_average_witness:
  "\<exists>sk. agent_insert_n example_math example_config f64_one 0 agent_default = Some sk \<and> ag_avg sk = F64_NaN"
  using insert_zero_times_poisons_average [of f64_one example_config example_math]
  by (auto simp: f64_one_def example_config_def)

end
