(* ===== verification/Event_Buffer.thy ===== *)
theory Event_Buffer
  imports Topology_Graph
begin

text \<open>
  Events and the fixed-size buffers that carry them between components
  (\<^verbatim>\<open>lib/saluki-core/src/data_model/event/mod.rs\<close> and
  \<^verbatim>\<open>lib/saluki-core/src/topology/interconnect/event_buffer.rs\<close>).

  The capacity \<^verbatim>\<open>N\<close> is an argument. A \<^verbatim>\<open>VecDeque\<close> is a list, front first. The payloads of the variants other
  than \<^verbatim>\<open>Metric\<close> are one type variable.
\<close>

section \<open>Events\<close>

datatype ('m, 'x) event =
    EvMetric 'm
  | EvEventD 'x
  | EvServiceCheck 'x
  | EvLog 'x
  | EvTrace 'x
  | EvTraceStats 'x

fun event_type_of :: "('m, 'x) event \<Rightarrow> event_type" where
  "event_type_of (EvMetric _) = EventType_Metric"
| "event_type_of (EvEventD _) = EventType_EventD"
| "event_type_of (EvServiceCheck _) = EventType_ServiceCheck"
| "event_type_of (EvLog _) = EventType_Log"
| "event_type_of (EvTrace _) = EventType_Trace"
| "event_type_of (EvTraceStats _) = EventType_TraceStats"

fun try_into_metric :: "('m, 'x) event \<Rightarrow> 'm option" where
  "try_into_metric (EvMetric m) = Some m"
| "try_into_metric _ = None"

definition mask_contains :: "8 word \<Rightarrow> 8 word \<Rightarrow> bool" where
  "mask_contains a b \<longleftrightarrow> a AND b = b"

section \<open>The buffer\<close>

record ('m, 'x) event_buffer =
  eb_events :: "('m, 'x) event list"
  eb_seen_event_types :: event_type

definition eb_default :: "('m, 'x) event_buffer" where
  "eb_default = \<lparr>eb_events = [], eb_seen_event_types = 0\<rparr>"

definition eb_len :: "('m, 'x) event_buffer \<Rightarrow> nat" where
  "eb_len b = length (eb_events b)"

definition eb_is_empty :: "('m, 'x) event_buffer \<Rightarrow> bool" where
  "eb_is_empty b \<longleftrightarrow> eb_events b = []"

definition eb_is_full :: "nat \<Rightarrow> ('m, 'x) event_buffer \<Rightarrow> bool" where
  "eb_is_full n b \<longleftrightarrow> eb_len b = n"

definition has_event_type :: "event_type \<Rightarrow> ('m, 'x) event_buffer \<Rightarrow> bool" where
  "has_event_type t b \<longleftrightarrow> mask_contains (eb_seen_event_types b) t"

definition eb_clear :: "('m, 'x) event_buffer \<Rightarrow> ('m, 'x) event_buffer" where
  "eb_clear b = \<lparr>eb_events = [], eb_seen_event_types = 0\<rparr>"

text \<open>The new buffer, and the event when it was refused.\<close>

definition eb_try_push ::
    "nat \<Rightarrow> ('m, 'x) event \<Rightarrow> ('m, 'x) event_buffer \<Rightarrow> ('m, 'x) event_buffer \<times> ('m, 'x) event option" where
  "eb_try_push n ev b =
     (if eb_len b = n then (b, Some ev)
      else (\<lparr>eb_events = eb_events b @ [ev],
             eb_seen_event_types = eb_seen_event_types b OR event_type_of ev\<rparr>, None))"

text \<open>\<^verbatim>\<open>VecDeque::swap_remove_back\<close>: the last element takes the place of the removed one.\<close>

definition swap_remove_back :: "'a list \<Rightarrow> nat \<Rightarrow> ('a \<times> 'a list) option" where
  "swap_remove_back xs i = (if i < length xs then Some (xs ! i, butlast (xs[i := last xs])) else None)"

fun extract_scan :: "(('m, 'x) event \<Rightarrow> bool) \<Rightarrow> nat \<Rightarrow> ('m, 'x) event list \<Rightarrow> nat list \<times> event_type" where
  "extract_scan p pos [] = ([], 0)"
| "extract_scan p pos (ev # evs) =
     (let (indices, seen) = extract_scan p (Suc pos) evs
      in if p ev then (pos # indices, seen) else (indices, event_type_of ev OR seen))"

fun extract_loop :: "nat list \<Rightarrow> 'a list \<Rightarrow> 'a list \<Rightarrow> ('a list \<times> 'a list) option" where
  "extract_loop [] removed evs = Some (removed, evs)"
| "extract_loop (pos # ps) removed evs =
     (if pos < length evs
      then do { (ev, evs') \<leftarrow> swap_remove_back evs pos; extract_loop ps (removed @ [ev]) evs' }
      else extract_loop ps removed evs)"

text \<open>What is extracted, and the buffer that is left.\<close>

definition eb_extract ::
    "(('m, 'x) event \<Rightarrow> bool) \<Rightarrow> ('m, 'x) event_buffer \<Rightarrow> (('m, 'x) event list \<times> ('m, 'x) event_buffer) option" where
  "eb_extract p b =
     (let (indices, seen) = extract_scan p 0 (eb_events b)
      in do {
           (removed, evs) \<leftarrow> extract_loop (rev indices) [] (eb_events b);
           Some (removed, \<lparr>eb_events = evs, eb_seen_event_types = seen\<rparr>)
         })"

text \<open>
  The closure of \<^verbatim>\<open>remove_if\<close> is an \<^verbatim>\<open>FnMut(&mut Event)\<close>: it has a state and may change the event.
\<close>

function remove_if_loop ::
    "('s \<Rightarrow> ('m, 'x) event \<Rightarrow> 's \<times> ('m, 'x) event \<times> bool) \<Rightarrow> 's \<Rightarrow> ('m, 'x) event list \<Rightarrow> nat \<Rightarrow> event_type \<Rightarrow>
     's \<times> ('m, 'x) event list \<times> event_type" where
  "remove_if_loop p s evs i seen =
     (if i < length evs then
        (let (s', ev, del) = p s (evs ! i); evs1 = evs[i := ev]
         in if del then remove_if_loop p s' (butlast (evs1[i := last evs1])) i seen
            else remove_if_loop p s' evs1 (Suc i) (seen OR event_type_of ev))
      else (s, evs, seen))"
  by pat_completeness auto
termination by (relation "measure (\<lambda>(p, s, evs, i, seen). length evs - i)") auto

declare remove_if_loop.simps [simp del]

definition eb_remove_if ::
    "('s \<Rightarrow> ('m, 'x) event \<Rightarrow> 's \<times> ('m, 'x) event \<times> bool) \<Rightarrow> 's \<Rightarrow> ('m, 'x) event_buffer \<Rightarrow> 's \<times> ('m, 'x) event_buffer" where
  "eb_remove_if p s b =
     (let (s', evs, seen) = remove_if_loop p s (eb_events b) 0 0
      in (s', \<lparr>eb_events = evs, eb_seen_event_types = seen\<rparr>))"

text \<open>\<^verbatim>\<open>EventBufferManager::try_push\<close>: the new current buffer and the full one it replaces.\<close>

definition ebm_try_push ::
    "nat \<Rightarrow> ('m, 'x) event \<Rightarrow> ('m, 'x) event_buffer option \<Rightarrow>
     (('m, 'x) event_buffer option \<times> ('m, 'x) event_buffer option) option" where
  "ebm_try_push n ev current =
     (let buffer = (case current of None \<Rightarrow> eb_default | Some b \<Rightarrow> b)
      in case eb_try_push n ev buffer of
           (_, Some ev') \<Rightarrow>
             (case eb_try_push n ev' eb_default of
                (_, Some _) \<Rightarrow> None
              | (new_buffer, None) \<Rightarrow> Some (Some new_buffer, Some buffer))
         | (b', None) \<Rightarrow> Some (Some b', None))"

definition ebm_consume ::
    "('m, 'x) event_buffer option \<Rightarrow> ('m, 'x) event_buffer option \<times> ('m, 'x) event_buffer option" where
  "ebm_consume current = (None, current)"

section \<open>The invariant and the filters\<close>

fun types_of :: "('m, 'x) event list \<Rightarrow> event_type" where
  "types_of [] = 0"
| "types_of (ev # evs) = event_type_of ev OR types_of evs"

definition eb_ok :: "nat \<Rightarrow> ('m, 'x) event_buffer \<Rightarrow> bool" where
  "eb_ok n b \<longleftrightarrow> length (eb_events b) \<le> n \<and> eb_seen_event_types b = types_of (eb_events b)"

lemma types_of_append [simp]: "types_of (xs @ ys) = types_of xs OR types_of ys"
  by (induction xs) (auto simp: or.assoc)

lemma types_of_bit: "bit (types_of evs) k \<longleftrightarrow> (\<exists>e \<in> set evs. bit (event_type_of e) k)"
  by (induction evs) (auto simp: bit_or_iff)

lemma types_of_mset: "mset xs = mset ys \<Longrightarrow> types_of xs = types_of ys"
  by (rule bit_eqI) (simp add: types_of_bit flip: set_mset_mset)

lemma eb_ok_default [simp]: "eb_ok n eb_default"
  by (simp add: eb_ok_def eb_default_def)

lemma eb_ok_try_push: "eb_ok n b \<Longrightarrow> eb_ok n (fst (eb_try_push n ev b))"
  by (auto simp: eb_ok_def eb_try_push_def eb_len_def)

lemma event_type_bit: "\<exists>k < 6. event_type_of e = push_bit k 1"
proof (cases e)
  case EvMetric then show ?thesis by (intro exI [of _ 0]) (simp add: EventType_Metric_def)
next
  case EvEventD then show ?thesis by (intro exI [of _ 1]) (simp add: EventType_EventD_def)
next
  case EvServiceCheck then show ?thesis by (intro exI [of _ 2]) (simp add: EventType_ServiceCheck_def push_bit_eq_mult)
next
  case EvLog then show ?thesis by (intro exI [of _ 3]) (simp add: EventType_Log_def push_bit_eq_mult)
next
  case EvTrace then show ?thesis by (intro exI [of _ 4]) (simp add: EventType_Trace_def push_bit_eq_mult)
next
  case EvTraceStats then show ?thesis by (intro exI [of _ 5]) (simp add: EventType_TraceStats_def push_bit_eq_mult)
qed

lemma has_event_type_iff:
  assumes "eb_ok n b"
  shows "has_event_type (event_type_of e) b \<longleftrightarrow> (\<exists>e' \<in> set (eb_events b). event_type_of e' = event_type_of e)"
proof -
  obtain k where k: "k < 6" "event_type_of e = 2 ^ k" using event_type_bit by (auto simp: push_bit_eq_mult)
  have one: "bit (event_type_of e') k \<longleftrightarrow> event_type_of e' = 2 ^ k" for e' :: "('a, 'b) event"
  proof -
    obtain j where j: "j < 6" "event_type_of e' = 2 ^ j" using event_type_bit by (auto simp: push_bit_eq_mult)
    have "(2 ^ j :: 8 word) = 2 ^ k \<longleftrightarrow> j = k"
      using j(1) k(1) by (auto simp: bit_exp_iff dest!: arg_cong [of "2 ^ j" "2 ^ k" "\<lambda>w :: 8 word. bit w k"])
    then show ?thesis using j k(1) by (auto simp: bit_exp_iff)
  qed
  have "mask_contains a (2 ^ k) \<longleftrightarrow> bit a k" for a
  proof
    assume "mask_contains a (2 ^ k)"
    then have "bit (a AND 2 ^ k) k = bit (2 ^ k :: 8 word) k" by (simp add: mask_contains_def)
    then show "bit a k" using k(1) by (simp add: bit_and_iff bit_exp_iff)
  next
    assume "bit a k"
    then show "mask_contains a (2 ^ k)"
      by (auto simp: mask_contains_def bit_eq_iff [where 'a = "8 word"] bit_and_iff bit_exp_iff)
  qed
  then show ?thesis
    using assms by (simp add: has_event_type_def eb_ok_def k(2) types_of_bit one)
qed

lemma mset_swap_remove:
  assumes "i < length xs"
  shows "add_mset (xs ! i) (mset (butlast (xs[i := last xs]))) = mset xs"
proof -
  have ne: "xs[i := last xs] \<noteq> []" using assms by auto
  have "last (xs[i := last xs]) = last xs" using ne by (auto simp: last_list_update)
  then have "mset (xs[i := last xs]) = mset (butlast (xs[i := last xs]) @ [last xs])"
    using append_butlast_last_id [OF ne] by simp
  then have "mset xs - {#xs ! i#} = mset (butlast (xs[i := last xs]))"
    using assms by (simp add: mset_update)
  then show ?thesis using assms insert_DiffM [of "xs ! i" "mset xs"] by simp
qed

lemma extract_scan_eq:
  "extract_scan p pos evs =
     (filter (\<lambda>i. p (evs ! (i - pos))) [pos..<pos + length evs], types_of (filter (\<lambda>e. \<not> p e) evs))"
proof (induction p pos evs rule: extract_scan.induct)
  case (2 p pos ev evs)
  have "[pos..<pos + length (ev # evs)] = pos # [Suc pos..<Suc pos + length evs]"
    by (simp add: upt_conv_Cons del: upt_Suc)
  moreover have "filter (\<lambda>i. p ((ev # evs) ! (i - pos))) [Suc pos..<Suc pos + length evs] =
        filter (\<lambda>i. p (evs ! (i - Suc pos))) [Suc pos..<Suc pos + length evs]"
    by (rule filter_cong) (auto simp: nth_Cons' simp del: upt_Suc)
  ultimately show ?case using 2 by (simp del: upt_Suc)
qed simp

lemma extract_loop_eq:
  "sorted_wrt (>) ps \<Longrightarrow> (\<And>i. i \<in> set ps \<Longrightarrow> i < length evs) \<Longrightarrow>
   \<exists>evs'. extract_loop ps removed evs = Some (removed @ map ((!) evs) ps, evs') \<and>
     mset evs = mset evs' + mset (map ((!) evs) ps)"
proof (induction ps arbitrary: removed evs)
  case (Cons i ps)
  let ?evs = "butlast (evs[i := last evs])"
  have i: "i < length evs" using Cons.prems by simp
  have below: "j < i" if "j \<in> set ps" for j using Cons.prems that by simp
  have same: "map ((!) ?evs) ps = map ((!) evs) ps"
  proof (rule map_cong)
    fix j assume "j \<in> set ps"
    then have "j < i" by (rule below)
    then show "?evs ! j = evs ! j" using i by (simp add: nth_butlast)
  qed simp
  have "\<exists>evs'. extract_loop ps (removed @ [evs ! i]) ?evs =
          Some ((removed @ [evs ! i]) @ map ((!) ?evs) ps, evs') \<and>
        mset ?evs = mset evs' + mset (map ((!) ?evs) ps)"
  proof (rule Cons.IH)
    show "sorted_wrt (>) ps" using Cons.prems by simp
    show "j < length ?evs" if "j \<in> set ps" for j using below [OF that] i by simp
  qed
  then show ?case
    using i mset_swap_remove [OF i] unfolding same by (auto simp: swap_remove_back_def)
qed simp

lemma rev_filter_nth: "map ((!) evs) (rev (filter (\<lambda>i. p (evs ! i)) [0..<length evs])) = rev (filter p evs)"
proof -
  have "map ((!) evs) (filter (p \<circ> (!) evs) [0..<length evs]) = filter p (map ((!) evs) [0..<length evs])"
    by (simp add: filter_map)
  then show ?thesis by (simp add: map_nth rev_map [symmetric] o_def)
qed

lemma eb_extract_eq:
  "\<exists>evs. eb_extract p b =
     Some (rev (filter p (eb_events b)),
       \<lparr>eb_events = evs, eb_seen_event_types = types_of evs\<rparr>) \<and>
     mset evs = filter_mset (\<lambda>e. \<not> p e) (mset (eb_events b))"
proof -
  let ?e = "eb_events b" and ?ps = "rev (filter (\<lambda>i. p (eb_events b ! i)) [0..<length (eb_events b)])"
  have "\<exists>evs. extract_loop ?ps [] ?e = Some ([] @ map ((!) ?e) ?ps, evs) \<and>
      mset ?e = mset evs + mset (map ((!) ?e) ?ps)"
    by (rule extract_loop_eq) (simp_all add: sorted_wrt_rev sorted_wrt_filter)
  then obtain evs where evs: "extract_loop ?ps [] ?e = Some (rev (filter p ?e), evs)"
      "mset ?e = mset evs + filter_mset p (mset ?e)"
    unfolding rev_filter_nth by auto
  have "mset ?e = filter_mset p (mset ?e) + filter_mset (\<lambda>e. \<not> p e) (mset ?e)" by (rule multiset_partition)
  with evs(2) have m: "mset evs = filter_mset (\<lambda>e. \<not> p e) (mset ?e)"
    by (metis add.commute add_left_cancel)
  then have "types_of (filter (\<lambda>e. \<not> p e) ?e) = types_of evs" by (intro types_of_mset) simp
  then show ?thesis using evs(1) m by (simp add: eb_extract_def extract_scan_eq)
qed

lemma remove_if_loop_eq:
  assumes p: "\<And>s e. p s e = (h s e, f e, q e)" and "i \<le> length evs"
  shows "\<exists>s' evs' seen'. remove_if_loop p s evs i seen = (s', evs', seen OR seen') \<and>
    mset evs' = mset (take i evs) + image_mset f (filter_mset (\<lambda>e. \<not> q e) (mset (drop i evs))) \<and>
    seen' = types_of (map f (filter (\<lambda>e. \<not> q e) (drop i evs)))"
  using assms(2)
proof (induction "length evs - i" arbitrary: s evs i seen rule: less_induct)
  case less
  show ?case
  proof (cases "i < length evs")
    case True
    let ?u = "evs[i := f (evs ! i)]"
    have d: "drop i evs = evs ! i # drop (Suc i) evs" using True by (simp add: Cons_nth_drop_Suc)
    show ?thesis
    proof (cases "q (evs ! i)")
      case keep: False
      have u: "take (Suc i) ?u = take i evs @ [f (evs ! i)]" "drop (Suc i) ?u = drop (Suc i) evs"
        using True by (simp_all add: take_Suc_conv_app_nth)
      have "\<exists>s' evs' seen'. remove_if_loop p (h s (evs ! i)) ?u (Suc i) (seen OR event_type_of (f (evs ! i))) =
          (s', evs', (seen OR event_type_of (f (evs ! i))) OR seen') \<and>
          mset evs' = mset (take (Suc i) ?u) + image_mset f (filter_mset (\<lambda>e. \<not> q e) (mset (drop (Suc i) ?u))) \<and>
          seen' = types_of (map f (filter (\<lambda>e. \<not> q e) (drop (Suc i) ?u)))"
        using True by (intro less) auto
      then show ?thesis
        using keep True unfolding u by (auto simp: remove_if_loop.simps [of p s] p d or.assoc)
    next
      case drop: True
      let ?v = "butlast (evs[i := last ?u])"
      have tk: "take i ?v = take i evs" using True by (simp add: take_butlast)
      have "mset ?u = add_mset (f (evs ! i)) (mset ?v)" using mset_swap_remove [of i ?u] True by simp
      moreover have "mset ?u = mset (take i evs) + add_mset (f (evs ! i)) (mset (drop (Suc i) evs))"
        using True by (simp add: upd_conv_take_nth_drop)
      moreover have "mset ?v = mset (take i ?v) + mset (drop i ?v)"
        by (metis append_take_drop_id mset_append)
      ultimately have dr: "mset (drop i ?v) = mset (drop (Suc i) evs)" unfolding tk by simp
      have "\<exists>s' evs' seen'. remove_if_loop p (h s (evs ! i)) ?v i seen = (s', evs', seen OR seen') \<and>
          mset evs' = mset (take i ?v) + image_mset f (filter_mset (\<lambda>e. \<not> q e) (mset (drop i ?v))) \<and>
          seen' = types_of (map f (filter (\<lambda>e. \<not> q e) (drop i ?v)))"
        using True by (intro less) auto
      moreover have "types_of (map f (filter (\<lambda>e. \<not> q e) (drop i ?v))) =
          types_of (map f (filter (\<lambda>e. \<not> q e) (drop (Suc i) evs)))"
        by (rule types_of_mset) (simp add: dr)
      ultimately show ?thesis
        using drop True unfolding tk dr by (simp add: remove_if_loop.simps [of p s] p d)
    qed
  next
    case False
    then show ?thesis using less.prems by (simp add: remove_if_loop.simps [of p s])
  qed
qed

lemma eb_remove_if_eq:
  assumes "\<And>s e. p s e = (h s e, f e, q e)"
  shows "\<exists>s' evs. eb_remove_if p s b = (s', \<lparr>eb_events = evs, eb_seen_event_types = types_of evs\<rparr>) \<and>
    mset evs = image_mset f (filter_mset (\<lambda>e. \<not> q e) (mset (eb_events b)))"
proof -
  obtain s' evs seen' where r: "remove_if_loop p s (eb_events b) 0 0 = (s', evs, 0 OR seen')"
      "mset evs = image_mset f (filter_mset (\<lambda>e. \<not> q e) (mset (eb_events b)))"
      "seen' = types_of (map f (filter (\<lambda>e. \<not> q e) (eb_events b)))"
    using remove_if_loop_eq [where p = p and h = h and f = f and q = q and i = 0 and evs = "eb_events b"
        and seen = 0 and s = s, OF assms] by auto
  have "seen' = types_of evs" unfolding r(3) by (rule types_of_mset) (simp add: r(2))
  then show ?thesis using r(1,2) by (simp add: eb_remove_if_def)
qed

text \<open>A buffer that holds what a filter left.\<close>

lemma filtered_buffer:
  fixes b :: "('m, 'x) event_buffer" and e :: "('m, 'x) event"
  assumes "eb_ok n b" and evs: "mset evs = image_mset f (filter_mset (\<lambda>e. \<not> q e) (mset (eb_events b)))"
  defines "b' \<equiv> \<lparr>eb_events = evs, eb_seen_event_types = types_of evs\<rparr>"
  shows "eb_ok n b'"
    and "has_event_type (event_type_of e) b' \<longleftrightarrow>
      (\<exists>e' \<in> set (eb_events b). \<not> q e' \<and> event_type_of (f e') = event_type_of e)"
proof -
  have "length evs = size (filter_mset (\<lambda>e. \<not> q e) (mset (eb_events b)))" using arg_cong [OF evs, of size] by simp
  also have "\<dots> \<le> length (eb_events b)" using size_filter_mset_lesseq [of "\<lambda>e. \<not> q e" "mset (eb_events b)"] by simp
  finally show ok: "eb_ok n b'" using assms(1) by (simp add: eb_ok_def b'_def)
  have "set evs = f ` {e \<in> set (eb_events b). \<not> q e}" using arg_cong [OF evs, of set_mset] by simp
  then show "has_event_type (event_type_of e) b' \<longleftrightarrow>
      (\<exists>e' \<in> set (eb_events b). \<not> q e' \<and> event_type_of (f e') = event_type_of e)"
    using has_event_type_iff [OF ok, of e] by (auto simp: b'_def)
qed

end
