(* ===== verification/Dispatcher.thy ===== *)
theory Dispatcher
  imports Event_Buffer "HOL-Library.Sublist"
begin

text \<open>
  Dispatching of items to the components downstream
  (\<^verbatim>\<open>lib/saluki-core/src/topology/interconnect/dispatcher.rs\<close>): fan-out to the senders of an output, some behind a
  gate that is read at run time, and the buffered dispatcher that batches items.

  A channel is third-party code. Its environment \<open>'e\<close> decides, for each send, whether the receiver is still there;
  a send that succeeds is recorded in a log, in order. Reading a gate is a step of the environment as well, so gates
  may change between any two reads. A \<^verbatim>\<open>Counter\<close> of the metrics counts modulo \<open>2 ^ 64\<close>; latencies are left out.

  The trait \<^verbatim>\<open>DispatchBuffer\<close> is a record of operations; the locale \<open>dispatch_buffer\<close> is its contract and is interpreted
  on the event buffer.
\<close>

section \<open>Data\<close>

record ('t, 'i) buffer_ops =
  db_default :: 't
  db_len :: "'t \<Rightarrow> nat"
  db_is_full :: "'t \<Rightarrow> bool"
  db_try_push :: "'i \<Rightarrow> 't \<Rightarrow> 't \<times> 'i option"
  db_item_count :: "'t \<Rightarrow> nat"

record ('s, 'g, 'e) net =
  net_send :: "'s \<Rightarrow> 'e \<Rightarrow> 'e \<times> bool"
  net_gate :: "'g \<Rightarrow> 'e \<Rightarrow> 'e \<times> bool"

record ('s, 't, 'e) world =
  w_env :: 'e
  w_log :: "('s \<times> 't) list"

record dispatcher_metrics =
  events_sent_total :: nat
  events_discarded_total :: nat
  events_elided_total :: nat

record ('s, 'g) gated_sender =
  gs_sender :: 's
  gs_gate :: "'g option"

record ('s, 'g) dispatch_target =
  dt_metrics :: dispatcher_metrics
  dt_senders :: "('s, 'g) gated_sender list"

datatype dispatch_error =
    DefaultOutputExists
  | OutputExists string
  | NoDefaultOutput
  | OutputMissing string
  | NoOutputNamed string
  | SendFailed
  | BufferFullAfterAcquisition
  | BufferRejectedItem

definition counter_add :: "nat \<Rightarrow> nat \<Rightarrow> nat" where
  "counter_add c n = (c + n) mod 2 ^ 64"

definition no_metrics :: dispatcher_metrics where
  "no_metrics = \<lparr>events_sent_total = 0, events_discarded_total = 0, events_elided_total = 0\<rparr>"

definition new_target :: "('s, 'g) dispatch_target" where
  "new_target = \<lparr>dt_metrics = no_metrics, dt_senders = []\<rparr>"

definition add_sender :: "'s \<Rightarrow> 'g option \<Rightarrow> ('s, 'g) dispatch_target \<Rightarrow> ('s, 'g) dispatch_target" where
  "add_sender sender gate t = t\<lparr>dt_senders := dt_senders t @ [\<lparr>gs_sender = sender, gs_gate = gate\<rparr>]\<rparr>"

definition usize_mul :: "nat \<Rightarrow> nat \<Rightarrow> nat option" where
  "usize_mul a b = (if a * b \<le> u64_max then Some (a * b) else None)"

section \<open>Sending to the senders of an output\<close>

definition channel_send :: "('s, 'g, 'e) net \<Rightarrow> 's \<Rightarrow> 't \<Rightarrow> ('s, 't, 'e) world \<Rightarrow> ('s, 't, 'e) world \<times> bool" where
  "channel_send net s item w =
     (let (e, ok) = net_send net s (w_env w)
      in (if ok then \<lparr>w_env = e, w_log = w_log w @ [(s, item)]\<rparr> else w\<lparr>w_env := e\<rparr>, ok))"

text \<open>No receiver is ever closed.\<close>

definition net_reliable :: "('s, 'g, 'e) net \<Rightarrow> bool" where
  "net_reliable net \<longleftrightarrow> (\<forall>s e. snd (net_send net s e))"

definition sender_is_active ::
    "('s, 'g, 'e) net \<Rightarrow> ('s, 'g) gated_sender \<Rightarrow> ('s, 't, 'e) world \<Rightarrow> ('s, 't, 'e) world \<times> bool" where
  "sender_is_active net g w =
     (case gs_gate g of
        None \<Rightarrow> (w, True)
      | Some gate \<Rightarrow> (let (e, active) = net_gate net gate (w_env w) in (w\<lparr>w_env := e\<rparr>, active)))"

fun position_active ::
    "('s, 'g, 'e) net \<Rightarrow> ('s, 'g) gated_sender list \<Rightarrow> ('s, 't, 'e) world \<Rightarrow> ('s, 't, 'e) world \<times> nat option" where
  "position_active net [] w = (w, None)"
| "position_active net (g # gs) w =
     (let (w', active) = sender_is_active net g w
      in if active then (w', Some 0)
         else (let (w'', r) = position_active net gs w' in (w'', map_option Suc r)))"

text \<open>The slice \<^verbatim>\<open>senders[start..]\<close> panics when \<open>start\<close> is past the end.\<close>

definition next_active_sender ::
    "('s, 'g, 'e) net \<Rightarrow> ('s, 'g) gated_sender list \<Rightarrow> nat \<Rightarrow> ('s, 't, 'e) world \<Rightarrow>
     (('s, 't, 'e) world \<times> nat option) option" where
  "next_active_sender net senders start w =
     (if start \<le> length senders
      then (let (w', r) = position_active net (drop start senders) w in Some (w', map_option ((+) start) r))
      else None)"

lemma position_active_less: "position_active net gs w = (w', Some i) \<Longrightarrow> i < length gs"
  by (induction net gs w arbitrary: w' i rule: position_active.induct) (fastforce split: prod.splits if_splits)+

lemma next_active_sender_bounds:
  assumes "next_active_sender net senders start w = Some (w', Some i)"
  shows "start \<le> i \<and> i < length senders"
proof -
  obtain v r where r: "position_active net (drop start senders) w = (v, r)" by fastforce
  then obtain k where "r = Some k" "i = start + k"
    using assms by (auto simp: next_active_sender_def split: if_splits)
  then show ?thesis using position_active_less [of net "drop start senders" w v k] r by simp
qed

text \<open>
  The body of the loop at an active sender \<open>index\<close>. The item is cloned while another active sender follows and
  taken for the last one, so \<open>item\<close> is an option as in the source.
\<close>

function send_loop ::
    "('s, 'g, 'e) net \<Rightarrow> ('s, 'g) gated_sender list \<Rightarrow> 't option \<Rightarrow> nat \<Rightarrow> nat \<Rightarrow> ('s, 't, 'e) world \<Rightarrow>
     (('s, 't, 'e) world \<times> (dispatch_error + nat)) option" where
  "send_loop net senders item index active_sends w =
     (case next_active_sender net senders (index + 1) w of
        None \<Rightarrow> None
      | Some (w1, next_active) \<Rightarrow>
          (case (case next_active of Some _ \<Rightarrow> (item, item) | None \<Rightarrow> (item, None)) of
             (None, _) \<Rightarrow> None
           | (Some it, item') \<Rightarrow>
               (let (w2, ok) = channel_send net (gs_sender (senders ! index)) it w1
                in if \<not> ok then Some (w2, Inl SendFailed)
                   else (case next_active of
                           None \<Rightarrow> Some (w2, Inr (active_sends + 1))
                         | Some i \<Rightarrow> send_loop net senders item' i (active_sends + 1) w2))))"
  by pat_completeness auto
termination
  by (relation "measure (\<lambda>(net, senders, item, index, active_sends, w). length senders - index)")
     (auto dest!: next_active_sender_bounds)

declare send_loop.simps [simp del]

definition target_send ::
    "('t \<Rightarrow> nat) \<Rightarrow> ('s, 'g, 'e) net \<Rightarrow> 't \<Rightarrow> ('s, 'g) dispatch_target \<Rightarrow> ('s, 't, 'e) world \<Rightarrow>
     (('s, 'g) dispatch_target \<times> ('s, 't, 'e) world \<times> (dispatch_error + unit)) option" where
  "target_send item_count net item t w =
     (if dt_senders t = []
      then Some (t\<lparr>dt_metrics := (dt_metrics t)
                   \<lparr>events_discarded_total := counter_add (events_discarded_total (dt_metrics t)) (item_count item)\<rparr>\<rparr>,
                 w, Inr ())
      else do {
        (w1, first) \<leftarrow> next_active_sender net (dt_senders t) 0 w;
        (w2, r) \<leftarrow> (case first of None \<Rightarrow> Some (w1, Inr 0) | Some i \<Rightarrow> send_loop net (dt_senders t) (Some item) i 0 w1);
        case r of
          Inl e \<Rightarrow> Some (t, w2, Inl e)
        | Inr active_sends \<Rightarrow> do {
            elided_sends \<leftarrow> u64_sub (length (dt_senders t)) active_sends;
            m1 \<leftarrow> (if elided_sends > 0
                   then do {
                     n \<leftarrow> usize_mul elided_sends (item_count item);
                     Some ((dt_metrics t)\<lparr>events_elided_total := counter_add (events_elided_total (dt_metrics t)) n\<rparr>)
                   }
                   else Some (dt_metrics t));
            m2 \<leftarrow> (if active_sends > 0
                   then do {
                     n \<leftarrow> usize_mul active_sends (item_count item);
                     Some (m1\<lparr>events_sent_total := counter_add (events_sent_total m1) n\<rparr>)
                   }
                   else Some m1);
            Some (t\<lparr>dt_metrics := m2\<rparr>, w2, Inr ())
          }
      })"

section \<open>The buffered dispatcher\<close>

record ('t, 's, 'g) buffered_dispatcher =
  bd_flushed_len :: nat
  bd_buffer :: "'t option"
  bd_target :: "('s, 'g) dispatch_target"

definition bd_new :: "('s, 'g) dispatch_target \<Rightarrow> ('t, 's, 'g) buffered_dispatcher" where
  "bd_new t = \<lparr>bd_flushed_len = 0, bd_buffer = None, bd_target = t\<rparr>"

definition try_flush_buffer ::
    "('t, 'i) buffer_ops \<Rightarrow> ('s, 'g, 'e) net \<Rightarrow> 't \<Rightarrow> ('t, 's, 'g) buffered_dispatcher \<Rightarrow> ('s, 't, 'e) world \<Rightarrow>
     (('t, 's, 'g) buffered_dispatcher \<times> ('s, 't, 'e) world \<times> (dispatch_error + unit)) option" where
  "try_flush_buffer ops net buffer d w =
     (if db_len ops buffer > 0
      then do {
        (t, w', r) \<leftarrow> target_send (db_item_count ops) net buffer (bd_target d) w;
        Some (d\<lparr>bd_target := t\<rparr>, w', r)
      }
      else Some (d, w, Inr ()))"

definition bd_push ::
    "('t, 'i) buffer_ops \<Rightarrow> ('s, 'g, 'e) net \<Rightarrow> 'i \<Rightarrow> ('t, 's, 'g) buffered_dispatcher \<Rightarrow> ('s, 't, 'e) world \<Rightarrow>
     (('t, 's, 'g) buffered_dispatcher \<times> ('s, 't, 'e) world \<times> (dispatch_error + unit)) option" where
  "bd_push ops net item d w = do {
     (d1, w1, r) \<leftarrow>
       (case bd_buffer d of
          Some old_buffer \<Rightarrow>
            (if db_is_full ops old_buffer then try_flush_buffer ops net old_buffer (d\<lparr>bd_buffer := None\<rparr>) w
             else Some (d, w, Inr ()))
        | None \<Rightarrow> Some (d, w, Inr ()));
     case r of
       Inl e \<Rightarrow> Some (d1, w1, Inl e)
     | Inr _ \<Rightarrow>
         (let buffer = (case bd_buffer d1 of None \<Rightarrow> db_default ops | Some b \<Rightarrow> b)
          in case db_try_push ops item buffer of
               (b, Some _) \<Rightarrow> Some (d1\<lparr>bd_buffer := Some b\<rparr>, w1, Inl BufferFullAfterAcquisition)
             | (b, None) \<Rightarrow> do {
                 n \<leftarrow> u64_add (bd_flushed_len d1) 1;
                 Some (d1\<lparr>bd_buffer := Some b, bd_flushed_len := n\<rparr>, w1, Inr ())
               })
   }"

definition bd_flush ::
    "('t, 'i) buffer_ops \<Rightarrow> ('s, 'g, 'e) net \<Rightarrow> ('t, 's, 'g) buffered_dispatcher \<Rightarrow> ('s, 't, 'e) world \<Rightarrow>
     (('s, 'g) dispatch_target \<times> ('s, 't, 'e) world \<times> (dispatch_error + nat)) option" where
  "bd_flush ops net d w = do {
     (d1, w1, r) \<leftarrow>
       (case bd_buffer d of
          Some old_buffer \<Rightarrow> try_flush_buffer ops net old_buffer (d\<lparr>bd_buffer := None\<rparr>) w
        | None \<Rightarrow> Some (d, w, Inr ()));
     (let t = bd_target d1; m = dt_metrics t
      in case r of
           Inl e \<Rightarrow> Some (t, w1, Inl e)
         | Inr _ \<Rightarrow>
             Some (t\<lparr>dt_metrics := m\<lparr>events_sent_total := counter_add (events_sent_total m) (bd_flushed_len d1)\<rparr>\<rparr>,
                   w1, Inr (bd_flushed_len d1)))
   }"

fun bd_send_all ::
    "('t, 'i) buffer_ops \<Rightarrow> ('s, 'g, 'e) net \<Rightarrow> 'i list \<Rightarrow> ('t, 's, 'g) buffered_dispatcher \<Rightarrow> ('s, 't, 'e) world \<Rightarrow>
     (('s, 'g) dispatch_target \<times> ('s, 't, 'e) world \<times> (dispatch_error + nat)) option" where
  "bd_send_all ops net [] d w = bd_flush ops net d w"
| "bd_send_all ops net (item # items) d w = do {
     (d', w', r) \<leftarrow> bd_push ops net item d w;
     case r of
       Inl e \<Rightarrow> Some (bd_target d', w', Inl e)
     | Inr _ \<Rightarrow> bd_send_all ops net items d' w'
   }"

section \<open>The dispatcher\<close>

record ('s, 'g) dispatcher =
  ds_default :: "('s, 'g) dispatch_target option"
  ds_targets :: "(string, ('s, 'g) dispatch_target) hash_map"

definition dispatcher_new :: "('s, 'g) dispatcher" where
  "dispatcher_new = \<lparr>ds_default = None, ds_targets = []\<rparr>"

definition add_output :: "output_name \<Rightarrow> ('s, 'g) dispatcher \<Rightarrow> dispatch_error + ('s, 'g) dispatcher" where
  "add_output out d =
     (case out of
        OutputDefault \<Rightarrow>
          (if ds_default d \<noteq> None then Inl DefaultOutputExists else Inr (d\<lparr>ds_default := Some new_target\<rparr>))
      | OutputGiven name \<Rightarrow>
          (if hm_contains (ds_targets d) name then Inl (OutputExists name)
           else Inr (d\<lparr>ds_targets := hm_insert name new_target (ds_targets d)\<rparr>)))"

definition attach_gated_sender_to_output ::
    "output_name \<Rightarrow> 's \<Rightarrow> 'g option \<Rightarrow> ('s, 'g) dispatcher \<Rightarrow> dispatch_error + ('s, 'g) dispatcher" where
  "attach_gated_sender_to_output out sender gate d =
     (case out of
        OutputDefault \<Rightarrow>
          (case ds_default d of
             None \<Rightarrow> Inl NoDefaultOutput
           | Some t \<Rightarrow> Inr (d\<lparr>ds_default := Some (add_sender sender gate t)\<rparr>))
      | OutputGiven name \<Rightarrow>
          (case map_of (ds_targets d) name of
             None \<Rightarrow> Inl (OutputMissing name)
           | Some t \<Rightarrow> Inr (d\<lparr>ds_targets := hm_insert name (add_sender sender gate t) (ds_targets d)\<rparr>)))"

definition attach_sender_to_output ::
    "output_name \<Rightarrow> 's \<Rightarrow> ('s, 'g) dispatcher \<Rightarrow> dispatch_error + ('s, 'g) dispatcher" where
  "attach_sender_to_output out sender d = attach_gated_sender_to_output out sender None d"

definition get_default_output :: "('s, 'g) dispatcher \<Rightarrow> dispatch_error + ('s, 'g) dispatch_target" where
  "get_default_output d = (case ds_default d of None \<Rightarrow> Inl NoDefaultOutput | Some t \<Rightarrow> Inr t)"

definition get_named_output :: "string \<Rightarrow> ('s, 'g) dispatcher \<Rightarrow> dispatch_error + ('s, 'g) dispatch_target" where
  "get_named_output name d =
     (case map_of (ds_targets d) name of None \<Rightarrow> Inl (NoOutputNamed name) | Some t \<Rightarrow> Inr t)"

definition is_default_output_connected :: "('s, 'g) dispatcher \<Rightarrow> bool" where
  "is_default_output_connected d =
     (case ds_default d of None \<Rightarrow> False | Some t \<Rightarrow> dt_senders t \<noteq> [])"

definition is_named_output_connected :: "string \<Rightarrow> ('s, 'g) dispatcher \<Rightarrow> bool" where
  "is_named_output_connected name d =
     (case map_of (ds_targets d) name of None \<Rightarrow> False | Some t \<Rightarrow> dt_senders t \<noteq> [])"

text \<open>A target is shared with the dispatcher, so what \<open>target_send\<close> counts is written back.\<close>

definition put_output :: "string option \<Rightarrow> ('s, 'g) dispatch_target \<Rightarrow> ('s, 'g) dispatcher \<Rightarrow> ('s, 'g) dispatcher" where
  "put_output out t d =
     (case out of
        None \<Rightarrow> d\<lparr>ds_default := Some t\<rparr>
      | Some name \<Rightarrow> d\<lparr>ds_targets := hm_insert name t (ds_targets d)\<rparr>)"

definition dispatch_inner ::
    "('t \<Rightarrow> nat) \<Rightarrow> ('s, 'g, 'e) net \<Rightarrow> string option \<Rightarrow> 't \<Rightarrow> ('s, 'g) dispatcher \<Rightarrow> ('s, 't, 'e) world \<Rightarrow>
     (('s, 'g) dispatcher \<times> ('s, 't, 'e) world \<times> (dispatch_error + unit)) option" where
  "dispatch_inner item_count net out item d w =
     (case (case out of None \<Rightarrow> get_default_output d | Some name \<Rightarrow> get_named_output name d) of
        Inl e \<Rightarrow> Some (d, w, Inl e)
      | Inr t \<Rightarrow> do {
          (t', w', r) \<leftarrow> target_send item_count net item t w;
          Some (put_output out t' d, w', r)
        })"

definition buffered ::
    "string option \<Rightarrow> ('s, 'g) dispatcher \<Rightarrow> dispatch_error + ('t, 's, 'g) buffered_dispatcher" where
  "buffered out d =
     map_sum id bd_new (case out of None \<Rightarrow> get_default_output d | Some name \<Rightarrow> get_named_output name d)"

definition dispatch_one_inner ::
    "('t, 'i) buffer_ops \<Rightarrow> ('s, 'g, 'e) net \<Rightarrow> string option \<Rightarrow> 'i \<Rightarrow> ('s, 'g) dispatcher \<Rightarrow> ('s, 't, 'e) world \<Rightarrow>
     (('s, 'g) dispatcher \<times> ('s, 't, 'e) world \<times> (dispatch_error + unit)) option" where
  "dispatch_one_inner ops net out item d w =
     (case (case out of None \<Rightarrow> get_default_output d | Some name \<Rightarrow> get_named_output name d) of
        Inl e \<Rightarrow> Some (d, w, Inl e)
      | Inr t \<Rightarrow>
          (case db_try_push ops item (db_default ops) of
             (_, Some _) \<Rightarrow> Some (d, w, Inl BufferRejectedItem)
           | (buffer, None) \<Rightarrow> do {
               (t', w', r) \<leftarrow> target_send (db_item_count ops) net buffer t w;
               Some (put_output out t' d, w', r)
             }))"

section \<open>What a send does\<close>

definition delivered :: "'s \<Rightarrow> ('s, 't, 'e) world \<Rightarrow> 't list" where
  "delivered s w = map snd (filter (\<lambda>p. fst p = s) (w_log w))"

lemma sender_is_active_log:
  "sender_is_active net g w = (w', a) \<Longrightarrow> w_log w' = w_log w \<and> (gs_gate g = None \<longrightarrow> a)"
  by (auto simp: sender_is_active_def split: option.splits prod.splits)

lemma position_active_spec:
  "position_active net gs w = (w', r) \<Longrightarrow>
   w_log w' = w_log w \<and> (\<forall>j < length gs. gs_gate (gs ! j) = None \<longrightarrow> (\<exists>i \<le> j. r = Some i))"
proof (induction net gs w arbitrary: w' r rule: position_active.induct)
  case (2 net g gs w)
  obtain w1 a where a: "sender_is_active net g w = (w1, a)" by fastforce
  obtain w2 r2 where r2: "position_active net gs w1 = (w2, r2)" by fastforce
  show ?case
  proof (cases a)
    case True
    then show ?thesis using "2.prems" a sender_is_active_log [OF a] by auto
  next
    case False
    then have res: "w' = w2" "r = map_option Suc r2" using "2.prems" a r2 by auto
    have IH: "w_log w2 = w_log w1" "\<And>j. j < length gs \<Longrightarrow> gs_gate (gs ! j) = None \<Longrightarrow> \<exists>i \<le> j. r2 = Some i"
      using "2.IH" [OF a [symmetric] refl] False r2 by auto
    have "gs_gate g \<noteq> None" using False sender_is_active_log [OF a] by auto
    then have "\<exists>i \<le> j. r = Some i" if "j < length (g # gs)" "gs_gate ((g # gs) ! j) = None" for j
      using that IH(2) [of "j - 1"] by (cases j) (auto simp: res)
    then show ?thesis using IH(1) sender_is_active_log [OF a] by (simp add: res)
  qed
qed simp

lemma next_active_sender_spec:
  assumes "start \<le> length senders"
  obtains w' r where "next_active_sender net senders start w = Some (w', r)" "w_log w' = w_log w"
    "\<And>j. start \<le> j \<Longrightarrow> j < length senders \<Longrightarrow> gs_gate (senders ! j) = None \<Longrightarrow> \<exists>i \<le> j. r = Some i"
    "\<And>i. r = Some i \<Longrightarrow> start \<le> i \<and> i < length senders"
proof -
  obtain w' q where q: "position_active net (drop start senders) w = (w', q)" by fastforce
  let ?r = "map_option ((+) start) q"
  have n: "next_active_sender net senders start w = Some (w', ?r)"
    using assms by (simp add: next_active_sender_def q)
  note pos = position_active_spec [OF q]
  show thesis
  proof (rule that [OF n])
    show "w_log w' = w_log w" using pos by simp
    show "\<exists>i \<le> j. ?r = Some i" if j: "start \<le> j" "j < length senders" "gs_gate (senders ! j) = None" for j
    proof -
      have "j - start < length senders - start" using j by simp
      then obtain i where "i \<le> j - start" "q = Some i"
        using conjunct2 [OF pos, rule_format, of "j - start"] j by auto
      then show ?thesis using j by (intro exI [of _ "start + i"]) auto
    qed
    show "start \<le> i \<and> i < length senders" if "?r = Some i" for i
      using next_active_sender_bounds [of net senders start w w' i] n that by simp
  qed
qed

text \<open>
  The senders an item goes to are given by their indices, in order. An error stops the loop; without one, every
  ungated sender is among them.
\<close>

definition sent_to ::
    "('s, 'g) gated_sender list \<Rightarrow> 't \<Rightarrow> nat list \<Rightarrow> ('s, 't, 'e) world \<Rightarrow> ('s, 't, 'e) world \<Rightarrow> bool" where
  "sent_to senders item idxs w w' \<longleftrightarrow>
     w_log w' = w_log w @ map (\<lambda>i. (gs_sender (senders ! i), item)) idxs \<and> sorted_wrt (<) idxs \<and>
     (\<forall>i \<in> set idxs. i < length senders)"

lemma send_loop_spec:
  assumes "index < length senders"
  shows "\<exists>w' r idxs. send_loop net senders (Some item) index n w = Some (w', r) \<and>
     sent_to senders item idxs w w' \<and> (\<forall>i \<in> set idxs. index \<le> i) \<and>
     (\<forall>e. r = Inl e \<longrightarrow> e = SendFailed \<and> \<not> net_reliable net) \<and>
     (\<forall>m. r = Inr m \<longrightarrow> m = n + length idxs \<and> index \<in> set idxs \<and>
        (\<forall>j. index \<le> j \<longrightarrow> j < length senders \<longrightarrow> gs_gate (senders ! j) = None \<longrightarrow> j \<in> set idxs))"
  using assms
proof (induction "length senders - index" arbitrary: index n w rule: less_induct)
  case less
  let ?s = "gs_sender (senders ! index)"
  obtain w1 nx where nx: "next_active_sender net senders (index + 1) w = Some (w1, nx)" "w_log w1 = w_log w"
      "\<And>j. index + 1 \<le> j \<Longrightarrow> j < length senders \<Longrightarrow> gs_gate (senders ! j) = None \<Longrightarrow> \<exists>i \<le> j. nx = Some i"
      "\<And>i. nx = Some i \<Longrightarrow> index + 1 \<le> i \<and> i < length senders"
    using next_active_sender_spec [of "index + 1" senders net w] less.prems by auto
  obtain w2 ok where ok: "channel_send net ?s item w1 = (w2, ok)" by fastforce
  then have log: "w_log w2 = w_log w @ (if ok then [(?s, item)] else [])"
    using nx(2) by (auto simp: channel_send_def split: prod.splits if_splits)
  note unfold = send_loop.simps [of net senders "Some item" index n w]
  consider (fail) "\<not> ok" | (one) "ok" "nx = None" | (more) i where "ok" "nx = Some i" by (cases nx) auto
  then show ?case
  proof cases
    case fail
    then have "send_loop net senders (Some item) index n w = Some (w2, Inl SendFailed)"
      using nx(1) ok by (cases nx) (simp_all add: unfold)
    moreover have "\<not> net_reliable net"
      using fail ok by (auto simp: channel_send_def net_reliable_def split: prod.splits) (metis snd_conv)
    ultimately show ?thesis using log fail by (intro exI [of _ w2] exI [of _ "[]"]) (auto simp: sent_to_def)
  next
    case one
    have "j \<le> index" if "j < length senders" "gs_gate (senders ! j) = None" for j
      using nx(3) [of j] one(2) that by fastforce
    then show ?thesis using one nx(1) ok log less.prems
      by (intro exI [of _ w2] exI [of _ "Inr (n + 1)"] exI [of _ "[index]"])
         (auto simp: sent_to_def unfold intro: le_antisym)
  next
    case more
    have i: "index < i" "i < length senders" using nx(4) more by auto
    have lt: "length senders - i < length senders - index" using i by simp
    obtain w' r idxs where IH: "send_loop net senders (Some item) i (n + 1) w2 = Some (w', r)"
        "sent_to senders item idxs w2 w'" "\<And>k. k \<in> set idxs \<Longrightarrow> i \<le> k" "\<And>e. r = Inl e \<Longrightarrow> e = SendFailed \<and> \<not> net_reliable net"
        "\<And>m. r = Inr m \<Longrightarrow> m = n + 1 + length idxs"
        "\<And>m j. r = Inr m \<Longrightarrow> i \<le> j \<Longrightarrow> j < length senders \<Longrightarrow> gs_gate (senders ! j) = None \<Longrightarrow> j \<in> set idxs"
      using less.hyps [OF lt i(2), of "n + 1" w2] by blast
    have "j = index \<or> i \<le> j" if "index \<le> j" "j < length senders" "gs_gate (senders ! j) = None" for j
      using nx(3) [of j] more(2) that by fastforce
    then have cover: "j \<in> set (index # idxs)"
      if "r = Inr m" "index \<le> j" "j < length senders" "gs_gate (senders ! j) = None" for j m
      using IH(6) that by auto
    have "sent_to senders item (index # idxs) w w'"
      using IH(2,3) i log more(1) by (auto simp: sent_to_def dest!: IH(3))
    moreover have "send_loop net senders (Some item) index n w = Some (w', r)"
      using IH(1) more nx(1) ok by (simp add: unfold)
    moreover have "index \<le> k" if "k \<in> set (index # idxs)" for k using that IH(3) i by fastforce
    ultimately show ?thesis using IH(4,5) cover
      by (intro exI [of _ w'] exI [of _ r] exI [of _ "index # idxs"]) auto
  qed
qed

lemma target_send_spec:
  assumes "length (dt_senders t) * item_count item \<le> u64_max"
  shows "\<exists>t' w' r idxs. target_send item_count net item t w = Some (t', w', r) \<and>
     sent_to (dt_senders t) item idxs w w' \<and> dt_senders t' = dt_senders t \<and> (\<forall>e. r = Inl e \<longrightarrow> e = SendFailed \<and> \<not> net_reliable net) \<and>
     (r = Inr () \<longrightarrow>
        (\<forall>j. j < length (dt_senders t) \<longrightarrow> gs_gate (dt_senders t ! j) = None \<longrightarrow> j \<in> set idxs) \<and>
        events_sent_total (dt_metrics t') =
          (if idxs = [] then events_sent_total (dt_metrics t)
           else counter_add (events_sent_total (dt_metrics t)) (length idxs * item_count item)))"
proof (cases "dt_senders t = []")
  case True
  then show ?thesis by (auto simp: target_send_def sent_to_def)
next
  case False
  let ?s = "dt_senders t"
  obtain w1 nx where nx: "next_active_sender net ?s 0 w = Some (w1, nx)" "w_log w1 = w_log w"
      "\<And>j. j < length ?s \<Longrightarrow> gs_gate (?s ! j) = None \<Longrightarrow> \<exists>i \<le> j. nx = Some i" "\<And>i. nx = Some i \<Longrightarrow> i < length ?s"
    using next_active_sender_spec [of 0 ?s net w] by auto
  have "\<exists>w' r idxs. (case nx of None \<Rightarrow> Some (w1, Inr 0) | Some i \<Rightarrow> send_loop net ?s (Some item) i 0 w1) = Some (w', r) \<and>
      sent_to ?s item idxs w w' \<and> (\<forall>e. r = Inl e \<longrightarrow> e = SendFailed \<and> \<not> net_reliable net) \<and>
      (\<forall>m. r = Inr m \<longrightarrow> m = length idxs \<and>
         (\<forall>j. j < length ?s \<longrightarrow> gs_gate (?s ! j) = None \<longrightarrow> j \<in> set idxs))"
  proof (cases nx)
    case None
    then show ?thesis using nx(2,3) by (intro exI [of _ w1] exI [of _ "Inr 0"] exI [of _ "[]"]) (auto simp: sent_to_def)
  next
    case (Some i)
    have below: "i \<le> j" if "j < length ?s" "gs_gate (?s ! j) = None" for j using nx(3) [OF that] Some by auto
    obtain w' r idxs where "send_loop net ?s (Some item) i 0 w1 = Some (w', r)" "sent_to ?s item idxs w1 w'"
        "\<forall>e. r = Inl e \<longrightarrow> e = SendFailed \<and> \<not> net_reliable net"
        "\<forall>m. r = Inr m \<longrightarrow> m = 0 + length idxs \<and> i \<in> set idxs \<and>
          (\<forall>j. i \<le> j \<longrightarrow> j < length ?s \<longrightarrow> gs_gate (?s ! j) = None \<longrightarrow> j \<in> set idxs)"
      using send_loop_spec [OF nx(4) [OF Some], of net item 0 w1] by blast
    then show ?thesis using Some below nx(2)
      by (intro exI [of _ w'] exI [of _ r] exI [of _ idxs]) (auto simp: sent_to_def)
  qed
  then obtain w' r idxs where r:
      "(case nx of None \<Rightarrow> Some (w1, Inr 0) | Some i \<Rightarrow> send_loop net ?s (Some item) i 0 w1) = Some (w', r)"
      "sent_to ?s item idxs w w'" "\<And>e. r = Inl e \<Longrightarrow> e = SendFailed \<and> \<not> net_reliable net" "\<And>m. r = Inr m \<Longrightarrow> m = length idxs"
      "\<And>m j. r = Inr m \<Longrightarrow> j < length ?s \<Longrightarrow> gs_gate (?s ! j) = None \<Longrightarrow> j \<in> set idxs"
    by blast
  have "distinct idxs" "set idxs \<subseteq> {..<length ?s}"
    using r(2) strict_sorted_iff [of idxs] by (auto simp: sent_to_def)
  then have len: "length idxs \<le> length ?s"
    using card_mono [of "{..<length ?s}" "set idxs"] by (simp add: distinct_card)
  then have fits: "length idxs * item_count item \<le> u64_max" "(length ?s - length idxs) * item_count item \<le> u64_max"
    using assms by (meson le_trans mult_le_mono1 diff_le_self)+
  show ?thesis
  proof (cases r)
    case (Inl e)
    then show ?thesis using False nx(1) r
      by (intro exI [of _ t] exI [of _ w'] exI [of _ "Inl e"] exI [of _ idxs]) (auto simp: target_send_def)
  next
    case (Inr m)
    then have m: "m = length idxs" by (rule r(4))
    have "\<exists>t'. target_send item_count net item t w = Some (t', w', Inr ()) \<and> dt_senders t' = ?s \<and>
        events_sent_total (dt_metrics t') =
          (if idxs = [] then events_sent_total (dt_metrics t)
           else counter_add (events_sent_total (dt_metrics t)) (length idxs * item_count item))"
      using fits len assms by (simp add: target_send_def False nx(1) r(1) Inr m usize_mul_def u64_sub_def)
    then show ?thesis using r(2) r(5) [OF Inr] by blast
  qed
qed

lemma sent_to_delivered:
  assumes "sent_to senders item idxs w w'" "distinct (map gs_sender senders)" "j < length senders"
  shows "delivered (gs_sender (senders ! j)) w' =
     delivered (gs_sender (senders ! j)) w @ (if j \<in> set idxs then [item] else [])"
proof -
  have eq: "gs_sender (senders ! i) = gs_sender (senders ! j) \<longleftrightarrow> i = j" if "i \<in> set idxs" for i
    using assms that distinct_conv_nth [of "map gs_sender senders"] by (auto simp: sent_to_def)
  have "distinct idxs" using assms(1) strict_sorted_iff [of idxs] by (simp add: sent_to_def)
  then have one: "filter (\<lambda>i. i = j) idxs = (if j \<in> set idxs then [j] else [])"
    by (induction idxs) (auto simp: filter_empty_conv)
  have "filter (\<lambda>i. gs_sender (senders ! i) = gs_sender (senders ! j)) idxs = filter (\<lambda>i. i = j) idxs"
    by (rule filter_cong) (simp_all add: eq)
  then show ?thesis using assms(1) one by (simp add: delivered_def sent_to_def filter_map o_def)
qed

section \<open>What the receivers get\<close>

text \<open>
  The sender \<open>s\<close> got, since \<open>w0\<close>, non-empty batches that hold the items \<open>xs\<close>. A gated sender may miss batches; an
  ungated one gets everything that was flushed, or a prefix of the items when a send failed.
\<close>

definition received ::
    "('t \<Rightarrow> 'i list) \<Rightarrow> ('t \<Rightarrow> bool) \<Rightarrow> ('s, 't, 'e) world \<Rightarrow> ('s, 't, 'e) world \<Rightarrow> 's \<Rightarrow> 'i list \<Rightarrow> bool" where
  "received contents ok w0 w s xs \<longleftrightarrow>
     (\<exists>bs. delivered s w = delivered s w0 @ bs \<and> concat (map contents bs) = xs \<and>
        (\<forall>b \<in> set bs. ok b \<and> contents b \<noteq> []))"

definition reached ::
    "('t \<Rightarrow> 'i list) \<Rightarrow> ('t \<Rightarrow> bool) \<Rightarrow> ('s, 't, 'e) world \<Rightarrow> ('s, 't, 'e) world \<Rightarrow> ('s, 'g) gated_sender list \<Rightarrow>
     'i list \<Rightarrow> bool" where
  "reached contents ok w0 w senders flushed \<longleftrightarrow>
     (\<forall>g \<in> set senders. \<exists>xs. received contents ok w0 w (gs_sender g) xs \<and> subseq xs flushed \<and>
        (gs_gate g = None \<longrightarrow> xs = flushed))"

definition partly_reached ::
    "('t \<Rightarrow> 'i list) \<Rightarrow> ('t \<Rightarrow> bool) \<Rightarrow> ('s, 't, 'e) world \<Rightarrow> ('s, 't, 'e) world \<Rightarrow> ('s, 'g) gated_sender list \<Rightarrow>
     'i list \<Rightarrow> bool" where
  "partly_reached contents ok w0 w senders items \<longleftrightarrow>
     (\<forall>g \<in> set senders. \<exists>xs. received contents ok w0 w (gs_sender g) xs \<and> subseq xs items \<and>
        (gs_gate g = None \<longrightarrow> prefix xs items))"

lemma received_refl: "received contents ok w w s []"
  by (simp add: received_def)

lemma received_sent:
  assumes "received contents ok w0 w (gs_sender (senders ! j)) xs" "sent_to senders b idxs w w'"
    "distinct (map gs_sender senders)" "j < length senders" "ok b" "contents b \<noteq> []"
  shows "received contents ok w0 w' (gs_sender (senders ! j)) (xs @ (if j \<in> set idxs then contents b else []))"
  using assms(1,5,6) sent_to_delivered [OF assms(2,3,4)] by (auto simp: received_def)

lemma reached_each:
  assumes r: "reached contents ok w0 w senders flushed" and s: "sent_to senders b idxs w w'"
    "distinct (map gs_sender senders)" "ok b" "contents b \<noteq> []" and g: "g \<in> set senders"
  obtains j xs where "j < length senders" "g = senders ! j"
    "received contents ok w0 w' (gs_sender g) (xs @ (if j \<in> set idxs then contents b else []))"
    "subseq xs flushed" "gs_gate g = None \<longrightarrow> xs = flushed"
proof -
  obtain j where j: "j < length senders" "g = senders ! j" using g by (auto simp: in_set_conv_nth)
  obtain xs where xs: "received contents ok w0 w (gs_sender g) xs" "subseq xs flushed"
      "gs_gate g = None \<longrightarrow> xs = flushed"
    using r g unfolding reached_def by blast
  show thesis
    by (rule that [OF j _ xs(2,3)])
       (use received_sent [where contents = contents and ok = ok, OF xs(1) [unfolded j(2)] s(1,2) j(1) s(3,4)] j(2) in simp)
qed

lemma subseq_append_if:
  assumes "subseq xs ys"
  shows "subseq (xs @ (if c then zs else [])) (ys @ zs @ rest)"
proof (cases c)
  case True
  then show ?thesis using list_emb_append_mono [OF assms prefix_imp_subseq [of zs "zs @ rest"]] by simp
next
  case False
  then show ?thesis using list_emb_append_mono [OF assms list_emb_Nil] by simp
qed

lemma reached_sent:
  assumes "reached contents ok w0 w senders flushed" "sent_to senders b idxs w w'"
    "distinct (map gs_sender senders)" "ok b" "contents b \<noteq> []"
    and all: "\<And>j. j < length senders \<Longrightarrow> gs_gate (senders ! j) = None \<Longrightarrow> j \<in> set idxs"
  shows "reached contents ok w0 w' senders (flushed @ contents b)"
  unfolding reached_def
proof
  fix g assume "g \<in> set senders"
  from reached_each [OF assms(1-5) this] obtain j xs where j: "j < length senders" "g = senders ! j"
      "received contents ok w0 w' (gs_sender g) (xs @ (if j \<in> set idxs then contents b else []))"
      "subseq xs flushed" "gs_gate g = None \<longrightarrow> xs = flushed" .
  moreover have "subseq (xs @ (if j \<in> set idxs then contents b else [])) (flushed @ contents b)"
    using subseq_append_if [OF j(4), of _ "contents b" "[]"] by simp
  ultimately show "\<exists>xs. received contents ok w0 w' (gs_sender g) xs \<and> subseq xs (flushed @ contents b) \<and>
      (gs_gate g = None \<longrightarrow> xs = flushed @ contents b)" using all by fastforce
qed

lemma partly_reached_sent:
  assumes "reached contents ok w0 w senders flushed" "sent_to senders b idxs w w'"
    "distinct (map gs_sender senders)" "ok b" "contents b \<noteq> []"
  shows "partly_reached contents ok w0 w' senders (flushed @ contents b @ rest)"
  unfolding partly_reached_def
proof
  fix g assume "g \<in> set senders"
  from reached_each [OF assms this] obtain j xs where j: "j < length senders" "g = senders ! j"
      "received contents ok w0 w' (gs_sender g) (xs @ (if j \<in> set idxs then contents b else []))"
      "subseq xs flushed" "gs_gate g = None \<longrightarrow> xs = flushed" .
  let ?xs = "xs @ (if j \<in> set idxs then contents b else [])"
  have "subseq ?xs (flushed @ contents b @ rest)"
    by (rule subseq_append_if [OF j(4)])
  moreover have "gs_gate g = None \<longrightarrow> prefix ?xs (flushed @ contents b @ rest)" using j(5) by auto
  ultimately show "\<exists>xs. received contents ok w0 w' (gs_sender g) xs \<and> subseq xs (flushed @ contents b @ rest) \<and>
      (gs_gate g = None \<longrightarrow> prefix xs (flushed @ contents b @ rest))"
    using j(3) by (intro exI [of _ ?xs] conjI)
qed

text \<open>How far the counter of sent events has moved while \<open>n\<close> items were flushed, when no sender is gated.\<close>

definition sent_counted :: "('s, 'g) dispatch_target \<Rightarrow> ('s, 'g) dispatch_target \<Rightarrow> nat \<Rightarrow> bool" where
  "sent_counted t0 t n \<longleftrightarrow>
     ((\<forall>g \<in> set (dt_senders t0). gs_gate g = None) \<longrightarrow>
        events_sent_total (dt_metrics t) mod 2 ^ 64 =
        (events_sent_total (dt_metrics t0) + length (dt_senders t0) * n) mod 2 ^ 64)"

lemma sent_counted_step:
  assumes c: "sent_counted t0 t n" and s: "sent_to (dt_senders t0) b idxs w w'"
    and all: "\<And>j. j < length (dt_senders t0) \<Longrightarrow> gs_gate (dt_senders t0 ! j) = None \<Longrightarrow> j \<in> set idxs"
    and m: "events_sent_total (dt_metrics t') =
      (if idxs = [] then events_sent_total (dt_metrics t) else counter_add (events_sent_total (dt_metrics t)) (length idxs * k))"
  shows "sent_counted t0 t' (n + k)"
  unfolding sent_counted_def
proof
  assume g: "\<forall>g \<in> set (dt_senders t0). gs_gate g = None"
  have "distinct idxs" using s strict_sorted_iff [of idxs] by (simp add: sent_to_def)
  moreover have "set idxs = {..<length (dt_senders t0)}" using g all s by (auto simp: sent_to_def)
  ultimately have l: "length idxs = length (dt_senders t0)" using distinct_card [of idxs] by simp
  have "events_sent_total (dt_metrics t') mod 2 ^ 64 = (events_sent_total (dt_metrics t) mod 2 ^ 64 + length idxs * k) mod 2 ^ 64"
    unfolding m counter_add_def by (simp add: mod_add_left_eq)
  also have "events_sent_total (dt_metrics t) mod 2 ^ 64 =
      (events_sent_total (dt_metrics t0) + length (dt_senders t0) * n) mod 2 ^ 64"
    using c g by (simp add: sent_counted_def)
  finally show "events_sent_total (dt_metrics t') mod 2 ^ 64 =
      (events_sent_total (dt_metrics t0) + length (dt_senders t0) * (n + k)) mod 2 ^ 64"
    by (simp only: l mod_add_left_eq distrib_left add.assoc)
qed

section \<open>The contract of a dispatch buffer\<close>

text \<open>After the items \<open>items\<close> were pushed: those before the current buffer were sent.\<close>

definition sending ::
    "('t \<Rightarrow> 'i list) \<Rightarrow> ('t \<Rightarrow> bool) \<Rightarrow> ('s, 't, 'e) world \<Rightarrow> ('s, 'g) dispatch_target \<Rightarrow>
     ('t, 's, 'g) buffered_dispatcher \<Rightarrow> ('s, 't, 'e) world \<Rightarrow> 'i list \<Rightarrow> bool" where
  "sending contents ok w0 t0 d w items \<longleftrightarrow>
     (\<exists>flushed cur. items = flushed @ cur \<and>
        (case bd_buffer d of None \<Rightarrow> cur = [] | Some b \<Rightarrow> ok b \<and> contents b = cur) \<and>
        bd_flushed_len d = length items \<and> dt_senders (bd_target d) = dt_senders t0 \<and>
        reached contents ok w0 w (dt_senders t0) flushed \<and> sent_counted t0 (bd_target d) (length flushed))"

locale dispatch_buffer =
  fixes ops :: "('t, 'i) buffer_ops" and contents :: "'t \<Rightarrow> 'i list" and ok :: "'t \<Rightarrow> bool" and capacity :: nat
  assumes positive: "0 < capacity"
    and default_ok: "ok (db_default ops)" "contents (db_default ops) = []"
    and len: "ok b \<Longrightarrow> db_len ops b = length (contents b)"
    and item_count: "ok b \<Longrightarrow> db_item_count ops b = length (contents b)"
    and within: "ok b \<Longrightarrow> length (contents b) \<le> capacity"
    and is_full: "ok b \<Longrightarrow> db_is_full ops b \<longleftrightarrow> length (contents b) = capacity"
    and try_push: "ok b \<Longrightarrow> length (contents b) < capacity \<Longrightarrow>
      \<exists>b'. db_try_push ops item b = (b', None) \<and> ok b' \<and> contents b' = contents b @ [item]"
begin

lemma flush_buffer:
  assumes s: "sending contents ok w0 t0 d w items" and b: "bd_buffer d = Some b"
    and fits: "length (dt_senders t0) * capacity \<le> u64_max" and dist: "distinct (map gs_sender (dt_senders t0))"
  shows "\<exists>d' w' r. try_flush_buffer ops net b (d\<lparr>bd_buffer := None\<rparr>) w = Some (d', w', r) \<and> bd_buffer d' = None \<and>
    (r = Inr () \<and> sending contents ok w0 t0 d' w' items \<or>
     r = Inl SendFailed \<and> \<not> net_reliable net \<and> (\<forall>rest. partly_reached contents ok w0 w' (dt_senders t0) (items @ rest)))"
proof -
  obtain flushed where f: "items = flushed @ contents b" "ok b" "bd_flushed_len d = length items"
      "dt_senders (bd_target d) = dt_senders t0" "reached contents ok w0 w (dt_senders t0) flushed"
      "sent_counted t0 (bd_target d) (length flushed)"
    using s b by (auto simp: sending_def)
  show ?thesis
  proof (cases "contents b = []")
    case True
    then have "try_flush_buffer ops net b (d\<lparr>bd_buffer := None\<rparr>) w = Some (d\<lparr>bd_buffer := None\<rparr>, w, Inr ())"
      using len [OF f(2)] by (simp add: try_flush_buffer_def)
    moreover have "sending contents ok w0 t0 (d\<lparr>bd_buffer := None\<rparr>) w items"
      unfolding sending_def using f True by (intro exI [of _ flushed] exI [of _ "[]"]) simp
    ultimately show ?thesis by simp
  next
    case ne: False
    have "length (dt_senders (bd_target d)) * db_item_count ops b \<le> u64_max"
      using fits within [OF f(2)] f(4) by (simp add: item_count [OF f(2)]) (meson le_trans mult_le_mono2)
    then obtain t' w' r idxs where t: "target_send (db_item_count ops) net b (bd_target d) w = Some (t', w', r)"
        "sent_to (dt_senders t0) b idxs w w'" "dt_senders t' = dt_senders t0" "\<forall>e. r = Inl e \<longrightarrow> e = SendFailed \<and> \<not> net_reliable net"
        "r = Inr () \<longrightarrow> (\<forall>j. j < length (dt_senders t0) \<longrightarrow> gs_gate (dt_senders t0 ! j) = None \<longrightarrow> j \<in> set idxs)"
        "r = Inr () \<longrightarrow> events_sent_total (dt_metrics t') =
          (if idxs = [] then events_sent_total (dt_metrics (bd_target d))
           else counter_add (events_sent_total (dt_metrics (bd_target d))) (length idxs * length (contents b)))"
      using target_send_spec [of "bd_target d" "db_item_count ops" b net w] unfolding f(4) item_count [OF f(2)]
      by blast
    have tf: "try_flush_buffer ops net b (d\<lparr>bd_buffer := None\<rparr>) w =
        Some (d\<lparr>bd_buffer := None, bd_target := t'\<rparr>, w', r)"
      using ne len [OF f(2)] t(1) by (simp add: try_flush_buffer_def)
    show ?thesis
    proof (cases r)
      case (Inl e)
      have "partly_reached contents ok w0 w' (dt_senders t0) (items @ rest)" for rest
        using partly_reached_sent [OF f(5) t(2) dist f(2) ne] f(1) by simp
      then show ?thesis using tf Inl t(4) by auto
    next
      case (Inr u)
      have reach: "reached contents ok w0 w' (dt_senders t0) items"
        using reached_sent [OF f(5) t(2) dist f(2) ne] t(5) Inr f(1) by simp
      have "sent_counted t0 t' (length flushed + length (contents b))"
        using sent_counted_step [OF f(6) t(2)] t(5,6) Inr by simp
      then have "sending contents ok w0 t0 (d\<lparr>bd_buffer := None, bd_target := t'\<rparr>) w' items"
        unfolding sending_def using f(1,3) t(3) reach by (intro exI [of _ items] exI [of _ "[]"]) simp
      then show ?thesis using tf Inr by simp
    qed
  qed
qed

lemma push_step:
  assumes s: "sending contents ok w0 t0 d w items" and room: "length items < u64_max"
    and fits: "length (dt_senders t0) * capacity \<le> u64_max" and dist: "distinct (map gs_sender (dt_senders t0))"
  shows "\<exists>d' w' r. bd_push ops net item d w = Some (d', w', r) \<and>
    (r = Inr () \<and> sending contents ok w0 t0 d' w' (items @ [item]) \<or>
     r = Inl SendFailed \<and> \<not> net_reliable net \<and> (\<forall>rest. partly_reached contents ok w0 w' (dt_senders t0) (items @ rest)))"
proof -
  let ?pre = "case bd_buffer d of
      Some b \<Rightarrow> (if db_is_full ops b then try_flush_buffer ops net b (d\<lparr>bd_buffer := None\<rparr>) w else Some (d, w, Inr ()))
    | None \<Rightarrow> Some (d, w, Inr ())"
  have "\<exists>d' w' r. ?pre = Some (d', w', r) \<and>
      (r = Inr () \<and> sending contents ok w0 t0 d' w' items \<and> (\<forall>b. bd_buffer d' = Some b \<longrightarrow> \<not> db_is_full ops b) \<or>
       r = Inl SendFailed \<and> \<not> net_reliable net \<and> (\<forall>rest. partly_reached contents ok w0 w' (dt_senders t0) (items @ rest)))"
    using flush_buffer [OF s _ fits dist, of _ net] s by (cases "bd_buffer d") fastforce+
  then obtain d1 w1 r where pre: "?pre = Some (d1, w1, r)"
      "r = Inr () \<and> sending contents ok w0 t0 d1 w1 items \<and> (\<forall>b. bd_buffer d1 = Some b \<longrightarrow> \<not> db_is_full ops b) \<or>
       r = Inl SendFailed \<and> \<not> net_reliable net \<and> (\<forall>rest. partly_reached contents ok w0 w1 (dt_senders t0) (items @ rest))"
    by blast
  from pre(2) show ?thesis
  proof
    assume "r = Inl SendFailed \<and> \<not> net_reliable net \<and> (\<forall>rest. partly_reached contents ok w0 w1 (dt_senders t0) (items @ rest))"
    then show ?thesis using pre(1) by (simp add: bd_push_def)
  next
    assume r: "r = Inr () \<and> sending contents ok w0 t0 d1 w1 items \<and> (\<forall>b. bd_buffer d1 = Some b \<longrightarrow> \<not> db_is_full ops b)"
    let ?b = "case bd_buffer d1 of None \<Rightarrow> db_default ops | Some b \<Rightarrow> b"
    obtain flushed where f: "items = flushed @ contents ?b" "ok ?b" "bd_flushed_len d1 = length items"
        "dt_senders (bd_target d1) = dt_senders t0" "reached contents ok w0 w1 (dt_senders t0) flushed"
        "sent_counted t0 (bd_target d1) (length flushed)"
      using r default_ok by (cases "bd_buffer d1") (auto simp: sending_def)
    have "length (contents ?b) < capacity"
      using r within [OF f(2)] is_full [OF f(2)] positive default_ok by (cases "bd_buffer d1") auto
    then obtain b' where b': "db_try_push ops item ?b = (b', None)" "ok b'" "contents b' = contents ?b @ [item]"
      using try_push [OF f(2)] by blast
    let ?d = "d1\<lparr>bd_buffer := Some b', bd_flushed_len := length items + 1\<rparr>"
    have "bd_push ops net item d w = Some (?d, w1, Inr ())"
      using pre(1) r b'(1) f(3) room by (simp add: bd_push_def Let_def)
    moreover have "sending contents ok w0 t0 ?d w1 (items @ [item])"
      unfolding sending_def using f b' by (intro exI [of _ flushed] exI [of _ "contents b'"]) simp
    ultimately show ?thesis by blast
  qed
qed

lemma send_all_spec:
  assumes "sending contents ok w0 t0 d w xs" "length xs + length items \<le> u64_max"
    and fits: "length (dt_senders t0) * capacity \<le> u64_max" and dist: "distinct (map gs_sender (dt_senders t0))"
  shows "\<exists>t' w' r. bd_send_all ops net items d w = Some (t', w', r) \<and>
    (r = Inr (length (xs @ items)) \<and> reached contents ok w0 w' (dt_senders t0) (xs @ items) \<and>
       ((\<forall>g \<in> set (dt_senders t0). gs_gate g = None) \<longrightarrow> events_sent_total (dt_metrics t') =
          (events_sent_total (dt_metrics t0) + (length (dt_senders t0) + 1) * length (xs @ items)) mod 2 ^ 64) \<or>
     r = Inl SendFailed \<and> \<not> net_reliable net \<and> partly_reached contents ok w0 w' (dt_senders t0) (xs @ items))"
  using assms(1,2)
proof (induction items arbitrary: xs d w)
  case Nil
  let ?pre = "case bd_buffer d of
      Some b \<Rightarrow> try_flush_buffer ops net b (d\<lparr>bd_buffer := None\<rparr>) w | None \<Rightarrow> Some (d, w, Inr ())"
  have "\<exists>d' w' r. ?pre = Some (d', w', r) \<and>
      (r = Inr () \<and> sending contents ok w0 t0 d' w' xs \<and> bd_buffer d' = None \<or>
       r = Inl SendFailed \<and> \<not> net_reliable net \<and> (\<forall>rest. partly_reached contents ok w0 w' (dt_senders t0) (xs @ rest)))"
    using flush_buffer [OF Nil(1) _ fits dist, of _ net] Nil(1) by (cases "bd_buffer d") fastforce+
  then obtain d1 w1 r where pre: "?pre = Some (d1, w1, r)"
      "r = Inr () \<and> sending contents ok w0 t0 d1 w1 xs \<and> bd_buffer d1 = None \<or>
       r = Inl SendFailed \<and> \<not> net_reliable net \<and> (\<forall>rest. partly_reached contents ok w0 w1 (dt_senders t0) (xs @ rest))"
    by blast
  from pre(2) show ?case
  proof
    assume r: "r = Inl SendFailed \<and> \<not> net_reliable net \<and> (\<forall>rest. partly_reached contents ok w0 w1 (dt_senders t0) (xs @ rest))"
    then have "partly_reached contents ok w0 w1 (dt_senders t0) (xs @ [])" by blast
    then show ?thesis using pre(1) r by (simp add: bd_flush_def Let_def)
  next
    assume r: "r = Inr () \<and> sending contents ok w0 t0 d1 w1 xs \<and> bd_buffer d1 = None"
    then have f: "bd_flushed_len d1 = length xs" "reached contents ok w0 w1 (dt_senders t0) xs"
        "sent_counted t0 (bd_target d1) (length xs)"
      by (auto simp: sending_def)
    let ?m = "dt_metrics (bd_target d1)"
    have count: "counter_add (events_sent_total ?m) (length xs) =
        (events_sent_total (dt_metrics t0) + (length (dt_senders t0) + 1) * length xs) mod 2 ^ 64"
      if "\<forall>g \<in> set (dt_senders t0). gs_gate g = None"
    proof -
      have "counter_add (events_sent_total ?m) (length xs) = (events_sent_total ?m mod 2 ^ 64 + length xs) mod 2 ^ 64"
        by (simp add: counter_add_def mod_add_left_eq)
      also have "events_sent_total ?m mod 2 ^ 64 =
          (events_sent_total (dt_metrics t0) + length (dt_senders t0) * length xs) mod 2 ^ 64"
        using f(3) that by (simp add: sent_counted_def)
      finally show ?thesis by (simp only: mod_add_left_eq distrib_right add.assoc mult_1)
    qed
    show ?thesis using pre(1) r f(1,2) count by (simp add: bd_flush_def Let_def)
  qed
next
  case (Cons x items)
  have "length xs < u64_max" using Cons.prems(2) by simp
  from push_step [OF Cons.prems(1) this fits dist, of net x] obtain d' w' r
    where p: "bd_push ops net x d w = Some (d', w', r)"
      "r = Inr () \<and> sending contents ok w0 t0 d' w' (xs @ [x]) \<or>
       r = Inl SendFailed \<and> \<not> net_reliable net \<and> (\<forall>rest. partly_reached contents ok w0 w' (dt_senders t0) (xs @ rest))" by blast
  from p(2) show ?case
  proof
    assume "r = Inr () \<and> sending contents ok w0 t0 d' w' (xs @ [x])"
    then show ?thesis using Cons.IH [of d' w' "xs @ [x]"] Cons.prems(2) p(1) by simp
  next
    assume "r = Inl SendFailed \<and> \<not> net_reliable net \<and> (\<forall>rest. partly_reached contents ok w0 w' (dt_senders t0) (xs @ rest))"
    then show ?thesis using p(1) by simp
  qed
qed

lemma sending_new: "sending contents ok w t (bd_new t) w []"
  using received_refl by (fastforce simp: sending_def bd_new_def reached_def sent_counted_def)

end

section \<open>Event buffers\<close>

definition event_buffer_ops :: "nat \<Rightarrow> (('m, 'x) event_buffer, ('m, 'x) event) buffer_ops" where
  "event_buffer_ops n =
     \<lparr>db_default = eb_default, db_len = eb_len, db_is_full = eb_is_full n, db_try_push = eb_try_push n,
      db_item_count = eb_len\<rparr>"

text \<open>\<^verbatim>\<open>DEFAULT_EVENTS_BUFFER_CAPACITY\<close> of \<^verbatim>\<open>topology/mod.rs\<close>, the capacity of \<^verbatim>\<open>EventsBuffer\<close>.\<close>

definition events_buffer_capacity :: nat where
  "events_buffer_capacity = 1024"

interpretation eb: dispatch_buffer "event_buffer_ops (Suc k)" eb_events "eb_ok (Suc k)" "Suc k" for k
proof unfold_locales
  show "\<exists>b'. db_try_push (event_buffer_ops (Suc k)) item b = (b', None) \<and> eb_ok (Suc k) b' \<and>
      eb_events b' = eb_events b @ [item]"
    if "eb_ok (Suc k) b" "length (eb_events b) < Suc k" for b item
    using that eb_ok_try_push [of "Suc k" b item]
    by (simp add: event_buffer_ops_def eb_try_push_def eb_len_def)
qed (auto simp: event_buffer_ops_def eb_len_def eb_is_full_def eb_ok_def eb_default_def)

end
