(* ===== verification/Interconnect_Properties.thy ===== *)
theory Interconnect_Properties
  imports Dispatcher
begin

text \<open>
  The properties of the interconnect: filtering of event buffers, delivery through a buffered dispatcher, and the
  counter of sent events.
\<close>

section \<open>Examples\<close>

text \<open>One channel that always accepts, and one gate that is closed.\<close>

definition example_net :: "(nat, nat, unit) net" where
  "example_net = \<lparr>net_send = (\<lambda>_ e. (e, True)), net_gate = (\<lambda>_ e. (e, False))\<rparr>"

definition example_world :: "(nat, (nat, nat) event_buffer, unit) world" where
  "example_world = \<lparr>w_env = (), w_log = []\<rparr>"

definition example_target :: "(nat, nat) dispatch_target" where
  "example_target = add_sender 8 (Some 0) (add_sender 7 None new_target)"

definition example_buffer :: "(nat, nat) event_buffer" where
  "example_buffer = fst (eb_try_push 4 (EvLog 3) (fst (eb_try_push 4 (EvMetric 2) (fst (eb_try_push 4 (EvMetric 1) eb_default)))))"

lemma example_buffer_ok: "eb_ok 4 example_buffer"
  unfolding example_buffer_def by (intro eb_ok_try_push eb_ok_default)

section \<open>Event buffers\<close>

text \<open>
  Filtering an event buffer keeps exactly the right events. For a buffer whose record of seen event types is
  exact, \<^verbatim>\<open>extract\<close> returns the matching events, last one first, and leaves the others; \<^verbatim>\<open>remove_if\<close> with a closure
  that changes events by \<open>f\<close> and selects them by \<open>q\<close> leaves the changed images of those not selected, each once,
  although it fills holes from the back while it scans. Both leave a buffer within its capacity whose
  \<^verbatim>\<open>has_event_type\<close> answers exactly whether an event of that type is still there.
\<close>

theorem event_buffer_filters:
  fixes b :: "('m, 'x) event_buffer"
  assumes "eb_ok n b" "\<And>s e. p s e = (h s e, f e, q e)"
  shows "(\<exists>b'. eb_extract q b = Some (rev (filter q (eb_events b)), b') \<and> eb_ok n b' \<and>
      mset (eb_events b') = filter_mset (\<lambda>e. \<not> q e) (mset (eb_events b)) \<and>
      (\<forall>e :: ('m, 'x) event. has_event_type (event_type_of e) b' \<longleftrightarrow>
         (\<exists>e' \<in> set (eb_events b). \<not> q e' \<and> event_type_of e' = event_type_of e))) \<and>
    (\<exists>s' b'. eb_remove_if p s b = (s', b') \<and> eb_ok n b' \<and>
      mset (eb_events b') = image_mset f (filter_mset (\<lambda>e. \<not> q e) (mset (eb_events b))) \<and>
      (\<forall>e :: ('m, 'x) event. has_event_type (event_type_of e) b' \<longleftrightarrow>
         (\<exists>e' \<in> set (eb_events b). \<not> q e' \<and> event_type_of (f e') = event_type_of e)))"
proof
  obtain evs where x: "eb_extract q b =
        Some (rev (filter q (eb_events b)), \<lparr>eb_events = evs, eb_seen_event_types = types_of evs\<rparr>)"
      "mset evs = filter_mset (\<lambda>e. \<not> q e) (mset (eb_events b))"
    using eb_extract_eq [of q b] by blast
  show "\<exists>b'. eb_extract q b = Some (rev (filter q (eb_events b)), b') \<and> eb_ok n b' \<and>
      mset (eb_events b') = filter_mset (\<lambda>e. \<not> q e) (mset (eb_events b)) \<and>
      (\<forall>e :: ('m, 'x) event. has_event_type (event_type_of e) b' \<longleftrightarrow>
         (\<exists>e' \<in> set (eb_events b). \<not> q e' \<and> event_type_of e' = event_type_of e))"
    using x filtered_buffer [OF assms(1), where evs = evs and f = "\<lambda>e. e" and q = q] by simp
  obtain s' evs' where r: "eb_remove_if p s b = (s', \<lparr>eb_events = evs', eb_seen_event_types = types_of evs'\<rparr>)"
      "mset evs' = image_mset f (filter_mset (\<lambda>e. \<not> q e) (mset (eb_events b)))"
    using eb_remove_if_eq [of p h f q s b] assms(2) by blast
  show "\<exists>s' b'. eb_remove_if p s b = (s', b') \<and> eb_ok n b' \<and>
      mset (eb_events b') = image_mset f (filter_mset (\<lambda>e. \<not> q e) (mset (eb_events b))) \<and>
      (\<forall>e :: ('m, 'x) event. has_event_type (event_type_of e) b' \<longleftrightarrow>
         (\<exists>e' \<in> set (eb_events b). \<not> q e' \<and> event_type_of (f e') = event_type_of e))"
    using r filtered_buffer [OF assms(1) r(2)] by simp
qed

theorem event_buffer_filters_witness:
  "\<exists>b'. eb_extract (\<lambda>e. e = EvMetric 1) example_buffer = Some ([EvMetric 1], b') \<and>
     mset (eb_events b') = {#EvMetric 2, EvLog 3#}"
  using event_buffer_filters [OF example_buffer_ok,
      where p = "\<lambda>u e. (u, e, e = EvMetric 1)" and h = "\<lambda>u e. u" and f = "\<lambda>e. e" and q = "\<lambda>e. e = EvMetric 1"
      and s = "()"]
  by (auto simp: example_buffer_def eb_try_push_def eb_default_def eb_len_def)

section \<open>Dispatching\<close>

text \<open>
  C16. Every item given to \<^verbatim>\<open>send_all\<close> is delivered. With an event buffer of positive capacity, sending never panics.
  On success it reports the number of items, and every ungated sender got all items, in order and once each, in
  non-empty batches within the capacity; a gated sender got a subsequence, whatever the gates did meanwhile. The
  only error is a closed receiver, and none comes from a net in which receivers stay; after it every ungated sender got a prefix of the items. An item is never taken
  from the loop before its last receiver (no \<^verbatim>\<open>expect\<close> fails).
\<close>

theorem dispatch_delivers_every_item:
  assumes "distinct (map gs_sender (dt_senders t))" "length (dt_senders t) * Suc k \<le> u64_max" "length items \<le> u64_max"
  shows "\<exists>t' w' r. bd_send_all (event_buffer_ops (Suc k)) net items (bd_new t) w = Some (t', w', r) \<and>
    (r = Inr (length items) \<and> reached eb_events (eb_ok (Suc k)) w w' (dt_senders t) items \<or>
     r = Inl SendFailed \<and> \<not> net_reliable net \<and> partly_reached eb_events (eb_ok (Suc k)) w w' (dt_senders t) items)"
  using eb.send_all_spec [OF eb.sending_new [of k w t], where items = items and net = net] assms by fastforce

theorem dispatch_delivers_every_item_witness:
  "\<exists>t' w' r. bd_send_all (event_buffer_ops (Suc 1)) example_net [EvMetric 1, EvLog 2, EvMetric 3]
       (bd_new example_target) example_world = Some (t', w', r) \<and>
    (r = Inr 3 \<and> reached eb_events (eb_ok (Suc 1)) example_world w' (dt_senders example_target)
        [EvMetric 1, EvLog 2, EvMetric 3] \<or>
     r = Inl SendFailed \<and> \<not> net_reliable example_net \<and> partly_reached eb_events (eb_ok (Suc 1)) example_world w' (dt_senders example_target)
        [EvMetric 1, EvLog 2, EvMetric 3])"
proof -
  have "distinct (map gs_sender (dt_senders example_target))" "length (dt_senders example_target) * Suc 1 \<le> u64_max"
    "length [EvMetric 1, EvLog 2, EvMetric 3 :: (nat, nat) event] \<le> u64_max"
    by (simp_all add: example_target_def add_sender_def new_target_def u64_max_def)
  from dispatch_delivers_every_item [OF this, where net = example_net and w = example_world]
  show ?thesis by (simp add: numeral_3_eq_3 del: bd_send_all.simps)
qed

text \<open>
  C37. The counter of sent events counts buffered items once too often. When an output has \<open>n\<close> ungated senders and
  \<^verbatim>\<open>send_all\<close> succeeds, \<^verbatim>\<open>events_sent_total\<close> grows by \<open>n + 1\<close> for every item although each item was sent \<open>n\<close> times:
  sending a batch already counts its items, and \<^verbatim>\<open>flush\<close> adds all of them again.
\<close>

theorem sent_counter_counts_again:
  assumes "distinct (map gs_sender (dt_senders t))" "length (dt_senders t) * Suc k \<le> u64_max" "length items \<le> u64_max"
    "\<forall>g \<in> set (dt_senders t). gs_gate g = None"
    "bd_send_all (event_buffer_ops (Suc k)) net items (bd_new t) w = Some (t', w', Inr n)"
  shows "events_sent_total (dt_metrics t') =
    (events_sent_total (dt_metrics t) + (length (dt_senders t) + 1) * length items) mod 2 ^ 64"
  using eb.send_all_spec [OF eb.sending_new [of k w t], where items = items and net = net] assms by auto

lemma example_send_all:
  "bd_send_all (event_buffer_ops (Suc 1)) example_net [EvMetric 1, EvLog 2, EvMetric 3]
       (bd_new (add_sender 7 None new_target)) example_world =
   Some (\<lparr>dt_metrics = \<lparr>events_sent_total = 6, events_discarded_total = 0, events_elided_total = 0\<rparr>,
          dt_senders = [\<lparr>gs_sender = 7, gs_gate = None\<rparr>]\<rparr>,
         \<lparr>w_env = (), w_log = [(7, \<lparr>eb_events = [EvMetric 1, EvLog 2], eb_seen_event_types = 9\<rparr>),
                               (7, \<lparr>eb_events = [EvMetric 3], eb_seen_event_types = 1\<rparr>)]\<rparr>, Inr 3)"
  by (simp add: bd_push_def bd_flush_def bd_new_def try_flush_buffer_def target_send_def next_active_sender_def
      send_loop.simps sender_is_active_def channel_send_def example_net_def example_world_def event_buffer_ops_def
      eb_is_full_def eb_len_def eb_try_push_def eb_default_def add_sender_def new_target_def no_metrics_def
      counter_add_def usize_mul_def u64_add_def u64_sub_def u64_max_def EventType_Metric_def EventType_Log_def)

theorem sent_counter_counts_again_witness:
  "\<exists>t' w'. bd_send_all (event_buffer_ops (Suc 1)) example_net [EvMetric 1, EvLog 2, EvMetric 3]
       (bd_new (add_sender 7 None new_target)) example_world = Some (t', w', Inr 3) \<and>
     map (length \<circ> eb_events \<circ> snd) (w_log w') = [2, 1] \<and> events_sent_total (dt_metrics t') = 6"
proof -
  let ?t = "add_sender 7 None new_target :: (nat, nat) dispatch_target"
  have "distinct (map gs_sender (dt_senders ?t))" "length (dt_senders ?t) * Suc 1 \<le> u64_max"
    "length [EvMetric 1, EvLog 2, EvMetric 3 :: (nat, nat) event] \<le> u64_max" "\<forall>g \<in> set (dt_senders ?t). gs_gate g = None"
    by (simp_all add: add_sender_def new_target_def u64_max_def)
  from sent_counter_counts_again [OF this example_send_all] show ?thesis
    unfolding example_send_all by (simp add: add_sender_def new_target_def no_metrics_def)
qed

end
