(* ===== verification/Metric_Values.thy ===== *)
theory Metric_Values
  imports Agent_Sketch "HOL-Library.FSet" "HOL-Library.Option_ord"
begin

text \<open>
  The values of a metric (\<^verbatim>\<open>lib/saluki-core/src/data_model/event/metric\<close>): lists of values with optional
  timestamps, the histograms that keep raw samples, and the enumeration of metric types with merging,
  splitting and collapsing.

  A \<^verbatim>\<open>SmallVec\<close> is a list and a \<^verbatim>\<open>HashSet<String>\<close> a finite set. A \<^verbatim>\<open>NonZeroU64\<close> timestamp is a positive number.
  Merging sketches can panic, so the functions that merge values return an option.
\<close>

section \<open>Timestamped values\<close>

record 'a timestamped =
  tv_timestamp :: "nat option"
  tv_value :: 'a

definition non_zero :: "nat \<Rightarrow> nat option" where
  "non_zero n = (if n = 0 then None else Some n)"

definition tv_from :: "'a \<Rightarrow> 'a timestamped" where
  "tv_from v = \<lparr>tv_timestamp = None, tv_value = v\<rparr>"

definition tv_from_at :: "nat \<Rightarrow> 'a \<Rightarrow> 'a timestamped" where
  "tv_from_at ts v = \<lparr>tv_timestamp = non_zero ts, tv_value = v\<rparr>"

type_synonym 'a points = "'a timestamped list"

definition all_timestamped :: "'a points \<Rightarrow> bool" where
  "all_timestamped vs \<longleftrightarrow> list_all (\<lambda>v. tv_timestamp v \<noteq> None) vs"

definition any_timestamped :: "'a points \<Rightarrow> bool" where
  "any_timestamped vs \<longleftrightarrow> list_ex (\<lambda>v. tv_timestamp v \<noteq> None) vs"

text \<open>What is drained, and what stays.\<close>

definition drain_timestamped :: "'a points \<Rightarrow> 'a points \<times> 'a points" where
  "drain_timestamped vs =
     (filter (\<lambda>v. tv_timestamp v \<noteq> None) vs, filter (\<lambda>v. tv_timestamp v = None) vs)"

definition sort_by_timestamp :: "'a points \<Rightarrow> 'a points" where
  "sort_by_timestamp vs = sort_key tv_timestamp vs"

definition due :: "nat \<Rightarrow> 'a timestamped \<Rightarrow> bool" where
  "due timestamp v \<longleftrightarrow> (case tv_timestamp v of None \<Rightarrow> False | Some ts \<Rightarrow> ts \<le> timestamp)"

definition split_at_timestamp :: "nat \<Rightarrow> 'a points \<Rightarrow> 'a points option \<times> 'a points" where
  "split_at_timestamp timestamp vs =
     (case vs of
        [] \<Rightarrow> (None, [])
      | first # _ \<Rightarrow>
          (if (case tv_timestamp first of None \<Rightarrow> False | Some ts \<Rightarrow> ts > timestamp) then (None, vs)
           else (Some (sort_by_timestamp (filter (due timestamp) vs)), filter (\<lambda>v. \<not> due timestamp v) vs)))"

definition set_timestamp :: "nat \<Rightarrow> 'a points \<Rightarrow> 'a points" where
  "set_timestamp timestamp vs = map (\<lambda>v. v\<lparr>tv_timestamp := non_zero timestamp\<rparr>) vs"

text \<open>\<^verbatim>\<open>dedup_by\<close>: \<open>b\<close> is the last value kept and \<open>a\<close> the one after it.\<close>

fun dedup_untimed :: "('a \<Rightarrow> 'a \<Rightarrow> 'a option) \<Rightarrow> 'a points \<Rightarrow> 'a points option" where
  "dedup_untimed mrg [] = Some []"
| "dedup_untimed mrg [b] = Some [b]"
| "dedup_untimed mrg (b # a # vs) =
     (if tv_timestamp a = None \<and> tv_timestamp b = None
      then do { v \<leftarrow> mrg (tv_value b) (tv_value a); dedup_untimed mrg (b\<lparr>tv_value := v\<rparr> # vs) }
      else do { r \<leftarrow> dedup_untimed mrg (a # vs); Some (b # r) })"

definition collapse_non_timestamped :: "nat \<Rightarrow> ('a \<Rightarrow> 'a \<Rightarrow> 'a option) \<Rightarrow> 'a points \<Rightarrow> 'a points option" where
  "collapse_non_timestamped timestamp mrg vs = do {
     r \<leftarrow> dedup_untimed mrg vs;
     Some (case r of
        [] \<Rightarrow> []
      | first # rest \<Rightarrow>
          (case tv_timestamp first of
             None \<Rightarrow> first\<lparr>tv_timestamp := non_zero timestamp\<rparr> # rest
           | Some _ \<Rightarrow> first # rest))
   }"

text \<open>\<^verbatim>\<open>From<I: IntoIterator>\<close>.\<close>

definition points_from :: "'a timestamped list \<Rightarrow> 'a points" where
  "points_from vs = sort_by_timestamp vs"

text \<open>The loop that the four point types share in \<^verbatim>\<open>merge\<close>: one value, and whether it was pushed.\<close>

fun merge_point :: "('a \<Rightarrow> 'a \<Rightarrow> 'a option) \<Rightarrow> 'a timestamped \<Rightarrow> 'a points \<Rightarrow> ('a points \<times> bool) option" where
  "merge_point mrg x [] = Some ([x], True)"
| "merge_point mrg x (v # vs) =
     (if tv_timestamp v = tv_timestamp x
      then do { y \<leftarrow> mrg (tv_value v) (tv_value x); Some (v\<lparr>tv_value := y\<rparr> # vs, False) }
      else do { (r, pushed) \<leftarrow> merge_point mrg x vs; Some (v # r, pushed) })"

fun merge_points_loop :: "('a \<Rightarrow> 'a \<Rightarrow> 'a option) \<Rightarrow> 'a points \<Rightarrow> 'a points \<Rightarrow> bool \<Rightarrow> ('a points \<times> bool) option" where
  "merge_points_loop mrg [] vs needs_sort = Some (vs, needs_sort)"
| "merge_points_loop mrg (x # xs) vs needs_sort = do {
     (r, pushed) \<leftarrow> merge_point mrg x vs;
     merge_points_loop mrg xs r (needs_sort \<or> pushed)
   }"

definition merge_points :: "('a \<Rightarrow> 'a \<Rightarrow> 'a option) \<Rightarrow> 'a points \<Rightarrow> 'a points \<Rightarrow> 'a points option" where
  "merge_points mrg other vs = do {
     (r, needs_sort) \<leftarrow> merge_points_loop mrg other vs False;
     Some (if needs_sort then sort_by_timestamp r else r)
   }"

definition scalar_add_point :: "nat option \<Rightarrow> f64 \<Rightarrow> f64 points \<Rightarrow> f64 points" where
  "scalar_add_point ts v vs = sort_by_timestamp (vs @ [\<lparr>tv_timestamp = ts, tv_value = v\<rparr>])"

section \<open>Sample rates and histograms\<close>

type_synonym sample_rate = f64

definition unsampled :: sample_rate where
  "unsampled = f64_one"

definition rate_weight :: "sample_rate \<Rightarrow> nat" where
  "rate_weight r = f64_to_u64 (f64_div f64_one r)"

definition raw_weight :: "sample_rate \<Rightarrow> f64" where
  "raw_weight r = f64_div f64_one r"

definition sample_rate_try_from :: "f64 \<Rightarrow> string + sample_rate" where
  "sample_rate_try_from v =
     (if \<not> (f64_le f64_zero v \<and> f64_le v f64_one) then Inl ''sample rate must be between 0.0 and 1.0'' else Inr v)"

record weighted_sample =
  ws_value :: f64
  ws_weight :: f64

record histogram =
  hs_samples :: "weighted_sample list"
  hs_shared_weight :: f64
  hs_weights_vary :: bool

definition histogram_default :: histogram where
  "histogram_default = \<lparr>hs_samples = [], hs_shared_weight = f64_zero, hs_weights_vary = False\<rparr>"

definition histogram_insert :: "math \<Rightarrow> f64 \<Rightarrow> sample_rate \<Rightarrow> histogram \<Rightarrow> histogram" where
  "histogram_insert mt v r h =
     (let weight = raw_weight r;
          h1 = (if ordered_eq mt (hs_shared_weight h) f64_zero then h\<lparr>hs_shared_weight := weight\<rparr>
                else if \<not> ordered_eq mt weight (hs_shared_weight h) then h\<lparr>hs_weights_vary := True\<rparr>
                else h)
      in h1\<lparr>hs_samples := hs_samples h1 @ [\<lparr>ws_value = v, ws_weight = weight\<rparr>]\<rparr>)"

definition histogram_merge :: "math \<Rightarrow> histogram \<Rightarrow> histogram \<Rightarrow> histogram" where
  "histogram_merge mt h other =
     (let h1 =
       (if \<not> hs_weights_vary h then
          (if hs_weights_vary other then h\<lparr>hs_weights_vary := True\<rparr>
           else if ordered_eq mt (hs_shared_weight h) f64_zero then h\<lparr>hs_shared_weight := hs_shared_weight other\<rparr>
           else if \<not> ordered_eq mt (hs_shared_weight other) f64_zero \<and>
                   \<not> ordered_eq mt (hs_shared_weight h) (hs_shared_weight other)
           then h\<lparr>hs_weights_vary := True\<rparr>
           else h)
        else h)
      in h1\<lparr>hs_samples := hs_samples h1 @ hs_samples other\<rparr>)"

definition neumaier_add :: "f64 \<times> f64 \<Rightarrow> f64 \<Rightarrow> f64 \<times> f64" where
  "neumaier_add sc x =
     (let (s, c) = sc; t = f64_add s x
      in (t, if f64_le (f64_abs x) (f64_abs s) then f64_add c (f64_add (f64_sub s t) x)
             else f64_add c (f64_add (f64_sub x t) s)))"

text \<open>The sorted samples, the count and the sum.\<close>

record histogram_summary =
  sm_samples :: "weighted_sample list"
  sm_count :: f64
  sm_sum :: f64

definition summary_view :: "math \<Rightarrow> histogram \<Rightarrow> histogram_summary" where
  "summary_view mt h =
     (let samples = sort_by (\<lambda>a b. ordered_le mt (ws_value a) (ws_value b)) (hs_samples h);
          term = (\<lambda>s. if hs_weights_vary h then f64_mul (ws_value s) (ws_weight s) else ws_value s);
          (cs, cc) = foldl (\<lambda>acc s. neumaier_add acc (ws_weight s)) (f64_zero, f64_zero) samples;
          (ss, sc) = foldl (\<lambda>acc s. neumaier_add acc (term s)) (f64_zero, f64_zero) samples
      in \<lparr>sm_samples = samples, sm_count = f64_add cs cc,
          sm_sum = (if hs_weights_vary h then f64_add ss sc else f64_mul (f64_add ss sc) (hs_shared_weight h))\<rparr>)"

definition summary_count :: "histogram_summary \<Rightarrow> nat" where
  "summary_count s = f64_to_u64 (f64_round_half_away (sm_count s))"

definition summary_min :: "histogram_summary \<Rightarrow> f64 option" where
  "summary_min s = (case sm_samples s of [] \<Rightarrow> None | x # _ \<Rightarrow> Some (ws_value x))"

definition summary_max :: "histogram_summary \<Rightarrow> f64 option" where
  "summary_max s = (case sm_samples s of [] \<Rightarrow> None | xs \<Rightarrow> Some (ws_value (last xs)))"

definition summary_avg :: "histogram_summary \<Rightarrow> f64" where
  "summary_avg s = f64_div (sm_sum s) (sm_count s)"

fun summary_quantile_loop :: "f64 \<Rightarrow> f64 \<times> f64 \<Rightarrow> weighted_sample list \<Rightarrow> f64 option" where
  "summary_quantile_loop target acc [] = None"
| "summary_quantile_loop target acc (s # ss) =
     (let (ws, wc) = neumaier_add acc (ws_weight s)
      in if f64_lt target (f64_add ws wc) then Some (ws_value s) else summary_quantile_loop target (ws, wc) ss)"

text \<open>The subtracted constant is the double nearest to \<open>0.01\<close>.\<close>

definition summary_quantile :: "f64 \<Rightarrow> histogram_summary \<Rightarrow> f64 option" where
  "summary_quantile q s =
     (if \<not> (f64_le f64_zero q \<and> f64_le q f64_one) then None
      else summary_quantile_loop
             (f64_sub (f64_mul q (sm_count s)) (F64_Fin False 5764607523034235 (-59)))
             (f64_zero, f64_zero) (sm_samples s))"

definition summary_median :: "histogram_summary \<Rightarrow> f64 option" where
  "summary_median s = summary_quantile (f64_div f64_one (f64_of_nat 2)) s"

section \<open>Metric values\<close>

text \<open>A duration is a number of nanoseconds.\<close>

type_synonym duration = nat

definition from_secs :: "nat \<Rightarrow> duration" where
  "from_secs s = s * 1000000000"

datatype metric_values =
    Counter "f64 points"
  | Rate "f64 points" duration
  | Gauge "f64 points"
  | SetValues "string fset points"
  | HistogramValues "histogram points"
  | Distribution "agent_sketch points"

definition merge_scalar_sum :: "f64 \<Rightarrow> f64 \<Rightarrow> f64 option" where
  "merge_scalar_sum dest src = Some (f64_add dest src)"

definition merge_scalar_latest :: "f64 \<Rightarrow> f64 \<Rightarrow> f64 option" where
  "merge_scalar_latest dest src = Some src"

definition merge_set :: "string fset \<Rightarrow> string fset \<Rightarrow> string fset option" where
  "merge_set dest src = Some (dest |\<union>| src)"

definition merge_histogram :: "math \<Rightarrow> histogram \<Rightarrow> histogram \<Rightarrow> histogram option" where
  "merge_histogram mt dest src = Some (histogram_merge mt dest src)"

definition merge_sketch :: "config \<Rightarrow> agent_sketch \<Rightarrow> agent_sketch \<Rightarrow> agent_sketch option" where
  "merge_sketch c dest src = agent_merge c src dest"

fun mv_is_empty :: "metric_values \<Rightarrow> bool" where
  "mv_is_empty (Counter ps) = (ps = [])"
| "mv_is_empty (Rate ps _) = (ps = [])"
| "mv_is_empty (Gauge ps) = (ps = [])"
| "mv_is_empty (SetValues ps) = (ps = [])"
| "mv_is_empty (HistogramValues ps) = (ps = [])"
| "mv_is_empty (Distribution ps) = (ps = [])"

fun mv_len :: "metric_values \<Rightarrow> nat" where
  "mv_len (Counter ps) = length ps"
| "mv_len (Rate ps _) = length ps"
| "mv_len (Gauge ps) = length ps"
| "mv_len (SetValues ps) = length ps"
| "mv_len (HistogramValues ps) = length ps"
| "mv_len (Distribution ps) = length ps"

fun mv_all_timestamped :: "metric_values \<Rightarrow> bool" where
  "mv_all_timestamped (Counter ps) = all_timestamped ps"
| "mv_all_timestamped (Rate ps _) = all_timestamped ps"
| "mv_all_timestamped (Gauge ps) = all_timestamped ps"
| "mv_all_timestamped (SetValues ps) = all_timestamped ps"
| "mv_all_timestamped (HistogramValues ps) = all_timestamped ps"
| "mv_all_timestamped (Distribution ps) = all_timestamped ps"

fun mv_any_timestamped :: "metric_values \<Rightarrow> bool" where
  "mv_any_timestamped (Counter ps) = any_timestamped ps"
| "mv_any_timestamped (Rate ps _) = any_timestamped ps"
| "mv_any_timestamped (Gauge ps) = any_timestamped ps"
| "mv_any_timestamped (SetValues ps) = any_timestamped ps"
| "mv_any_timestamped (HistogramValues ps) = any_timestamped ps"
| "mv_any_timestamped (Distribution ps) = any_timestamped ps"

fun mv_set_timestamp :: "nat \<Rightarrow> metric_values \<Rightarrow> metric_values" where
  "mv_set_timestamp ts (Counter ps) = Counter (set_timestamp ts ps)"
| "mv_set_timestamp ts (Rate ps i) = Rate (set_timestamp ts ps) i"
| "mv_set_timestamp ts (Gauge ps) = Gauge (set_timestamp ts ps)"
| "mv_set_timestamp ts (SetValues ps) = SetValues (set_timestamp ts ps)"
| "mv_set_timestamp ts (HistogramValues ps) = HistogramValues (set_timestamp ts ps)"
| "mv_set_timestamp ts (Distribution ps) = Distribution (set_timestamp ts ps)"

text \<open>What is split off, and what stays.\<close>

fun mv_split_timestamped :: "metric_values \<Rightarrow> metric_values \<times> metric_values" where
  "mv_split_timestamped (Counter ps) = map_prod Counter Counter (drain_timestamped ps)"
| "mv_split_timestamped (Rate ps i) = map_prod (\<lambda>p. Rate p i) (\<lambda>p. Rate p i) (drain_timestamped ps)"
| "mv_split_timestamped (Gauge ps) = map_prod Gauge Gauge (drain_timestamped ps)"
| "mv_split_timestamped (SetValues ps) = map_prod SetValues SetValues (drain_timestamped ps)"
| "mv_split_timestamped (HistogramValues ps) = map_prod HistogramValues HistogramValues (drain_timestamped ps)"
| "mv_split_timestamped (Distribution ps) = map_prod Distribution Distribution (drain_timestamped ps)"

fun mv_split_at_timestamp :: "nat \<Rightarrow> metric_values \<Rightarrow> metric_values option \<times> metric_values" where
  "mv_split_at_timestamp ts (Counter ps) = map_prod (map_option Counter) Counter (split_at_timestamp ts ps)"
| "mv_split_at_timestamp ts (Rate ps i) =
     map_prod (map_option (\<lambda>p. Rate p i)) (\<lambda>p. Rate p i) (split_at_timestamp ts ps)"
| "mv_split_at_timestamp ts (Gauge ps) = map_prod (map_option Gauge) Gauge (split_at_timestamp ts ps)"
| "mv_split_at_timestamp ts (SetValues ps) = map_prod (map_option SetValues) SetValues (split_at_timestamp ts ps)"
| "mv_split_at_timestamp ts (HistogramValues ps) =
     map_prod (map_option HistogramValues) HistogramValues (split_at_timestamp ts ps)"
| "mv_split_at_timestamp ts (Distribution ps) =
     map_prod (map_option Distribution) Distribution (split_at_timestamp ts ps)"

fun mv_collapse_non_timestamped :: "math \<Rightarrow> config \<Rightarrow> nat \<Rightarrow> metric_values \<Rightarrow> metric_values option" where
  "mv_collapse_non_timestamped mt c ts (Counter ps) = map_option Counter (collapse_non_timestamped ts merge_scalar_sum ps)"
| "mv_collapse_non_timestamped mt c ts (Rate ps i) =
     map_option (\<lambda>p. Rate p i) (collapse_non_timestamped ts merge_scalar_sum ps)"
| "mv_collapse_non_timestamped mt c ts (Gauge ps) = map_option Gauge (collapse_non_timestamped ts merge_scalar_latest ps)"
| "mv_collapse_non_timestamped mt c ts (SetValues ps) = map_option SetValues (collapse_non_timestamped ts merge_set ps)"
| "mv_collapse_non_timestamped mt c ts (HistogramValues ps) =
     map_option HistogramValues (collapse_non_timestamped ts (merge_histogram mt) ps)"
| "mv_collapse_non_timestamped mt c ts (Distribution ps) =
     map_option Distribution (collapse_non_timestamped ts (merge_sketch c) ps)"

definition mv_merge :: "math \<Rightarrow> config \<Rightarrow> metric_values \<Rightarrow> metric_values \<Rightarrow> metric_values option" where
  "mv_merge mt c other self =
     (case (self, other) of
        (Counter a, Counter b) \<Rightarrow> map_option Counter (merge_points merge_scalar_sum b a)
      | (Rate a ai, Rate b bi) \<Rightarrow>
          (if ai \<noteq> bi then Some (Rate b bi) else map_option (\<lambda>p. Rate p ai) (merge_points merge_scalar_sum b a))
      | (Gauge a, Gauge b) \<Rightarrow> map_option Gauge (merge_points merge_scalar_latest b a)
      | (SetValues a, SetValues b) \<Rightarrow> map_option SetValues (merge_points merge_set b a)
      | (HistogramValues a, HistogramValues b) \<Rightarrow> map_option HistogramValues (merge_points (merge_histogram mt) b a)
      | (Distribution a, Distribution b) \<Rightarrow> map_option Distribution (merge_points (merge_sketch c) b a)
      | _ \<Rightarrow> Some other)"

fun mv_as_str :: "metric_values \<Rightarrow> string" where
  "mv_as_str (Counter _) = ''counter''"
| "mv_as_str (Rate _ _) = ''rate''"
| "mv_as_str (Gauge _) = ''gauge''"
| "mv_as_str (SetValues _) = ''set''"
| "mv_as_str (HistogramValues _) = ''histogram''"
| "mv_as_str (Distribution _) = ''distribution''"

definition mv_is_sketch :: "metric_values \<Rightarrow> bool" where
  "mv_is_sketch v \<longleftrightarrow> (case v of Distribution _ \<Rightarrow> True | _ \<Rightarrow> False)"

definition mv_is_serie :: "metric_values \<Rightarrow> bool" where
  "mv_is_serie v \<longleftrightarrow> (case v of Distribution _ \<Rightarrow> False | _ \<Rightarrow> True)"

text \<open>The constructors from the results of a fallible iterator, which stop at the first error.\<close>

fun sampled_points :: "f64 \<Rightarrow> ('e + f64) list \<Rightarrow> f64 points \<Rightarrow> 'e + f64 points" where
  "sampled_points weight [] ps = Inr ps"
| "sampled_points weight (Inl e # xs) ps = Inl e"
| "sampled_points weight (Inr v # xs) ps = sampled_points weight xs (scalar_add_point None (f64_mul v weight) ps)"

definition counter_sampled_fallible :: "('e + f64) list \<Rightarrow> sample_rate option \<Rightarrow> 'e + metric_values" where
  "counter_sampled_fallible xs r =
     map_sum id Counter (sampled_points (raw_weight (case r of None \<Rightarrow> unsampled | Some r \<Rightarrow> r)) xs [])"

fun plain_points :: "('e + f64) list \<Rightarrow> f64 points \<Rightarrow> 'e + f64 points" where
  "plain_points [] ps = Inr ps"
| "plain_points (Inl e # xs) ps = Inl e"
| "plain_points (Inr v # xs) ps = plain_points xs (scalar_add_point None v ps)"

definition gauge_fallible :: "('e + f64) list \<Rightarrow> 'e + metric_values" where
  "gauge_fallible xs = map_sum id Gauge (plain_points xs [])"

fun histogram_inserts :: "math \<Rightarrow> sample_rate \<Rightarrow> ('e + f64) list \<Rightarrow> histogram \<Rightarrow> 'e + histogram" where
  "histogram_inserts mt r [] h = Inr h"
| "histogram_inserts mt r (Inl e # xs) h = Inl e"
| "histogram_inserts mt r (Inr v # xs) h = histogram_inserts mt r xs (histogram_insert mt v r h)"

definition histogram_sampled_fallible :: "math \<Rightarrow> ('e + f64) list \<Rightarrow> sample_rate option \<Rightarrow> 'e + metric_values" where
  "histogram_sampled_fallible mt xs r =
     map_sum id (\<lambda>h. HistogramValues [tv_from h])
       (histogram_inserts mt (case r of None \<Rightarrow> unsampled | Some r \<Rightarrow> r) xs histogram_default)"

fun sketch_inserts :: "math \<Rightarrow> config \<Rightarrow> nat \<Rightarrow> ('e + f64) list \<Rightarrow> agent_sketch \<Rightarrow> ('e + agent_sketch) option" where
  "sketch_inserts mt c w [] sk = Some (Inr sk)"
| "sketch_inserts mt c w (Inl e # xs) sk = Some (Inl e)"
| "sketch_inserts mt c w (Inr v # xs) sk = do {
     sk' \<leftarrow> agent_insert_n mt c v w sk;
     sketch_inserts mt c w xs sk'
   }"

definition distribution_sampled_fallible ::
    "math \<Rightarrow> config \<Rightarrow> ('e + f64) list \<Rightarrow> sample_rate option \<Rightarrow> ('e + metric_values) option" where
  "distribution_sampled_fallible mt c xs r =
     map_option (map_sum id (\<lambda>sk. Distribution [tv_from sk]))
       (sketch_inserts mt c (rate_weight (case r of None \<Rightarrow> unsampled | Some r \<Rightarrow> r)) xs agent_default)"

end
