(* ===== verification/Metric_Context.thy ===== *)
theory Metric_Context
  imports Metric_Values
begin

text \<open>
  Metric contexts, metadata and metrics (\<^verbatim>\<open>lib/saluki-core/src/data_model/event/metric\<close>: \<^verbatim>\<open>context/mod.rs\<close>,
  \<^verbatim>\<open>context/hash.rs\<close>, \<^verbatim>\<open>metadata.rs\<close> and \<^verbatim>\<open>mod.rs\<close>).

  A tag set is the list of its tags in iteration order. The fast hasher is third-party code: \<open>hash_single\<close> hashes a
  tag, \<open>hash_fields\<close> is what the hasher returns after the name, the host and the two combined hashes were written.
  Two contexts are equal when their keys are, as in the source.
\<close>

section \<open>Context keys\<close>

record hasher =
  hash_single :: "string \<Rightarrow> 64 word"
  hash_fields :: "string \<Rightarrow> string option \<Rightarrow> 64 word \<Rightarrow> 64 word \<Rightarrow> 64 word"

unbundle bit_operations_syntax

text \<open>The loop over the tags: the hashes seen so far, and their combination.\<close>

fun combine_tags :: "hasher \<Rightarrow> string list \<Rightarrow> 64 word list \<Rightarrow> 64 word \<Rightarrow> 64 word" where
  "combine_tags hs [] seen acc = acc"
| "combine_tags hs (tag # tags) seen acc =
     (let tag_hash = hash_single hs tag
      in if tag_hash \<in> set seen then combine_tags hs tags seen acc
         else combine_tags hs tags (tag_hash # seen) (acc XOR tag_hash))"

definition hash_context_with_host_and_seen ::
    "hasher \<Rightarrow> string \<Rightarrow> string option \<Rightarrow> string list \<Rightarrow> string list \<Rightarrow> 64 word \<times> 64 word" where
  "hash_context_with_host_and_seen hs name host tags origin_tags =
     (let combined_tags_hash = combine_tags hs tags [] 0;
          combined_origin_tags_hash = combine_tags hs origin_tags [] 0
      in (hash_fields hs name host combined_tags_hash combined_origin_tags_hash, combined_tags_hash))"

definition hash_context :: "hasher \<Rightarrow> string \<Rightarrow> string list \<Rightarrow> string list \<Rightarrow> 64 word \<times> 64 word" where
  "hash_context hs name tags origin_tags = hash_context_with_host_and_seen hs name None tags origin_tags"

section \<open>Contexts\<close>

record metric_context =
  ctx_key :: "64 word"
  ctx_name :: string
  ctx_host :: "string option"
  ctx_tags :: "string list"
  ctx_origin_tags :: "string list"

definition calculate_key :: "hasher \<Rightarrow> string \<Rightarrow> string option \<Rightarrow> string list \<Rightarrow> string list \<Rightarrow> 64 word" where
  "calculate_key hs name host tags origin_tags = fst (hash_context_with_host_and_seen hs name host tags origin_tags)"

definition context_eq :: "metric_context \<Rightarrow> metric_context \<Rightarrow> bool" where
  "context_eq a b \<longleftrightarrow> ctx_key a = ctx_key b"

definition context_from_parts :: "hasher \<Rightarrow> string \<Rightarrow> string list \<Rightarrow> metric_context" where
  "context_from_parts hs name tags =
     \<lparr>ctx_key = fst (hash_context hs name tags []), ctx_name = name, ctx_host = None, ctx_tags = tags,
      ctx_origin_tags = []\<rparr>"

definition context_with_name :: "hasher \<Rightarrow> string \<Rightarrow> metric_context \<Rightarrow> metric_context" where
  "context_with_name hs name c =
     \<lparr>ctx_key = calculate_key hs name (ctx_host c) (ctx_tags c) (ctx_origin_tags c), ctx_name = name,
      ctx_host = ctx_host c, ctx_tags = ctx_tags c, ctx_origin_tags = ctx_origin_tags c\<rparr>"

definition context_with_tags :: "hasher \<Rightarrow> string list \<Rightarrow> metric_context \<Rightarrow> metric_context" where
  "context_with_tags hs tags c =
     \<lparr>ctx_key = calculate_key hs (ctx_name c) (ctx_host c) tags (ctx_origin_tags c), ctx_name = ctx_name c,
      ctx_host = ctx_host c, ctx_tags = tags, ctx_origin_tags = ctx_origin_tags c\<rparr>"

definition context_with_origin_tags :: "hasher \<Rightarrow> string list \<Rightarrow> metric_context \<Rightarrow> metric_context" where
  "context_with_origin_tags hs origin_tags c =
     \<lparr>ctx_key = calculate_key hs (ctx_name c) (ctx_host c) (ctx_tags c) origin_tags, ctx_name = ctx_name c,
      ctx_host = ctx_host c, ctx_tags = ctx_tags c, ctx_origin_tags = origin_tags\<rparr>"

definition context_with_tags_and_origin_tags :: "hasher \<Rightarrow> string list \<Rightarrow> string list \<Rightarrow> metric_context \<Rightarrow> metric_context" where
  "context_with_tags_and_origin_tags hs tags origin_tags c =
     \<lparr>ctx_key = calculate_key hs (ctx_name c) (ctx_host c) tags origin_tags, ctx_name = ctx_name c,
      ctx_host = ctx_host c, ctx_tags = tags, ctx_origin_tags = origin_tags\<rparr>"

definition context_with_host :: "hasher \<Rightarrow> string option \<Rightarrow> metric_context \<Rightarrow> metric_context" where
  "context_with_host hs host c =
     \<lparr>ctx_key = calculate_key hs (ctx_name c) host (ctx_tags c) (ctx_origin_tags c), ctx_name = ctx_name c,
      ctx_host = host, ctx_tags = ctx_tags c, ctx_origin_tags = ctx_origin_tags c\<rparr>"

text \<open>\<^verbatim>\<open>mutate_inner\<close> with a closure on the two tag sets; a shared context is cloned first.\<close>

definition with_tag_sets_mut ::
    "hasher \<Rightarrow> (string list \<Rightarrow> string list \<Rightarrow> string list \<times> string list) \<Rightarrow> metric_context \<Rightarrow> metric_context" where
  "with_tag_sets_mut hs f c =
     (let (tags, origin_tags) = f (ctx_tags c) (ctx_origin_tags c); inner = c\<lparr>ctx_tags := tags, ctx_origin_tags := origin_tags\<rparr>
      in inner\<lparr>ctx_key := calculate_key hs (ctx_name inner) (ctx_host inner) (ctx_tags inner) (ctx_origin_tags inner)\<rparr>)"

section \<open>Metadata and metrics\<close>

datatype metric_origin =
    SourceType string
  | OriginMetadata nat nat nat

record metric_metadata =
  md_origin :: "metric_origin option"
  md_unit :: string

definition metadata_default :: metric_metadata where
  "metadata_default = \<lparr>md_origin = None, md_unit = []\<rparr>"

definition with_source_type :: "string option \<Rightarrow> metric_metadata \<Rightarrow> metric_metadata" where
  "with_source_type source_type md = md\<lparr>md_origin := map_option SourceType source_type\<rparr>"

definition with_origin :: "metric_origin option \<Rightarrow> metric_metadata \<Rightarrow> metric_metadata" where
  "with_origin origin md = md\<lparr>md_origin := origin\<rparr>"

definition metadata_unit :: "metric_metadata \<Rightarrow> string option" where
  "metadata_unit md = (if md_unit md = [] then None else Some (md_unit md))"

definition with_unit :: "string \<Rightarrow> metric_metadata \<Rightarrow> metric_metadata" where
  "with_unit unit md = md\<lparr>md_unit := unit\<rparr>"

definition jmx_check_name_to_product_detail :: "string \<Rightarrow> nat" where
  "jmx_check_name_to_product_detail check_name =
     (if check_name = ''jmx-custom-check'' then 9
      else if check_name = ''activemq'' then 12
      else if check_name = ''cassandra'' then 28
      else if check_name = ''confluent_platform'' then 40
      else if check_name = ''hazelcast'' then 70
      else if check_name = ''hive'' then 73
      else if check_name = ''hivemq'' then 74
      else if check_name = ''hudi'' then 76
      else if check_name = ''ignite'' then 83
      else if check_name = ''jboss_wildfly'' then 87
      else if check_name = ''kafka'' then 90
      else if check_name = ''presto'' then 130
      else if check_name = ''solr'' then 147
      else if check_name = ''sonarqube'' then 148
      else if check_name = ''tomcat'' then 163
      else if check_name = ''weblogic'' then 172
      else 0)"

definition origin_dogstatsd :: metric_origin where
  "origin_dogstatsd = OriginMetadata 10 10 0"

definition origin_jmx_check :: "string \<Rightarrow> metric_origin" where
  "origin_jmx_check check_name = OriginMetadata 10 11 (jmx_check_name_to_product_detail check_name)"

fun is_dogstatsd :: "metric_origin \<Rightarrow> bool" where
  "is_dogstatsd (OriginMetadata _ subproduct _) = (subproduct = 10)"
| "is_dogstatsd (SourceType _) = False"

record metric =
  m_context :: metric_context
  m_values :: metric_values
  m_metadata :: metric_metadata

definition metric_into_parts :: "metric \<Rightarrow> metric_context \<times> metric_values \<times> metric_metadata" where
  "metric_into_parts m = (m_context m, m_values m, m_metadata m)"

definition metric_from_parts :: "metric_context \<Rightarrow> metric_values \<Rightarrow> metric_metadata \<Rightarrow> metric" where
  "metric_from_parts c values md = \<lparr>m_context = c, m_values = values, m_metadata = md\<rparr>"

section \<open>A key does not depend on the order or repetition of tags\<close>

lemma bit_combine_tags:
  "bit (combine_tags hs tags seen acc) k \<longleftrightarrow>
   bit acc k \<noteq> odd (card {h \<in> hash_single hs ` set tags - set seen. bit h k})"
proof (induction hs tags seen acc rule: combine_tags.induct)
  case (2 hs tag tags seen acc)
  let ?h = "hash_single hs tag"
  show ?case
  proof (cases "?h \<in> set seen")
    case True
    then have "hash_single hs ` set (tag # tags) - set seen = hash_single hs ` set tags - set seen" by auto
    then show ?thesis using True "2.IH"(1) by simp
  next
    case False
    let ?A = "{h \<in> hash_single hs ` set tags - set (?h # seen). bit h k}"
    have "{h \<in> hash_single hs ` set (tag # tags) - set seen. bit h k} = (if bit ?h k then insert ?h ?A else ?A)"
      using False by auto
    moreover have "?h \<notin> ?A" "finite ?A" by auto
    ultimately have "card {h \<in> hash_single hs ` set (tag # tags) - set seen. bit h k} =
        (if bit ?h k then Suc (card ?A) else card ?A)" by simp
    then show ?thesis using False "2.IH"(2) [OF refl False] by (auto simp: bit_xor_iff Let_def)
  qed
qed simp

lemma combine_tags_set: "set tags = set tags' \<Longrightarrow> combine_tags hs tags seen acc = combine_tags hs tags' seen acc"
  by (rule bit_eqI) (simp add: bit_combine_tags)

lemma calculate_key_sets:
  "set tags = set tags' \<Longrightarrow> set origin_tags = set origin_tags' \<Longrightarrow>
   calculate_key hs name host tags origin_tags = calculate_key hs name host tags' origin_tags'"
  using combine_tags_set [of tags tags' hs "[]" 0] combine_tags_set [of origin_tags origin_tags' hs "[]" 0]
  by (simp add: calculate_key_def hash_context_with_host_and_seen_def)

text \<open>The key a context stores is that of its fields.\<close>

definition context_ok :: "hasher \<Rightarrow> metric_context \<Rightarrow> bool" where
  "context_ok hs c \<longleftrightarrow> ctx_key c = calculate_key hs (ctx_name c) (ctx_host c) (ctx_tags c) (ctx_origin_tags c)"

lemma context_ok_ops:
  "context_ok hs (context_from_parts hs name tags)"
  "context_ok hs (context_with_name hs name c)"
  "context_ok hs (context_with_tags hs tags c)"
  "context_ok hs (context_with_origin_tags hs tags c)"
  "context_ok hs (context_with_tags_and_origin_tags hs tags tags' c)"
  "context_ok hs (context_with_host hs host c)"
  "context_ok hs (with_tag_sets_mut hs f c)"
  by (simp_all add: context_ok_def context_from_parts_def context_with_name_def context_with_tags_def
      context_with_origin_tags_def context_with_tags_and_origin_tags_def context_with_host_def with_tag_sets_mut_def
      hash_context_def calculate_key_def split: prod.splits)

end
