(* ===== verification/Aggregate_Config.thy ===== *)
theory Aggregate_Config
  imports Metric_Context
begin

text \<open>
  Which statistics the aggregator computes over histograms
  (\<^verbatim>\<open>lib/saluki-components/src/transforms/aggregate/config.rs\<close>), with the parts of the standard library the parsing of
  the configuration uses: \<^verbatim>\<open>str::parse::<f64>\<close> and the decimal form of an integer.
\<close>

section \<open>Decimal numbers\<close>

definition digit_value :: "char \<Rightarrow> nat" where
  "digit_value c = of_char c - 48"

definition decimal_value :: "string \<Rightarrow> nat" where
  "decimal_value ds = foldl (\<lambda>n c. 10 * n + digit_value c) 0 ds"

fun decimal_string :: "nat \<Rightarrow> string" where
  "decimal_string n =
     (if n < 10 then [char_of (48 + n)] else decimal_string (n div 10) @ [char_of (48 + n mod 10)])"

declare decimal_string.simps [simp del]

definition ascii_lower :: "char \<Rightarrow> char" where
  "ascii_lower c = (if 65 \<le> (of_char c :: nat) \<and> (of_char c :: nat) \<le> 90 then char_of ((of_char c :: nat) + 32) else c)"

text \<open>\<open>n * 10 ^ k\<close> rounded to nearest, ties to even: enough quotient bits and a sticky bit.\<close>

definition f64_of_decimal :: "bool \<Rightarrow> nat \<Rightarrow> int \<Rightarrow> f64" where
  "f64_of_decimal neg n k =
     (if n = 0 then F64_Fin neg 0 (-1074)
      else if 0 \<le> k then f64_round neg (n * 10 ^ nat k) 0
      else let d = 10 ^ nat (- k); s = bitlen d + 64; m = n * 2 ^ s
           in f64_round neg (2 * (m div d) + (if m mod d = 0 then 0 else 1)) (- int s - 1))"

fun parse_exponent :: "string \<Rightarrow> int option" where
  "parse_exponent [] = Some 0"
| "parse_exponent (c # cs) =
     (if c = CHR ''e'' \<or> c = CHR ''E'' then
        (let (neg, ds) = (case cs of
              [] \<Rightarrow> (False, [])
            | d # ds \<Rightarrow> (if d = CHR ''-'' then (True, ds) else if d = CHR ''+'' then (False, ds) else (False, cs)))
         in if ds \<noteq> [] \<and> list_all is_ascii_digit ds
            then Some (if neg then - int (decimal_value ds) else int (decimal_value ds)) else None)
      else None)"

definition parse_f64 :: "string \<Rightarrow> f64 option" where
  "parse_f64 s =
     (let (neg, r) = (case s of
           [] \<Rightarrow> (False, [])
         | c # cs \<Rightarrow> (if c = CHR ''-'' then (True, cs) else if c = CHR ''+'' then (False, cs) else (False, s)));
          lower = map ascii_lower r
      in if lower = ''inf'' \<or> lower = ''infinity'' then Some (F64_Inf neg)
         else if lower = ''nan'' then Some F64_NaN
         else
           (let ip = takeWhile is_ascii_digit r; r1 = dropWhile is_ascii_digit r;
                (fp, r2) = (case r1 of
                    [] \<Rightarrow> ([], [])
                  | c # cs \<Rightarrow> (if c = CHR ''.'' then (takeWhile is_ascii_digit cs, dropWhile is_ascii_digit cs) else ([], r1)))
            in if ip = [] \<and> fp = [] then None
               else map_option (\<lambda>x. f64_of_decimal neg (decimal_value (ip @ fp)) (x - int (length fp))) (parse_exponent r2)))"

text \<open>\<^verbatim>\<open>x as u32\<close>.\<close>

definition f64_to_u32 :: "f64 \<Rightarrow> nat" where
  "f64_to_u32 x = min (f64_to_u64 x) u32_max"

section \<open>Statistics\<close>

datatype histogram_statistic =
    HsCount
  | HsSum
  | HsMinimum
  | HsMaximum
  | HsAverage
  | HsMedian
  | HsPercentile f64 string

fun hs_suffix :: "histogram_statistic \<Rightarrow> string" where
  "hs_suffix HsCount = ''count''"
| "hs_suffix HsSum = ''sum''"
| "hs_suffix HsMinimum = ''min''"
| "hs_suffix HsMaximum = ''max''"
| "hs_suffix HsAverage = ''avg''"
| "hs_suffix HsMedian = ''median''"
| "hs_suffix (HsPercentile q suffix) = suffix"

definition is_rate_statistic :: "histogram_statistic \<Rightarrow> bool" where
  "is_rate_statistic st \<longleftrightarrow> st = HsCount"

definition unwrap_or_zero :: "f64 option \<Rightarrow> f64" where
  "unwrap_or_zero r = (case r of None \<Rightarrow> f64_zero | Some v \<Rightarrow> v)"

fun value_from_histogram :: "histogram_statistic \<Rightarrow> histogram_summary \<Rightarrow> f64" where
  "value_from_histogram HsCount s = f64_of_nat (summary_count s)"
| "value_from_histogram HsSum s = sm_sum s"
| "value_from_histogram HsMinimum s = unwrap_or_zero (summary_min s)"
| "value_from_histogram HsMaximum s = unwrap_or_zero (summary_max s)"
| "value_from_histogram HsAverage s = summary_avg s"
| "value_from_histogram HsMedian s = unwrap_or_zero (summary_median s)"
| "value_from_histogram (HsPercentile q suffix) s = unwrap_or_zero (summary_quantile q s)"

record histogram_configuration =
  hc_statistics :: "histogram_statistic list"
  hc_copy_to_distribution :: bool
  hc_copy_to_distribution_prefix :: string

datatype config_error =
    UnknownAggregate string
  | InvalidPercentile string
  | PercentileOutOfRange string

fun parse_aggregates :: "string list \<Rightarrow> config_error + histogram_statistic list" where
  "parse_aggregates [] = Inr []"
| "parse_aggregates (a # as) =
     (case (if a = ''count'' then Some HsCount
            else if a = ''sum'' then Some HsSum
            else if a = ''min'' then Some HsMinimum
            else if a = ''max'' then Some HsMaximum
            else if a = ''avg'' then Some HsAverage
            else if a = ''median'' then Some HsMedian
            else None) of
        None \<Rightarrow> Inl (UnknownAggregate a)
      | Some st \<Rightarrow> map_sum id ((#) st) (parse_aggregates as))"

fun parse_percentiles :: "string list \<Rightarrow> config_error + histogram_statistic list" where
  "parse_percentiles [] = Inr []"
| "parse_percentiles (p # ps) =
     (case parse_f64 p of
        None \<Rightarrow> Inl (InvalidPercentile p)
      | Some quantile \<Rightarrow>
          (if \<not> (f64_le f64_zero quantile \<and> f64_le quantile f64_one) then Inl (PercentileOutOfRange p)
           else
             (let percentile = f64_to_u32 (f64_add (f64_mul quantile (f64_of_nat 100)) (f64_div f64_one (f64_of_nat 2)));
                  q = f64_div (f64_of_nat percentile) (f64_of_nat 100)
              in map_sum id ((#) (HsPercentile q (decimal_string percentile @ ''percentile''))) (parse_percentiles ps))))"

definition hc_try_new :: "string list \<Rightarrow> string list \<Rightarrow> bool \<Rightarrow> string \<Rightarrow> config_error + histogram_configuration" where
  "hc_try_new aggregates percentiles copy_to_distribution copy_prefix =
     (case parse_aggregates aggregates of
        Inl e \<Rightarrow> Inl e
      | Inr sts \<Rightarrow>
          (case parse_percentiles percentiles of
             Inl e \<Rightarrow> Inl e
           | Inr qs \<Rightarrow>
               Inr \<lparr>hc_statistics = sts @ qs, hc_copy_to_distribution = copy_to_distribution,
                    hc_copy_to_distribution_prefix = copy_prefix\<rparr>))"

end
