(* ===== verification/Aggregate.thy ===== *)
theory Aggregate
  imports Aggregate_Config Dispatcher
begin

text \<open>
  The aggregate transform (\<^verbatim>\<open>lib/saluki-components/src/transforms/aggregate/mod.rs\<close>): the aggregation state, insertion
  of metrics into buckets, flushing of closed buckets with zero-value counters, and the loop of the component.

  The map of contexts is keyed by the key of a context, by which contexts compare; the stored context is the one
  that was inserted first, as the entry API keeps it. The dispatcher a flush pushes to is a state \<open>'d\<close> with an operation
  \<open>push\<close>; the component passes the buffered dispatcher. Telemetry and logging are left out, and the capacity of the
  map has no effect on results.
\<close>

section \<open>State\<close>

record aggregated_metric =
  am_values :: metric_values
  am_metadata :: metric_metadata
  am_last_seen :: nat

record aggregation_state =
  as_contexts :: "(64 word, metric_context \<times> aggregated_metric) hash_map"
  as_contexts_remove_buf :: "64 word list"
  as_context_limit :: nat
  as_bucket_width_secs :: nat
  as_counter_expire_secs :: "nat option"
  as_last_flush :: nat
  as_hist_config :: histogram_configuration
  as_context_limit_breached :: bool

text \<open>\<^verbatim>\<open>Duration::as_secs\<close> of a duration in nanoseconds.\<close>

definition aggregation_state_new ::
    "nat \<Rightarrow> nat \<Rightarrow> duration option \<Rightarrow> histogram_configuration \<Rightarrow> aggregation_state" where
  "aggregation_state_new bucket_width_secs context_limit counter_expiration hist_config =
     \<lparr>as_contexts = [], as_contexts_remove_buf = [], as_context_limit = context_limit,
      as_bucket_width_secs = bucket_width_secs,
      as_counter_expire_secs = Option.bind (map_option (\<lambda>d. d div 1000000000) counter_expiration) non_zero,
      as_last_flush = 0, as_hist_config = hist_config, as_context_limit_breached = False\<rparr>"

definition as_is_empty :: "aggregation_state \<Rightarrow> bool" where
  "as_is_empty st \<longleftrightarrow> as_contexts st = []"

datatype aggregate_metric_type = TyCounter | TyRate | TyGauge | TySet | TyHistogram | TyDistribution

fun aggregate_metric_type_of :: "metric_values \<Rightarrow> aggregate_metric_type" where
  "aggregate_metric_type_of (Counter _) = TyCounter"
| "aggregate_metric_type_of (Rate _ _) = TyRate"
| "aggregate_metric_type_of (Gauge _) = TyGauge"
| "aggregate_metric_type_of (SetValues _) = TySet"
| "aggregate_metric_type_of (HistogramValues _) = TyHistogram"
| "aggregate_metric_type_of (Distribution _) = TyDistribution"

record snapshot_entry =
  se_context :: metric_context
  se_metric_type :: aggregate_metric_type
  se_unit :: string

definition snapshot_contexts :: "aggregation_state \<Rightarrow> snapshot_entry list" where
  "snapshot_contexts st =
     map (\<lambda>(_, c, am). \<lparr>se_context = c, se_metric_type = aggregate_metric_type_of (am_values am),
                          se_unit = md_unit (am_metadata am)\<rparr>) (as_contexts st)"

section \<open>Buckets\<close>

definition align_to_bucket_start :: "nat \<Rightarrow> nat \<Rightarrow> nat" where
  "align_to_bucket_start timestamp bucket_width_secs = timestamp - timestamp mod bucket_width_secs"

definition is_bucket_closed :: "nat \<Rightarrow> nat \<Rightarrow> nat \<Rightarrow> bool \<Rightarrow> bool option" where
  "is_bucket_closed current_time bucket_start bucket_width_secs flush_open_buckets = do {
     a \<leftarrow> u64_add bucket_start bucket_width_secs;
     b \<leftarrow> u64_sub a 1;
     Some (b < current_time \<or> flush_open_buckets)
   }"

text \<open>\<^verbatim>\<open>(start..stop).step_by(w)\<close>, for a positive \<open>w\<close>.\<close>

function step_by :: "nat \<Rightarrow> nat \<Rightarrow> nat \<Rightarrow> nat list" where
  "step_by start stop w = (if start < stop \<and> 0 < w then start # step_by (start + w) stop w else [])"
  by pat_completeness auto
termination by (relation "measure (\<lambda>(start, stop, w). stop - start)") auto

declare step_by.simps [simp del]

section \<open>Insertion\<close>

definition as_insert ::
    "math \<Rightarrow> config \<Rightarrow> nat \<Rightarrow> metric \<Rightarrow> aggregation_state \<Rightarrow> (aggregation_state \<times> bool) option" where
  "as_insert mt c timestamp m st =
     (let key = ctx_key (m_context m)
      in if \<not> hm_contains (as_contexts st) key \<and> length (as_contexts st) \<ge> as_context_limit st
         then Some (st\<lparr>as_context_limit_breached := True\<rparr>, False)
         else
           (let st1 = (if as_contexts st = [] then st\<lparr>as_last_flush := 0\<rparr> else st);
                (ctx, values, metadata) = metric_into_parts m;
                bucket_ts = align_to_bucket_start timestamp (as_bucket_width_secs st)
            in do {
              values' \<leftarrow> mv_collapse_non_timestamped mt c bucket_ts values;
              case map_of (as_contexts st1) key of
                Some (ctx', am) \<Rightarrow> do {
                  merged \<leftarrow> mv_merge mt c values' (am_values am);
                  Some (st1\<lparr>as_contexts :=
                          hm_insert key (ctx', am\<lparr>am_last_seen := timestamp, am_values := merged\<rparr>) (as_contexts st1)\<rparr>, True)
                }
              | None \<Rightarrow>
                  Some (st1\<lparr>as_contexts :=
                          hm_insert key (ctx, \<lparr>am_values = values', am_metadata = metadata, am_last_seen = timestamp\<rparr>)
                            (as_contexts st1)\<rparr>, True)
            }))"

section \<open>Emission of metrics\<close>

definition counter_values_to_rate :: "metric_values \<Rightarrow> nat \<Rightarrow> metric_values" where
  "counter_values_to_rate values interval_secs =
     (case values of Counter points \<Rightarrow> Rate points (from_secs interval_secs) | _ \<Rightarrow> values)"

fun sketch_samples :: "math \<Rightarrow> config \<Rightarrow> weighted_sample list \<Rightarrow> agent_sketch \<Rightarrow> agent_sketch option" where
  "sketch_samples mt c [] sk = Some sk"
| "sketch_samples mt c (s # ss) sk = do {
     sk' \<leftarrow> agent_insert_n mt c (ws_value s) (f64_to_u64 (ws_weight s)) sk;
     sketch_samples mt c ss sk'
   }"

fun sketch_points :: "math \<Rightarrow> config \<Rightarrow> histogram points \<Rightarrow> agent_sketch points option" where
  "sketch_points mt c [] = Some []"
| "sketch_points mt c (p # ps) = do {
     sk \<leftarrow> sketch_samples mt c (hs_samples (tv_value p)) agent_default;
     rest \<leftarrow> sketch_points mt c ps;
     Some (\<lparr>tv_timestamp = tv_timestamp p, tv_value = sk\<rparr> # rest)
   }"

definition statistic_metric ::
    "hasher \<Rightarrow> math \<Rightarrow> nat \<Rightarrow> metric_context \<Rightarrow> metric_metadata \<Rightarrow> histogram points \<Rightarrow> histogram_statistic \<Rightarrow> metric" where
  "statistic_metric hs mt bucket_width_secs ctx md points st =
     (let new_points = points_from
            (map (\<lambda>p. \<lparr>tv_timestamp = tv_timestamp p, tv_value = value_from_histogram st (summary_view mt (tv_value p))\<rparr>) points);
          new_values = (if is_rate_statistic st then Rate new_points (from_secs bucket_width_secs) else Gauge new_points);
          new_metadata = (if st = HsCount then with_unit [] md else md)
      in metric_from_parts (context_with_name hs (ctx_name ctx @ ''.'' @ hs_suffix st) ctx) new_values new_metadata)"

text \<open>The metrics a set of closed values becomes, in the order they are pushed.\<close>

definition copied_distribution ::
    "hasher \<Rightarrow> math \<Rightarrow> config \<Rightarrow> histogram_configuration \<Rightarrow> metric_context \<Rightarrow> metric_metadata \<Rightarrow> histogram points \<Rightarrow>
     metric option" where
  "copied_distribution hs mt c hist_config ctx md points = do {
     sps \<leftarrow> sketch_points mt c points;
     Some (metric_from_parts
             (if hc_copy_to_distribution_prefix hist_config \<noteq> []
              then context_with_name hs (hc_copy_to_distribution_prefix hist_config @ ctx_name ctx) ctx else ctx)
             (Distribution sps) md)
   }"

fun push_all :: "('i \<Rightarrow> 'd \<Rightarrow> ('d \<times> ('e + unit)) option) \<Rightarrow> 'i list \<Rightarrow> 'd \<Rightarrow> ('d \<times> ('e + unit)) option" where
  "push_all push [] d = Some (d, Inr ())"
| "push_all push (i # is) d = do {
     (d', r) \<leftarrow> push i d;
     case r of Inl e \<Rightarrow> Some (d', Inl e) | Inr _ \<Rightarrow> push_all push is d'
   }"

text \<open>The copy is computed and pushed before the statistics are.\<close>

definition transform_and_push_metric ::
    "hasher \<Rightarrow> math \<Rightarrow> config \<Rightarrow> (metric \<Rightarrow> 'd \<Rightarrow> ('d \<times> ('e + unit)) option) \<Rightarrow> metric_context \<Rightarrow> metric_values \<Rightarrow>
     metric_metadata \<Rightarrow> nat \<Rightarrow> histogram_configuration \<Rightarrow> 'd \<Rightarrow> ('d \<times> ('e + unit)) option" where
  "transform_and_push_metric hs mt c push ctx values md bucket_width_secs hist_config d =
     (case values of
        HistogramValues points \<Rightarrow> do {
          (d1, r) \<leftarrow>
            (if hc_copy_to_distribution hist_config
             then do { m \<leftarrow> copied_distribution hs mt c hist_config ctx md points; push m d }
             else Some (d, Inr ()));
          case r of
            Inl e \<Rightarrow> Some (d1, Inl e)
          | Inr _ \<Rightarrow> push_all push (map (statistic_metric hs mt bucket_width_secs ctx md points) (hc_statistics hist_config)) d1
        }
      | _ \<Rightarrow> push (metric_from_parts ctx (counter_values_to_rate values bucket_width_secs) md) d)"

section \<open>Flushing\<close>

text \<open>The buckets for which idle counters get a zero value.\<close>

fun closed_buckets :: "nat \<Rightarrow> nat \<Rightarrow> bool \<Rightarrow> nat list \<Rightarrow> nat list option" where
  "closed_buckets current_time bucket_width_secs flush_open_buckets [] = Some []"
| "closed_buckets current_time bucket_width_secs flush_open_buckets (b # bs) = do {
     closed \<leftarrow> is_bucket_closed current_time b bucket_width_secs flush_open_buckets;
     rest \<leftarrow> closed_buckets current_time bucket_width_secs flush_open_buckets bs;
     Some (if closed then b # rest else rest)
   }"

definition zero_value_buckets :: "nat \<Rightarrow> bool \<Rightarrow> aggregation_state \<Rightarrow> nat list option" where
  "zero_value_buckets current_time flush_open_buckets st =
     (if as_last_flush st \<noteq> 0
      then closed_buckets current_time (as_bucket_width_secs st) flush_open_buckets
             (step_by (align_to_bucket_start (as_last_flush st) (as_bucket_width_secs st)) current_time
                (as_bucket_width_secs st))
      else Some [])"

fun merge_zero_values :: "math \<Rightarrow> config \<Rightarrow> nat \<Rightarrow> nat list \<Rightarrow> metric_values \<Rightarrow> metric_values option" where
  "merge_zero_values mt c expires_at [] values = Some values"
| "merge_zero_values mt c expires_at (b # bs) values =
     (if expires_at > b
      then do { v \<leftarrow> mv_merge mt c (Counter [tv_from_at b f64_zero]) values; merge_zero_values mt c expires_at bs v }
      else Some values)"

definition is_counter :: "metric_values \<Rightarrow> bool" where
  "is_counter values \<longleftrightarrow> (case values of Counter _ \<Rightarrow> True | _ \<Rightarrow> False)"

definition should_expire_if_empty :: "nat \<Rightarrow> nat \<Rightarrow> aggregated_metric \<Rightarrow> bool" where
  "should_expire_if_empty current_time counter_expire_secs am \<longleftrightarrow>
     (if is_counter (am_values am)
      then counter_expire_secs = 0 \<or> sat_add (am_last_seen am) counter_expire_secs < current_time
      else True)"

record flush_params =
  fp_current_time :: nat
  fp_split_timestamp :: nat
  fp_counter_expire_secs :: nat
  fp_bucket_width_secs :: nat
  fp_zero_value_buckets :: "nat list"
  fp_hist_config :: histogram_configuration

text \<open>The body of the loop over the contexts: the entry, the dispatcher, the result and whether to remove the entry.\<close>

definition flush_context ::
    "hasher \<Rightarrow> math \<Rightarrow> config \<Rightarrow> (metric \<Rightarrow> 'd \<Rightarrow> ('d \<times> ('e + unit)) option) \<Rightarrow> flush_params \<Rightarrow>
     metric_context \<Rightarrow> aggregated_metric \<Rightarrow> 'd \<Rightarrow> (aggregated_metric \<times> 'd \<times> ('e + bool)) option" where
  "flush_context hs mt c push fp ctx am d = do {
     let expire = should_expire_if_empty (fp_current_time fp) (fp_counter_expire_secs fp) am;
     values \<leftarrow>
       (if is_counter (am_values am)
        then merge_zero_values mt c (sat_add (am_last_seen am) (fp_counter_expire_secs fp)) (fp_zero_value_buckets fp)
               (am_values am)
        else Some (am_values am));
     let (closed, remaining) = mv_split_at_timestamp (fp_split_timestamp fp) values;
     let am' = am\<lparr>am_values := remaining\<rparr>;
     (d', r) \<leftarrow>
       (case closed of
          None \<Rightarrow> Some (d, Inr ())
        | Some closed_bucket_values \<Rightarrow>
            transform_and_push_metric hs mt c push ctx closed_bucket_values (am_metadata am) (fp_bucket_width_secs fp)
              (fp_hist_config fp) d);
     case r of
       Inl e \<Rightarrow> Some (am', d', Inl e)
     | Inr _ \<Rightarrow> Some (am', d', Inr (mv_is_empty remaining \<and> expire))
   }"

fun flush_contexts ::
    "hasher \<Rightarrow> math \<Rightarrow> config \<Rightarrow> (metric \<Rightarrow> 'd \<Rightarrow> ('d \<times> ('e + unit)) option) \<Rightarrow> flush_params \<Rightarrow>
     (64 word, metric_context \<times> aggregated_metric) hash_map \<Rightarrow> 64 word list \<Rightarrow> 'd \<Rightarrow>
     ((64 word, metric_context \<times> aggregated_metric) hash_map \<times> 64 word list \<times> 'd \<times> ('e + unit)) option" where
  "flush_contexts hs mt c push fp [] buf d = Some ([], buf, d, Inr ())"
| "flush_contexts hs mt c push fp ((key, ctx, am) # entries) buf d = do {
     (am', d', r) \<leftarrow> flush_context hs mt c push fp ctx am d;
     case r of
       Inl e \<Rightarrow> Some ((key, ctx, am') # entries, buf, d', Inl e)
     | Inr remove \<Rightarrow> do {
         (entries', buf', d'', r') \<leftarrow> flush_contexts hs mt c push fp entries (if remove then buf @ [key] else buf) d';
         Some ((key, ctx, am') # entries', buf', d'', r')
       }
   }"

definition flush_params_for :: "nat \<Rightarrow> bool \<Rightarrow> nat list \<Rightarrow> aggregation_state \<Rightarrow> flush_params" where
  "flush_params_for current_time flush_open_buckets zero_buckets st =
     \<lparr>fp_current_time = current_time,
      fp_split_timestamp =
        (if flush_open_buckets then u64_max
         else sat_sub (align_to_bucket_start current_time (as_bucket_width_secs st)) 1),
      fp_counter_expire_secs = (case as_counter_expire_secs st of None \<Rightarrow> 0 | Some s \<Rightarrow> s),
      fp_bucket_width_secs = as_bucket_width_secs st,
      fp_zero_value_buckets = zero_buckets,
      fp_hist_config = as_hist_config st\<rparr>"

definition as_flush ::
    "hasher \<Rightarrow> math \<Rightarrow> config \<Rightarrow> (metric \<Rightarrow> 'd \<Rightarrow> ('d \<times> ('e + unit)) option) \<Rightarrow> nat \<Rightarrow> bool \<Rightarrow> aggregation_state \<Rightarrow> 'd \<Rightarrow>
     (aggregation_state \<times> 'd \<times> ('e + unit)) option" where
  "as_flush hs mt c push current_time flush_open_buckets st d = do {
     zero_buckets \<leftarrow> zero_value_buckets current_time flush_open_buckets st;
     let fp = flush_params_for current_time flush_open_buckets zero_buckets st;
     (entries, buf, d', r) \<leftarrow> flush_contexts hs mt c push fp (as_contexts st) [] d;
     case r of
       Inl e \<Rightarrow> Some (st\<lparr>as_contexts := entries, as_contexts_remove_buf := buf\<rparr>, d', Inl e)
     | Inr _ \<Rightarrow>
         (let entries' = foldl (\<lambda>es key. hm_remove key es) entries buf
          in Some (st\<lparr>as_contexts := entries', as_contexts_remove_buf := [],
                      as_context_limit_breached :=
                        (as_context_limit_breached st \<and> \<not> length entries' < as_context_limit st),
                      as_last_flush := current_time\<rparr>, d', Inr ()))
   }"

section \<open>The component\<close>

text \<open>
  The loop of \<^verbatim>\<open>Aggregate::run\<close> waits for a tick of the flush interval, for events or the end of its input, and for
  requests of snapshots; an input is one such wake-up, with the wall clock where the code reads it. The dispatcher
  of the component is \<open>ds\<close>. Errors of a flush are logged and have no other effect.
\<close>

record aggregate =
  ag_state :: aggregation_state
  ag_flush_open_windows :: bool
  ag_final_primary_flush :: bool
  ag_stopped :: bool

definition aggregate_build ::
    "nat \<Rightarrow> nat \<Rightarrow> bool \<Rightarrow> nat option \<Rightarrow> histogram_configuration \<Rightarrow> aggregate" where
  "aggregate_build window_duration_seconds context_limit flush_open_windows counter_expiry_seconds hist_config =
     \<lparr>ag_state = aggregation_state_new window_duration_seconds context_limit
        (map_option from_secs (case counter_expiry_seconds of Some s \<Rightarrow> (if s \<noteq> 0 then Some s else None) | None \<Rightarrow> None))
        hist_config,
      ag_flush_open_windows = flush_open_windows, ag_final_primary_flush = False, ag_stopped = False\<rparr>"

datatype ('m, 'x) aggregate_input = Tick nat | Events nat "('m, 'x) event list" | EndOfInput

type_synonym ('x, 's, 'g, 'e) component_state =
  "aggregate \<times> ('s, 'g) dispatcher \<times> ('s, (metric, 'x) event_buffer, 'e) world"

definition push_metric ::
    "('s, 'g, 'e) net \<Rightarrow> metric \<Rightarrow> ((metric, 'x) event_buffer, 's, 'g) buffered_dispatcher \<times>
       ('s, (metric, 'x) event_buffer, 'e) world \<Rightarrow>
     ((((metric, 'x) event_buffer, 's, 'g) buffered_dispatcher \<times> ('s, (metric, 'x) event_buffer, 'e) world) \<times>
       (dispatch_error + unit)) option" where
  "push_metric net m dw = do {
     (d, w, r) \<leftarrow> bd_push (event_buffer_ops events_buffer_capacity) net (EvMetric m) (fst dw) (snd dw);
     Some ((d, w), r)
   }"

fun insert_events ::
    "math \<Rightarrow> config \<Rightarrow> nat \<Rightarrow> (metric, 'x) event list \<Rightarrow> aggregation_state \<Rightarrow> aggregation_state option" where
  "insert_events mt c current_time [] st = Some st"
| "insert_events mt c current_time (ev # evs) st =
     (case try_into_metric ev of
        None \<Rightarrow> insert_events mt c current_time evs st
      | Some m \<Rightarrow> do { (st', _) \<leftarrow> as_insert mt c current_time m st; insert_events mt c current_time evs st' })"

definition flush_tick ::
    "hasher \<Rightarrow> math \<Rightarrow> config \<Rightarrow> ('s, 'g, 'e) net \<Rightarrow> nat \<Rightarrow> ('x, 's, 'g, 'e) component_state \<Rightarrow>
     ('x, 's, 'g, 'e) component_state option" where
  "flush_tick hs mt c net now s =
     (case s of (ag, ds, w) \<Rightarrow>
        (if as_is_empty (ag_state ag) then Some s
         else
           (case buffered None ds of
              Inl e \<Rightarrow> None
            | Inr bd \<Rightarrow> do {
                (st, (bd', w1), r) \<leftarrow>
                  as_flush hs mt c (push_metric net) now (ag_final_primary_flush ag \<and> ag_flush_open_windows ag)
                    (ag_state ag) (bd, w);
                (t, w2, r') \<leftarrow> bd_flush (event_buffer_ops events_buffer_capacity) net bd' w1;
                Some (ag\<lparr>ag_state := st\<rparr>, put_output None t ds, w2)
              })))"

fun aggregate_step ::
    "hasher \<Rightarrow> math \<Rightarrow> config \<Rightarrow> ('s, 'g, 'e) net \<Rightarrow> (metric, 'x) aggregate_input \<Rightarrow> ('x, 's, 'g, 'e) component_state \<Rightarrow>
     ('x, 's, 'g, 'e) component_state option" where
  "aggregate_step hs mt c net (Tick now) (ag, ds, w) =
     (if ag_stopped ag then Some (ag, ds, w)
      else do {
        (ag', ds', w') \<leftarrow> flush_tick hs mt c net now (ag, ds, w);
        Some (ag'\<lparr>ag_stopped := ag_final_primary_flush ag'\<rparr>, ds', w')
      })"
| "aggregate_step hs mt c net (Events now evs) (ag, ds, w) =
     (if ag_stopped ag \<or> ag_final_primary_flush ag then Some (ag, ds, w)
      else do { st \<leftarrow> insert_events mt c now evs (ag_state ag); Some (ag\<lparr>ag_state := st\<rparr>, ds, w) })"
| "aggregate_step hs mt c net EndOfInput (ag, ds, w) =
     (if ag_stopped ag \<or> ag_final_primary_flush ag then Some (ag, ds, w)
      else Some (ag\<lparr>ag_final_primary_flush := True\<rparr>, ds, w))"

text \<open>The states a component can reach from its construction.\<close>

inductive aggregate_reaches ::
    "hasher \<Rightarrow> math \<Rightarrow> config \<Rightarrow> ('s, 'g, 'e) net \<Rightarrow> ('x, 's, 'g, 'e) component_state \<Rightarrow> ('x, 's, 'g, 'e) component_state \<Rightarrow>
     bool"
  for hs mt c net s0 where
  start: "aggregate_reaches hs mt c net s0 s0"
| step: "aggregate_reaches hs mt c net s0 s \<Longrightarrow> aggregate_step hs mt c net input s = Some s' \<Longrightarrow>
    aggregate_reaches hs mt c net s0 s'"

end
