(* ===== verification/Metric_Buckets.thy ===== *)
theory Metric_Buckets
  imports Metric_Values
begin

text \<open>
  Metric values as maps from timestamps to values. The six kinds of metric values share their list operations; here
  they get one representation (\<open>mv_kind\<close>, \<open>mv_points\<close>), and merging, collapsing and splitting are shown to be operations
  on a map from timestamps to values.
\<close>

section \<open>One representation of the six kinds\<close>

datatype bucket_value = BScalar f64 | BSet "string fset" | BHistogram histogram | BSketch agent_sketch

datatype metric_kind = KCounter | KRate duration | KGauge | KSet | KHistogram | KDistribution

fun mv_kind :: "metric_values \<Rightarrow> metric_kind" where
  "mv_kind (Counter _) = KCounter"
| "mv_kind (Rate _ i) = KRate i"
| "mv_kind (Gauge _) = KGauge"
| "mv_kind (SetValues _) = KSet"
| "mv_kind (HistogramValues _) = KHistogram"
| "mv_kind (Distribution _) = KDistribution"

definition tv_map :: "('a \<Rightarrow> 'b) \<Rightarrow> 'a timestamped \<Rightarrow> 'b timestamped" where
  "tv_map g v = \<lparr>tv_timestamp = tv_timestamp v, tv_value = g (tv_value v)\<rparr>"

fun mv_points :: "metric_values \<Rightarrow> bucket_value points" where
  "mv_points (Counter ps) = map (tv_map BScalar) ps"
| "mv_points (Rate ps _) = map (tv_map BScalar) ps"
| "mv_points (Gauge ps) = map (tv_map BScalar) ps"
| "mv_points (SetValues ps) = map (tv_map BSet) ps"
| "mv_points (HistogramValues ps) = map (tv_map BHistogram) ps"
| "mv_points (Distribution ps) = map (tv_map BSketch) ps"

text \<open>How two values of a bucket merge, by the kind of the metric.\<close>

fun bv_merge :: "math \<Rightarrow> config \<Rightarrow> metric_kind \<Rightarrow> bucket_value \<Rightarrow> bucket_value \<Rightarrow> bucket_value option" where
  "bv_merge mt c KGauge (BScalar a) (BScalar b) = Some (BScalar b)"
| "bv_merge mt c KCounter (BScalar a) (BScalar b) = Some (BScalar (f64_add a b))"
| "bv_merge mt c (KRate _) (BScalar a) (BScalar b) = Some (BScalar (f64_add a b))"
| "bv_merge mt c KSet (BSet a) (BSet b) = Some (BSet (a |\<union>| b))"
| "bv_merge mt c KHistogram (BHistogram a) (BHistogram b) = Some (BHistogram (histogram_merge mt a b))"
| "bv_merge mt c KDistribution (BSketch a) (BSketch b) = map_option BSketch (agent_merge c b a)"
| "bv_merge mt c _ _ _ = None"

lemma tv_map_simps [simp]:
  "tv_timestamp (tv_map g v) = tv_timestamp v" "tv_value (tv_map g v) = g (tv_value v)"
  by (simp_all add: tv_map_def)

lemma tv_map_update [simp]:
  "(tv_map g v)\<lparr>tv_value := g x\<rparr> = tv_map g (v\<lparr>tv_value := x\<rparr>)"
  "(tv_map g v)\<lparr>tv_timestamp := t\<rparr> = tv_map g (v\<lparr>tv_timestamp := t\<rparr>)"
  by (simp_all add: tv_map_def)

lemma sort_by_timestamp_map [simp]:
  "sort_by_timestamp (map (tv_map g) vs) = map (tv_map g) (sort_by_timestamp vs)"
proof -
  have "insort_key tv_timestamp (tv_map g v) (map (tv_map g) vs) = map (tv_map g) (insort_key tv_timestamp v vs)" for v vs
    by (induction vs) auto
  then show ?thesis unfolding sort_by_timestamp_def by (induction vs) simp_all
qed

text \<open>A merge function on one type of values carried over to another by \<open>g\<close>.\<close>

definition merges_as :: "('a \<Rightarrow> 'b) \<Rightarrow> ('a \<Rightarrow> 'a \<Rightarrow> 'a option) \<Rightarrow> ('b \<Rightarrow> 'b \<Rightarrow> 'b option) \<Rightarrow> bool" where
  "merges_as g mrg mrg' \<longleftrightarrow> (\<forall>x y. mrg' (g x) (g y) = map_option g (mrg x y))"

lemma merges_asD: "merges_as g mrg mrg' \<Longrightarrow> mrg' (g x) (g y) = map_option g (mrg x y)"
  by (simp add: merges_as_def)

lemma merge_point_map:
  assumes "merges_as g mrg mrg'"
  shows "merge_point mrg' (tv_map g x) (map (tv_map g) vs) =
    map_option (\<lambda>(r, p). (map (tv_map g) r, p)) (merge_point mrg x vs)"
proof (induction vs)
  case (Cons v vs)
  then show ?case
    by (cases "mrg (tv_value v) (tv_value x)"; cases "merge_point mrg x vs") (auto simp: merges_asD [OF assms] split: prod.splits)
qed simp

lemma merge_points_map:
  assumes "merges_as g mrg mrg'"
  shows "merge_points mrg' (map (tv_map g) b) (map (tv_map g) a) = map_option (map (tv_map g)) (merge_points mrg b a)"
proof -
  have "merge_points_loop mrg' (map (tv_map g) b) (map (tv_map g) a) s =
      map_option (\<lambda>(r, p). (map (tv_map g) r, p)) (merge_points_loop mrg b a s)" for s
  proof (induction b arbitrary: a s)
    case (Cons x b)
    then show ?case
      by (cases "merge_point mrg x a") (auto simp: merge_point_map [OF assms] split: prod.splits)
  qed simp
  then show ?thesis
    by (cases "merge_points_loop mrg b a False") (auto simp: merge_points_def split: prod.splits)
qed

lemma dedup_untimed_map:
  assumes "merges_as g mrg mrg'"
  shows "dedup_untimed mrg' (map (tv_map g) vs) = map_option (map (tv_map g)) (dedup_untimed mrg vs)"
  using assms
proof (induction mrg vs rule: dedup_untimed.induct)
  case (3 mrg b a vs)
  show ?case
  proof (cases "tv_timestamp a = None \<and> tv_timestamp b = None")
    case True
    then show ?thesis
      using "3.IH"(1) [OF True _ "3.prems"] merges_asD [OF "3.prems"]
      by (cases "mrg (tv_value b) (tv_value a)") auto
  next
    case False
    then show ?thesis
      using "3.IH"(2) [OF False "3.prems"] by (cases "dedup_untimed mrg (a # vs)") auto
  qed
qed simp_all

lemma collapse_map:
  assumes "merges_as g mrg mrg'"
  shows "collapse_non_timestamped ts mrg' (map (tv_map g) vs) =
    map_option (map (tv_map g)) (collapse_non_timestamped ts mrg vs)"
  using dedup_untimed_map [OF assms, of vs]
  by (cases "dedup_untimed mrg vs") (auto simp: collapse_non_timestamped_def split: list.splits option.splits)

lemma due_map [simp]: "due ts (tv_map g v) = due ts v"
  by (simp add: due_def)

lemma split_at_timestamp_map:
  "split_at_timestamp ts (map (tv_map g) vs) =
   map_prod (map_option (map (tv_map g))) (map (tv_map g)) (split_at_timestamp ts vs)"
  by (auto simp: split_at_timestamp_def filter_map o_def split: list.splits option.splits)

text \<open>The merge functions of the source are the cases of \<open>bv_merge\<close>.\<close>

lemma bv_merge_hom:
  "merges_as BScalar merge_scalar_sum (bv_merge mt c KCounter)"
  "merges_as BScalar merge_scalar_sum (bv_merge mt c (KRate i))"
  "merges_as BScalar merge_scalar_latest (bv_merge mt c KGauge)"
  "merges_as BSet merge_set (bv_merge mt c KSet)"
  "merges_as BHistogram (merge_histogram mt) (bv_merge mt c KHistogram)"
  "merges_as BSketch (merge_sketch c) (bv_merge mt c KDistribution)"
  by (simp_all add: merges_as_def merge_scalar_sum_def merge_scalar_latest_def merge_set_def merge_histogram_def
      merge_sketch_def)

lemmas merge_points_hom = bv_merge_hom [THEN merge_points_map]

lemmas collapse_hom = bv_merge_hom [THEN collapse_map]

lemma mv_merge_same:
  "mv_kind self = mv_kind other \<Longrightarrow>
   map_option mv_points (mv_merge mt c other self) =
     merge_points (bv_merge mt c (mv_kind self)) (mv_points other) (mv_points self)"
  by (cases self; cases other) (simp_all add: mv_merge_def merge_points_hom option.map_comp o_def)

lemma mv_merge_other: "mv_kind self \<noteq> mv_kind other \<Longrightarrow> mv_merge mt c other self = Some other"
  by (cases self; cases other) (auto simp: mv_merge_def)

lemma mv_merge_kind: "mv_merge mt c other self = Some r \<Longrightarrow> mv_kind r = mv_kind other"
  by (cases self; cases other) (auto simp: mv_merge_def split: if_splits)

lemma mv_collapse_points:
  "map_option mv_points (mv_collapse_non_timestamped mt c ts v) =
     collapse_non_timestamped ts (bv_merge mt c (mv_kind v)) (mv_points v)"
  by (cases v) (simp_all add: collapse_hom option.map_comp o_def)

lemma mv_collapse_kind: "mv_collapse_non_timestamped mt c ts v = Some r \<Longrightarrow> mv_kind r = mv_kind v"
  by (cases v) auto

lemma mv_split_points:
  assumes "mv_split_at_timestamp ts v = (closed, remaining)"
  shows "split_at_timestamp ts (mv_points v) = (map_option mv_points closed, mv_points remaining)"
    and "mv_kind remaining = mv_kind v" and "closed = Some w \<Longrightarrow> mv_kind w = mv_kind v"
  using assms by (cases v; auto simp: split_at_timestamp_map option.map_comp o_def map_prod_def split: prod.splits)+

lemma mv_is_empty_points: "mv_is_empty v \<longleftrightarrow> mv_points v = []"
  by (cases v) auto

section \<open>The map from timestamps to values\<close>

definition bucket_map :: "'a points \<Rightarrow> nat option \<Rightarrow> 'a option" where
  "bucket_map vs t = map_option tv_value (List.find (\<lambda>v. tv_timestamp v = t) vs)"

definition bucket_add ::
    "('a \<Rightarrow> 'a \<Rightarrow> 'a option) \<Rightarrow> 'a timestamped \<Rightarrow> (nat option \<Rightarrow> 'a option) \<Rightarrow> (nat option \<Rightarrow> 'a option) option" where
  "bucket_add mrg x m =
     (case m (tv_timestamp x) of
        None \<Rightarrow> Some (m(tv_timestamp x \<mapsto> tv_value x))
      | Some y \<Rightarrow> map_option (\<lambda>z. m(tv_timestamp x \<mapsto> z)) (mrg y (tv_value x)))"

fun bucket_adds ::
    "('a \<Rightarrow> 'a \<Rightarrow> 'a option) \<Rightarrow> 'a points \<Rightarrow> (nat option \<Rightarrow> 'a option) \<Rightarrow> (nat option \<Rightarrow> 'a option) option" where
  "bucket_adds mrg [] m = Some m"
| "bucket_adds mrg (x # xs) m = Option.bind (bucket_add mrg x m) (bucket_adds mrg xs)"

lemma bucket_map_Nil [simp]: "bucket_map [] = Map.empty"
  by (rule ext) (simp add: bucket_map_def)

lemma bucket_map_Cons: "bucket_map (v # vs) = (bucket_map vs)(tv_timestamp v \<mapsto> tv_value v)"
  by (rule ext) (auto simp: bucket_map_def)

lemma find_filter: "List.find P xs = (case filter P xs of [] \<Rightarrow> None | x # _ \<Rightarrow> Some x)"
  by (induction xs) auto

lemma bucket_map_sort [simp]: "bucket_map (sort_by_timestamp vs) = bucket_map vs"
  by (rule ext) (simp add: bucket_map_def sort_by_timestamp_def find_filter sort_key_stable)

lemma merge_point_bucket:
  "map_option (bucket_map \<circ> fst) (merge_point mrg x vs) = bucket_add mrg x (bucket_map vs)"
proof (induction vs)
  case Nil
  then show ?case by (simp add: bucket_add_def bucket_map_Cons)
next
  case (Cons v vs)
  show ?case
  proof (cases "tv_timestamp v = tv_timestamp x")
    case True
    then show ?thesis
      by (cases "mrg (tv_value v) (tv_value x)") (simp_all add: bucket_add_def bucket_map_Cons fun_eq_iff)
  next
    case False
    have "map_option (bucket_map \<circ> fst) (merge_point mrg x (v # vs)) =
        map_option (\<lambda>m. m(tv_timestamp v \<mapsto> tv_value v)) (map_option (bucket_map \<circ> fst) (merge_point mrg x vs))"
      using False by (cases "merge_point mrg x vs") (auto simp: bucket_map_Cons split: prod.splits)
    also have "\<dots> = bucket_add mrg x (bucket_map (v # vs))"
      unfolding Cons.IH using False
      by (auto simp: bucket_add_def bucket_map_Cons option.map_comp o_def fun_upd_twist split: option.splits)
    finally show ?thesis .
  qed
qed

text \<open>Merging lists of points is merging maps, for any function that merges two values.\<close>

lemma merge_points_bucket:
  "map_option bucket_map (merge_points mrg other vs) = bucket_adds mrg other (bucket_map vs)"
proof -
  have "map_option (bucket_map \<circ> fst) (merge_points_loop mrg other vs s) = bucket_adds mrg other (bucket_map vs)" for s
  proof (induction other arbitrary: vs s)
    case (Cons x xs)
    show ?case
      using merge_point_bucket [of mrg x vs, symmetric] Cons.IH
      by (cases "merge_point mrg x vs") (auto split: prod.splits)
  qed simp
  from this [of False] show ?thesis
    by (cases "merge_points_loop mrg other vs False") (auto simp: merge_points_def split: prod.splits)
qed

end
