(* ===== verification/Aggregate_Flush.thy ===== *)
theory Aggregate_Flush
  imports Aggregate Metric_Buckets
begin

text \<open>
  Lemmas on the aggregation state: the invariant of the map of contexts, insertion as merging of buckets, and
  flushing as an operation on each context by itself.
\<close>

section \<open>The invariant\<close>

definition agg_ok :: "aggregation_state \<Rightarrow> bool" where
  "agg_ok st \<longleftrightarrow> hm_ok (as_contexts st) \<and> length (as_contexts st) \<le> as_context_limit st \<and>
     (\<forall>(key, ctx, am) \<in> set (as_contexts st). key = ctx_key ctx)"

lemma as_insert_cases:
  assumes "as_insert mt c ts m st = Some (st', accepted)"
  obtains (refused) "\<not> accepted" "st' = st\<lparr>as_context_limit_breached := True\<rparr>"
      "\<not> hm_contains (as_contexts st) (ctx_key (m_context m))" "as_context_limit st \<le> length (as_contexts st)"
    | (merged) ctx am vs v where "accepted" "map_of (as_contexts st) (ctx_key (m_context m)) = Some (ctx, am)"
      "mv_collapse_non_timestamped mt c (align_to_bucket_start ts (as_bucket_width_secs st)) (m_values m) = Some vs"
      "mv_merge mt c vs (am_values am) = Some v"
      "st' = st\<lparr>as_contexts :=
         hm_insert (ctx_key (m_context m)) (ctx, am\<lparr>am_last_seen := ts, am_values := v\<rparr>) (as_contexts st)\<rparr>"
    | (new) vs where "accepted" "\<not> hm_contains (as_contexts st) (ctx_key (m_context m))"
      "length (as_contexts st) < as_context_limit st"
      "mv_collapse_non_timestamped mt c (align_to_bucket_start ts (as_bucket_width_secs st)) (m_values m) = Some vs"
      "st' = st\<lparr>as_contexts :=
         hm_insert (ctx_key (m_context m))
           (m_context m, \<lparr>am_values = vs, am_metadata = m_metadata m, am_last_seen = ts\<rparr>) (as_contexts st),
         as_last_flush := (if as_contexts st = [] then 0 else as_last_flush st)\<rparr>"
proof (cases "\<not> hm_contains (as_contexts st) (ctx_key (m_context m)) \<and> as_context_limit st \<le> length (as_contexts st)")
  case True
  then show ?thesis using assms refused by (simp add: as_insert_def)
next
  case False
  let ?key = "ctx_key (m_context m)"
  let ?st = "if as_contexts st = [] then st\<lparr>as_last_flush := 0\<rparr> else st"
  have cs: "as_contexts ?st = as_contexts st" by simp
  obtain vs where v: "mv_collapse_non_timestamped mt c (align_to_bucket_start ts (as_bucket_width_secs st)) (m_values m) = Some vs"
    using assms False by (auto simp: as_insert_def Let_def metric_into_parts_def bind_eq_Some_conv)
  show ?thesis
  proof (cases "map_of (as_contexts st) ?key")
    case None
    have "accepted" "st' = ?st\<lparr>as_contexts := hm_insert ?key
        (m_context m, \<lparr>am_values = vs, am_metadata = m_metadata m, am_last_seen = ts\<rparr>) (as_contexts st)\<rparr>"
      using assms False v None by (auto simp: as_insert_def Let_def metric_into_parts_def hm_contains_iff split: if_splits)
    then show ?thesis using new [OF _ _ _ v] None False by (auto simp: hm_contains_iff)
  next
    case (Some p)
    obtain ctx am where p: "p = (ctx, am)" by fastforce
    have ne: "?st = st" using Some by auto
    obtain w where "mv_merge mt c vs (am_values am) = Some w" "accepted" "st' = ?st\<lparr>as_contexts :=
        hm_insert ?key (ctx, am\<lparr>am_last_seen := ts, am_values := w\<rparr>) (as_contexts st)\<rparr>"
      using assms False v Some p ne
      by (auto simp: as_insert_def Let_def metric_into_parts_def bind_eq_Some_conv split: if_splits)
    then show ?thesis using merged [OF _ _ v] Some p unfolding ne by blast
  qed
qed

lemma agg_ok_insert: "agg_ok st \<Longrightarrow> as_insert mt c ts m st = Some (st', accepted) \<Longrightarrow> agg_ok st'"
proof (erule as_insert_cases)
  fix ctx am vs v
  assume ok: "agg_ok st" and k: "map_of (as_contexts st) (ctx_key (m_context m)) = Some (ctx, am)"
    and st': "st' = st\<lparr>as_contexts :=
      hm_insert (ctx_key (m_context m)) (ctx, am\<lparr>am_last_seen := ts, am_values := v\<rparr>) (as_contexts st)\<rparr>"
  have "(ctx_key (m_context m), ctx, am) \<in> set (as_contexts st)" using k by (rule map_of_SomeD)
  then have "ctx_key (m_context m) = ctx_key ctx" using ok by (auto simp: agg_ok_def)
  then show ?thesis
    using ok k set_hm_insert [of "ctx_key (m_context m)" "(ctx, am\<lparr>am_last_seen := ts, am_values := v\<rparr>)" "as_contexts st"]
    by (auto simp: agg_ok_def st' length_hm_insert hm_contains_iff)
next
  fix vs
  assume ok: "agg_ok st" and k: "\<not> hm_contains (as_contexts st) (ctx_key (m_context m))"
      "length (as_contexts st) < as_context_limit st"
    and st': "st' = st\<lparr>as_contexts :=
         hm_insert (ctx_key (m_context m))
           (m_context m, \<lparr>am_values = vs, am_metadata = m_metadata m, am_last_seen = ts\<rparr>) (as_contexts st),
         as_last_flush := (if as_contexts st = [] then 0 else as_last_flush st)\<rparr>"
  show ?thesis
    using ok k set_hm_insert [of "ctx_key (m_context m)"
        "(m_context m, \<lparr>am_values = vs, am_metadata = m_metadata m, am_last_seen = ts\<rparr>)" "as_contexts st"]
    by (auto simp: agg_ok_def st' length_hm_insert)
qed (auto simp: agg_ok_def)

lemma flush_contexts_keys:
  "flush_contexts hs mt c push fp entries buf d = Some (entries', buf', d', r) \<Longrightarrow>
   map (\<lambda>(key, ctx, am). (key, ctx)) entries' = map (\<lambda>(key, ctx, am). (key, ctx)) entries"
proof (induction hs mt c push fp entries buf d arbitrary: entries' buf' d' r rule: flush_contexts.induct)
  case (2 hs mt c push fp key ctx am entries buf d)
  from "2.prems" obtain am' d1 r1 where f: "flush_context hs mt c push fp ctx am d = Some (am', d1, r1)"
    by (auto simp: bind_eq_Some_conv)
  show ?case
  proof (cases r1)
    case (Inl e)
    then show ?thesis using "2.prems" f by auto
  next
    case (Inr remove)
    then show ?thesis using "2.prems" "2.IH" [OF f refl refl Inr] f by (auto simp: bind_eq_Some_conv)
  qed
qed simp

lemma foldl_hm_remove: "foldl (\<lambda>es key. hm_remove key es) es keys = filter (\<lambda>e. fst e \<notin> set keys) es"
  by (induction keys arbitrary: es) (auto simp: hm_remove_def intro: filter_cong)

lemma agg_ok_keys:
  assumes "agg_ok st" "map (\<lambda>(key, ctx, am). (key, ctx)) entries = map (\<lambda>(key, ctx, am). (key, ctx)) (as_contexts st)"
  shows "hm_ok entries" "length entries \<le> as_context_limit st" "\<forall>(key, ctx, am) \<in> set entries. key = ctx_key ctx"
proof -
  have "map fst entries = map fst (as_contexts st)"
    using arg_cong [OF assms(2), of "map fst"] by (simp add: o_def case_prod_beta)
  then show "hm_ok entries" using assms(1) by (simp add: agg_ok_def hm_ok_def)
  show "length entries \<le> as_context_limit st" using assms(1) map_eq_imp_length_eq [OF assms(2)] by (simp add: agg_ok_def)
  have "(\<lambda>(key, ctx, am). (key, ctx)) ` set entries = (\<lambda>(key, ctx, am). (key, ctx)) ` set (as_contexts st)"
    using arg_cong [OF assms(2), of set] by simp
  then show "\<forall>(key, ctx, am) \<in> set entries. key = ctx_key ctx"
    using assms(1) by (force simp: agg_ok_def)
qed

lemma as_flush_cases:
  assumes "as_flush hs mt c push now flush_open st d = Some (st', d', r)"
  obtains (failed) zb entries buf e where "zero_value_buckets now flush_open st = Some zb" "r = Inl e"
      "flush_contexts hs mt c push (flush_params_for now flush_open zb st) (as_contexts st) [] d = Some (entries, buf, d', Inl e)"
      "st' = st\<lparr>as_contexts := entries, as_contexts_remove_buf := buf\<rparr>"
    | (flushed) zb entries buf where "zero_value_buckets now flush_open st = Some zb" "r = Inr ()"
      "flush_contexts hs mt c push (flush_params_for now flush_open zb st) (as_contexts st) [] d = Some (entries, buf, d', Inr ())"
      "st' = st\<lparr>as_contexts := filter (\<lambda>e. fst e \<notin> set buf) entries, as_contexts_remove_buf := [],
         as_context_limit_breached :=
           (as_context_limit_breached st \<and> \<not> length (filter (\<lambda>e. fst e \<notin> set buf) entries) < as_context_limit st),
         as_last_flush := now\<rparr>"
proof -
  obtain zb entries buf d1 r1 where z: "zero_value_buckets now flush_open st = Some zb"
      "flush_contexts hs mt c push (flush_params_for now flush_open zb st) (as_contexts st) [] d = Some (entries, buf, d1, r1)"
    using assms by (auto simp: as_flush_def bind_eq_Some_conv Let_def)
  show thesis
  proof (cases r1)
    case (Inl e)
    then show thesis using assms failed [OF z(1)] z by (auto simp: as_flush_def)
  next
    case (Inr u)
    then show thesis using assms flushed [OF z(1)] z by (simp add: as_flush_def foldl_hm_remove Let_def)
  qed
qed

lemma agg_ok_flush:
  assumes ok: "agg_ok st" and f: "as_flush hs mt c push now flush_open st d = Some (st', d', r)"
  shows "agg_ok st'"
  using f
proof (cases rule: as_flush_cases)
  case (failed zb entries buf e)
  then show ?thesis using agg_ok_keys [OF ok flush_contexts_keys [OF failed(3)]] by (simp add: agg_ok_def)
next
  case (flushed zb entries buf)
  note e = agg_ok_keys [OF ok flush_contexts_keys [OF flushed(3)]]
  have "length (filter (\<lambda>e. fst e \<notin> set buf) entries) \<le> as_context_limit st"
    using e(2) length_filter_le le_trans by blast
  then show ?thesis using e(1,3) flushed(4) by (auto simp: agg_ok_def hm_ok_def distinct_map_filter)
qed

lemma as_insert_limit: "as_insert mt c ts m st = Some (st', accepted) \<Longrightarrow> as_context_limit st' = as_context_limit st"
  by (erule as_insert_cases) simp_all

lemma as_flush_limit:
  "as_flush hs mt c push now flush_open st d = Some (st', d', r) \<Longrightarrow> as_context_limit st' = as_context_limit st"
  by (erule as_flush_cases) simp_all

lemma insert_events_ok:
  "insert_events mt c now evs st = Some st' \<Longrightarrow> agg_ok st \<Longrightarrow> agg_ok st' \<and> as_context_limit st' = as_context_limit st"
proof (induction mt c now evs st rule: insert_events.induct)
  case (2 mt c now ev evs st)
  show ?case
  proof (cases "try_into_metric ev")
    case None
    then show ?thesis using 2 by simp
  next
    case (Some m)
    then obtain st1 a where "as_insert mt c now m st = Some (st1, a)" "insert_events mt c now evs st1 = Some st'"
      using "2.prems"(1) by (auto simp: bind_eq_Some_conv)
    then show ?thesis
      using "2.IH"(2) [OF Some, of "(st1, a)" st1 a] "2.prems"(2) agg_ok_insert as_insert_limit by fastforce
  qed
qed simp

lemma flush_tick_ok:
  assumes "flush_tick hs mt c net now (ag, ds, w) = Some (ag', ds', w')" "agg_ok (ag_state ag)"
  shows "agg_ok (ag_state ag') \<and> as_context_limit (ag_state ag') = as_context_limit (ag_state ag)"
proof (cases "as_is_empty (ag_state ag)")
  case True
  then show ?thesis using assms by (simp add: flush_tick_def)
next
  case False
  then obtain bd st bd1 w1 r where "as_flush hs mt c (push_metric net) now (ag_final_primary_flush ag \<and> ag_flush_open_windows ag)
      (ag_state ag) (bd, w) = Some (st, (bd1, w1), r)" "ag' = ag\<lparr>ag_state := st\<rparr>"
    using assms(1) by (auto simp: flush_tick_def bind_eq_Some_conv split: sum.splits)
  then show ?thesis using agg_ok_flush [OF assms(2)] as_flush_limit by fastforce
qed

lemma aggregate_step_ok:
  assumes "aggregate_step hs mt c net input (ag, ds, w) = Some (ag', ds', w')" "agg_ok (ag_state ag)"
  shows "agg_ok (ag_state ag') \<and> as_context_limit (ag_state ag') = as_context_limit (ag_state ag)"
proof (cases input)
  case (Tick now)
  show ?thesis
  proof (cases "ag_stopped ag")
    case False
    then obtain ag1 ds1 w1 where "flush_tick hs mt c net now (ag, ds, w) = Some (ag1, ds1, w1)"
        "ag' = ag1\<lparr>ag_stopped := ag_final_primary_flush ag1\<rparr>"
      using assms(1) Tick by (auto simp: bind_eq_Some_conv)
    then show ?thesis using flush_tick_ok [OF _ assms(2)] by simp
  qed (use assms Tick in simp)
next
  case (Events now evs)
  show ?thesis
  proof (cases "ag_stopped ag \<or> ag_final_primary_flush ag")
    case False
    then obtain st where "insert_events mt c now evs (ag_state ag) = Some st" "ag' = ag\<lparr>ag_state := st\<rparr>"
      using assms(1) Events by (auto simp: bind_eq_Some_conv)
    then show ?thesis using insert_events_ok [OF _ assms(2)] by simp
  qed (use assms Events in auto)
qed (use assms in \<open>auto split: if_splits\<close>)

lemma aggregate_reaches_ok:
  assumes "aggregate_reaches hs mt c net s0 s" "agg_ok (ag_state (fst s0))"
  shows "agg_ok (ag_state (fst s)) \<and> as_context_limit (ag_state (fst s)) = as_context_limit (ag_state (fst s0))"
  using assms(1)
proof (induction rule: aggregate_reaches.induct)
  case start
  then show ?case using assms(2) by simp
next
  case (step s input s')
  obtain ag ds w ag' ds' w' where "s = (ag, ds, w)" "s' = (ag', ds', w')" by (metis prod_cases3)
  then show ?case using step aggregate_step_ok [of hs mt c net input ag ds w ag' ds' w'] by simp
qed

section \<open>Flushing, one context at a time\<close>

text \<open>The metrics that a set of closed values becomes.\<close>

definition emitted ::
    "hasher \<Rightarrow> math \<Rightarrow> config \<Rightarrow> metric_context \<Rightarrow> metric_values \<Rightarrow> metric_metadata \<Rightarrow> nat \<Rightarrow> histogram_configuration \<Rightarrow>
     metric list option" where
  "emitted hs mt c ctx vs md bucket_width_secs hist_config =
     (case vs of
        HistogramValues points \<Rightarrow> do {
          ds \<leftarrow> (if hc_copy_to_distribution hist_config
                then map_option (\<lambda>m. [m]) (copied_distribution hs mt c hist_config ctx md points) else Some []);
          Some (ds @ map (statistic_metric hs mt bucket_width_secs ctx md points) (hc_statistics hist_config))
        }
      | _ \<Rightarrow> Some [metric_from_parts ctx (counter_values_to_rate vs bucket_width_secs) md])"

text \<open>What a flush does to one entry: the entry, the metrics and whether the entry goes.\<close>

definition flush_entry ::
    "hasher \<Rightarrow> math \<Rightarrow> config \<Rightarrow> flush_params \<Rightarrow> metric_context \<Rightarrow> aggregated_metric \<Rightarrow>
     (aggregated_metric \<times> metric list \<times> bool) option" where
  "flush_entry hs mt c fp ctx am = do {
     vs \<leftarrow>
       (if is_counter (am_values am)
        then merge_zero_values mt c (sat_add (am_last_seen am) (fp_counter_expire_secs fp)) (fp_zero_value_buckets fp)
               (am_values am)
        else Some (am_values am));
     let (closed, remaining) = mv_split_at_timestamp (fp_split_timestamp fp) vs;
     ms \<leftarrow> (case closed of
              None \<Rightarrow> Some []
            | Some cv \<Rightarrow> emitted hs mt c ctx cv (am_metadata am) (fp_bucket_width_secs fp) (fp_hist_config fp));
     Some (am\<lparr>am_values := remaining\<rparr>, ms,
           mv_is_empty remaining \<and> should_expire_if_empty (fp_current_time fp) (fp_counter_expire_secs fp) am)
   }"

lemma push_all_append:
  "push_all push (xs @ ys) d = do {
     (d', r) \<leftarrow> push_all push xs d;
     case r of Inl e \<Rightarrow> Some (d', Inl e) | Inr _ \<Rightarrow> push_all push ys d'
   }"
proof (induction xs arbitrary: d)
  case (Cons x xs)
  show ?case
  proof (cases "push x d")
    case (Some p)
    obtain d' r where p: "p = (d', r)" by fastforce
    then show ?thesis using Some Cons by (cases r) auto
  qed simp
qed simp

lemma push_all_single: "push_all push [m] d = push m d"
  by (cases "push m d") (auto split: sum.splits prod.splits)

lemma transform_and_push_emitted:
  "transform_and_push_metric hs mt c push ctx vs md w hc d = do { ms \<leftarrow> emitted hs mt c ctx vs md w hc; push_all push ms d }"
proof (cases vs)
  case (HistogramValues points)
  show ?thesis
  proof (cases "hc_copy_to_distribution hc")
    case True
    show ?thesis
      using HistogramValues True
      by (cases "copied_distribution hs mt c hc ctx md points")
         (simp_all add: transform_and_push_metric_def emitted_def)
  next
    case False
    then show ?thesis using HistogramValues by (simp add: transform_and_push_metric_def emitted_def)
  qed
qed (simp_all add: transform_and_push_metric_def emitted_def push_all_single del: push_all.simps)

lemma flush_context_entry:
  "flush_context hs mt c push fp ctx am d = do {
     (am', ms, remove) \<leftarrow> flush_entry hs mt c fp ctx am;
     (d', r) \<leftarrow> push_all push ms d;
     case r of Inl e \<Rightarrow> Some (am', d', Inl e) | Inr _ \<Rightarrow> Some (am', d', Inr remove)
   }"
proof -
  obtain vs0 where vs0: "(if is_counter (am_values am)
        then merge_zero_values mt c (sat_add (am_last_seen am) (fp_counter_expire_secs fp)) (fp_zero_value_buckets fp)
               (am_values am)
        else Some (am_values am)) = vs0" by blast
  show ?thesis
  proof (cases vs0)
    case None
    then show ?thesis using vs0 by (simp add: flush_context_def flush_entry_def Let_def)
  next
    case (Some vs)
    obtain closed remaining where sp: "mv_split_at_timestamp (fp_split_timestamp fp) vs = (closed, remaining)" by fastforce
    show ?thesis
    proof (cases closed)
      case None
      then show ?thesis using vs0 Some sp by (simp add: flush_context_def flush_entry_def Let_def)
    next
      case cv: (Some cv)
      show ?thesis
        using vs0 Some sp cv
        by (cases "emitted hs mt c ctx cv (am_metadata am) (fp_bucket_width_secs fp) (fp_hist_config fp)")
           (simp_all add: flush_context_def flush_entry_def Let_def transform_and_push_emitted)
    qed
  qed
qed

text \<open>All entries: what is kept of them, the metrics in order, and the keys that are removed.\<close>

fun flush_entries ::
    "hasher \<Rightarrow> math \<Rightarrow> config \<Rightarrow> flush_params \<Rightarrow> (64 word, metric_context \<times> aggregated_metric) hash_map \<Rightarrow>
     ((64 word, metric_context \<times> aggregated_metric) hash_map \<times> metric list \<times> 64 word list) option" where
  "flush_entries hs mt c fp [] = Some ([], [], [])"
| "flush_entries hs mt c fp ((key, ctx, am) # es) = do {
     (am', ms, remove) \<leftarrow> flush_entry hs mt c fp ctx am;
     (es', ms', keys) \<leftarrow> flush_entries hs mt c fp es;
     Some ((key, ctx, am') # es', ms @ ms', (if remove then key # keys else keys))
   }"

lemma flush_contexts_entries:
  "flush_entries hs mt c fp es = Some (es', ms, keys) \<Longrightarrow> push_all push ms d = Some (d', Inr ()) \<Longrightarrow>
   flush_contexts hs mt c push fp es buf d = Some (es', buf @ keys, d', Inr ())"
proof (induction hs mt c fp es arbitrary: es' ms keys d buf rule: flush_entries.induct)
  case (2 hs mt c fp key ctx am es)
  from "2.prems"(1) obtain am' ms1 remove es1 ms2 keys1 where e: "flush_entry hs mt c fp ctx am = Some (am', ms1, remove)"
      "flush_entries hs mt c fp es = Some (es1, ms2, keys1)" "es' = (key, ctx, am') # es1" "ms = ms1 @ ms2"
      "keys = (if remove then key # keys1 else keys1)"
    by (auto simp: bind_eq_Some_conv split: if_splits)
  obtain d1 r1 where r1: "push_all push ms1 d = Some (d1, r1)"
    using "2.prems"(2) by (auto simp: e(4) push_all_append bind_eq_Some_conv)
  then have d1: "push_all push ms1 d = Some (d1, Inr ())" "push_all push ms2 d1 = Some (d', Inr ())"
    using "2.prems"(2) by (cases r1; auto simp: e(4) push_all_append)+
  show ?case
    using "2.IH" [OF e(1) refl refl e(2) d1(2), of "if remove then buf @ [key] else buf"] e d1(1)
    by (auto simp: flush_context_entry)
qed simp

lemma as_flush_entries:
  assumes "zero_value_buckets now flush_open st = Some zb"
    "flush_entries hs mt c (flush_params_for now flush_open zb st) (as_contexts st) = Some (es, ms, keys)"
    "push_all push ms d = Some (d', Inr ())"
  shows "\<exists>st'. as_flush hs mt c push now flush_open st d = Some (st', d', Inr ()) \<and>
    as_contexts st' = filter (\<lambda>e. fst e \<notin> set keys) es \<and> as_last_flush st' = now"
  using flush_contexts_entries [OF assms(2,3), of "[]"] assms(1) by (simp add: as_flush_def foldl_hm_remove Let_def)

lemma push_all_sending:
  assumes "sending eb_events (eb_ok events_buffer_capacity) w0 t0 d w items"
    "length items + length ms \<le> u64_max" "length (dt_senders t0) * events_buffer_capacity \<le> u64_max"
    "distinct (map gs_sender (dt_senders t0))"
  shows "\<exists>d' w' r. push_all (push_metric net) ms (d, w) = Some ((d', w'), r) \<and>
    (r = Inr () \<and> sending eb_events (eb_ok events_buffer_capacity) w0 t0 d' w' (items @ map EvMetric ms) \<or>
     r = Inl SendFailed \<and> \<not> net_reliable net \<and> partly_reached eb_events (eb_ok events_buffer_capacity) w0 w' (dt_senders t0) (items @ map EvMetric ms))"
  using assms(1,2)
proof (induction ms arbitrary: items d w)
  case (Cons m ms)
  have cap: "events_buffer_capacity = Suc 1023" by (simp add: events_buffer_capacity_def)
  have "length items < u64_max" using Cons.prems(2) by simp
  from eb.push_step [OF Cons.prems(1) [unfolded cap] this assms(3,4) [unfolded cap], of net "EvMetric m"]
  obtain d' w' r where p: "bd_push (event_buffer_ops events_buffer_capacity) net (EvMetric m) d w = Some (d', w', r)"
      "r = Inr () \<and> sending eb_events (eb_ok events_buffer_capacity) w0 t0 d' w' (items @ [EvMetric m]) \<or>
       r = Inl SendFailed \<and> \<not> net_reliable net \<and>
         (\<forall>rest. partly_reached eb_events (eb_ok events_buffer_capacity) w0 w' (dt_senders t0) (items @ rest))"
    unfolding cap by blast
  from p(2) show ?case
  proof
    assume r: "r = Inr () \<and> sending eb_events (eb_ok events_buffer_capacity) w0 t0 d' w' (items @ [EvMetric m])"
    then show ?thesis using Cons.IH [of d' w' "items @ [EvMetric m]"] Cons.prems(2) p(1) by (simp add: push_metric_def)
  next
    assume "r = Inl SendFailed \<and> \<not> net_reliable net \<and>
         (\<forall>rest. partly_reached eb_events (eb_ok events_buffer_capacity) w0 w' (dt_senders t0) (items @ rest))"
    then show ?thesis using p(1) by (simp add: push_metric_def)
  qed
qed simp

text \<open>A flush of the component delivers the metrics of all entries downstream.\<close>

lemma flush_tick_delivers:
  assumes ne: "\<not> as_is_empty (ag_state ag)" and t: "ds_default ds = Some t" and rel: "net_reliable net"
    and bounds: "length (dt_senders t) * events_buffer_capacity \<le> u64_max" "distinct (map gs_sender (dt_senders t))"
      "length ms \<le> u64_max"
    and z: "zero_value_buckets now (ag_final_primary_flush ag \<and> ag_flush_open_windows ag) (ag_state ag) = Some zb"
    and e: "flush_entries hs mt c
      (flush_params_for now (ag_final_primary_flush ag \<and> ag_flush_open_windows ag) zb (ag_state ag))
      (as_contexts (ag_state ag)) = Some (es, ms, keys)"
  shows "\<exists>ag' ds' w'. flush_tick hs mt c net now (ag, ds, w) = Some (ag', ds', w') \<and>
    as_contexts (ag_state ag') = filter (\<lambda>e. fst e \<notin> set keys) es \<and> as_last_flush (ag_state ag') = now \<and>
    reached eb_events (eb_ok events_buffer_capacity) w w' (dt_senders t) (map EvMetric ms)"
proof -
  have cap: "events_buffer_capacity = Suc 1023" by (simp add: events_buffer_capacity_def)
  have new: "sending eb_events (eb_ok events_buffer_capacity) w t (bd_new t) w []"
    unfolding cap by (rule eb.sending_new)
  obtain d1 w1 where p: "push_all (push_metric net) ms (bd_new t, w) = Some ((d1, w1), Inr ())"
      "sending eb_events (eb_ok events_buffer_capacity) w t d1 w1 (map EvMetric ms)"
    using push_all_sending [OF new _ bounds(1,2), of ms net] bounds(3) rel by auto
  obtain st' where f: "as_flush hs mt c (push_metric net) now (ag_final_primary_flush ag \<and> ag_flush_open_windows ag)
      (ag_state ag) (bd_new t, w) = Some (st', (d1, w1), Inr ())"
      "as_contexts st' = filter (\<lambda>e. fst e \<notin> set keys) es" "as_last_flush st' = now"
    using as_flush_entries [OF z e p(1)] by blast
  obtain t' w' where "bd_flush (event_buffer_ops events_buffer_capacity) net d1 w1 = Some (t', w', Inr (length ms))"
      "reached eb_events (eb_ok events_buffer_capacity) w w' (dt_senders t) (map EvMetric ms)"
    using eb.send_all_spec [OF p(2) [unfolded cap] _ bounds(1,2) [unfolded cap], of "[]" net] bounds(3) rel
    unfolding cap by auto
  then show ?thesis using ne t f by (simp add: flush_tick_def buffered_def get_default_output_def)
qed

section \<open>Closed and open buckets\<close>

lemma split_cases:
  assumes "split_at_timestamp ts vs = (closed, remaining)"
  obtains (kept) "closed = None" "remaining = vs"
      "vs = [] \<or> (\<exists>first t. first = hd vs \<and> tv_timestamp first = Some t \<and> ts < t)"
    | (parted) "closed = Some (sort_by_timestamp (filter (due ts) vs))" "remaining = filter (\<lambda>v. \<not> due ts v) vs"
  using assms unfolding split_at_timestamp_def by (cases vs) (force split: if_splits option.splits)+

lemma split_partition:
  assumes "split_at_timestamp ts vs = (closed, remaining)"
  shows "mset vs = mset (case closed of None \<Rightarrow> [] | Some cs \<Rightarrow> cs) + mset remaining"
    and "\<forall>v \<in> set (case closed of None \<Rightarrow> [] | Some cs \<Rightarrow> cs). due ts v"
  using assms
proof (atomize (full), cases rule: split_cases)
  case parted
  then show "mset vs = mset (case closed of None \<Rightarrow> [] | Some cs \<Rightarrow> cs) + mset remaining \<and>
      (\<forall>v \<in> set (case closed of None \<Rightarrow> [] | Some cs \<Rightarrow> cs). due ts v)"
    by (simp add: sort_by_timestamp_def del: sort_key_simps) 
qed simp

lemma split_sorted:
  assumes "split_at_timestamp ts vs = (closed, remaining)" "sorted (map tv_timestamp vs)"
  shows "\<forall>v \<in> set remaining. \<not> due ts v"
  using assms(1)
proof (cases rule: split_cases)
  case kept
  show ?thesis
  proof (cases vs)
    case (Cons first rest)
    then obtain t where t: "tv_timestamp first = Some t" "ts < t" using kept by auto
    have "Some t \<le> tv_timestamp v" if "v \<in> set vs" for v
      using assms(2) that t(1) by (auto simp: Cons)
    then have "\<not> due ts v" if "v \<in> set vs" for v
      using that t(2) by (force simp: due_def split: option.splits)
    then show ?thesis using kept by simp
  qed (use kept in simp)
qed simp

lemma sketch_points_timestamps: "sketch_points mt c ps = Some sps \<Longrightarrow> map tv_timestamp sps = map tv_timestamp ps"
  by (induction ps arbitrary: sps) (auto simp: bind_eq_Some_conv)

lemma mv_points_timestamps:
  "mv_points (Gauge ps) = map (tv_map BScalar) ps" "map tv_timestamp (map (tv_map g) qs) = map tv_timestamp qs"
  by (simp_all add: o_def)

lemma statistic_timestamps:
  "set (map tv_timestamp (mv_points (m_values (statistic_metric hs mt w ctx md points st)))) = set (map tv_timestamp points)"
proof -
  let ?ps = "map (\<lambda>p. \<lparr>tv_timestamp = tv_timestamp p,
    tv_value = value_from_histogram st (summary_view mt (tv_value p))\<rparr>) points"
  have "map tv_timestamp (mv_points (m_values (statistic_metric hs mt w ctx md points st))) =
      map tv_timestamp (sort_by_timestamp ?ps)"
    by (simp add: statistic_metric_def Let_def metric_from_parts_def points_from_def)
  then show ?thesis by (simp add: sort_by_timestamp_def image_image del: sort_key_simps)
qed

lemma emitted_timestamps:
  assumes "emitted hs mt c ctx vs md w hc = Some ms" "m \<in> set ms"
  shows "set (map tv_timestamp (mv_points (m_values m))) = set (map tv_timestamp (mv_points vs))"
proof (cases vs)
  case (HistogramValues points)
  then obtain ds where ds: "ms = ds @ map (statistic_metric hs mt w ctx md points) (hc_statistics hc)"
      "(if hc_copy_to_distribution hc
        then map_option (\<lambda>m. [m]) (copied_distribution hs mt c hc ctx md points) else Some []) = Some ds"
    using assms(1) by (auto simp: emitted_def bind_eq_Some_conv)
  have "set (map tv_timestamp (mv_points (m_values m))) = set (map tv_timestamp points)"
  proof (cases "m \<in> set ds")
    case True
    then obtain sps where "sketch_points mt c points = Some sps" "m_values m = Distribution sps"
      using ds(2) by (auto simp: copied_distribution_def bind_eq_Some_conv metric_from_parts_def split: if_splits)
    then show ?thesis using sketch_points_timestamps [of mt c points sps] by (simp add: o_def)
  next
    case False
    then obtain st where "m = statistic_metric hs mt w ctx md points st" using assms(2) ds(1) by auto
    then show ?thesis by (simp only: statistic_timestamps)
  qed
  then show ?thesis using HistogramValues by (simp add: o_def)
qed (use assms in \<open>auto simp: emitted_def metric_from_parts_def counter_values_to_rate_def image_image\<close>)

text \<open>The values of an entry with the zero values of a flush merged in.\<close>

definition with_zero_values :: "math \<Rightarrow> config \<Rightarrow> flush_params \<Rightarrow> aggregated_metric \<Rightarrow> metric_values option" where
  "with_zero_values mt c fp am =
     (if is_counter (am_values am)
      then merge_zero_values mt c (sat_add (am_last_seen am) (fp_counter_expire_secs fp)) (fp_zero_value_buckets fp)
             (am_values am)
      else Some (am_values am))"

lemma flush_entry_partition:
  assumes "flush_entry hs mt c fp ctx am = Some (am', ms, remove)"
  obtains vs closed where "with_zero_values mt c fp am = Some vs"
    "mset (mv_points vs) = mset (case closed of None \<Rightarrow> [] | Some cv \<Rightarrow> mv_points cv) + mset (mv_points (am_values am'))"
    "(case closed of None \<Rightarrow> Some []
      | Some cv \<Rightarrow> emitted hs mt c ctx cv (am_metadata am) (fp_bucket_width_secs fp) (fp_hist_config fp)) = Some ms"
    "\<And>m p. m \<in> set ms \<Longrightarrow> p \<in> set (mv_points (m_values m)) \<Longrightarrow> due (fp_split_timestamp fp) p"
    "sorted (map tv_timestamp (mv_points vs)) \<Longrightarrow> \<forall>p \<in> set (mv_points (am_values am')). \<not> due (fp_split_timestamp fp) p"
    "am' = am\<lparr>am_values := am_values am'\<rparr>"
    "remove \<longleftrightarrow> mv_is_empty (am_values am') \<and> should_expire_if_empty (fp_current_time fp) (fp_counter_expire_secs fp) am"
proof -
  obtain vs where vs: "with_zero_values mt c fp am = Some vs"
    using assms unfolding flush_entry_def with_zero_values_def [symmetric] by (auto simp: bind_eq_Some_conv)
  obtain closed remaining where sr: "mv_split_at_timestamp (fp_split_timestamp fp) vs = (closed, remaining)" by fastforce
  have e: "with_zero_values mt c fp am = Some vs"
      "mv_split_at_timestamp (fp_split_timestamp fp) vs = (closed, remaining)"
      "(case closed of None \<Rightarrow> Some []
        | Some cv \<Rightarrow> emitted hs mt c ctx cv (am_metadata am) (fp_bucket_width_secs fp) (fp_hist_config fp)) = Some ms"
      "am' = am\<lparr>am_values := remaining\<rparr>"
      "remove \<longleftrightarrow> mv_is_empty remaining \<and> should_expire_if_empty (fp_current_time fp) (fp_counter_expire_secs fp) am"
    using assms vs sr unfolding flush_entry_def with_zero_values_def [symmetric]
    by (auto simp: bind_eq_Some_conv Let_def)
  note sp = mv_split_points(1) [OF e(2)]
  have pts: "(case map_option mv_points closed of None \<Rightarrow> [] | Some cs \<Rightarrow> cs) =
      (case closed of None \<Rightarrow> [] | Some cv \<Rightarrow> mv_points cv)" by (cases closed) simp_all
  have due: "due (fp_split_timestamp fp) p" if m: "m \<in> set ms" "p \<in> set (mv_points (m_values m))" for m p
  proof -
    obtain cv where cv: "closed = Some cv" using m(1) e(3) by (cases closed) auto
    then have "tv_timestamp p \<in> set (map tv_timestamp (mv_points cv))"
      using emitted_timestamps [of hs mt c ctx cv "am_metadata am" "fp_bucket_width_secs fp" "fp_hist_config fp" ms m] e(3) m
      by auto
    then obtain q where "q \<in> set (mv_points cv)" "tv_timestamp q = tv_timestamp p" by auto
    then show ?thesis using split_partition(2) [OF sp] cv by (auto simp: due_def)
  qed
  show thesis
    by (rule that [OF e(1) _ e(3) due _ _ _]) (use split_partition(1) [OF sp] split_sorted [OF sp] e pts in auto)
qed

section \<open>All entries\<close>

text \<open>A dispatcher that records what it is given.\<close>

definition record_push :: "metric \<Rightarrow> metric list \<Rightarrow> (metric list \<times> (dispatch_error + unit)) option" where
  "record_push m ms = Some (ms @ [m], Inr ())"

lemma push_all_record [simp]: "push_all record_push ms d = Some (d @ ms, Inr ())"
  by (induction ms arbitrary: d) (simp_all add: record_push_def)

lemma flush_contexts_record:
  "flush_contexts hs mt c record_push fp es buf d = Some (es', buf', d', r) \<Longrightarrow>
   \<exists>ms keys. flush_entries hs mt c fp es = Some (es', ms, keys) \<and> d' = d @ ms \<and> r = Inr () \<and> buf' = buf @ keys"
proof (induction es arbitrary: buf d es')
  case (Cons e es)
  obtain key ctx am where e: "e = (key, ctx, am)" by (metis prod_cases3)
  obtain am' ms1 remove where f: "flush_entry hs mt c fp ctx am = Some (am', ms1, remove)"
    using Cons.prems by (auto simp: e flush_context_entry bind_eq_Some_conv)
  then obtain es1 where "flush_contexts hs mt c record_push fp es (if remove then buf @ [key] else buf) (d @ ms1) =
      Some (es1, buf', d', r)" "es' = (key, ctx, am') # es1"
    using Cons.prems by (auto simp: e flush_context_entry bind_eq_Some_conv)
  then show ?case using Cons.IH f by (fastforce simp: e)
qed simp

lemma flush_entries_ConsE:
  assumes "flush_entries hs mt c fp ((key, ctx, am) # es) = Some (es', ms, keys)"
  obtains am' ms1 remove es1 ms2 keys1 where "flush_entry hs mt c fp ctx am = Some (am', ms1, remove)"
    "flush_entries hs mt c fp es = Some (es1, ms2, keys1)" "es' = (key, ctx, am') # es1" "ms = ms1 @ ms2"
    "keys = (if remove then key # keys1 else keys1)"
  using assms by (auto simp: bind_eq_Some_conv)

lemma flush_entries_keys:
  "flush_entries hs mt c fp es = Some (es', ms, keys) \<Longrightarrow> map fst es' = map fst es \<and> set keys \<subseteq> fst ` set es"
proof (induction es arbitrary: es' ms keys)
  case (Cons e es)
  obtain key ctx am where e: "e = (key, ctx, am)" by (metis prod_cases3)
  from Cons.prems show ?case unfolding e
  proof (rule flush_entries_ConsE)
    fix am' ms1 remove es1 ms2 keys1
    assume "flush_entries hs mt c fp es = Some (es1, ms2, keys1)" and r: "es' = (key, ctx, am') # es1"
      "keys = (if remove then key # keys1 else keys1)"
    from Cons.IH [OF this(1)] r
    show "map fst es' = map fst ((key, ctx, am) # es) \<and> set keys \<subseteq> fst ` set ((key, ctx, am) # es)" by auto
  qed
qed simp

lemma flush_entries_each:
  "flush_entries hs mt c fp es = Some (es', ms, keys) \<Longrightarrow> (key, ctx, am) \<in> set es \<Longrightarrow> hm_ok es \<Longrightarrow>
   \<exists>am' msi remove ms1 ms2. flush_entry hs mt c fp ctx am = Some (am', msi, remove) \<and> (key, ctx, am') \<in> set es' \<and>
     ms = ms1 @ msi @ ms2 \<and> (key \<in> set keys \<longleftrightarrow> remove)"
proof (induction es arbitrary: es' ms keys)
  case (Cons e es)
  obtain k x a where e: "e = (k, x, a)" by (metis prod_cases3)
  have notin: "k \<notin> fst ` set es" and ok: "hm_ok es" using Cons.prems(3) by (auto simp: e hm_ok_def)
  from Cons.prems(1) obtain a' ms1 remove es1 ms2 keys1 where f: "flush_entry hs mt c fp x a = Some (a', ms1, remove)"
      "flush_entries hs mt c fp es = Some (es1, ms2, keys1)" "es' = (k, x, a') # es1" "ms = ms1 @ ms2"
      "keys = (if remove then k # keys1 else keys1)"
    unfolding e by (rule flush_entries_ConsE)
  have "k \<notin> set keys1" using flush_entries_keys [OF f(2)] notin by auto
  show ?case
  proof (cases "(key, ctx, am) = e")
    case True
    then show ?thesis using f \<open>k \<notin> set keys1\<close>
      by (intro exI [of _ a'] exI [of _ ms1] exI [of _ remove] exI [of _ "[]"] exI [of _ ms2]) (simp add: e)
  next
    case False
    then have "(key, ctx, am) \<in> set es" using Cons.prems(2) by auto
    then have "key \<noteq> k" using notin by force
    obtain am' msi r m1 m2 where "flush_entry hs mt c fp ctx am = Some (am', msi, r)" "(key, ctx, am') \<in> set es1"
        "ms2 = m1 @ msi @ m2" "key \<in> set keys1 \<longleftrightarrow> r"
      using Cons.IH [OF f(2) \<open>(key, ctx, am) \<in> set es\<close> ok] by blast
    then show ?thesis using f \<open>key \<noteq> k\<close>
      by (intro exI [of _ am'] exI [of _ msi] exI [of _ r] exI [of _ "ms1 @ m1"] exI [of _ m2]) simp
  qed
qed simp

lemma flush_entries_sources:
  "flush_entries hs mt c fp es = Some (es', ms, keys) \<Longrightarrow> m \<in> set ms \<Longrightarrow>
   \<exists>key ctx am am' msi remove. (key, ctx, am) \<in> set es \<and> flush_entry hs mt c fp ctx am = Some (am', msi, remove) \<and>
     m \<in> set msi"
proof (induction es arbitrary: es' ms keys)
  case (Cons e es)
  obtain k x a where e: "e = (k, x, a)" by (metis prod_cases3)
  from Cons.prems(1) obtain a' ms1 remove es1 ms2 keys1 where f: "flush_entry hs mt c fp x a = Some (a', ms1, remove)"
      "flush_entries hs mt c fp es = Some (es1, ms2, keys1)" "ms = ms1 @ ms2"
    unfolding e by (rule flush_entries_ConsE)
  show ?case
  proof (cases "m \<in> set ms1")
    case True
    then show ?thesis using f(1)
      by (intro exI [of _ k] exI [of _ x] exI [of _ a] exI [of _ a'] exI [of _ ms1] exI [of _ remove]) (simp add: e)
  next
    case False
    then show ?thesis using Cons.IH [OF f(2)] Cons.prems(2) f(3) by fastforce
  qed
qed simp

lemma as_flush_record:
  assumes "as_flush hs mt c record_push now flush_open st [] = Some (st', ms, r)"
  obtains zb es keys where "zero_value_buckets now flush_open st = Some zb" "r = Inr ()"
    "flush_entries hs mt c (flush_params_for now flush_open zb st) (as_contexts st) = Some (es, ms, keys)"
    "as_contexts st' = filter (\<lambda>e. fst e \<notin> set keys) es"
  using assms
proof (cases rule: as_flush_cases)
  case (failed zb entries buf e)
  then show ?thesis using flush_contexts_record [OF failed(3)] by simp
next
  case (flushed zb entries buf)
  then show ?thesis using flush_contexts_record [OF flushed(3)] that by auto
qed

section \<open>Zero values\<close>

lemma step_by_props:
  assumes "0 < w"
  shows "sorted_wrt (<) (step_by start stop w) \<and> (\<forall>b \<in> set (step_by start stop w). start \<le> b \<and> b < stop \<and> (b - start) mod w = 0)"
  using assms
proof (induction start stop w rule: step_by.induct)
  case (1 start stop w)
  show ?case
  proof (cases "start < stop")
    case True
    have IH: "sorted_wrt (<) (step_by (start + w) stop w)"
        "\<And>b. b \<in> set (step_by (start + w) stop w) \<Longrightarrow> start + w \<le> b \<and> b < stop \<and> (b - (start + w)) mod w = 0"
      using 1 True by auto
    have "(b - start) mod w = 0" if "b \<in> set (step_by (start + w) stop w)" for b
    proof -
      have "b - start = b - (start + w) + w" using IH(2) [OF that] by simp
      then show ?thesis using IH(2) [OF that] by (metis mod_add_self2)
    qed
    then show ?thesis using True 1(2) IH by (fastforce simp: step_by.simps [of start])
  next
    case False
    then show ?thesis by (simp add: step_by.simps [of start])
  qed
qed

lemma closed_buckets_eq:
  assumes "0 < w" "\<And>b. b \<in> set bs \<Longrightarrow> b + w \<le> u64_max"
  shows "closed_buckets now w flush_open bs = Some (filter (\<lambda>b. b + w \<le> now \<or> flush_open) bs)"
  using assms(2)
proof (induction bs)
  case (Cons b bs)
  then show ?case using assms(1)
    by (auto simp: is_bucket_closed_def u64_sub_def less_eq_Suc_le [symmetric] Suc_le_eq)
qed simp

lemma merge_points_push:
  assumes "tv_timestamp x \<notin> tv_timestamp ` set ps" "sorted (map tv_timestamp (ps @ [x]))"
  shows "merge_points mrg [x] ps = Some (ps @ [x])"
proof -
  have "merge_point mrg x ps = Some (ps @ [x], True)" using assms(1) by (induction ps) auto
  then show ?thesis using sort_key_id_if_sorted [OF assms(2)] by (simp add: merge_points_def sort_by_timestamp_def)
qed

definition zero_point :: "nat \<Rightarrow> f64 timestamped" where
  "zero_point b = \<lparr>tv_timestamp = Some b, tv_value = f64_zero\<rparr>"

lemma merge_zero_values_push:
  assumes "sorted (map tv_timestamp (ps @ map zero_point bs))" "distinct (map tv_timestamp (ps @ map zero_point bs))" "0 \<notin> set bs"
  shows "merge_zero_values mt c x bs (Counter ps) = Some (Counter (ps @ map zero_point (takeWhile (\<lambda>b. b < x) bs)))"
  using assms
proof (induction bs arbitrary: ps)
  case (Cons b bs)
  have z: "tv_from_at b f64_zero = zero_point b" using Cons.prems(3) by (simp add: tv_from_at_def zero_point_def non_zero_def)
  have "merge_points merge_scalar_sum [zero_point b] ps = Some (ps @ [zero_point b])"
    using Cons.prems(1,2) by (intro merge_points_push) (auto simp: sorted_append)
  then show ?case
    using Cons.IH [of "ps @ [zero_point b]"] Cons.prems by (simp add: mv_merge_def z)
qed simp

lemma takeWhile_filter_less: "sorted_wrt (<) bs \<Longrightarrow> takeWhile (\<lambda>b. b < x) bs = filter (\<lambda>b. b < (x :: nat)) bs"
proof (induction bs)
  case (Cons b bs)
  then have "filter (\<lambda>b. b < x) bs = []" if "\<not> b < x" using that by (force simp: filter_empty_conv)
  then show ?case using Cons by auto
qed simp

lemma align_dvd: "w dvd align_to_bucket_start t w"
  by (simp add: align_to_bucket_start_def minus_mod_eq_mult_div)

lemma align_le: "align_to_bucket_start t w \<le> t"
  by (simp add: align_to_bucket_start_def)

lemma closed_bucket_due:
  assumes "0 < w" "w dvd b" "b + w \<le> now"
  shows "b + w \<le> align_to_bucket_start now w"
proof -
  obtain k where k: "b = k * w" using assms(2) by (metis dvdE mult.commute)
  then have "Suc k * w \<le> now" using assms(3) by simp
  then have "Suc k \<le> now div w" using assms(1) by (simp add: less_eq_div_iff_mult_less_eq)
  then have "Suc k * w \<le> now div w * w" by (rule mult_le_mono1)
  then show ?thesis by (simp add: k align_to_bucket_start_def minus_mod_eq_div_mult)
qed

text \<open>The zero-value buckets of a flush: the closed ones since the last flush.\<close>

lemma zero_value_buckets_eq:
  assumes "as_last_flush st \<noteq> 0" "0 < as_bucket_width_secs st" "now + as_bucket_width_secs st \<le> u64_max"
  shows "zero_value_buckets now flush_open st =
    Some (filter (\<lambda>b. b + as_bucket_width_secs st \<le> now \<or> flush_open)
      (step_by (align_to_bucket_start (as_last_flush st) (as_bucket_width_secs st)) now (as_bucket_width_secs st)))"
proof -
  let ?bs = "step_by (align_to_bucket_start (as_last_flush st) (as_bucket_width_secs st)) now (as_bucket_width_secs st)"
  have "b + as_bucket_width_secs st \<le> u64_max" if "b \<in> set ?bs" for b
    using step_by_props [OF assms(2), of "align_to_bucket_start (as_last_flush st) (as_bucket_width_secs st)" now] that assms(3)
    by force
  then show ?thesis using assms closed_buckets_eq [OF assms(2), of ?bs now flush_open] by (simp add: zero_value_buckets_def)
qed

lemma idle_entry:
  assumes am: "am_values am = Counter []" and zb: "sorted_wrt (<) (fp_zero_value_buckets fp)" "0 \<notin> set (fp_zero_value_buckets fp)"
    "\<And>b. b \<in> set (fp_zero_value_buckets fp) \<Longrightarrow> b \<le> fp_split_timestamp fp"
  defines "bs \<equiv> filter (\<lambda>b. b < sat_add (am_last_seen am) (fp_counter_expire_secs fp)) (fp_zero_value_buckets fp)"
  assumes ne: "bs \<noteq> []"
  shows "flush_entry hs mt c fp ctx am =
    Some (am, [metric_from_parts ctx (Rate (map zero_point bs) (from_secs (fp_bucket_width_secs fp))) (am_metadata am)],
      should_expire_if_empty (fp_current_time fp) (fp_counter_expire_secs fp) am)"
proof -
  have srt: "sorted (map tv_timestamp (map zero_point xs))" "distinct (map tv_timestamp (map zero_point xs))"
    if "sorted_wrt (<) xs" for xs
    using that by (induction xs) (auto simp: zero_point_def)
  have "merge_zero_values mt c (sat_add (am_last_seen am) (fp_counter_expire_secs fp)) (fp_zero_value_buckets fp) (Counter []) =
      Some (Counter (map zero_point bs))"
    using merge_zero_values_push [of "[]" "fp_zero_value_buckets fp"] srt [OF zb(1)] zb(2) takeWhile_filter_less [OF zb(1)]
    by (simp add: bs_def)
  moreover have "mv_split_at_timestamp (fp_split_timestamp fp) (Counter (map zero_point bs)) =
      (Some (Counter (map zero_point bs)), Counter [])"
  proof -
    have "sorted_wrt (<) bs" using zb(1) by (simp add: bs_def sorted_wrt_filter)
    then have s: "sort_by_timestamp (map zero_point bs) = map zero_point bs"
      unfolding sort_by_timestamp_def by (intro sort_key_id_if_sorted srt(1))
    have due: "\<forall>p \<in> set (map zero_point bs). due (fp_split_timestamp fp) p"
      using zb(3) by (auto simp: bs_def zero_point_def due_def)
    obtain cl rm where sp: "split_at_timestamp (fp_split_timestamp fp) (map zero_point bs) = (cl, rm)" by fastforce
    then have "cl = Some (map zero_point bs) \<and> rm = []"
    proof (cases rule: split_cases)
      case kept
      then show ?thesis using due ne by (cases bs) (auto simp: due_def)
    next
      case parted
      have "filter (due (fp_split_timestamp fp)) (map zero_point bs) = map zero_point bs" using due by (rule filter_True)
      moreover have "filter (\<lambda>p. \<not> due (fp_split_timestamp fp) p) (map zero_point bs) = []" using due by (simp add: filter_empty_conv)
      ultimately show ?thesis using parted s by (simp only:)
    qed
    then show ?thesis using sp by simp
  qed
  ultimately show ?thesis using am
    by (simp add: flush_entry_def is_counter_def emitted_def counter_values_to_rate_def Let_def)
qed

end
