(* ===== verification/Aggregate_Properties.thy ===== *)
theory Aggregate_Properties
  imports Aggregate_Flush
begin

text \<open>
  The properties of the aggregate transform: its state stays within the limit, insertion merges into buckets, a flush
  emits exactly the closed buckets and delivers them downstream, and idle counters are kept alive with zeros.
\<close>

section \<open>Collapsing values without a timestamp\<close>

fun fold_merge :: "('a \<Rightarrow> 'a \<Rightarrow> 'a option) \<Rightarrow> 'a \<Rightarrow> 'a list \<Rightarrow> 'a option" where
  "fold_merge mrg x [] = Some x"
| "fold_merge mrg x (y # ys) = Option.bind (mrg x y) (\<lambda>z. fold_merge mrg z ys)"

lemma dedup_untimed_all:
  "\<forall>p \<in> set (x # xs). tv_timestamp p = None \<Longrightarrow>
   dedup_untimed mrg (x # xs) = map_option (\<lambda>v. [x\<lparr>tv_value := v\<rparr>]) (fold_merge mrg (tv_value x) (map tv_value xs))"
proof (induction xs arbitrary: x)
  case (Cons y ys)
  have n: "tv_timestamp x = None" "tv_timestamp y = None" using Cons.prems by simp_all
  show ?case
  proof (cases "mrg (tv_value x) (tv_value y)")
    case None
    then show ?thesis using n by simp
  next
    case (Some z)
    have "\<forall>p \<in> set (x\<lparr>tv_value := z\<rparr> # ys). tv_timestamp p = None" using Cons.prems by simp
    from Cons.IH [OF this] show ?thesis using Some n by simp
  qed
qed simp

lemma collapse_untimed:
  assumes "\<forall>p \<in> set (x # xs). tv_timestamp p = None"
  shows "collapse_non_timestamped ts mrg (x # xs) =
    map_option (\<lambda>v. [\<lparr>tv_timestamp = non_zero ts, tv_value = v\<rparr>]) (fold_merge mrg (tv_value x) (map tv_value xs))"
  using dedup_untimed_all [OF assms, of mrg] assms
  by (cases "fold_merge mrg (tv_value x) (map tv_value xs)") (auto simp: collapse_non_timestamped_def)

lemma mv_any_timestamped_points: "mv_any_timestamped v \<longleftrightarrow> (\<exists>p \<in> set (mv_points v). tv_timestamp p \<noteq> None)"
  by (cases v) (auto simp: any_timestamped_def list_ex_iff)

lemma collapse_one_bucket:
  assumes "mv_points v \<noteq> []" "\<not> mv_any_timestamped v" "collapse_non_timestamped ts mrg (mv_points v) = Some pts"
  shows "\<exists>x. pts = [\<lparr>tv_timestamp = non_zero ts, tv_value = x\<rparr>]"
proof -
  obtain x xs where p: "mv_points v = x # xs" using assms(1) by (cases "mv_points v") auto
  then have "\<forall>p \<in> set (x # xs). tv_timestamp p = None" using assms(2) by (simp add: mv_any_timestamped_points)
  then show ?thesis using collapse_untimed [of x xs ts mrg] assms(3) p by auto
qed

section \<open>Examples\<close>

definition small_config :: config where
  "small_config = \<lparr>bin_limit = 4, gamma_v = f64_of_nat 2, gamma_ln = f64_one, norm_min = f64_one, norm_bias = 0\<rparr>"

definition name_hasher :: hasher where
  "name_hasher = \<lparr>hash_single = (\<lambda>_. 0), hash_fields = (\<lambda>name _ _ _. of_nat (length name))\<rparr>"

definition ctx_a :: metric_context where "ctx_a = context_from_parts name_hasher ''a'' []"
definition ctx_b :: metric_context where "ctx_b = context_from_parts name_hasher ''bb'' []"

definition no_statistics :: histogram_configuration where
  "no_statistics = \<lparr>hc_statistics = [], hc_copy_to_distribution = False, hc_copy_to_distribution_prefix = []\<rparr>"

definition set_metric :: "string \<Rightarrow> metric" where
  "set_metric s = metric_from_parts ctx_a (SetValues [tv_from {|s|}]) metadata_default"

definition gauge_metric :: metric where
  "gauge_metric = metric_from_parts ctx_a (Gauge [tv_from f64_one]) metadata_default"

definition counter_metric :: metric where
  "counter_metric = metric_from_parts ctx_b (Counter [tv_from f64_one]) metadata_default"

text \<open>Buckets of ten seconds, at most two contexts and no keep-alive of counters.\<close>

definition fresh_state :: aggregation_state where
  "fresh_state = aggregation_state_new 10 2 None no_statistics"

lemmas example_defs = fresh_state_def aggregation_state_new_def no_statistics_def set_metric_def gauge_metric_def
  counter_metric_def metric_from_parts_def metric_into_parts_def ctx_a_def ctx_b_def context_from_parts_def
  hash_context_def hash_context_with_host_and_seen_def name_hasher_def metadata_default_def tv_from_def

lemmas insert_defs = as_insert_def hm_contains_def align_to_bucket_start_def collapse_non_timestamped_def non_zero_def
  mv_merge_def merge_points_def merge_scalar_sum_def merge_scalar_latest_def merge_set_def

lemma agg_ok_fresh: "agg_ok fresh_state"
  by (simp add: agg_ok_def example_defs)

lemma fresh_insert_set:
  "as_insert example_math small_config 125 (set_metric ''x'') fresh_state =
     Some (fresh_state\<lparr>as_contexts :=
       [(1, ctx_a, \<lparr>am_values = SetValues [\<lparr>tv_timestamp = Some 120, tv_value = {|''x''|}\<rparr>], am_metadata = metadata_default,
                    am_last_seen = 125\<rparr>)]\<rparr>, True)"
  by (simp add: example_defs insert_defs)

section \<open>The state\<close>

text \<open>
  C22. The component never tracks more contexts than its limit. In every state that a newly built aggregate transform
  reaches by ticks, events and the end of its input, whatever the dispatcher and the network do, the number of
  contexts is at most the configured limit, no context key occurs twice, and every entry is stored under the key of
  its context.
\<close>

theorem aggregate_contexts_bounded:
  assumes "aggregate_reaches hs mt c net (aggregate_build width limit flush_open expiry hist_config, ds0, w0) (ag, ds, w)"
  shows "length (as_contexts (ag_state ag)) \<le> limit \<and> hm_ok (as_contexts (ag_state ag)) \<and>
    (\<forall>(key, ctx, am) \<in> set (as_contexts (ag_state ag)). key = ctx_key ctx)"
  using aggregate_reaches_ok [OF assms]
  by (simp add: aggregate_build_def aggregation_state_new_def agg_ok_def)

lemma example_reaches:
  "aggregate_reaches name_hasher example_math small_config \<lparr>net_send = \<lambda>s e. (e, True), net_gate = \<lambda>g e. (e, True)\<rparr>
     (aggregate_build 10 2 False None no_statistics, dispatcher_new, \<lparr>w_env = (), w_log = []\<rparr>)
     ((aggregate_build 10 2 False None no_statistics)\<lparr>ag_state := fresh_state\<lparr>as_contexts :=
       [(1, ctx_a, \<lparr>am_values = SetValues [\<lparr>tv_timestamp = Some 120, tv_value = {|''x''|}\<rparr>], am_metadata = metadata_default,
                    am_last_seen = 125\<rparr>)]\<rparr>\<rparr>, dispatcher_new, \<lparr>w_env = (), w_log = []\<rparr>)"
proof (rule aggregate_reaches.step [OF aggregate_reaches.start])
  have "ag_state (aggregate_build 10 2 False None no_statistics) = fresh_state"
    by (simp add: aggregate_build_def fresh_state_def)
  then show "aggregate_step name_hasher example_math small_config \<lparr>net_send = \<lambda>s e. (e, True), net_gate = \<lambda>g e. (e, True)\<rparr>
      (Events 125 [EvMetric (set_metric ''x'')])
      (aggregate_build 10 2 False None no_statistics, dispatcher_new, \<lparr>w_env = (), w_log = []\<rparr>) =
    Some ((aggregate_build 10 2 False None no_statistics)\<lparr>ag_state := fresh_state\<lparr>as_contexts :=
       [(1, ctx_a, \<lparr>am_values = SetValues [\<lparr>tv_timestamp = Some 120, tv_value = {|''x''|}\<rparr>], am_metadata = metadata_default,
                    am_last_seen = 125\<rparr>)]\<rparr>\<rparr>, dispatcher_new, \<lparr>w_env = (), w_log = []\<rparr>)"
    using fresh_insert_set by (simp add: aggregate_build_def)
qed

theorem aggregate_contexts_bounded_witness:
  "length [(1 :: 64 word, ctx_a, \<lparr>am_values = SetValues [\<lparr>tv_timestamp = Some 120, tv_value = {|''x''|}\<rparr>],
       am_metadata = metadata_default, am_last_seen = 125\<rparr>)] \<le> 2 \<and> 1 = ctx_key ctx_a"
  using aggregate_contexts_bounded [OF example_reaches] by simp

text \<open>
  C7. Inserting a metric merges it into the buckets of its context and touches nothing else. The values without a
  timestamp become one value of the bucket that contains the current time. For a context that is not tracked yet the
  entry holds these points. For a tracked one of the same kind, each point is merged into the value of its
  timestamp (sums for counters and rates, the latest for gauges, unions for sets, all samples for histograms, merged
  sketches for distributions), and a point with a new timestamp is added; a metric of another kind replaces the
  values. The metadata of the first metric is kept.
\<close>

theorem insert_merges_into_buckets:
  assumes "as_insert mt c ts m st = Some (st', True)"
  shows "\<exists>pts ctx am.
    collapse_non_timestamped (align_to_bucket_start ts (as_bucket_width_secs st)) (bv_merge mt c (mv_kind (m_values m)))
      (mv_points (m_values m)) = Some pts \<and>
    (mv_points (m_values m) \<noteq> [] \<and> \<not> mv_any_timestamped (m_values m) \<longrightarrow>
      (\<exists>v. pts = [\<lparr>tv_timestamp = non_zero (align_to_bucket_start ts (as_bucket_width_secs st)), tv_value = v\<rparr>])) \<and>
    map_of (as_contexts st') = (map_of (as_contexts st))(ctx_key (m_context m) \<mapsto> (ctx, am)) \<and>
    am_last_seen am = ts \<and> mv_kind (am_values am) = mv_kind (m_values m) \<and>
    (case map_of (as_contexts st) (ctx_key (m_context m)) of
       None \<Rightarrow> ctx = m_context m \<and> am_metadata am = m_metadata m \<and> mv_points (am_values am) = pts
     | Some (ctx0, am0) \<Rightarrow> ctx = ctx0 \<and> am_metadata am = am_metadata am0 \<and>
         (if mv_kind (am_values am0) = mv_kind (m_values m)
          then bucket_adds (bv_merge mt c (mv_kind (m_values m))) pts (bucket_map (mv_points (am_values am0))) =
               Some (bucket_map (mv_points (am_values am)))
          else mv_points (am_values am) = pts))"
  using assms
proof (cases rule: as_insert_cases)
  case (merged ctx am vs v)
  note coll = mv_collapse_points [of mt c "align_to_bucket_start ts (as_bucket_width_secs st)" "m_values m", unfolded merged(3)]
  note kinds = mv_collapse_kind [OF merged(3)] mv_merge_kind [OF merged(4)]
  have "if mv_kind (am_values am) = mv_kind (m_values m)
      then bucket_adds (bv_merge mt c (mv_kind (m_values m))) (mv_points vs) (bucket_map (mv_points (am_values am))) =
        Some (bucket_map (mv_points v))
      else mv_points v = mv_points vs"
    using mv_merge_same [of "am_values am" vs mt c, symmetric] mv_merge_other [of "am_values am" vs mt c] merged(4) kinds
      merge_points_bucket [of "bv_merge mt c (mv_kind (m_values m))" "mv_points vs" "mv_points (am_values am)", symmetric]
    by (cases "mv_kind (am_values am) = mv_kind vs") simp_all
  then show ?thesis
    using merged kinds coll [symmetric] collapse_one_bucket [of "m_values m"]
    by (intro exI [of _ "mv_points vs"] exI [of _ ctx] exI [of _ "am\<lparr>am_last_seen := ts, am_values := v\<rparr>"]) auto
next
  case (new vs)
  note coll = mv_collapse_points [of mt c "align_to_bucket_start ts (as_bucket_width_secs st)" "m_values m", unfolded new(4)]
  have "map_of (as_contexts st) (ctx_key (m_context m)) = None"
    using new(2) by (cases "map_of (as_contexts st) (ctx_key (m_context m))") (simp_all add: hm_contains_iff)
  then show ?thesis
    using new(4,5) mv_collapse_kind [OF new(4)] coll [symmetric] collapse_one_bucket [of "m_values m"]
    by (intro exI [of _ "mv_points vs"] exI [of _ "m_context m"]
        exI [of _ "\<lparr>am_values = vs, am_metadata = m_metadata m, am_last_seen = ts\<rparr>"])
       auto
qed simp

definition one_set_state :: aggregation_state where
  "one_set_state = fresh_state\<lparr>as_contexts :=
     [(1, ctx_a, \<lparr>am_values = SetValues [\<lparr>tv_timestamp = Some 120, tv_value = {|''x''|}\<rparr>], am_metadata = metadata_default,
                  am_last_seen = 125\<rparr>)]\<rparr>"

lemma example_second_insert:
  "\<exists>st'. as_insert example_math small_config 127 (set_metric ''y'') one_set_state = Some (st', True)"
  by (simp add: one_set_state_def example_defs insert_defs)

theorem insert_merges_into_buckets_witness:
  "\<exists>st' am. as_insert example_math small_config 127 (set_metric ''y'') one_set_state = Some (st', True) \<and>
     map_of (as_contexts st') 1 = Some (ctx_a, am) \<and>
     bucket_map (mv_points (am_values am)) (Some 120) = Some (BSet {|''x'', ''y''|})"
proof -
  obtain st' where st': "as_insert example_math small_config 127 (set_metric ''y'') one_set_state = Some (st', True)"
    using example_second_insert by blast
  have col: "collapse_non_timestamped (align_to_bucket_start 127 (as_bucket_width_secs one_set_state))
      (bv_merge example_math small_config (mv_kind (m_values (set_metric ''y'')))) (mv_points (m_values (set_metric ''y''))) =
      Some [\<lparr>tv_timestamp = Some 120, tv_value = BSet {|''y''|}\<rparr>]"
    by (simp add: one_set_state_def example_defs insert_defs tv_map_def)
  have key: "ctx_key (m_context (set_metric ''y'')) = 1" and kind: "mv_kind (m_values (set_metric ''y'')) = KSet"
    by (simp_all add: example_defs)
  have old: "map_of (as_contexts one_set_state) 1 = Some (ctx_a, \<lparr>am_values =
      SetValues [\<lparr>tv_timestamp = Some 120, tv_value = {|''x''|}\<rparr>], am_metadata = metadata_default, am_last_seen = 125\<rparr>)"
    by (simp add: one_set_state_def)
  obtain ctx am where "map_of (as_contexts st') = (map_of (as_contexts one_set_state))(1 \<mapsto> (ctx, am))" "ctx = ctx_a"
      "bucket_adds (bv_merge example_math small_config KSet) [\<lparr>tv_timestamp = Some 120, tv_value = BSet {|''y''|}\<rparr>]
        (bucket_map (mv_points (SetValues [\<lparr>tv_timestamp = Some 120, tv_value = {|''x''|}\<rparr>]))) =
        Some (bucket_map (mv_points (am_values am)))"
    using insert_merges_into_buckets [OF st'] col
    by (elim exE conjE, intro that) (auto simp: key kind old)
  then show ?thesis using st'
    by (auto simp: bucket_map_Cons bucket_add_def finsert_commute dest: fun_cong [of _ _ "Some 120"])
qed

section \<open>Flushing\<close>

text \<open>
  What a flush at \<open>now\<close> with the zero-value buckets \<open>zb\<close> does to an entry: its points, with the zero values of a counter,
  are parted into \<open>closed\<close> values, whose metrics are one run of the output \<open>ms\<close>, and those that stay.
\<close>

definition entry_flushed ::
    "hasher \<Rightarrow> math \<Rightarrow> config \<Rightarrow> nat \<Rightarrow> nat list \<Rightarrow> aggregation_state \<Rightarrow> aggregation_state \<Rightarrow> metric list \<Rightarrow>
     64 word \<Rightarrow> metric_context \<Rightarrow> aggregated_metric \<Rightarrow> bool" where
  "entry_flushed hs mt c now zb st st' ms key ctx am \<longleftrightarrow>
     (\<exists>vs closed msi ms1 ms2 stay.
        with_zero_values mt c (flush_params_for now False zb st) am = Some vs \<and>
        mset (mv_points vs) = mset (case closed of None \<Rightarrow> [] | Some cv \<Rightarrow> mv_points cv) + mset (mv_points stay) \<and>
        (case closed of None \<Rightarrow> Some []
         | Some cv \<Rightarrow> emitted hs mt c ctx cv (am_metadata am) (as_bucket_width_secs st) (as_hist_config st)) = Some msi \<and>
        ms = ms1 @ msi @ ms2 \<and>
        (map_of (as_contexts st') key = Some (ctx, am\<lparr>am_values := stay\<rparr>) \<or>
         map_of (as_contexts st') key = None \<and> mv_is_empty stay) \<and>
        (sorted (map tv_timestamp (mv_points vs)) \<longrightarrow>
           (\<forall>p \<in> set (mv_points stay). \<forall>t. tv_timestamp p = Some t \<longrightarrow>
              align_to_bucket_start now (as_bucket_width_secs st) \<le> t)))"

lemma flush_params_simps [simp]:
  "fp_split_timestamp (flush_params_for now False zb st) = align_to_bucket_start now (as_bucket_width_secs st) - 1"
  "fp_bucket_width_secs (flush_params_for now fo zb st) = as_bucket_width_secs st"
  "fp_hist_config (flush_params_for now fo zb st) = as_hist_config st"
  "fp_zero_value_buckets (flush_params_for now fo zb st) = zb"
  "fp_current_time (flush_params_for now fo zb st) = now"
  by (simp_all add: flush_params_for_def sat_sub_def)

lemma flushed_lookup:
  assumes "hm_ok (as_contexts st)" "flush_entries hs mt c fp (as_contexts st) = Some (es, ms, keys)"
    "as_contexts st' = filter (\<lambda>e. fst e \<notin> set keys) es" "(key, ctx, am') \<in> set es"
  shows "map_of (as_contexts st') key = (if key \<in> set keys then None else Some (ctx, am'))"
proof -
  have "hm_ok es" using assms(1) flush_entries_keys [OF assms(2)] by (simp add: hm_ok_def)
  then have "hm_ok (as_contexts st')" by (simp add: assms(3) hm_ok_def distinct_map_filter)
  moreover have "(key, ctx, am') \<in> set (as_contexts st')" if "key \<notin> set keys" using assms(4) that by (simp add: assms(3))
  ultimately show ?thesis by (auto simp: hm_ok_def map_of_eq_None_iff assms(3))
qed

lemma flushed_entry:
  assumes ok: "agg_ok st" and e: "flush_entries hs mt c (flush_params_for now False zb st) (as_contexts st) = Some (es, ms, keys)"
    and st': "as_contexts st' = filter (\<lambda>e. fst e \<notin> set keys) es" and in_st: "(key, ctx, am) \<in> set (as_contexts st)"
  shows "entry_flushed hs mt c now zb st st' ms key ctx am"
proof -
  let ?fp = "flush_params_for now False zb st"
  have hm: "hm_ok (as_contexts st)" using ok by (simp add: agg_ok_def)
  obtain am' msi remove ms1 ms2 where f: "flush_entry hs mt c ?fp ctx am = Some (am', msi, remove)" "(key, ctx, am') \<in> set es"
      "ms = ms1 @ msi @ ms2" "key \<in> set keys \<longleftrightarrow> remove"
    using flush_entries_each [OF e in_st hm] by blast
  obtain vs closed where p: "with_zero_values mt c ?fp am = Some vs"
      "mset (mv_points vs) = mset (case closed of None \<Rightarrow> [] | Some cv \<Rightarrow> mv_points cv) + mset (mv_points (am_values am'))"
      "(case closed of None \<Rightarrow> Some []
        | Some cv \<Rightarrow> emitted hs mt c ctx cv (am_metadata am) (as_bucket_width_secs st) (as_hist_config st)) = Some msi"
      "sorted (map tv_timestamp (mv_points vs)) \<Longrightarrow>
        \<forall>p \<in> set (mv_points (am_values am')). \<not> due (align_to_bucket_start now (as_bucket_width_secs st) - 1) p"
      "am' = am\<lparr>am_values := am_values am'\<rparr>" "remove \<Longrightarrow> mv_is_empty (am_values am')"
    by (rule flush_entry_partition [OF f(1)], rule that) (simp_all cong: option.case_cong)
  have "map_of (as_contexts st') key = (if remove then None else Some (ctx, am'))"
    using flushed_lookup [OF hm e st' f(2)] f(4) by simp
  then have "map_of (as_contexts st') key = Some (ctx, am\<lparr>am_values := am_values am'\<rparr>) \<or>
      map_of (as_contexts st') key = None \<and> mv_is_empty (am_values am')"
    using p(5,6) by (cases remove) auto
  moreover have "align_to_bucket_start now (as_bucket_width_secs st) \<le> t"
    if "sorted (map tv_timestamp (mv_points vs))" "q \<in> set (mv_points (am_values am'))" "tv_timestamp q = Some t" for q t
    using p(4) that by (force simp: due_def)
  ultimately show ?thesis unfolding entry_flushed_def using p(1-3) f(3)
    by (intro exI [of _ vs] exI [of _ closed] exI [of _ msi] exI [of _ ms1] exI [of _ ms2] exI [of _ "am_values am'"]) simp
qed

text \<open>
  C5. A flush emits the values of closed buckets and of no others, and loses none. With the dispatcher that records
  what it is given, every point of every emitted metric lies before the start of the current bucket. The points of
  each entry, with the zero values added to a counter, are parted into those that are emitted and those that stay;
  an entry is dropped only when nothing stays, and an entry whose points are in order keeps only points of the
  current bucket or later.
\<close>

theorem flush_emits_closed_buckets:
  assumes "agg_ok st" "as_flush hs mt c record_push now False st [] = Some (st', ms, r)"
  shows "r = Inr () \<and>
    (\<forall>m \<in> set ms. \<forall>p \<in> set (mv_points (m_values m)). \<exists>t. tv_timestamp p = Some t \<and>
       t \<le> align_to_bucket_start now (as_bucket_width_secs st) - 1) \<and>
    (\<exists>zb. zero_value_buckets now False st = Some zb \<and>
      (\<forall>(key, ctx, am) \<in> set (as_contexts st). entry_flushed hs mt c now zb st st' ms key ctx am))"
proof -
  obtain zb es keys where z: "zero_value_buckets now False st = Some zb" "r = Inr ()"
      "flush_entries hs mt c (flush_params_for now False zb st) (as_contexts st) = Some (es, ms, keys)"
      "as_contexts st' = filter (\<lambda>e. fst e \<notin> set keys) es"
    using assms(2) by (rule as_flush_record)
  have "\<exists>t. tv_timestamp p = Some t \<and> t \<le> align_to_bucket_start now (as_bucket_width_secs st) - 1"
    if m: "m \<in> set ms" "p \<in> set (mv_points (m_values m))" for m p
  proof -
    obtain ctx am am' msi remove where "flush_entry hs mt c (flush_params_for now False zb st) ctx am = Some (am', msi, remove)"
        "m \<in> set msi" using flush_entries_sources [OF z(3) m(1)] by blast
    then have "due (align_to_bucket_start now (as_bucket_width_secs st) - 1) p"
      using m(2) by (auto elim!: flush_entry_partition)
    then show ?thesis by (auto simp: due_def split: option.splits)
  qed
  then show ?thesis using z flushed_entry [OF assms(1) z(3,4)] by auto
qed

text \<open>A set with a closed and an open bucket at second 131.\<close>

definition two_bucket_state :: aggregation_state where
  "two_bucket_state = fresh_state\<lparr>as_contexts :=
     [(1, ctx_a, \<lparr>am_values = SetValues [\<lparr>tv_timestamp = Some 120, tv_value = {|''x''|}\<rparr>, \<lparr>tv_timestamp = Some 130, tv_value = {|''y''|}\<rparr>],
                  am_metadata = metadata_default, am_last_seen = 130\<rparr>)]\<rparr>"

lemmas flush_defs = as_flush_def zero_value_buckets_def flush_params_for_def sat_sub_def sat_add_def
  align_to_bucket_start_def flush_context_def is_counter_def should_expire_if_empty_def transform_and_push_metric_def
  counter_values_to_rate_def record_push_def split_at_timestamp_def due_def sort_by_timestamp_def
  step_by.simps is_bucket_closed_def u64_add_def u64_sub_def u64_max_def hm_remove_def

lemma two_bucket_flush:
  "as_flush name_hasher example_math small_config record_push 131 False two_bucket_state [] =
     Some (two_bucket_state\<lparr>as_last_flush := 131, as_contexts :=
         [(1, ctx_a, \<lparr>am_values = SetValues [\<lparr>tv_timestamp = Some 130, tv_value = {|''y''|}\<rparr>], am_metadata = metadata_default,
                      am_last_seen = 130\<rparr>)]\<rparr>,
       [metric_from_parts ctx_a (SetValues [\<lparr>tv_timestamp = Some 120, tv_value = {|''x''|}\<rparr>]) metadata_default], Inr ())"
  by (simp add: two_bucket_state_def fresh_state_def aggregation_state_new_def flush_defs)

lemma two_bucket_ok: "agg_ok two_bucket_state"
  by (simp add: agg_ok_def two_bucket_state_def fresh_state_def aggregation_state_new_def example_defs hm_ok_def)

theorem flush_emits_closed_buckets_witness:
  "(\<exists>t. tv_timestamp \<lparr>tv_timestamp = Some 120, tv_value = BSet {|''x''|}\<rparr> = Some t \<and> t \<le> 129) \<and>
   (\<exists>zb st' ms key ctx am. (key, ctx, am) \<in> set (as_contexts two_bucket_state) \<and>
      as_flush name_hasher example_math small_config record_push 131 False two_bucket_state [] = Some (st', ms, Inr ()) \<and>
      entry_flushed name_hasher example_math small_config 131 zb two_bucket_state st' ms key ctx am)"
proof -
  obtain st' ms where f: "as_flush name_hasher example_math small_config record_push 131 False two_bucket_state [] =
      Some (st', ms, Inr ())"
    "ms = [metric_from_parts ctx_a (SetValues [\<lparr>tv_timestamp = Some 120, tv_value = {|''x''|}\<rparr>]) metadata_default]"
    using two_bucket_flush by blast
  note w = flush_emits_closed_buckets [OF two_bucket_ok f(1)]
  have "\<lparr>tv_timestamp = Some 120, tv_value = BSet {|''x''|}\<rparr> \<in> set (mv_points (m_values (hd ms)))" "hd ms \<in> set ms"
    by (simp_all add: f(2) metric_from_parts_def tv_map_def)
  moreover have "align_to_bucket_start 131 (as_bucket_width_secs two_bucket_state) - 1 = 129"
    by (simp add: two_bucket_state_def fresh_state_def aggregation_state_new_def align_to_bucket_start_def)
  ultimately have "\<exists>t. tv_timestamp \<lparr>tv_timestamp = Some 120, tv_value = BSet {|''x''|}\<rparr> = Some t \<and> t \<le> 129"
    using w by metis
  moreover obtain key ctx am where "(key, ctx, am) \<in> set (as_contexts two_bucket_state)"
    by (simp add: two_bucket_state_def)
  ultimately show ?thesis using w f(1) by fast
qed

lemma flush_tick_frame:
  "flush_tick hs mt c net now (ag, ds, w) = Some (ag', ds', w') \<Longrightarrow> ag_final_primary_flush ag' = ag_final_primary_flush ag"
  by (auto simp: flush_tick_def bind_eq_Some_conv split: if_splits sum.splits)

text \<open>
  C11. A tick delivers what it flushes. Let \<open>ms\<close> be the metrics that a flush of the aggregation state gives to a
  dispatcher that merely records them. When the state is not empty and the receivers of the default output stay, a
  tick through the buffered dispatcher does not fail, and every ungated sender of the default output gets exactly
  \<open>ms\<close>, in order and once each, in non-empty batches within the capacity of an event buffer. The contexts that stay
  are the same, the time of the flush is remembered, and the component stops exactly when its input had ended.
\<close>

theorem tick_delivers_flushed_metrics:
  assumes "\<not> as_is_empty (ag_state ag)" "\<not> ag_stopped ag" "ds_default ds = Some t" "net_reliable net"
    "length (dt_senders t) * events_buffer_capacity \<le> u64_max" "distinct (map gs_sender (dt_senders t))"
    "length ms \<le> u64_max"
    "as_flush hs mt c record_push now (ag_final_primary_flush ag \<and> ag_flush_open_windows ag) (ag_state ag) [] =
       Some (st, ms, r)"
  shows "\<exists>ag' ds' w'. aggregate_step hs mt c net (Tick now) (ag, ds, w) = Some (ag', ds', w') \<and>
    as_contexts (ag_state ag') = as_contexts st \<and> as_last_flush (ag_state ag') = now \<and>
    (ag_stopped ag' \<longleftrightarrow> ag_final_primary_flush ag) \<and>
    reached eb_events (eb_ok events_buffer_capacity) w w' (dt_senders t) (map EvMetric ms)"
proof -
  obtain zb es keys where "zero_value_buckets now (ag_final_primary_flush ag \<and> ag_flush_open_windows ag) (ag_state ag) = Some zb"
      "flush_entries hs mt c (flush_params_for now (ag_final_primary_flush ag \<and> ag_flush_open_windows ag) zb (ag_state ag))
         (as_contexts (ag_state ag)) = Some (es, ms, keys)"
      "as_contexts st = filter (\<lambda>e. fst e \<notin> set keys) es"
    using assms(8) by (rule as_flush_record)
  then show ?thesis
    using flush_tick_delivers [OF assms(1,3-7), of now zb hs mt c es keys w] flush_tick_frame assms(2) by fastforce
qed

definition example_component :: aggregate where
  "example_component = \<lparr>ag_state = two_bucket_state, ag_flush_open_windows = False, ag_final_primary_flush = True, ag_stopped = False\<rparr>"

definition one_sender :: "(nat, nat) dispatcher" where
  "one_sender = dispatcher_new\<lparr>ds_default := Some (add_sender 7 None new_target)\<rparr>"

definition accepting_net :: "(nat, nat, unit) net" where
  "accepting_net = \<lparr>net_send = (\<lambda>_ e. (e, True)), net_gate = (\<lambda>_ e. (e, True))\<rparr>"

theorem tick_delivers_flushed_metrics_witness:
  "\<exists>ag' ds' w'. aggregate_step name_hasher example_math small_config accepting_net (Tick 131)
       (example_component, one_sender, \<lparr>w_env = (), w_log = []\<rparr>) = Some (ag', ds', w' :: (nat, (metric, unit) event_buffer, unit) world) \<and>
     ag_stopped ag' \<and> length (as_contexts (ag_state ag')) = 1 \<and>
     reached eb_events (eb_ok events_buffer_capacity) \<lparr>w_env = (), w_log = []\<rparr> w' [\<lparr>gs_sender = 7, gs_gate = None :: nat option\<rparr>]
       [EvMetric (metric_from_parts ctx_a (SetValues [\<lparr>tv_timestamp = Some 120, tv_value = {|''x''|}\<rparr>]) metadata_default)]"
proof -
  let ?m = "metric_from_parts ctx_a (SetValues [\<lparr>tv_timestamp = Some 120, tv_value = {|''x''|}\<rparr>]) metadata_default"
  have pre: "\<not> as_is_empty (ag_state example_component)" "\<not> ag_stopped example_component"
    "ds_default one_sender = Some (add_sender 7 None new_target)" "net_reliable accepting_net"
    "length (dt_senders (add_sender 7 None new_target :: (nat, nat) dispatch_target)) * events_buffer_capacity \<le> u64_max"
    "distinct (map gs_sender (dt_senders (add_sender 7 None new_target :: (nat, nat) dispatch_target)))"
    by (simp_all add: example_component_def as_is_empty_def two_bucket_state_def one_sender_def accepting_net_def net_reliable_def
        add_sender_def new_target_def events_buffer_capacity_def u64_max_def)
  have len: "length [?m] \<le> u64_max" by (simp add: u64_max_def)
  have "as_flush name_hasher example_math small_config record_push 131
      (ag_final_primary_flush example_component \<and> ag_flush_open_windows example_component) (ag_state example_component) [] =
      Some (two_bucket_state\<lparr>as_last_flush := 131, as_contexts :=
         [(1, ctx_a, \<lparr>am_values = SetValues [\<lparr>tv_timestamp = Some 130, tv_value = {|''y''|}\<rparr>], am_metadata = metadata_default,
                      am_last_seen = 130\<rparr>)]\<rparr>, [?m], Inr ())"
    using two_bucket_flush by (simp add: example_component_def)
  from tick_delivers_flushed_metrics [OF pre len this, where w = "\<lparr>w_env = (), w_log = []\<rparr>"]
  show ?thesis by (simp add: add_sender_def new_target_def example_component_def) fastforce
qed

section \<open>Idle counters\<close>

lemma step_by_complete: "0 < w \<Longrightarrow> start \<le> b \<Longrightarrow> b < stop \<Longrightarrow> (b - start) mod w = 0 \<Longrightarrow> b \<in> set (step_by start stop w)"
proof (induction start stop w rule: step_by.induct)
  case (1 start stop w)
  show ?case
  proof (cases "b = start")
    case False
    then have "w \<le> b - start" using 1(3,5) by (simp add: mod_eq_0_iff_dvd dvd_imp_le)
    moreover from this have "(b - (start + w)) mod w = 0" using 1(5) by (metis diff_diff_left le_mod_geq)
    ultimately show ?thesis using 1 by (simp add: step_by.simps [of start])
  qed (use 1 in \<open>simp add: step_by.simps [of start]\<close>)
qed

lemma step_by_aligned:
  assumes "0 < w" "w dvd start"
  shows "set (step_by start stop w) = {b. start \<le> b \<and> b < stop \<and> w dvd b}"
proof -
  have m: "(b - start) mod w = 0 \<longleftrightarrow> w dvd b" if "start \<le> b" for b
    using that assms(2) by (metis dvd_diffD dvd_diff_nat dvd_eq_mod_eq_0)
  show ?thesis
  proof (intro set_eqI iffI)
    fix b
    assume "b \<in> set (step_by start stop w)"
    then have "start \<le> b \<and> b < stop \<and> (b - start) mod w = 0" using step_by_props [OF assms(1), of start stop] by blast
    then show "b \<in> {b. start \<le> b \<and> b < stop \<and> w dvd b}" using m [of b] by simp
  qed (use step_by_complete [OF assms(1), of start _ stop] m in simp)
qed

lemma zero_value_buckets_spec:
  fixes st :: aggregation_state
  defines "w \<equiv> as_bucket_width_secs st"
  assumes "zero_value_buckets now False st = Some zb" "as_last_flush st \<noteq> 0" "0 < w" "now + w \<le> u64_max"
  shows "sorted_wrt (<) zb" "set zb = {b. w dvd b \<and> align_to_bucket_start (as_last_flush st) w \<le> b \<and> b + w \<le> now}"
proof -
  let ?start = "align_to_bucket_start (as_last_flush st) w"
  have zb: "zb = filter (\<lambda>b. b + w \<le> now) (step_by ?start now w)"
    using zero_value_buckets_eq [of st now False] assms by simp
  then show "sorted_wrt (<) zb" using step_by_props [OF assms(4), of ?start now] by (simp add: sorted_wrt_filter)
  have "b < now" if "b + w \<le> now" for b using that assms(4) by simp
  then show "set zb = {b. w dvd b \<and> ?start \<le> b \<and> b + w \<le> now}"
    unfolding zb set_filter step_by_aligned [OF assms(4) align_dvd] mem_Collect_eq by (intro Collect_cong) blast
qed

lemma idle_entry_any:
  assumes am: "am_values am = Counter []" and zb: "sorted_wrt (<) (fp_zero_value_buckets fp)" "0 \<notin> set (fp_zero_value_buckets fp)"
    "\<And>b. b \<in> set (fp_zero_value_buckets fp) \<Longrightarrow> b \<le> fp_split_timestamp fp"
  defines "bs \<equiv> filter (\<lambda>b. b < sat_add (am_last_seen am) (fp_counter_expire_secs fp)) (fp_zero_value_buckets fp)"
  shows "flush_entry hs mt c fp ctx am =
    Some (am, (if bs = [] then []
        else [metric_from_parts ctx (Rate (map zero_point bs) (from_secs (fp_bucket_width_secs fp))) (am_metadata am)]),
      should_expire_if_empty (fp_current_time fp) (fp_counter_expire_secs fp) am)"
proof (cases "bs = []")
  case True
  then have "\<forall>b \<in> set (fp_zero_value_buckets fp). \<not> b < sat_add (am_last_seen am) (fp_counter_expire_secs fp)"
    by (simp add: bs_def filter_empty_conv)
  then have "merge_zero_values mt c (sat_add (am_last_seen am) (fp_counter_expire_secs fp)) (fp_zero_value_buckets fp) (Counter []) =
      Some (Counter [])"
    by (cases "fp_zero_value_buckets fp") auto
  then show ?thesis using True am by (simp add: flush_entry_def is_counter_def split_at_timestamp_def)
next
  case False
  then show ?thesis using idle_entry [OF am zb, of hs mt c ctx] by (simp add: bs_def)
qed

text \<open>
  C26. Idle counters are kept alive with zeros. When a counter has no values left at a flush, the metrics of the flush
  contain a rate of the bucket width whose points are zeros, one for each bucket that has closed since the previous
  flush and that starts before the counter expires, in order (nothing is emitted when there is no such bucket). The
  entry stays unless keep-alive is disabled or the counter was last seen longer ago than the expiry.
\<close>

theorem idle_counter_emits_zeros:
  fixes st :: aggregation_state
  defines "w \<equiv> as_bucket_width_secs st"
  assumes "agg_ok st" "(key, ctx, am) \<in> set (as_contexts st)" "am_values am = Counter []"
    "0 < w" "w \<le> as_last_flush st" "now + w \<le> u64_max"
    "as_counter_expire_secs st = Some x" "0 < x"
    "as_flush hs mt c record_push now False st [] = Some (st', ms, r)"
  shows "(\<exists>bs. sorted_wrt (<) bs \<and>
      set bs = {b. w dvd b \<and> align_to_bucket_start (as_last_flush st) w \<le> b \<and> b + w \<le> now \<and> b < sat_add (am_last_seen am) x} \<and>
      (bs \<noteq> [] \<longrightarrow> metric_from_parts ctx (Rate (map zero_point bs) (from_secs w)) (am_metadata am) \<in> set ms)) \<and>
    map_of (as_contexts st') key = (if sat_add (am_last_seen am) x < now then None else Some (ctx, am))"
proof -
  obtain zb es keys where z: "zero_value_buckets now False st = Some zb"
      "flush_entries hs mt c (flush_params_for now False zb st) (as_contexts st) = Some (es, ms, keys)"
      "as_contexts st' = filter (\<lambda>e. fst e \<notin> set keys) es"
    using assms(10) by (rule as_flush_record)
  let ?fp = "flush_params_for now False zb st" and ?start = "align_to_bucket_start (as_last_flush st) w"
  have pos: "w \<le> ?start" using closed_bucket_due [OF assms(5), of 0 "as_last_flush st"] assms(6) by simp
  have srt: "sorted_wrt (<) zb" and set_zb: "set zb = {b. w dvd b \<and> ?start \<le> b \<and> b + w \<le> now}"
    using zero_value_buckets_spec [OF z(1)] assms(5-7) by (simp_all add: w_def)
  have x: "fp_counter_expire_secs ?fp = x" using assms(8) by (simp add: flush_params_for_def)
  define bs where "bs = filter (\<lambda>b. b < sat_add (am_last_seen am) x) zb"
  have e: "flush_entry hs mt c ?fp ctx am = Some (am, (if bs = [] then []
      else [metric_from_parts ctx (Rate (map zero_point bs) (from_secs w)) (am_metadata am)]),
      sat_add (am_last_seen am) x < now)"
  proof -
    have "b \<le> align_to_bucket_start now w - 1" if "b \<in> set zb" for b
      using closed_bucket_due [OF assms(5), of b now] that assms(5) by (simp add: set_zb)
    moreover have "0 \<notin> set zb" using pos assms(5) by (simp add: set_zb)
    ultimately show ?thesis
      using idle_entry_any [OF assms(4), of ?fp hs mt c ctx] srt assms(4,9)
      by (simp add: x bs_def w_def should_expire_if_empty_def is_counter_def)
  qed
  have hm: "hm_ok (as_contexts st)" using assms(2) by (simp add: agg_ok_def)
  obtain ms1 ms2 where f: "(key, ctx, am) \<in> set es" "ms = ms1 @ (if bs = [] then []
      else [metric_from_parts ctx (Rate (map zero_point bs) (from_secs w)) (am_metadata am)]) @ ms2"
      "key \<in> set keys \<longleftrightarrow> sat_add (am_last_seen am) x < now"
    using flush_entries_each [OF z(2) assms(3) hm] by (auto simp: e)
  have "sorted_wrt (<) bs" using srt by (simp add: bs_def sorted_wrt_filter)
  moreover have "set bs = {b. w dvd b \<and> ?start \<le> b \<and> b + w \<le> now \<and> b < sat_add (am_last_seen am) x}"
    by (auto simp: bs_def set_zb)
  ultimately show ?thesis using flushed_lookup [OF hm z(2,3) f(1)] f(2,3) by auto
qed

definition idle_state :: aggregation_state where
  "idle_state = fresh_state\<lparr>as_counter_expire_secs := Some 300, as_last_flush := 112, as_contexts :=
     [(2, ctx_b, \<lparr>am_values = Counter [], am_metadata = metadata_default, am_last_seen = 105\<rparr>)]\<rparr>"

lemma idle_flush:
  "\<exists>st' ms r. as_flush name_hasher example_math small_config record_push 131 False idle_state [] = Some (st', ms, r)"
  by (simp add: idle_state_def fresh_state_def aggregation_state_new_def flush_defs mv_merge_def merge_points_def tv_from_at_def
      non_zero_def)

theorem idle_counter_emits_zeros_witness:
  "\<exists>st' ms bs. as_flush name_hasher example_math small_config record_push 131 False idle_state [] = Some (st', ms, Inr ()) \<and>
     set bs = {110, 120} \<and>
     metric_from_parts ctx_b (Rate (map zero_point bs) (from_secs 10)) metadata_default \<in> set ms \<and>
     map_of (as_contexts st') 2 = Some (ctx_b, \<lparr>am_values = Counter [], am_metadata = metadata_default, am_last_seen = 105\<rparr>)"
proof -
  obtain st' ms r where f: "as_flush name_hasher example_math small_config record_push 131 False idle_state [] = Some (st', ms, r)"
    using idle_flush by blast
  have "r = Inr ()" using f by (rule as_flush_record)
  have "agg_ok idle_state" "(2, ctx_b, \<lparr>am_values = Counter [], am_metadata = metadata_default, am_last_seen = 105\<rparr>) \<in> set (as_contexts idle_state)"
    "0 < as_bucket_width_secs idle_state" "as_bucket_width_secs idle_state \<le> as_last_flush idle_state"
    "131 + as_bucket_width_secs idle_state \<le> u64_max" "as_counter_expire_secs idle_state = Some 300"
    by (simp_all add: idle_state_def agg_ok_def fresh_state_def aggregation_state_new_def example_defs hm_ok_def u64_max_def)
  note pre = this
  have iff: "10 dvd b \<and> 110 \<le> b \<and> b + 10 \<le> 131 \<and> b < 405 \<longleftrightarrow> b = 110 \<or> b = (120 :: nat)" for b by presburger
  have "align_to_bucket_start 112 10 = 110" "sat_add 105 300 = 405"
    by (simp_all add: align_to_bucket_start_def sat_add_def u64_max_def)
  then have bs: "{b. 10 dvd b \<and> align_to_bucket_start 112 10 \<le> b \<and> b + 10 \<le> 131 \<and> b < sat_add 105 300} = {110, 120}"
    by (simp only: iff) blast
  have vals: "as_bucket_width_secs idle_state = 10" "as_last_flush idle_state = 112"
    by (simp_all add: idle_state_def fresh_state_def aggregation_state_new_def)
  obtain bs where "set bs = {110, 120}" "bs \<noteq> [] \<longrightarrow> metric_from_parts ctx_b (Rate (map zero_point bs) (from_secs 10)) metadata_default \<in> set ms"
      "map_of (as_contexts st') 2 = Some (ctx_b, \<lparr>am_values = Counter [], am_metadata = metadata_default, am_last_seen = 105\<rparr>)"
    using idle_counter_emits_zeros [OF pre(1,2) _ pre(3-6) _ f] unfolding vals aggregated_metric.simps bs
    by (auto simp: sat_add_def u64_max_def)
  moreover have "bs \<noteq> []" using \<open>set bs = {110, 120}\<close> by auto
  ultimately show ?thesis using f \<open>r = Inr ()\<close> by blast
qed

section \<open>Counters that are new\<close>

text \<open>Merging one value keeps the others, and adds the value when its bucket is new.\<close>

lemma merge_point_keeps:
  assumes "merge_point mrg x vs = Some (r, pushed)"
  shows "(\<forall>v \<in> set vs. tv_timestamp v \<noteq> tv_timestamp x \<longrightarrow> v \<in> set r) \<and>
    (tv_timestamp x \<notin> tv_timestamp ` set vs \<longrightarrow> x \<in> set r) \<and>
    tv_timestamp ` set r \<subseteq> insert (tv_timestamp x) (tv_timestamp ` set vs) \<and>
    (\<not> pushed \<longrightarrow> map tv_timestamp r = map tv_timestamp vs)"
  using assms
proof (induction vs arbitrary: r)
  case (Cons v vs)
  show ?case
  proof (cases "tv_timestamp v = tv_timestamp x")
    case True
    then show ?thesis using Cons.prems by (auto simp: bind_eq_Some_conv)
  next
    case False
    then obtain r' where "merge_point mrg x vs = Some (r', pushed)" "r = v # r'"
      using Cons.prems by (auto simp: bind_eq_Some_conv)
    then show ?thesis using Cons.IH [of r'] False by auto
  qed
qed auto

lemma merge_points_keeps:
  assumes "merge_points mrg [x] vs = Some r" "sorted (map tv_timestamp vs)"
  shows "(\<forall>v \<in> set vs. tv_timestamp v \<noteq> tv_timestamp x \<longrightarrow> v \<in> set r) \<and>
    (tv_timestamp x \<notin> tv_timestamp ` set vs \<longrightarrow> x \<in> set r) \<and>
    tv_timestamp ` set r \<subseteq> insert (tv_timestamp x) (tv_timestamp ` set vs) \<and> sorted (map tv_timestamp r)"
proof -
  obtain r' pushed where r': "merge_point mrg x vs = Some (r', pushed)" "r = (if pushed then sort_by_timestamp r' else r')"
    using assms(1) by (auto simp: merge_points_def bind_eq_Some_conv)
  then have "set r = set r'" "sorted (map tv_timestamp r)"
    using merge_point_keeps [OF r'(1)] assms(2) by (auto simp: sort_by_timestamp_def)
  then show ?thesis using merge_point_keeps [OF r'(1)] by simp
qed

lemma merge_zero_values_keeps:
  assumes "merge_zero_values mt c x bs (Counter ps) = Some v" "sorted_wrt (<) bs" "0 \<notin> set bs" "sorted (map tv_timestamp ps)"
  shows "\<exists>qs. v = Counter qs \<and> sorted (map tv_timestamp qs) \<and>
    (\<forall>p \<in> set ps. tv_timestamp p \<notin> Some ` set bs \<longrightarrow> p \<in> set qs) \<and>
    (\<forall>b \<in> set bs. b < x \<longrightarrow> Some b \<notin> tv_timestamp ` set ps \<longrightarrow> zero_point b \<in> set qs)"
  using assms
proof (induction bs arbitrary: ps)
  case (Cons b bs)
  show ?case
  proof (cases "b < x")
    case False
    then have "\<forall>b' \<in> set (b # bs). \<not> b' < x" using Cons.prems(2) by auto
    then show ?thesis using False Cons.prems(1,4) by auto
  next
    case True
    have z: "tv_from_at b f64_zero = zero_point b" using Cons.prems(3) by (simp add: tv_from_at_def zero_point_def non_zero_def)
    obtain ps1 where ps1: "merge_points merge_scalar_sum [zero_point b] ps = Some ps1"
        "merge_zero_values mt c x bs (Counter ps1) = Some v"
      using Cons.prems(1) True by (auto simp: z mv_merge_def bind_eq_Some_conv)
    have ts: "tv_timestamp (zero_point b) = Some b" by (simp add: zero_point_def)
    note m = merge_points_keeps [OF ps1(1) Cons.prems(4), unfolded ts]
    have later: "b \<notin> set bs" using Cons.prems(2) by auto
    obtain qs where qs: "v = Counter qs" "sorted (map tv_timestamp qs)"
        "\<forall>p \<in> set ps1. tv_timestamp p \<notin> Some ` set bs \<longrightarrow> p \<in> set qs"
        "\<forall>b \<in> set bs. b < x \<longrightarrow> Some b \<notin> tv_timestamp ` set ps1 \<longrightarrow> zero_point b \<in> set qs"
      using Cons.IH [OF ps1(2)] Cons.prems(2,3) m by auto
    have "p \<in> set qs" if "p \<in> set ps" "tv_timestamp p \<notin> Some ` set (b # bs)" for p using qs(3) m that by auto
    moreover have "zero_point b' \<in> set qs"
      if b': "b' \<in> set (b # bs)" "b' < x" "Some b' \<notin> tv_timestamp ` set ps" for b'
    proof (cases "b' = b")
      case True
      then have "zero_point b \<in> set ps1" using m b'(3) by blast
      then show ?thesis using qs(3) True ts later by auto
    next
      case False
      then have "Some b' \<notin> tv_timestamp ` set ps1" using m b'(3) by blast
      then show ?thesis using qs(4) b' False by auto
    qed
    ultimately show ?thesis using qs(1,2) by blast
  qed
qed auto

lemma flush_entry_zero:
  assumes e: "flush_entry hs mt c fp ctx am = Some (am', ms, remove)" and am: "am_values am = Counter ps"
    and zb: "sorted_wrt (<) (fp_zero_value_buckets fp)" "0 \<notin> set (fp_zero_value_buckets fp)" "sorted (map tv_timestamp ps)"
    and b: "b \<in> set (fp_zero_value_buckets fp)" "b < sat_add (am_last_seen am) (fp_counter_expire_secs fp)"
      "Some b \<notin> tv_timestamp ` set ps" "b \<le> fp_split_timestamp fp"
  shows "\<exists>qs. metric_from_parts ctx (Rate qs (from_secs (fp_bucket_width_secs fp))) (am_metadata am) \<in> set ms \<and> zero_point b \<in> set qs"
proof -
  obtain v where v: "merge_zero_values mt c (sat_add (am_last_seen am) (fp_counter_expire_secs fp)) (fp_zero_value_buckets fp)
      (Counter ps) = Some v" using e am by (auto simp: flush_entry_def is_counter_def bind_eq_Some_conv)
  obtain qs where qs: "v = Counter qs" "sorted (map tv_timestamp qs)" "zero_point b \<in> set qs"
    using merge_zero_values_keeps [OF v zb] b(1-3) by blast
  obtain cl rm where sp: "split_at_timestamp (fp_split_timestamp fp) qs = (cl, rm)" by fastforce
  from split_sorted [OF sp qs(2)] have "zero_point b \<notin> set rm" using b(4) by (auto simp: due_def zero_point_def)
  moreover have "mset qs = mset (case cl of None \<Rightarrow> [] | Some cs \<Rightarrow> cs) + mset rm" by (rule split_partition(1) [OF sp])
  then have "set qs = set (case cl of None \<Rightarrow> [] | Some cs \<Rightarrow> cs) \<union> set rm" by (metis set_mset_mset set_mset_union)
  ultimately obtain cs where cs: "cl = Some cs" "zero_point b \<in> set cs" using qs(3) by (cases cl) auto
  then have "ms = [metric_from_parts ctx (Rate cs (from_secs (fp_bucket_width_secs fp))) (am_metadata am)]"
    using e am v qs(1) sp by (simp add: flush_entry_def is_counter_def emitted_def counter_values_to_rate_def)
  then show ?thesis using cs(2) by auto
qed

lemma fold_merge_sum: "\<exists>v. fold_merge merge_scalar_sum x ys = Some v"
  by (induction ys arbitrary: x) (auto simp: merge_scalar_sum_def)

text \<open>
  C40. A counter is reported as zero for time before it existed, whether counters are kept alive or not. Take any state that
  has been flushed and has contexts, and a counter whose context it does not have, first seen at \<open>ts\<close>. Every bucket that
  starts no earlier than the one of the last flush and was over by \<open>ts\<close> gets a zero: the next flush emits the counter with it.
  (Only a state without contexts forgets its last flush, and the zeros are bounded by the expiry of the counter alone. When no
  bucket ended between the last flush and \<open>ts\<close> there is no such \<open>b\<close>.)
\<close>

theorem zeros_before_existence:
  fixes st :: aggregation_state
  defines "w \<equiv> as_bucket_width_secs st"
  assumes "agg_ok st" "as_contexts st \<noteq> []" "0 < w" "w \<le> as_last_flush st"
    "\<not> hm_contains (as_contexts st) (ctx_key (m_context m))" "length (as_contexts st) < as_context_limit st"
    "m_values m = Counter (p # ps)" "\<not> mv_any_timestamped (m_values m)" "ts \<le> now" "now + w \<le> u64_max"
    "w dvd b" "align_to_bucket_start (as_last_flush st) w \<le> b" "b + w \<le> ts"
  shows "\<exists>st1. as_insert mt c ts m st = Some (st1, True) \<and>
    (\<forall>st2 ms r. as_flush hs mt c record_push now False st1 [] = Some (st2, ms, r) \<longrightarrow>
       (\<exists>qs. metric_from_parts (m_context m) (Rate qs (from_secs w)) (m_metadata m) \<in> set ms \<and> zero_point b \<in> set qs))"
proof -
  let ?key = "ctx_key (m_context m)" and ?bt = "align_to_bucket_start ts w"
  have bt: "b + w \<le> ?bt" by (rule closed_bucket_due [OF assms(4,12,14)])
  have untimed: "\<forall>q \<in> set (p # ps). tv_timestamp q = None" using assms(8,9) mv_any_timestamped_points [of "m_values m"] by auto
  obtain v where "fold_merge merge_scalar_sum (tv_value p) (map tv_value ps) = Some v" using fold_merge_sum by blast
  then have vs: "mv_collapse_non_timestamped mt c ?bt (m_values m) = Some (Counter [\<lparr>tv_timestamp = Some ?bt, tv_value = v\<rparr>])"
    using collapse_untimed [OF untimed, of ?bt merge_scalar_sum] bt assms(4,8) by (simp add: non_zero_def)
  let ?am = "\<lparr>am_values = Counter [\<lparr>tv_timestamp = Some ?bt, tv_value = v\<rparr>], am_metadata = m_metadata m, am_last_seen = ts\<rparr>"
  let ?st = "st\<lparr>as_contexts := hm_insert ?key (m_context m, ?am) (as_contexts st)\<rparr>"
  have ins: "as_insert mt c ts m st = Some (?st, True)"
    using assms(3,6,7) vs unfolding as_insert_def Let_def metric_into_parts_def w_def
    by (simp add: hm_contains_iff split: option.splits)
  have ok: "agg_ok ?st" by (rule agg_ok_insert [OF assms(2) ins])
  have "(?key, m_context m, ?am) \<in> set (as_contexts ?st)" by (simp add: map_of_SomeD)
  note entry = this
  have "\<exists>qs. metric_from_parts (m_context m) (Rate qs (from_secs w)) (m_metadata m) \<in> set ms \<and> zero_point b \<in> set qs"
    if f: "as_flush hs mt c record_push now False ?st [] = Some (st2, ms, r)" for st2 ms r
  proof -
    obtain zb es keys where z: "zero_value_buckets now False ?st = Some zb"
        "flush_entries hs mt c (flush_params_for now False zb ?st) (as_contexts ?st) = Some (es, ms, keys)"
      using f by (rule as_flush_record)
    let ?fp = "flush_params_for now False zb ?st"
    have zb: "sorted_wrt (<) zb" "set zb = {b. w dvd b \<and> align_to_bucket_start (as_last_flush st) w \<le> b \<and> b + w \<le> now}"
      using zero_value_buckets_spec [OF z(1)] assms(4,5,11) by (simp_all add: w_def)
    have "w \<le> align_to_bucket_start (as_last_flush st) w" using closed_bucket_due [OF assms(4), of 0] assms(5) by simp
    then have zero: "0 \<notin> set zb" using assms(4) by (simp add: zb(2))
    have b: "b \<in> set zb" "b \<le> fp_split_timestamp ?fp" "b < sat_add ts (fp_counter_expire_secs ?fp)"
      using assms(4,10-14) closed_bucket_due [OF assms(4,12), of now] by (simp_all add: zb(2) w_def sat_add_def)
    have hm: "hm_ok (as_contexts ?st)" using ok by (simp add: agg_ok_def)
    obtain am' msi remove ms1 ms2 where e: "flush_entry hs mt c ?fp (m_context m) ?am = Some (am', msi, remove)" "ms = ms1 @ msi @ ms2"
      using flush_entries_each [OF z(2) entry hm] by blast
    have "Some b \<notin> tv_timestamp ` set [\<lparr>tv_timestamp = Some ?bt, tv_value = v\<rparr>]" using bt assms(4) by simp
    then show ?thesis using flush_entry_zero [OF e(1) _ _ _ _ _ _ _ b(2)] zb(1) zero b e(2) by (auto simp: w_def)
  qed
  then show ?thesis using ins by blast
qed

text \<open>
  With keep-alive disabled, a gauge is inserted at second 111, and its bucket is still open at the flush of second 112; a
  counter is first seen at second 121, and the flush of second 131 reports it for the bucket of second 110.
\<close>

theorem zeros_before_existence_witness:
  "\<exists>st1 st2 st3 st4 ms qs. as_counter_expire_secs fresh_state = None \<and>
     as_insert example_math small_config 111 gauge_metric fresh_state = Some (st1, True) \<and>
     as_flush name_hasher example_math small_config record_push 112 False st1 [] = Some (st2, [], Inr ()) \<and>
     as_insert example_math small_config 121 counter_metric st2 = Some (st3, True) \<and>
     as_flush name_hasher example_math small_config record_push 131 False st3 [] = Some (st4, ms, Inr ()) \<and>
     metric_from_parts ctx_b (Rate qs (from_secs 10)) metadata_default \<in> set ms \<and> zero_point 110 \<in> set qs"
proof -
  let ?am = "\<lparr>am_values = Gauge [\<lparr>tv_timestamp = Some 110, tv_value = f64_one\<rparr>], am_metadata = metadata_default, am_last_seen = 111\<rparr>"
  let ?bm = "\<lparr>am_values = Counter [\<lparr>tv_timestamp = Some 120, tv_value = f64_one\<rparr>], am_metadata = metadata_default, am_last_seen = 121\<rparr>"
  let ?st1 = "fresh_state\<lparr>as_contexts := [(1, ctx_a, ?am)]\<rparr>"
  let ?st2 = "?st1\<lparr>as_last_flush := 112\<rparr>" and ?st3 = "fresh_state\<lparr>as_contexts := [(1, ctx_a, ?am), (2, ctx_b, ?bm)], as_last_flush := 112\<rparr>"
  have s1: "as_insert example_math small_config 111 gauge_metric fresh_state = Some (?st1, True)"
    by (simp add: example_defs insert_defs)
  have s2: "as_flush name_hasher example_math small_config record_push 112 False ?st1 [] = Some (?st2, [], Inr ())"
    by (simp add: fresh_state_def aggregation_state_new_def flush_defs)
  have s3: "as_insert example_math small_config 121 counter_metric ?st2 = Some (?st3, True)"
    by (simp add: example_defs insert_defs)
  obtain st4 ms where s4: "as_flush name_hasher example_math small_config record_push 131 False ?st3 [] = Some (st4, ms, Inr ())"
  proof -
    have "\<exists>st4 ms. as_flush name_hasher example_math small_config record_push 131 False ?st3 [] = Some (st4, ms, Inr ())"
      by (simp add: fresh_state_def aggregation_state_new_def flush_defs zero_point_def mv_merge_def merge_points_def
          merge_scalar_sum_def tv_from_at_def non_zero_def)
    then show thesis using that by blast
  qed
  have s0: "as_counter_expire_secs fresh_state = None" by (simp add: fresh_state_def aggregation_state_new_def)
  have pre: "agg_ok ?st2" "as_contexts ?st2 \<noteq> []" "0 < as_bucket_width_secs ?st2" "as_bucket_width_secs ?st2 \<le> as_last_flush ?st2"
    "\<not> hm_contains (as_contexts ?st2) (ctx_key (m_context counter_metric))" "length (as_contexts ?st2) < as_context_limit ?st2"
    "m_values counter_metric = Counter (tv_from f64_one # [])" "\<not> mv_any_timestamped (m_values counter_metric)"
    "131 + as_bucket_width_secs ?st2 \<le> u64_max" "as_bucket_width_secs ?st2 dvd 110"
    "align_to_bucket_start (as_last_flush ?st2) (as_bucket_width_secs ?st2) \<le> 110" "110 + as_bucket_width_secs ?st2 \<le> 121"
    by (simp_all add: example_defs agg_ok_def hm_ok_def hm_contains_def align_to_bucket_start_def any_timestamped_def u64_max_def)
  have w: "as_bucket_width_secs ?st2 = 10" "m_context counter_metric = ctx_b" "m_metadata counter_metric = metadata_default"
    by (simp_all add: fresh_state_def aggregation_state_new_def counter_metric_def metric_from_parts_def)
  from zeros_before_existence [OF pre(1-8) _ pre(9-12), of example_math small_config name_hasher]
  obtain qs where "metric_from_parts ctx_b (Rate qs (from_secs 10)) metadata_default \<in> set ms" "zero_point 110 \<in> set qs"
    using s3 s4 unfolding w by auto
  then show ?thesis using s0 s1 s2 s3 s4 by blast
qed

section \<open>Contexts\<close>

text \<open>The contexts the operations build.\<close>

inductive context_built :: "hasher \<Rightarrow> metric_context \<Rightarrow> bool" for hs where
  from_parts: "context_built hs (context_from_parts hs name tags)"
| with_name: "context_built hs x \<Longrightarrow> context_built hs (context_with_name hs name x)"
| with_tags: "context_built hs x \<Longrightarrow> context_built hs (context_with_tags hs tags x)"
| with_origin_tags: "context_built hs x \<Longrightarrow> context_built hs (context_with_origin_tags hs tags x)"
| with_both: "context_built hs x \<Longrightarrow> context_built hs (context_with_tags_and_origin_tags hs tags tags' x)"
| with_host: "context_built hs x \<Longrightarrow> context_built hs (context_with_host hs host x)"
| mutated: "context_built hs x \<Longrightarrow> context_built hs (with_tag_sets_mut hs f x)"

lemma context_built_ok: "context_built hs x \<Longrightarrow> context_ok hs x"
  by (induction rule: context_built.induct) (rule context_ok_ops)+

text \<open>
  C34. Equal contexts compare as equal however they were built. Two contexts made by any chains of constructors,
  \<^verbatim>\<open>with_*\<close> operations and mutations of their tag sets have the same key, and so are the same entry of the
  aggregation state, when they have the same name, the same host, and the same sets of tags and of origin tags; neither
  the order of the tags nor repetitions matter.
\<close>

theorem contexts_equal_as_sets:
  assumes "context_built hs a" "context_built hs b" "ctx_name a = ctx_name b" "ctx_host a = ctx_host b"
    "set (ctx_tags a) = set (ctx_tags b)" "set (ctx_origin_tags a) = set (ctx_origin_tags b)"
  shows "context_eq a b"
  using context_built_ok [OF assms(1)] context_built_ok [OF assms(2)] calculate_key_sets [OF assms(5,6)] assms(3,4)
  by (simp add: context_ok_def context_eq_def)

theorem contexts_equal_as_sets_witness:
  "context_eq (context_with_tags name_hasher [''x'', ''y'', ''x''] (context_from_parts name_hasher ''a'' []))
     (with_tag_sets_mut name_hasher (\<lambda>t ot. (''y'' # t, ot)) (context_from_parts name_hasher ''a'' [''x'']))"
  by (rule contexts_equal_as_sets [of name_hasher])
     ((rule context_built.intros)+, auto simp: context_with_tags_def with_tag_sets_mut_def context_from_parts_def)

end
