(* ===== verification/Framing.thy ===== *)
theory Framing
  imports Rust_Prelude
begin

text \<open>
  Framing of byte streams: the I/O buffers (\<^verbatim>\<open>lib/saluki-io/src/buf\<close>), the framers
  (\<^verbatim>\<open>lib/saluki-io/src/deser/framing\<close>) and the framer of the DogStatsD source
  (\<^verbatim>\<open>lib/saluki-components/src/sources/dogstatsd/framer.rs\<close>) with its loop over the frames of a buffer.

  The trait \<^verbatim>\<open>ReadIoBuffer\<close> is a record of operations. Its contract for buffers that hold their bytes in one piece is
  the locale \<open>contiguous_buffer\<close>, interpreted on \<^verbatim>\<open>BytesBuffer\<close> and on slices; the contract of \<^verbatim>\<open>Framer\<close> is the locale
  \<open>framer\<close>, given by \<open>sublocale\<close> for both framers over any such buffer. The search for a byte, \<^verbatim>\<open>memchr\<close>, is a parameter.
\<close>

section \<open>Buffers\<close>

type_synonym byte = "8 word"

record 'b read_io_buffer =
  rb_remaining :: "'b \<Rightarrow> nat"
  rb_chunk :: "'b \<Rightarrow> byte list"
  rb_advance :: "nat \<Rightarrow> 'b \<Rightarrow> 'b option"
  rb_capacity :: "'b \<Rightarrow> nat"

text \<open>\<^verbatim>\<open>Buf::copy_to_bytes\<close> of a buffer in one piece: it panics when fewer bytes remain.\<close>

definition copy_to_bytes :: "'b read_io_buffer \<Rightarrow> nat \<Rightarrow> 'b \<Rightarrow> (byte list \<times> 'b) option" where
  "copy_to_bytes ops n b =
     (if n \<le> rb_remaining ops b
      then do { b' \<leftarrow> rb_advance ops n b; Some (take n (rb_chunk ops b), b') }
      else None)"

subsection \<open>Slices and \<^verbatim>\<open>Bytes\<close>\<close>

definition slice_ops :: "byte list read_io_buffer" where
  "slice_ops =
     \<lparr>rb_remaining = length, rb_chunk = (\<lambda>xs. xs), rb_advance = (\<lambda>n xs. if n \<le> length xs then Some (drop n xs) else None),
      rb_capacity = length\<rparr>"

subsection \<open>\<^verbatim>\<open>BytesBuffer\<close>\<close>

record bytes_buffer =
  bb_data :: "byte list"
  bb_read_idx :: nat
  bb_capacity :: nat

definition bb_with_capacity :: "nat \<Rightarrow> bytes_buffer" where
  "bb_with_capacity n = \<lparr>bb_data = [], bb_read_idx = 0, bb_capacity = n\<rparr>"

definition bb_remaining :: "bytes_buffer \<Rightarrow> nat" where
  "bb_remaining b = length (bb_data b) - bb_read_idx b"

definition bb_chunk :: "bytes_buffer \<Rightarrow> byte list" where
  "bb_chunk b = drop (bb_read_idx b) (bb_data b)"

definition bb_advance :: "nat \<Rightarrow> bytes_buffer \<Rightarrow> bytes_buffer option" where
  "bb_advance n b =
     (if bb_read_idx b + n \<le> length (bb_data b) then Some (b\<lparr>bb_read_idx := bb_read_idx b + n\<rparr>) else None)"

definition bb_remaining_mut :: "bytes_buffer \<Rightarrow> nat" where
  "bb_remaining_mut b = bb_capacity b - length (bb_data b)"

text \<open>\<^verbatim>\<open>BufMut::put_slice\<close> through \<^verbatim>\<open>chunk_mut\<close> and \<^verbatim>\<open>advance_mut\<close>: it panics when there is not enough room.\<close>

definition bb_put_slice :: "byte list \<Rightarrow> bytes_buffer \<Rightarrow> bytes_buffer option" where
  "bb_put_slice xs b = (if length xs \<le> bb_remaining_mut b then Some (b\<lparr>bb_data := bb_data b @ xs\<rparr>) else None)"

definition bb_clear :: "bytes_buffer \<Rightarrow> bytes_buffer" where
  "bb_clear b = b\<lparr>bb_data := [], bb_read_idx := 0\<rparr>"

definition bb_collapse :: "bytes_buffer \<Rightarrow> bytes_buffer" where
  "bb_collapse b =
     (let remaining = bb_remaining b
      in if remaining = 0 then b\<lparr>bb_read_idx := 0, bb_data := []\<rparr>
         else
           (let moved = drop (bb_read_idx b) (bb_data b);
                data = moved @ drop (length moved) (bb_data b)
            in b\<lparr>bb_data := take remaining data, bb_read_idx := 0\<rparr>))"

definition bytes_buffer_ops :: "bytes_buffer read_io_buffer" where
  "bytes_buffer_ops =
     \<lparr>rb_remaining = bb_remaining, rb_chunk = bb_chunk, rb_advance = bb_advance, rb_capacity = bb_capacity\<rparr>"

section \<open>Framers\<close>

datatype framing_error =
    InvalidFrame nat string
  | PartialFrame nat nat

type_synonym frame_result = "framing_error + byte list option"

subsection \<open>Length-delimited frames\<close>

definition u32_from_le_bytes :: "byte list \<Rightarrow> nat" where
  "u32_from_le_bytes bs = unat (bs ! 0) + 256 * (unat (bs ! 1) + 256 * (unat (bs ! 2) + 256 * unat (bs ! 3)))"

definition oversized_frame_err :: "nat \<Rightarrow> framing_error" where
  "oversized_frame_err frame_len = InvalidFrame frame_len ''frame length exceeds buffer capacity''"

definition length_delimited_next_frame ::
    "'b read_io_buffer \<Rightarrow> bool \<Rightarrow> unit \<Rightarrow> 'b \<Rightarrow> (unit \<times> 'b \<times> frame_result) option" where
  "length_delimited_next_frame ops is_eof u b =
     (let chunk = rb_chunk ops b
      in if chunk = [] then Some ((), b, Inr None)
         else if length chunk < 4
         then Some ((), b, if is_eof then Inl (PartialFrame 4 (length chunk)) else Inr None)
         else
           (let frame_len = u32_from_le_bytes (take 4 chunk);
                frame_len_with_length = sat_add frame_len 4
            in if frame_len_with_length > rb_capacity ops b then Some ((), b, Inl (oversized_frame_err frame_len))
               else if length chunk < frame_len_with_length
               then Some ((), b, if is_eof then Inl (PartialFrame frame_len_with_length (length chunk)) else Inr None)
               else do {
                 (frame, b') \<leftarrow> copy_to_bytes ops frame_len_with_length b;
                 Some ((), b', Inr (Some (drop 4 frame)))
               }))"

subsection \<open>Lines\<close>

record newline_framer =
  required_on_eof :: bool

definition newline :: byte where
  "newline = 10"

type_synonym memchr = "byte \<Rightarrow> byte list \<Rightarrow> nat option"

definition find_newline :: "memchr \<Rightarrow> byte list \<Rightarrow> nat option" where
  "find_newline memchr haystack = memchr newline haystack"

definition missing_delimiter_err :: "nat \<Rightarrow> framing_error" where
  "missing_delimiter_err len = InvalidFrame len ''reached EOF without finding newline delimiter''"

definition newline_next_frame ::
    "memchr \<Rightarrow> 'b read_io_buffer \<Rightarrow> bool \<Rightarrow> newline_framer \<Rightarrow> 'b \<Rightarrow> (newline_framer \<times> 'b \<times> frame_result) option" where
  "newline_next_frame memchr ops is_eof nf b =
     (let chunk = rb_chunk ops b
      in if chunk = [] then Some (nf, b, Inr None)
         else
           (case find_newline memchr chunk of
              Some idx \<Rightarrow> do {
                (frame, b1) \<leftarrow> copy_to_bytes ops idx b;
                b2 \<leftarrow> rb_advance ops 1 b1;
                Some (nf, b2, Inr (Some frame))
              }
            | None \<Rightarrow>
                (if \<not> is_eof then Some (nf, b, Inr None)
                 else if required_on_eof nf then Some (nf, b, Inl (missing_delimiter_err (length chunk)))
                 else do {
                   (frame, b') \<leftarrow> copy_to_bytes ops (length chunk) b;
                   Some (nf, b', Inr (Some frame))
                 })))"

subsection \<open>Nested frames\<close>

record ('i, 'o) nested_framer =
  nf_inner :: 'i
  nf_outer :: 'o
  nf_current_outer_frame :: "byte list option"
  nf_completed_outer_frames :: nat
  nf_retain_outer_frames :: bool
  nf_retained_outer_frames :: "byte list list"

definition nested_new :: "'i \<Rightarrow> 'o \<Rightarrow> ('i, 'o) nested_framer" where
  "nested_new inner outer =
     \<lparr>nf_inner = inner, nf_outer = outer, nf_current_outer_frame = None, nf_completed_outer_frames = 0,
      nf_retain_outer_frames = False, nf_retained_outer_frames = []\<rparr>"

definition take_completed_outer_frames :: "('i, 'o) nested_framer \<Rightarrow> nat \<times> ('i, 'o) nested_framer" where
  "take_completed_outer_frames nf = (nf_completed_outer_frames nf, nf\<lparr>nf_completed_outer_frames := 0\<rparr>)"

definition set_retain_outer_frames :: "bool \<Rightarrow> ('i, 'o) nested_framer \<Rightarrow> ('i, 'o) nested_framer" where
  "set_retain_outer_frames retain nf =
     (let nf1 = nf\<lparr>nf_retain_outer_frames := retain\<rparr>
      in if \<not> retain then nf1\<lparr>nf_retained_outer_frames := []\<rparr> else nf1)"

definition drain_outer_frames :: "('i, 'o) nested_framer \<Rightarrow> byte list list \<times> ('i, 'o) nested_framer" where
  "drain_outer_frames nf = (nf_retained_outer_frames nf, nf\<lparr>nf_retained_outer_frames := []\<rparr>)"

text \<open>The first half of the loop: the current outer frame, or the next one; the frame is also stored.\<close>

definition nested_outer_frame ::
    "('o \<Rightarrow> 'b \<Rightarrow> ('o \<times> 'b \<times> frame_result) option) \<Rightarrow> ('i, 'o) nested_framer \<Rightarrow> 'b \<Rightarrow>
     (('i, 'o) nested_framer \<times> 'b \<times> frame_result) option" where
  "nested_outer_frame outer nf b =
     (case nf_current_outer_frame nf of
        Some frame \<Rightarrow> Some (nf, b, Inr (Some frame))
      | None \<Rightarrow> do {
          (out, b', r) \<leftarrow> outer (nf_outer nf) b;
          let nf1 = nf\<lparr>nf_outer := out\<rparr>;
          Some
            (case r of
               Inr (Some frame) \<Rightarrow>
                 (nf1\<lparr>nf_retained_outer_frames :=
                        nf_retained_outer_frames nf1 @ (if nf_retain_outer_frames nf1 then [frame] else []),
                      nf_current_outer_frame := Some frame\<rparr>, b', r)
             | _ \<Rightarrow> (nf1, b', r))
        })"

text \<open>The second half: the result of the call, or \<^const>\<open>None\<close> to go on with the next outer frame.\<close>

definition nested_inner_frame ::
    "('i \<Rightarrow> byte list \<Rightarrow> ('i \<times> byte list \<times> frame_result) option) \<Rightarrow> nat \<Rightarrow> byte list \<Rightarrow> ('i, 'o) nested_framer \<Rightarrow>
     (('i, 'o) nested_framer \<times> frame_result option) option" where
  "nested_inner_frame inner buf_remaining frame nf = do {
     (inn, frame', r) \<leftarrow> inner (nf_inner nf) frame;
     let nf1 = nf\<lparr>nf_inner := inn, nf_current_outer_frame := Some frame'\<rparr>;
     case r of
       Inl e \<Rightarrow> Some (nf1, Some (Inl e))
     | Inr res \<Rightarrow>
         (if frame' = []
          then do {
            completed \<leftarrow> u64_add (nf_completed_outer_frames nf1) 1;
            let nf2 = nf1\<lparr>nf_current_outer_frame := None, nf_completed_outer_frames := completed\<rparr>;
            Some (nf2, if res = None \<and> buf_remaining \<noteq> 0 then None else Some (Inr res))
          }
          else Some (nf1, Some (Inr res)))
   }"

partial_function (option) nested_next_frame ::
    "('o \<Rightarrow> 'b \<Rightarrow> ('o \<times> 'b \<times> frame_result) option) \<Rightarrow> ('i \<Rightarrow> byte list \<Rightarrow> ('i \<times> byte list \<times> frame_result) option) \<Rightarrow>
     ('b \<Rightarrow> nat) \<Rightarrow> ('i, 'o) nested_framer \<Rightarrow> 'b \<Rightarrow> (('i, 'o) nested_framer \<times> 'b \<times> frame_result) option" where
  "nested_next_frame outer inner buf_remaining nf b = do {
     (nf1, b1, r) \<leftarrow> nested_outer_frame outer nf b;
     case r of
       Inl e \<Rightarrow> Some (nf1, b1, Inl e)
     | Inr None \<Rightarrow> Some (nf1, b1, Inr None)
     | Inr (Some frame) \<Rightarrow> do {
         (nf2, res) \<leftarrow> nested_inner_frame inner (buf_remaining b1) frame nf1;
         case res of
           Some r' \<Rightarrow> Some (nf2, b1, r')
         | None \<Rightarrow> nested_next_frame outer inner buf_remaining nf2 b1
       }
   }"

section \<open>The framer of the DogStatsD source\<close>

datatype listen_address = Tcp string | Udp string | Unixgram string | Unix string | NamedPipe string string "nat option"

datatype dsd_framer =
    NonStream newline_framer
  | Stream "(newline_framer, unit) nested_framer"

definition get_framer :: "listen_address \<Rightarrow> bool \<Rightarrow> dsd_framer" where
  "get_framer listen_address eol_required =
     (let newline_framer = \<lparr>required_on_eof = eol_required\<rparr>
      in case listen_address of
           Tcp _ \<Rightarrow> Stream (nested_new newline_framer ())
         | Udp _ \<Rightarrow> NonStream newline_framer
         | Unixgram _ \<Rightarrow> NonStream newline_framer
         | Unix _ \<Rightarrow> Stream (nested_new newline_framer ())
         | NamedPipe _ _ _ \<Rightarrow> NonStream newline_framer)"

fun dsd_next_frame ::
    "memchr \<Rightarrow> bool \<Rightarrow> dsd_framer \<Rightarrow> bytes_buffer \<Rightarrow> (dsd_framer \<times> bytes_buffer \<times> frame_result) option" where
  "dsd_next_frame memchr is_eof (NonStream nf) b = do {
     (nf', b', r) \<leftarrow> newline_next_frame memchr bytes_buffer_ops is_eof nf b;
     Some (NonStream nf', b', r)
   }"
| "dsd_next_frame memchr is_eof (Stream nf) b = do {
     (nf', b', r) \<leftarrow>
       nested_next_frame (length_delimited_next_frame bytes_buffer_ops is_eof) (newline_next_frame memchr slice_ops True)
         bb_remaining nf b;
     Some (Stream nf', b', r)
   }"

section \<open>Decoding what was read\<close>

text \<open>
  After each frame the counter of completed outer frames is taken, and the outer frames that were kept for the traffic capture
  are drained; only telemetry and the capture use them.
\<close>

fun take_outer_frames :: "dsd_framer \<Rightarrow> dsd_framer" where
  "take_outer_frames (NonStream nf) = NonStream nf"
| "take_outer_frames (Stream nf) = Stream (snd (take_completed_outer_frames (snd (drain_outer_frames nf))))"

definition decode_step ::
    "memchr \<Rightarrow> bool \<Rightarrow> dsd_framer \<Rightarrow> bytes_buffer \<Rightarrow> (dsd_framer \<times> bytes_buffer \<times> frame_result) option" where
  "decode_step memchr eof f b = do {
     (f', b', r) \<leftarrow> dsd_next_frame memchr eof f b;
     Some (take_outer_frames f', b', r)
   }"

text \<open>
  The loop of \<^verbatim>\<open>decode_buffer_contents\<close>: frames until there is none or an error; what is done with a frame is left to
  the caller, who gets them in order.
\<close>

partial_function (option) decode_frames ::
    "('f \<Rightarrow> 'b \<Rightarrow> ('f \<times> 'b \<times> frame_result) option) \<Rightarrow> 'f \<Rightarrow> 'b \<Rightarrow>
     ('f \<times> 'b \<times> byte list list \<times> framing_error option) option" where
  "decode_frames next_frame f b = do {
     (f1, b1, r) \<leftarrow> next_frame f b;
     case r of
       Inl e \<Rightarrow> Some (f1, b1, [], Some e)
     | Inr None \<Rightarrow> Some (f1, b1, [], None)
     | Inr (Some frame) \<Rightarrow> do {
         (f2, b2, frames, e) \<leftarrow> decode_frames next_frame f1 b1;
         Some (f2, b2, frame # frames, e)
       }
   }"

datatype decode_mode = Connectionless | Connected

definition should_drop_oversized_named_pipe_frame :: "memchr \<Rightarrow> listen_address \<Rightarrow> bytes_buffer \<Rightarrow> bool" where
  "should_drop_oversized_named_pipe_frame memchr listen_addr b \<longleftrightarrow>
     (case listen_addr of NamedPipe _ _ _ \<Rightarrow> True | _ \<Rightarrow> False) \<and> bb_remaining_mut b = 0 \<and> memchr newline (bb_chunk b) = None"

text \<open>
  One read: an empty one is the end of a connection, and a datagram is always complete. The result has the frames, the error
  that ended the loop, and whether the outcome is \<^verbatim>\<open>DecodeOutcome::Stop\<close>.
\<close>

definition decode_buffer_contents ::
    "memchr \<Rightarrow> decode_mode \<Rightarrow> listen_address \<Rightarrow> nat \<Rightarrow> dsd_framer \<Rightarrow> bytes_buffer \<Rightarrow>
     (dsd_framer \<times> bytes_buffer \<times> byte list list \<times> framing_error option \<times> bool) option" where
  "decode_buffer_contents memchr mode listen_addr bytes_read f b =
     (let eof = (case mode of Connectionless \<Rightarrow> True | Connected \<Rightarrow> bytes_read = 0)
      in if should_drop_oversized_named_pipe_frame memchr listen_addr b then Some (f, bb_clear b, [], None, False)
         else do {
           (f', b', frames, e) \<leftarrow> decode_frames (decode_step memchr eof) f b;
           Some (f', b', frames, e, mode = Connected \<and> (if e = None then eof else True))
         })"

text \<open>
  A connected stream (\<^verbatim>\<open>receive_connected_stream\<close>) and the decoder that answers it: before each read the buffer is
  collapsed, the bytes read are appended, and what the buffer holds is decoded, until the decoder stops. A buffer without
  bytes goes back to the pool, and an empty one of the same capacity takes its place.
\<close>

fun read_stream ::
    "memchr \<Rightarrow> listen_address \<Rightarrow> byte list list \<Rightarrow> dsd_framer \<Rightarrow> bytes_buffer \<Rightarrow>
     (dsd_framer \<times> bytes_buffer \<times> byte list list \<times> framing_error option \<times> bool) option" where
  "read_stream memchr listen_addr [] f b = Some (f, b, [], None, False)"
| "read_stream memchr listen_addr (piece # pieces) f b = do {
     b1 \<leftarrow> bb_put_slice piece (bb_collapse b);
     (f1, b2, frames, e, stop) \<leftarrow> decode_buffer_contents memchr Connected listen_addr (length piece) f b1;
     if stop then Some (f1, b2, frames, e, True)
     else do {
       (f2, b3, frames', e', stop') \<leftarrow> read_stream memchr listen_addr pieces f1 b2;
       Some (f2, b3, frames @ frames', e', stop')
     }
   }"

section \<open>The contracts\<close>

text \<open>What \<^verbatim>\<open>memchr\<close> documents: the index of the first occurrence.\<close>

fun first_index :: memchr where
  "first_index x [] = None"
| "first_index x (y # ys) = (if x = y then Some 0 else map_option Suc (first_index x ys))"

definition memchr_ok :: "memchr \<Rightarrow> bool" where
  "memchr_ok memchr \<longleftrightarrow> (\<forall>x xs. memchr x xs = first_index x xs)"

lemma first_index_Some:
  "first_index x xs = Some i \<Longrightarrow> i < length xs \<and> xs ! i = x \<and> x \<notin> set (take i xs)"
  by (induction xs arbitrary: i) (auto split: if_splits)

lemma first_index_None: "first_index x xs = None \<longleftrightarrow> x \<notin> set xs"
  by (induction xs) auto

text \<open>A buffer that holds its bytes in one piece, with an invariant.\<close>

locale contiguous_buffer =
  fixes ops :: "'b read_io_buffer" and ok :: "'b \<Rightarrow> bool"
  assumes remaining_chunk: "ok b \<Longrightarrow> rb_remaining ops b = length (rb_chunk ops b)"
    and advance_chunk: "ok b \<Longrightarrow> n \<le> length (rb_chunk ops b) \<Longrightarrow>
      \<exists>b'. rb_advance ops n b = Some b' \<and> ok b' \<and> rb_chunk ops b' = drop n (rb_chunk ops b)"
    and chunk_capacity: "ok b \<Longrightarrow> length (rb_chunk ops b) \<le> rb_capacity ops b"
begin

lemma copied:
  "ok b \<Longrightarrow> n \<le> length (rb_chunk ops b) \<Longrightarrow>
   \<exists>b'. copy_to_bytes ops n b = Some (take n (rb_chunk ops b), b') \<and> ok b' \<and> rb_chunk ops b' = drop n (rb_chunk ops b)"
  using advance_chunk [of b n] by (auto simp: copy_to_bytes_def remaining_chunk)

end

text \<open>A framer whose calls return and which gives frames only out of bytes it consumes.\<close>

locale framer =
  fixes next_frame :: "'f \<Rightarrow> 'b \<Rightarrow> ('f \<times> 'b \<times> frame_result) option" and good :: "'f \<Rightarrow> 'b \<Rightarrow> bool" and size :: "'f \<Rightarrow> 'b \<Rightarrow> nat"
  assumes next_frame_returns: "good f b \<Longrightarrow> \<exists>f' b' r. next_frame f b = Some (f', b', r) \<and> good f' b' \<and>
      (\<forall>frame. r = Inr (Some frame) \<longrightarrow> size f' b' < size f b)"
begin

lemma decode_frames_returns:
  "good f b \<Longrightarrow> \<exists>f' b' frames e. decode_frames next_frame f b = Some (f', b', frames, e) \<and> good f' b'"
proof (induction "size f b" arbitrary: f b rule: less_induct)
  case less
  obtain f1 b1 r where n: "next_frame f b = Some (f1, b1, r)" "good f1 b1" "\<And>frame. r = Inr (Some frame) \<Longrightarrow> size f1 b1 < size f b"
    using next_frame_returns [OF less.prems] by blast
  show ?case
  proof (cases "\<exists>frame. r = Inr (Some frame)")
    case True
    then show ?thesis using less.hyps [of f1 b1] n by (subst decode_frames.simps) fastforce
  next
    case False
    then show ?thesis using n by (subst decode_frames.simps) (auto split: sum.splits option.splits)
  qed
qed

lemma decode_frames_wrapped:
  assumes wrapped: "\<And>f b. wrapped_next (wrap f) b = map_option (\<lambda>(f', b', r). (wrap f', b', r)) (next_frame f b)"
  shows "good f b \<Longrightarrow>
    decode_frames wrapped_next (wrap f) b = map_option (\<lambda>(f', b', fs, e). (wrap f', b', fs, e)) (decode_frames next_frame f b)"
proof (induction "size f b" arbitrary: f b rule: less_induct)
  case less
  obtain f1 b1 r where n: "next_frame f b = Some (f1, b1, r)" "good f1 b1" "\<And>frame. r = Inr (Some frame) \<Longrightarrow> size f1 b1 < size f b"
    using next_frame_returns [OF less.prems] by blast
  show ?case
  proof (cases "\<exists>frame. r = Inr (Some frame)")
    case True
    then obtain frame where r: "r = Inr (Some frame)" by blast
    show ?thesis
      unfolding decode_frames.simps [of wrapped_next "wrap f" b] decode_frames.simps [of next_frame f b]
      using less.hyps [OF n(3) [OF r] n(2)] n(1) r
      by (cases "decode_frames next_frame f1 b1") (auto simp: wrapped)
  next
    case False
    then show ?thesis
      unfolding decode_frames.simps [of wrapped_next "wrap f" b] decode_frames.simps [of next_frame f b]
      using n by (auto simp: wrapped split: sum.splits option.splits)
  qed
qed

end

locale consuming_framer = contiguous_buffer ops ok for ops :: "'b read_io_buffer" and ok +
  fixes next_frame :: "'f \<Rightarrow> 'b \<Rightarrow> ('f \<times> 'b \<times> frame_result) option"
  assumes next_frame_consumes: "ok b \<Longrightarrow> \<exists>f' b' r. next_frame f b = Some (f', b', r) \<and> ok b' \<and>
      (case r of
         Inr (Some frame) \<Rightarrow>
           length (rb_chunk ops b') < length (rb_chunk ops b) \<and> length frame + length (rb_chunk ops b') \<le> length (rb_chunk ops b)
       | _ \<Rightarrow> b' = b)"

sublocale consuming_framer \<subseteq> plain: framer next_frame "\<lambda>_. ok" "\<lambda>_ b. length (rb_chunk ops b)"
proof
  fix f b
  assume "ok b"
  then show "\<exists>f' b' r. next_frame f b = Some (f', b', r) \<and> ok b' \<and>
      (\<forall>frame. r = Inr (Some frame) \<longrightarrow> length (rb_chunk ops b') < length (rb_chunk ops b))"
    using next_frame_consumes [of b f] by fastforce
qed

context contiguous_buffer
begin

lemma length_delimited_consumes:
  assumes "ok b"
  shows "\<exists>f' b' r. length_delimited_next_frame ops eof u b = Some (f', b', r) \<and> ok b' \<and>
    (case r of
       Inr (Some frame) \<Rightarrow>
         length (rb_chunk ops b') < length (rb_chunk ops b) \<and> length frame + length (rb_chunk ops b') \<le> length (rb_chunk ops b)
     | _ \<Rightarrow> b' = b)"
proof -
  let ?len = "sat_add (u32_from_le_bytes (take 4 (rb_chunk ops b))) 4"
  have "0 < ?len" by (simp add: sat_add_def u64_max_def)
  then show ?thesis
    using assms copied [OF assms, of ?len] unfolding length_delimited_next_frame_def Let_def
    by (cases "?len \<le> length (rb_chunk ops b)") auto
qed

lemma newline_consumes:
  assumes "ok b"
  shows "\<exists>f' b' r. newline_next_frame first_index ops eof nf b = Some (f', b', r) \<and> ok b' \<and>
    (case r of
       Inr (Some frame) \<Rightarrow>
         length (rb_chunk ops b') < length (rb_chunk ops b) \<and> length frame + length (rb_chunk ops b') \<le> length (rb_chunk ops b)
     | _ \<Rightarrow> b' = b)"
proof (cases "first_index newline (rb_chunk ops b)")
  case None
  then show ?thesis
    using assms copied [OF assms, of "length (rb_chunk ops b)"]
    by (auto simp: newline_next_frame_def find_newline_def Let_def)
next
  case (Some i)
  then have i: "i < length (rb_chunk ops b)" by (simp add: first_index_Some)
  obtain b1 where b1: "copy_to_bytes ops i b = Some (take i (rb_chunk ops b), b1)" "ok b1" "rb_chunk ops b1 = drop i (rb_chunk ops b)"
    using copied [OF assms, of i] i by auto
  have "1 \<le> length (rb_chunk ops b1)" using i b1(3) by simp
  then obtain b2 where "rb_advance ops 1 b1 = Some b2" "ok b2" "rb_chunk ops b2 = drop (Suc i) (rb_chunk ops b)"
    using advance_chunk [OF b1(2), of 1] b1(3) by auto
  then show ?thesis using b1 i Some by (auto simp: newline_next_frame_def find_newline_def Let_def)
qed

end

sublocale contiguous_buffer \<subseteq> length_delimited: consuming_framer ops ok "length_delimited_next_frame ops eof" for eof
  by unfold_locales (rule length_delimited_consumes)

sublocale contiguous_buffer \<subseteq> lines: consuming_framer ops ok "newline_next_frame first_index ops eof" for eof
  by unfold_locales (rule newline_consumes)

interpretation slice: contiguous_buffer slice_ops "\<lambda>_. True"
  by unfold_locales (auto simp: slice_ops_def)

definition bb_ok :: "bytes_buffer \<Rightarrow> bool" where
  "bb_ok b \<longleftrightarrow> bb_read_idx b \<le> length (bb_data b) \<and> length (bb_data b) \<le> bb_capacity b"

interpretation bb: contiguous_buffer bytes_buffer_ops bb_ok
  by unfold_locales (auto simp: bytes_buffer_ops_def bb_ok_def bb_remaining_def bb_chunk_def bb_advance_def add.commute)

subsection \<open>Nested frames\<close>

text \<open>The state of a nested framer: its current outer frame weighs as much as its bytes.\<close>

definition nested_good :: "'b read_io_buffer \<Rightarrow> ('b \<Rightarrow> bool) \<Rightarrow> ('i, 'o) nested_framer \<Rightarrow> 'b \<Rightarrow> bool" where
  "nested_good ops ok nf b \<longleftrightarrow> ok b \<and>
     nf_completed_outer_frames nf + length (rb_chunk ops b) + (if nf_current_outer_frame nf = None then 0 else 1) \<le> u64_max"

definition nested_size :: "'b read_io_buffer \<Rightarrow> ('i, 'o) nested_framer \<Rightarrow> 'b \<Rightarrow> nat" where
  "nested_size ops nf b =
     length (rb_chunk ops b) + (case nf_current_outer_frame nf of None \<Rightarrow> 0 | Some frame \<Rightarrow> length frame)"

locale nested_framers = outer: consuming_framer ops ok outer + inner: consuming_framer slice_ops "\<lambda>_. True" inner
  for ops :: "'b read_io_buffer" and ok and outer :: "'o \<Rightarrow> 'b \<Rightarrow> ('o \<times> 'b \<times> frame_result) option"
    and inner :: "'i \<Rightarrow> byte list \<Rightarrow> ('i \<times> byte list \<times> frame_result) option"
begin

lemma outer_step:
  assumes "nested_good ops ok nf b"
  shows "\<exists>nf' b' r. nested_outer_frame outer nf b = Some (nf', b', r) \<and> nested_good ops ok nf' b' \<and>
    (\<forall>frame. r = Inr (Some frame) \<longrightarrow> nf_current_outer_frame nf' = Some frame \<and> nested_size ops nf' b' \<le> nested_size ops nf b \<and>
       (nf_current_outer_frame nf = None \<longrightarrow> length (rb_chunk ops b') < length (rb_chunk ops b)) \<and>
       (nf_current_outer_frame nf \<noteq> None \<longrightarrow> b' = b))"
proof (cases "nf_current_outer_frame nf")
  case None
  obtain out b' r where o: "outer (nf_outer nf) b = Some (out, b', r)" "ok b'"
      "case r of
         Inr (Some frame) \<Rightarrow>
           length (rb_chunk ops b') < length (rb_chunk ops b) \<and> length frame + length (rb_chunk ops b') \<le> length (rb_chunk ops b)
       | _ \<Rightarrow> b' = b"
    using outer.next_frame_consumes [where b = b and f = "nf_outer nf"] assms by (auto simp: nested_good_def)
  show ?thesis
  proof (cases "\<exists>frame. r = Inr (Some frame)")
    case True
    then obtain frame where "r = Inr (Some frame)" by blast
    then show ?thesis using None assms o by (simp add: nested_outer_frame_def nested_good_def nested_size_def)
  next
    case False
    then have "b' = b" using o(3) by (auto split: sum.splits option.splits)
    moreover have "nested_outer_frame outer nf b = Some (nf\<lparr>nf_outer := out\<rparr>, b', r)"
      using None o(1) False by (auto simp: nested_outer_frame_def Let_def split: sum.splits option.splits)
    ultimately show ?thesis using None assms False by (simp add: nested_good_def)
  qed
qed (use assms in \<open>auto simp: nested_outer_frame_def\<close>)

lemma inner_step:
  assumes "nested_good ops ok nf b" "nf_current_outer_frame nf = Some frame"
  shows "\<exists>nf' res. nested_inner_frame inner n frame nf = Some (nf', res) \<and> nested_good ops ok nf' b \<and>
    nested_size ops nf' b \<le> nested_size ops nf b \<and> (res = None \<longrightarrow> nf_current_outer_frame nf' = None \<and> n \<noteq> 0) \<and>
    (\<forall>f. res = Some (Inr (Some f)) \<longrightarrow> nested_size ops nf' b < nested_size ops nf b)"
proof -
  obtain inn frame' r where i: "inner (nf_inner nf) frame = Some (inn, frame', r)"
      "case r of Inr (Some fr) \<Rightarrow> length frame' < length frame | _ \<Rightarrow> frame' = frame"
    using inner.next_frame_consumes [where b = frame and f = "nf_inner nf"] by (fastforce simp: slice_ops_def split: sum.splits option.splits)
  then show ?thesis using assms
    by (auto simp: nested_inner_frame_def nested_good_def nested_size_def u64_add_def Let_def split: sum.splits option.splits)
qed

lemma nested_returns:
  "nested_good ops ok nf b \<Longrightarrow>
   \<exists>nf' b' r. nested_next_frame outer inner (rb_remaining ops) nf b = Some (nf', b', r) \<and> nested_good ops ok nf' b' \<and>
     (\<forall>frame. r = Inr (Some frame) \<longrightarrow> nested_size ops nf' b' < nested_size ops nf b)"
proof (induction "2 * length (rb_chunk ops b) + (if nf_current_outer_frame nf = None then 0 else 1)" arbitrary: nf b rule: less_induct)
  case less
  obtain nf1 b1 r where o: "nested_outer_frame outer nf b = Some (nf1, b1, r)" "nested_good ops ok nf1 b1"
      "\<And>frame. r = Inr (Some frame) \<Longrightarrow> nf_current_outer_frame nf1 = Some frame \<and> nested_size ops nf1 b1 \<le> nested_size ops nf b \<and>
        (nf_current_outer_frame nf = None \<longrightarrow> length (rb_chunk ops b1) < length (rb_chunk ops b)) \<and>
        (nf_current_outer_frame nf \<noteq> None \<longrightarrow> b1 = b)"
    using outer_step [OF less.prems] by blast
  show ?case
  proof (cases "\<exists>frame. r = Inr (Some frame)")
    case True
    then obtain frame where r: "r = Inr (Some frame)" by blast
    obtain nf2 res where i: "nested_inner_frame inner (rb_remaining ops b1) frame nf1 = Some (nf2, res)" "nested_good ops ok nf2 b1"
        "nested_size ops nf2 b1 \<le> nested_size ops nf1 b1" "res = None \<Longrightarrow> nf_current_outer_frame nf2 = None"
        "\<And>f. res = Some (Inr (Some f)) \<Longrightarrow> nested_size ops nf2 b1 < nested_size ops nf1 b1"
      using inner_step [OF o(2), of frame] o(3) [OF r] by blast
    show ?thesis
    proof (cases res)
      case None
      have "2 * length (rb_chunk ops b1) + (if nf_current_outer_frame nf2 = None then 0 else 1)
          < 2 * length (rb_chunk ops b) + (if nf_current_outer_frame nf = None then 0 else 1)"
        using o(3) [OF r] i(4) [OF None] by auto
      from less.hyps [OF this i(2)] show ?thesis
        using o(1) r i(1,3) o(3) [OF r] None by (subst nested_next_frame.simps) fastforce
    next
      case (Some r')
      then show ?thesis using o r i o(3) [OF r] by (subst nested_next_frame.simps) (auto dest: less_le_trans)
    qed
  next
    case False
    then show ?thesis using o by (subst nested_next_frame.simps) (auto split: sum.splits option.splits)
  qed
qed

end

sublocale nested_framers \<subseteq> nested: framer "nested_next_frame outer inner (rb_remaining ops)" "nested_good ops ok" "nested_size ops"
  by unfold_locales (rule nested_returns)

interpretation dsd: nested_framers bytes_buffer_ops bb_ok "length_delimited_next_frame bytes_buffer_ops eof"
    "newline_next_frame first_index slice_ops True" for eof
  by unfold_locales

end
