(* ===== verification/Framing_Streams.thy ===== *)
theory Framing_Streams
  imports Framing
begin

text \<open>
  What the framers compute: the lines of a byte string, the length-delimited packets of a byte string, and the nested
  framer as lines of packets. The specifications work on whole byte strings; the lemmas relate them to the loop over
  the frames of a buffer and to reading a stream piece by piece.
\<close>

section \<open>Lines\<close>

definition first_line :: "byte list \<Rightarrow> byte list" where
  "first_line p = takeWhile (\<lambda>x. x \<noteq> newline) p"

definition after_line :: "byte list \<Rightarrow> byte list" where
  "after_line p = drop 1 (dropWhile (\<lambda>x. x \<noteq> newline) p)"

lemma length_after_line: "p \<noteq> [] \<Longrightarrow> length (after_line p) < length p"
  using length_dropWhile_le [of "\<lambda>x. x \<noteq> newline" p] by (cases p) (auto simp: after_line_def)

text \<open>The lines of a packet: the last one may lack its newline, and an empty remainder is not a line.\<close>

function packet_lines :: "byte list \<Rightarrow> byte list list" where
  "packet_lines p = (if p = [] then [] else first_line p # packet_lines (after_line p))"
  by pat_completeness auto
termination by (relation "measure length") (simp_all add: length_after_line)

declare packet_lines.simps [simp del]

lemma packet_lines_Nil [simp]: "packet_lines [] = []"
  by (simp add: packet_lines.simps)

lemma packet_lines_step: "p \<noteq> [] \<Longrightarrow> packet_lines p = first_line p # packet_lines (after_line p)"
  by (simp add: packet_lines.simps)

lemma packet_lines_line: "newline \<notin> set l \<Longrightarrow> packet_lines (l @ newline # p) = l # packet_lines p"
proof -
  assume "newline \<notin> set l"
  then have "first_line (l @ newline # p) = l" "after_line (l @ newline # p) = p"
    by (auto simp: first_line_def after_line_def takeWhile_append1 dropWhile_append1 simp: takeWhile_append dropWhile_append)
  then show ?thesis by (simp add: packet_lines_step)
qed

lemma first_index_lines:
  "first_index newline p = Some i \<Longrightarrow> take i p = first_line p \<and> drop (Suc i) p = after_line p"
proof -
  assume "first_index newline p = Some i"
  then have i: "i < length p" "p ! i = newline" "newline \<notin> set (take i p)" by (simp_all add: first_index_Some)
  have "p = take i p @ newline # drop (Suc i) p" using i(1,2) by (metis id_take_nth_drop)
  moreover have "first_line (take i p @ newline # drop (Suc i) p) = take i p"
      "after_line (take i p @ newline # drop (Suc i) p) = drop (Suc i) p"
    using i(3) by (auto simp: first_line_def after_line_def takeWhile_append dropWhile_append)
  ultimately show ?thesis by metis
qed

lemma slice_line:
  assumes "p \<noteq> []" "\<not> required_on_eof nf"
  shows "newline_next_frame first_index slice_ops True nf p = Some (nf, after_line p, Inr (Some (first_line p)))"
proof (cases "first_index newline p")
  case None
  then have "takeWhile (\<lambda>x. x \<noteq> newline) p = p" "dropWhile (\<lambda>x. x \<noteq> newline) p = []"
    by (auto simp: first_index_None takeWhile_eq_all_conv)
  then have "first_line p = p" "after_line p = []" unfolding first_line_def after_line_def by (simp_all only: drop_Nil)
  then show ?thesis
    using None assms by (simp add: newline_next_frame_def find_newline_def copy_to_bytes_def slice_ops_def)
next
  case (Some i)
  then have "i < length p" by (simp add: first_index_Some)
  then show ?thesis
    using Some assms first_index_lines [OF Some]
    by (simp add: newline_next_frame_def find_newline_def copy_to_bytes_def slice_ops_def Let_def)
qed

lemma slice_no_line: "newline_next_frame first_index slice_ops True nf [] = Some (nf, [], Inr None)"
  by (simp add: newline_next_frame_def slice_ops_def)

section \<open>Length-delimited packets\<close>

definition packet_length :: "byte list \<Rightarrow> nat" where
  "packet_length xs = u32_from_le_bytes (take 4 xs) + 4"

text \<open>The complete packets of a byte string, what remains, and an error when a packet exceeds the capacity.\<close>

function packets :: "nat \<Rightarrow> byte list \<Rightarrow> byte list list \<times> byte list \<times> framing_error option" where
  "packets cap xs =
     (if length xs < 4 then ([], xs, None)
      else if packet_length xs > cap then ([], xs, Some (oversized_frame_err (packet_length xs - 4)))
      else if length xs < packet_length xs then ([], xs, None)
      else
        (case packets cap (drop (packet_length xs) xs) of
           (ps, rest, e) \<Rightarrow> (drop 4 (take (packet_length xs) xs) # ps, rest, e)))"
  by pat_completeness auto
termination by (relation "measure (length \<circ> snd)") (simp_all add: packet_length_def)

declare packets.simps [simp del]

lemma u32_from_le_bytes_less: "u32_from_le_bytes bs < 2 ^ 32"
proof -
  have "unat (b :: byte) < 256" for b using unsigned_less [of b, where ?'a = nat] by simp
  then have "unat (bs ! 0) < 256" "unat (bs ! 1) < 256" "unat (bs ! 2) < 256" "unat (bs ! 3) < 256" by blast+
  then show ?thesis by (simp add: u32_from_le_bytes_def)
qed

lemma packet_length_sat: "sat_add (u32_from_le_bytes (take 4 xs)) 4 = packet_length xs"
  using u32_from_le_bytes_less [of "take 4 xs"] by (simp add: sat_add_def packet_length_def u64_max_def)

text \<open>More bytes only add packets.\<close>

lemma packets_append:
  "packets cap xs = (ps, rest, e) \<Longrightarrow>
   packets cap (xs @ ys) =
     (case e of
        Some err \<Rightarrow> (ps, rest @ ys, e)
      | None \<Rightarrow> (case packets cap (rest @ ys) of (ps', rest', e') \<Rightarrow> (ps @ ps', rest', e')))"
proof (induction cap xs arbitrary: ps rest e rule: packets.induct)
  case (1 cap xs)
  show ?case
  proof (cases "length xs < 4 \<or> length xs < packet_length xs \<or> packet_length xs > cap")
    case True
    show ?thesis
    proof (cases "4 \<le> length xs \<and> packet_length xs > cap")
      case oversized: True
      then have "packet_length (xs @ ys) = packet_length xs" by (simp add: packet_length_def)
      then have "packets cap (xs @ ys) = ([], xs @ ys, Some (oversized_frame_err (packet_length xs - 4)))"
        using oversized by (simp add: packets.simps [of cap "xs @ ys"])
      then show ?thesis using oversized "1.prems" by (auto simp: packets.simps [of cap xs])
    next
      case False
      then have "ps = []" "rest = xs" "e = None" using True "1.prems" by (auto simp: packets.simps [of cap xs] split: if_splits)
      then show ?thesis by (simp split: prod.splits)
    qed
  next
    case False
    obtain ps1 where p: "packets cap (drop (packet_length xs) xs) = (ps1, rest, e)" "ps = drop 4 (take (packet_length xs) xs) # ps1"
      using "1.prems" False by (auto simp: packets.simps [of cap xs] split: prod.splits)
    have "packet_length (xs @ ys) = packet_length xs" using False by (simp add: packet_length_def)
    then show ?thesis using "1.IH" [OF _ _ _ p(1)] False p(2)
      by (auto simp: packets.simps [of cap "xs @ ys"] split: prod.splits option.splits)
  qed
qed

text \<open>What waits for more bytes leaves room for them.\<close>

lemma packets_room: "4 \<le> cap \<Longrightarrow> packets cap xs = (ps, rest, None) \<Longrightarrow> length rest < cap"
proof (induction cap xs arbitrary: ps rule: packets.induct)
  case (1 cap xs)
  then show ?case
    by (cases "length xs < 4 \<or> length xs < packet_length xs \<or> packet_length xs > cap")
       (auto simp: packets.simps [of cap xs] split: if_splits prod.splits)
qed

section \<open>The nested framer on a buffer of fixed capacity\<close>

text \<open>The outer frame at hand, as a list of packets.\<close>

definition current_packets :: "('i, 'o) nested_framer \<Rightarrow> byte list list" where
  "current_packets nf = (case nf_current_outer_frame nf of None \<Rightarrow> [] | Some c \<Rightarrow> [c])"

text \<open>A call of the nested framer of a stream, followed by the reset of what telemetry and capture take.\<close>

definition reset_outer :: "('i, 'o) nested_framer \<Rightarrow> ('i, 'o) nested_framer" where
  "reset_outer nf = nf\<lparr>nf_completed_outer_frames := 0, nf_retained_outer_frames := []\<rparr>"

definition nested_step ::
    "'b read_io_buffer \<Rightarrow> bool \<Rightarrow> (newline_framer, unit) nested_framer \<Rightarrow> 'b \<Rightarrow>
     ((newline_framer, unit) nested_framer \<times> 'b \<times> frame_result) option" where
  "nested_step ops eof nf b = map_option (\<lambda>(nf', b', r). (reset_outer nf', b', r))
     (nested_next_frame (length_delimited_next_frame ops eof) (newline_next_frame first_index slice_ops True) (rb_remaining ops) nf b)"

lemma reset_outer_simps [simp]:
  "nf_current_outer_frame (reset_outer nf) = nf_current_outer_frame nf" "nf_inner (reset_outer nf) = nf_inner nf"
  "nf_completed_outer_frames (reset_outer nf) = 0" "current_packets (reset_outer nf) = current_packets nf"
  "reset_outer (nf\<lparr>nf_current_outer_frame := c\<rparr>) = (reset_outer nf)\<lparr>nf_current_outer_frame := c\<rparr>"
  "reset_outer (nf\<lparr>nf_completed_outer_frames := n\<rparr>) = reset_outer nf"
  "reset_outer (nf\<lparr>nf_retained_outer_frames := fs\<rparr>) = reset_outer nf" "reset_outer (reset_outer nf) = reset_outer nf"
  by (simp_all add: reset_outer_def current_packets_def)

lemma nf_outer_unit [simp]: "(nf :: ('i, unit) nested_framer)\<lparr>nf_outer := ()\<rparr> = nf"
  by (cases nf) simp

lemma nested_good_reset: "nested_good ops ok nf b \<Longrightarrow> nested_good ops ok (reset_outer nf) b"
  by (auto simp: nested_good_def)

lemma nested_size_reset [simp]: "nested_size ops (reset_outer nf) b = nested_size ops nf b"
  by (simp add: nested_size_def)

locale fixed_buffer = contiguous_buffer ops ok for ops :: "'b read_io_buffer" and ok +
  assumes capacity_advance: "ok b \<Longrightarrow> rb_advance ops n b = Some b' \<Longrightarrow> rb_capacity ops b' = rb_capacity ops b"
begin

lemma length_delimited_packet:
  assumes "ok b"
  shows "case packets (rb_capacity ops b) (rb_chunk ops b) of
     ([], rest, None) \<Rightarrow> length_delimited_next_frame ops False () b = Some ((), b, Inr None) \<and> rest = rb_chunk ops b
   | ([], rest, Some e) \<Rightarrow> length_delimited_next_frame ops False () b = Some ((), b, Inl e) \<and> rest = rb_chunk ops b
   | (p # ps, rest, e) \<Rightarrow> \<exists>b'. length_delimited_next_frame ops False () b = Some ((), b', Inr (Some p)) \<and> ok b' \<and>
       rb_capacity ops b' = rb_capacity ops b \<and> packets (rb_capacity ops b) (rb_chunk ops b') = (ps, rest, e) \<and>
       length p + 4 + length (rb_chunk ops b') = length (rb_chunk ops b)"
proof -
  let ?xs = "rb_chunk ops b" and ?cap = "rb_capacity ops b"
  have next_frame: "length_delimited_next_frame ops False () b =
      (if length ?xs < 4 then Some ((), b, Inr None)
       else if packet_length ?xs > ?cap then Some ((), b, Inl (oversized_frame_err (packet_length ?xs - 4)))
       else if length ?xs < packet_length ?xs then Some ((), b, Inr None)
       else do { (frame, b') \<leftarrow> copy_to_bytes ops (packet_length ?xs) b; Some ((), b', Inr (Some (drop 4 frame))) })"
    by (simp add: length_delimited_next_frame_def Let_def packet_length_sat packet_length_def)
  show ?thesis
  proof (cases "length ?xs < 4 \<or> length ?xs < packet_length ?xs \<or> packet_length ?xs > ?cap")
    case True
    then show ?thesis
      by (auto simp: next_frame packets.simps [of ?cap ?xs])
  next
    case False
    then obtain b' where b': "copy_to_bytes ops (packet_length ?xs) b = Some (take (packet_length ?xs) ?xs, b')" "ok b'"
        "rb_chunk ops b' = drop (packet_length ?xs) ?xs" using copied [OF assms, of "packet_length ?xs"] by auto
    then have "rb_capacity ops b' = ?cap"
      using capacity_advance [OF assms] by (auto simp: copy_to_bytes_def bind_eq_Some_conv split: if_splits)
    moreover have "4 \<le> packet_length ?xs" by (simp add: packet_length_def)
    ultimately show ?thesis using False b'
      by (auto simp: next_frame packets.simps [of ?cap ?xs] split: prod.splits)
  qed
qed

lemma line_of_current:
  assumes "nf_current_outer_frame nf = Some c" "c \<noteq> []" "\<not> required_on_eof (nf_inner nf)" "nested_good ops ok nf b"
  shows "nested_next_frame (length_delimited_next_frame ops False) (newline_next_frame first_index slice_ops True) (rb_remaining ops) nf b =
    Some (if after_line c = []
          then nf\<lparr>nf_current_outer_frame := None, nf_completed_outer_frames := nf_completed_outer_frames nf + 1\<rparr>
          else nf\<lparr>nf_current_outer_frame := Some (after_line c)\<rparr>, b, Inr (Some (first_line c)))"
  using assms
  by (subst nested_next_frame.simps)
     (simp add: nested_outer_frame_def nested_inner_frame_def slice_line Let_def u64_add_def nested_good_def)

lemma next_packet:
  assumes nf: "nf_current_outer_frame nf = None" "nested_good ops ok nf b"
    and l: "length_delimited_next_frame ops False () b = Some ((), b', Inr (Some p))" "ok b'"
      "length p + 4 + length (rb_chunk ops b') = length (rb_chunk ops b)"
  defines "nf1 \<equiv> nf\<lparr>nf_retained_outer_frames := nf_retained_outer_frames nf @ (if nf_retain_outer_frames nf then [p] else [])\<rparr>"
  defines "nf2 \<equiv> (if p = [] then nf1\<lparr>nf_completed_outer_frames := nf_completed_outer_frames nf + 1\<rparr>
    else nf1\<lparr>nf_current_outer_frame := Some p\<rparr>)"
  shows "nested_next_frame (length_delimited_next_frame ops False) (newline_next_frame first_index slice_ops True) (rb_remaining ops) nf b =
    nested_next_frame (length_delimited_next_frame ops False) (newline_next_frame first_index slice_ops True) (rb_remaining ops) nf2 b'"
    "nested_good ops ok nf2 b'"
proof -
  let ?next = "nested_next_frame (length_delimited_next_frame ops False) (newline_next_frame first_index slice_ops True) (rb_remaining ops)"
  have outer: "nested_outer_frame (length_delimited_next_frame ops False) nf b = Some (nf1\<lparr>nf_current_outer_frame := Some p\<rparr>, b', Inr (Some p))"
    using nf(1) l(1) by (simp add: nested_outer_frame_def nf1_def)
  show "nested_good ops ok nf2 b'" using nf l by (auto simp: nested_good_def nf2_def nf1_def)
  show "?next nf b = ?next nf2 b'"
  proof (cases "p = []")
    case False
    have "nested_outer_frame (length_delimited_next_frame ops False) nf2 b' = Some (nf2, b', Inr (Some p))"
      using False by (simp add: nested_outer_frame_def nf2_def)
    moreover have "nf1\<lparr>nf_current_outer_frame := Some p\<rparr> = nf2" using False by (simp add: nf2_def)
    ultimately show ?thesis
      using outer by (simp add: nested_next_frame.simps [of _ _ _ nf b] nested_next_frame.simps [of _ _ _ nf2 b'])
  next
    case True
    have inner: "nested_inner_frame (newline_next_frame first_index slice_ops True) (rb_remaining ops b') p (nf1\<lparr>nf_current_outer_frame := Some p\<rparr>) =
        Some (nf2, if rb_remaining ops b' \<noteq> 0 then None else Some (Inr None))"
      using True nf l by (simp add: nested_inner_frame_def slice_no_line Let_def u64_add_def nested_good_def nf2_def nf1_def)
    show ?thesis
    proof (cases "rb_remaining ops b' = 0")
      case empty: True
      have "?next nf2 b' = Some (nf2, b', Inr None)"
        using empty True nf(1) remaining_chunk [OF l(2)]
        by (subst nested_next_frame.simps)
           (simp add: nested_outer_frame_def length_delimited_next_frame_def nf2_def nf1_def)
      then show ?thesis using outer inner empty by (simp add: nested_next_frame.simps [of _ _ _ nf b])
    next
      case False
      then show ?thesis using outer inner by (simp add: nested_next_frame.simps [of _ _ _ nf b])
    qed
  qed
qed

lemma nested_decode:
  "nested_good ops ok nf b \<Longrightarrow> nf_current_outer_frame nf \<noteq> Some [] \<Longrightarrow> \<not> required_on_eof (nf_inner nf) \<Longrightarrow>
   packets (rb_capacity ops b) (rb_chunk ops b) = (ps, rest, e) \<Longrightarrow>
   \<exists>b'. decode_frames (nested_step ops False) nf b =
     Some ((reset_outer nf)\<lparr>nf_current_outer_frame := None\<rparr>, b', concat (map packet_lines (current_packets nf @ ps)), e) \<and>
     ok b' \<and> rb_chunk ops b' = rest \<and> rb_capacity ops b' = rb_capacity ops b"
proof (induction "nested_size ops nf b" arbitrary: nf b ps rest e rule: less_induct)
  case less
  let ?next = "nested_step ops False"
  show ?case
  proof (cases "nf_current_outer_frame nf")
    case (Some c)
    then have c: "c \<noteq> []" using less.prems(2) by simp
    let ?nf = "if after_line c = []
      then nf\<lparr>nf_current_outer_frame := None, nf_completed_outer_frames := nf_completed_outer_frames nf + 1\<rparr>
      else nf\<lparr>nf_current_outer_frame := Some (after_line c)\<rparr>"
    have step: "?next nf b = Some (reset_outer ?nf, b, Inr (Some (first_line c)))"
      using line_of_current [OF Some c less.prems(3,1)] by (simp add: nested_step_def)
    have good: "nested_good ops ok ?nf b" using Some less.prems(1) by (auto simp: nested_good_def)
    have "nested_size ops (reset_outer ?nf) b < nested_size ops nf b" "nf_current_outer_frame (reset_outer ?nf) \<noteq> Some []"
        "\<not> required_on_eof (nf_inner (reset_outer ?nf))"
      using Some c length_after_line [OF c] less.prems(3) by (auto simp: nested_size_def)
    from less.hyps [OF this(1) nested_good_reset [OF good] this(2,3) less.prems(4)] show ?thesis
      using Some packet_lines_step [OF c] by (subst decode_frames.simps) (auto simp: step current_packets_def)
  next
    case None
    show ?thesis
    proof (cases ps)
      case Nil
      have "nf\<lparr>nf_current_outer_frame := None\<rparr> = nf" using None by (cases nf) simp
      then have same: "(reset_outer nf)\<lparr>nf_current_outer_frame := None\<rparr> = reset_outer nf" by (metis reset_outer_simps(5))
      show ?thesis using length_delimited_packet [of b] less.prems None Nil
        unfolding decode_frames.simps [of ?next nf b] nested_step_def nested_next_frame.simps [of _ _ _ nf b]
        by (auto simp: nested_good_def nested_outer_frame_def current_packets_def same split: option.splits)
    next
      case (Cons p ps')
      obtain b' where b': "length_delimited_next_frame ops False () b = Some ((), b', Inr (Some p))" "ok b'"
          "rb_capacity ops b' = rb_capacity ops b" "packets (rb_capacity ops b) (rb_chunk ops b') = (ps', rest, e)"
          "length p + 4 + length (rb_chunk ops b') = length (rb_chunk ops b)"
        using length_delimited_packet [of b] less.prems(1,4) Cons by (auto simp: nested_good_def)
      let ?nf1 = "nf\<lparr>nf_retained_outer_frames := nf_retained_outer_frames nf @ (if nf_retain_outer_frames nf then [p] else [])\<rparr>"
      let ?nf2 = "if p = [] then ?nf1\<lparr>nf_completed_outer_frames := nf_completed_outer_frames nf + 1\<rparr>
        else ?nf1\<lparr>nf_current_outer_frame := Some p\<rparr>"
      note step = next_packet [OF None less.prems(1) b'(1,2,5)]
      have "?next nf b = ?next ?nf2 b'" unfolding nested_step_def step(1) ..
      then have "decode_frames ?next nf b = decode_frames ?next ?nf2 b'"
        unfolding decode_frames.simps [of ?next nf b] decode_frames.simps [of ?next ?nf2 b'] by (rule arg_cong)
      moreover have "nested_size ops ?nf2 b' < nested_size ops nf b" "nf_current_outer_frame ?nf2 \<noteq> Some []"
          "\<not> required_on_eof (nf_inner ?nf2)"
        using b'(5) None less.prems(3) by (auto simp: nested_size_def)
      moreover have "packets (rb_capacity ops b') (rb_chunk ops b') = (ps', rest, e)" using b'(3,4) by simp
      ultimately show ?thesis
        using less.hyps [of ?nf2 b' ps' rest e] step(2) None Cons b'(3) by (auto simp: current_packets_def split: if_splits)
    qed
  qed
qed

text \<open>At the end of a stream nothing waits, or what waits is an incomplete packet.\<close>

lemma nested_decode_eof:
  assumes "ok b" "nf_current_outer_frame nf = None" "packets (rb_capacity ops b) (rb_chunk ops b) = ([], rb_chunk ops b, None)"
  shows "decode_frames (nested_step ops True) nf b = Some (reset_outer nf, b, [],
    if rb_chunk ops b = [] then None
    else Some (PartialFrame (if length (rb_chunk ops b) < 4 then 4 else packet_length (rb_chunk ops b)) (length (rb_chunk ops b))))"
proof -
  let ?xs = "rb_chunk ops b"
  have "length ?xs < 4 \<or> packet_length ?xs \<le> rb_capacity ops b \<and> length ?xs < packet_length ?xs"
    using assms(3) by (auto simp: packets.simps [of _ ?xs] split: if_splits prod.splits)
  then have "length_delimited_next_frame ops True () b = Some ((), b, if ?xs = [] then Inr None
      else Inl (PartialFrame (if length ?xs < 4 then 4 else packet_length ?xs) (length ?xs)))"
    by (auto simp: length_delimited_next_frame_def Let_def packet_length_sat)
  then show ?thesis using assms(2)
    unfolding decode_frames.simps [of _ nf b] nested_step_def nested_next_frame.simps [of _ _ _ nf b]
    by (simp add: nested_outer_frame_def)
qed

end

interpretation bbf: fixed_buffer bytes_buffer_ops bb_ok
  by unfold_locales (auto simp: bytes_buffer_ops_def bb_advance_def split: if_splits)

section \<open>Reading a stream\<close>

lemma packets_length: "packets cap xs = (ps, rest, e) \<Longrightarrow> length ps + length rest \<le> length xs"
proof (induction cap xs arbitrary: ps rule: packets.induct)
  case (1 cap xs)
  show ?case
  proof (cases "length xs < 4 \<or> length xs < packet_length xs \<or> packet_length xs > cap")
    case False
    obtain ps1 where p: "packets cap (drop (packet_length xs) xs) = (ps1, rest, e)" "length ps = Suc (length ps1)"
      using "1.prems" False by (auto simp: packets.simps [of cap xs] split: prod.splits)
    have "0 < packet_length xs" by (simp add: packet_length_def)
    then show ?thesis using "1.IH" [OF _ _ _ p(1)] p(2) False by (simp add: not_less) arith
  qed (use "1.prems" in \<open>auto simp: packets.simps [of cap xs] split: if_splits\<close>)
qed

text \<open>No read overruns the buffer: the bytes that wait and the piece that is read fit.\<close>

fun reads_fit :: "nat \<Rightarrow> byte list \<Rightarrow> byte list list \<Rightarrow> bool" where
  "reads_fit cap rest [] = True"
| "reads_fit cap rest (piece # pieces) =
     (length rest + length piece \<le> cap \<and>
      (case packets cap (rest @ piece) of (_, rest', e) \<Rightarrow> e = None \<longrightarrow> reads_fit cap rest' pieces))"

lemma collapse_put:
  assumes "bb_ok b" "length (bb_chunk b) + length piece \<le> bb_capacity b"
  shows "\<exists>b'. bb_put_slice piece (bb_collapse b) = Some b' \<and> bb_ok b' \<and> bb_chunk b' = bb_chunk b @ piece \<and>
    bb_capacity b' = bb_capacity b"
  using assms
  by (auto simp: bb_collapse_def bb_put_slice_def bb_ok_def bb_chunk_def bb_remaining_mut_def bb_remaining_def Let_def)

lemma bytes_buffer_ops_simps [simp]:
  "rb_remaining bytes_buffer_ops = bb_remaining" "rb_chunk bytes_buffer_ops = bb_chunk" "rb_capacity bytes_buffer_ops = bb_capacity"
  by (simp_all add: bytes_buffer_ops_def)

interpretation dsd_steps: framer "nested_step bytes_buffer_ops eof" "nested_good bytes_buffer_ops bb_ok"
    "nested_size bytes_buffer_ops" for eof
proof
  fix nf :: "(newline_framer, unit) nested_framer" and b
  assume "nested_good bytes_buffer_ops bb_ok nf b"
  from dsd.nested.next_frame_returns [OF this, of eof]
  show "\<exists>nf' b' r. nested_step bytes_buffer_ops eof nf b = Some (nf', b', r) \<and> nested_good bytes_buffer_ops bb_ok nf' b' \<and>
      (\<forall>frame. r = Inr (Some frame) \<longrightarrow> nested_size bytes_buffer_ops nf' b' < nested_size bytes_buffer_ops nf b)"
    by (auto simp: nested_step_def intro: nested_good_reset)
qed

lemma decode_step_Stream:
  "decode_step first_index eof (Stream nf) b = map_option (\<lambda>(nf', b', r). (Stream nf', b', r)) (nested_step bytes_buffer_ops eof nf b)"
  by (auto simp: decode_step_def nested_step_def reset_outer_def take_completed_outer_frames_def drain_outer_frames_def
      map_option_case Option.bind_def split: option.splits)

lemma decode_frames_Stream:
  "nested_good bytes_buffer_ops bb_ok nf b \<Longrightarrow>
   decode_frames (decode_step first_index eof) (Stream nf) b =
     map_option (\<lambda>(nf', b', fs, e). (Stream nf', b', fs, e)) (decode_frames (nested_step bytes_buffer_ops eof) nf b)"
  by (rule dsd_steps.decode_frames_wrapped [OF decode_step_Stream])

text \<open>One read of a stream, with bytes or without.\<close>

lemma stream_decode:
  assumes "bb_ok b" "nf_current_outer_frame nf = None" "\<not> required_on_eof (nf_inner nf)" "nf_completed_outer_frames nf = 0"
    "bb_capacity b \<le> u64_max" "packets (bb_capacity b) (bb_chunk b) = (ps, rest, e)" "0 < n"
  shows "\<exists>b'. decode_buffer_contents first_index Connected (Unix path) n (Stream nf) b =
     Some (Stream (reset_outer nf), b', concat (map packet_lines ps), e, e \<noteq> None) \<and>
     bb_ok b' \<and> bb_chunk b' = rest \<and> bb_capacity b' = bb_capacity b"
proof -
  have "length (bb_chunk b) \<le> u64_max" using assms(1,5) by (auto simp: bb_ok_def bb_chunk_def)
  then have good: "nested_good bytes_buffer_ops bb_ok nf b" using assms(1,2,4) by (simp add: nested_good_def)
  have "nf\<lparr>nf_current_outer_frame := None\<rparr> = nf" using assms(2) by (cases nf) simp
  then have same: "(reset_outer nf)\<lparr>nf_current_outer_frame := None\<rparr> = reset_outer nf" by (metis reset_outer_simps(5))
  show ?thesis
    using bbf.nested_decode [OF good, of ps rest e] decode_frames_Stream [OF good, of False] assms(2,3,6,7)
    by (auto simp: decode_buffer_contents_def should_drop_oversized_named_pipe_frame_def current_packets_def same)
qed

lemma stream_decode_eof:
  assumes "bb_ok b" "nf_current_outer_frame nf = None" "nf_completed_outer_frames nf = 0" "bb_capacity b \<le> u64_max"
    "packets (bb_capacity b) (bb_chunk b) = ([], bb_chunk b, None)"
  shows "\<exists>f' e. decode_buffer_contents first_index Connected (Unix path) 0 (Stream nf) b = Some (f', b, [], e, True) \<and>
    (e = None \<longleftrightarrow> bb_chunk b = [])"
proof -
  have "length (bb_chunk b) \<le> u64_max" using assms(1,4) by (auto simp: bb_ok_def bb_chunk_def)
  then have good: "nested_good bytes_buffer_ops bb_ok nf b" using assms(1-3) by (simp add: nested_good_def)
  show ?thesis
    using bbf.nested_decode_eof [of b nf] decode_frames_Stream [OF good, of True] assms(1,2,5)
    by (simp add: decode_buffer_contents_def should_drop_oversized_named_pipe_frame_def)
qed

lemma read_stream_packets:
  "bb_ok b \<Longrightarrow> nf_current_outer_frame nf = None \<Longrightarrow> \<not> required_on_eof (nf_inner nf) \<Longrightarrow> nf_completed_outer_frames nf = 0 \<Longrightarrow>
   bb_capacity b \<le> u64_max \<Longrightarrow> [] \<notin> set pieces \<Longrightarrow>
   packets (bb_capacity b) (bb_chunk b) = ([], bb_chunk b, None) \<Longrightarrow> reads_fit (bb_capacity b) (bb_chunk b) pieces \<Longrightarrow>
   packets (bb_capacity b) (bb_chunk b @ concat pieces) = (ps, rest, e) \<Longrightarrow>
   \<exists>nf' b'. read_stream first_index (Unix path) pieces (Stream nf) b =
       Some (Stream nf', b', concat (map packet_lines ps), e, e \<noteq> None) \<and> bb_ok b' \<and> bb_capacity b' = bb_capacity b \<and>
     (e = None \<longrightarrow> bb_chunk b' = rest \<and> (\<exists>f'' b'' err. read_stream first_index (Unix path) (pieces @ [[]]) (Stream nf) b =
       Some (f'', b'', concat (map packet_lines ps), err, True) \<and> (err = None \<longleftrightarrow> rest = [])))"
proof (induction pieces arbitrary: b nf ps)
  case Nil
  have "length (bb_chunk b) + length [] \<le> bb_capacity b" using Nil.prems(1) by (auto simp: bb_ok_def bb_chunk_def)
  then obtain b1 where b1: "bb_put_slice [] (bb_collapse b) = Some b1" "bb_ok b1" "bb_chunk b1 = bb_chunk b @ []"
      "bb_capacity b1 = bb_capacity b"
    using collapse_put [OF Nil.prems(1), of "[]"] by blast
  have "\<exists>f' e. decode_buffer_contents first_index Connected (Unix path) 0 (Stream nf) b1 = Some (f', b1, [], e, True) \<and>
      (e = None \<longleftrightarrow> bb_chunk b1 = [])"
    by (rule stream_decode_eof) (use b1 Nil.prems in auto)
  then show ?case using Nil.prems b1 by auto
next
  case (Cons piece pieces)
  obtain b1 where b1: "bb_put_slice piece (bb_collapse b) = Some b1" "bb_ok b1" "bb_chunk b1 = bb_chunk b @ piece"
      "bb_capacity b1 = bb_capacity b"
    using collapse_put [OF Cons.prems(1), of piece] Cons.prems(8) by auto
  obtain ps1 rest1 e1 where p1: "packets (bb_capacity b) (bb_chunk b @ piece) = (ps1, rest1, e1)" by (metis prod_cases3)
  have n: "0 < length piece" using Cons.prems(6) by auto
  obtain b2 where d: "decode_buffer_contents first_index Connected (Unix path) (length piece) (Stream nf) b1 =
     Some (Stream (reset_outer nf), b2, concat (map packet_lines ps1), e1, e1 \<noteq> None)" "bb_ok b2" "bb_chunk b2 = rest1"
     "bb_capacity b2 = bb_capacity b"
    using stream_decode [OF b1(2) Cons.prems(2-4) _ _ n, of ps1 rest1 e1] Cons.prems(5) b1(3,4) p1 by auto
  note app = packets_append [OF p1, of "concat pieces"]
  show ?case
  proof (cases e1)
    case (Some err)
    then show ?thesis using app b1(1) d Cons.prems(9) by auto
  next
    case None
    obtain ps2 where p2: "packets (bb_capacity b) (rest1 @ concat pieces) = (ps2, rest, e)" "ps = ps1 @ ps2"
      using app None Cons.prems(9) by (auto split: prod.splits)
    have "packets (bb_capacity b) rest1 = ([], rest1, None)"
      using packets_append [OF p1, of "[]"] None p1 by (auto split: prod.splits)
    then show ?thesis
      using Cons.IH [of b2 "reset_outer nf" ps2] b1(1) d p1 p2 None Cons.prems(2-6,8) by auto
  qed
qed

section \<open>Encoding\<close>

definition u32_to_le_bytes :: "nat \<Rightarrow> byte list" where
  "u32_to_le_bytes n = [of_nat n, of_nat (n div 256), of_nat (n div 256 div 256), of_nat (n div 256 div 256 div 256)]"

definition encode_packet :: "byte list \<Rightarrow> byte list" where
  "encode_packet p = u32_to_le_bytes (length p) @ p"

definition encode_lines :: "byte list list \<Rightarrow> byte list" where
  "encode_lines ls = concat (map (\<lambda>l. l @ [newline]) ls)"

lemma u32_round_trip: "n < 2 ^ 32 \<Longrightarrow> u32_from_le_bytes (u32_to_le_bytes n) = n"
proof -
  assume n: "n < 2 ^ 32"
  have u: "unat (of_nat k :: byte) = k mod 256" for k by (simp add: unat_of_nat)
  have "n div 256 div 256 div 256 < 256" using n by (simp add: div_mult2_eq [symmetric] less_mult_imp_div_less)
  then show ?thesis by (simp add: u32_from_le_bytes_def u32_to_le_bytes_def u)
qed

lemma packets_encoded:
  "(\<And>p. p \<in> set ps \<Longrightarrow> length p < 2 ^ 32 \<and> length p + 4 \<le> cap) \<Longrightarrow> packets cap (concat (map encode_packet ps)) = (ps, [], None)"
proof (induction ps)
  case Nil
  then show ?case by (simp add: packets.simps)
next
  case (Cons p ps)
  let ?xs = "encode_packet p @ concat (map encode_packet ps)"
  have p: "length p < 2 ^ 32" "length p + 4 \<le> cap" using Cons.prems by auto
  have len: "length (u32_to_le_bytes n) = 4" for n by (simp add: u32_to_le_bytes_def)
  have pl: "packet_length ?xs = length p + 4"
    using u32_round_trip [OF p(1)] by (simp add: packet_length_def encode_packet_def len)
  have "packets cap (concat (map encode_packet ps)) = (ps, [], None)" using Cons by auto
  moreover have "drop (packet_length ?xs) ?xs = concat (map encode_packet ps)" "drop 4 (take (packet_length ?xs) ?xs) = p"
    unfolding pl by (simp_all add: encode_packet_def len)
  moreover have "\<not> length ?xs < 4" "\<not> length ?xs < packet_length ?xs"
    unfolding pl by (simp_all add: encode_packet_def len)
  ultimately show ?case using p(2) by (subst packets.simps) (simp add: pl)
qed

lemma packet_lines_encoded: "(\<And>l. l \<in> set ls \<Longrightarrow> newline \<notin> set l) \<Longrightarrow> packet_lines (encode_lines ls) = ls"
  by (induction ls) (auto simp: encode_lines_def packet_lines_line)

end
