(* ===== verification/Framing_Properties.thy ===== *)
theory Framing_Properties
  imports Framing_Streams
begin

text \<open>
  The properties of framing: every call returns, reading a stream does not depend on how the bytes arrive, and packets of
  lines survive a stream.
\<close>

lemma memchr_first: "memchr_ok memchr \<Longrightarrow> memchr = first_index"
  by (auto simp: memchr_ok_def)

lemma first_index_ok: "memchr_ok first_index"
  by (simp add: memchr_ok_def)

fun dsd_good :: "dsd_framer \<Rightarrow> bytes_buffer \<Rightarrow> bool" where
  "dsd_good (NonStream nf) b = bb_ok b"
| "dsd_good (Stream nf) b = nested_good bytes_buffer_ops bb_ok nf b"

fun dsd_size :: "dsd_framer \<Rightarrow> bytes_buffer \<Rightarrow> nat" where
  "dsd_size (NonStream nf) b = length (bb_chunk b)"
| "dsd_size (Stream nf) b = nested_size bytes_buffer_ops nf b"

interpretation dsd_frames: framer "dsd_next_frame first_index eof" dsd_good dsd_size for eof
proof
  fix f b
  assume good: "dsd_good f b"
  show "\<exists>f' b' r. dsd_next_frame first_index eof f b = Some (f', b', r) \<and> dsd_good f' b' \<and>
      (\<forall>frame. r = Inr (Some frame) \<longrightarrow> dsd_size f' b' < dsd_size f b)"
  proof (cases f)
    case (NonStream nf)
    then show ?thesis using bb.lines.plain.next_frame_returns [of b eof nf] good by fastforce
  next
    case (Stream nf)
    then show ?thesis using dsd.nested.next_frame_returns [of nf b eof] good by fastforce
  qed
qed

interpretation dsd_step_frames: framer "decode_step first_index eof" dsd_good dsd_size for eof
proof
  fix f b
  assume good: "dsd_good f b"
  have "dsd_good (take_outer_frames f') b'" "dsd_size (take_outer_frames f') b' = dsd_size f' b'" if "dsd_good f' b'" for f' b'
    using that by (cases f'; auto simp: nested_good_def nested_size_def take_completed_outer_frames_def drain_outer_frames_def)+
  then show "\<exists>f' b' r. decode_step first_index eof f b = Some (f', b', r) \<and> dsd_good f' b' \<and>
      (\<forall>frame. r = Inr (Some frame) \<longrightarrow> dsd_size f' b' < dsd_size f b)"
    using dsd_frames.next_frame_returns [OF good, of eof] by (auto simp: decode_step_def)
qed

section \<open>Claims\<close>

text \<open>
  C24. Framing always terminates. Whatever bytes a buffer holds and whatever outer frame is at hand, a call of the
  DogStatsD framer returns without panicking, although the nested framer goes on over empty packets, and the loop over
  the frames of a buffer ends, as does the handling of a read in each mode and for each kind of listener; all keep the
  buffer and the counter of completed packets within their bounds.
\<close>

theorem framing_terminates:
  assumes "memchr_ok memchr" "dsd_good f b"
  shows "(\<exists>f' b' r. dsd_next_frame memchr eof f b = Some (f', b', r) \<and> dsd_good f' b') \<and>
    (\<exists>f' b' frames e. decode_frames (decode_step memchr eof) f b = Some (f', b', frames, e) \<and> dsd_good f' b') \<and>
    (\<exists>f' b' frames e stop. decode_buffer_contents memchr mode listen_addr bytes_read f b = Some (f', b', frames, e, stop) \<and>
       dsd_good f' b')"
proof -
  have clear: "dsd_good f (bb_clear b)"
    using assms(2) by (cases f) (auto simp: nested_good_def bb_clear_def bb_ok_def bb_chunk_def)
  have loop: "\<exists>f' b' frames e. decode_frames (decode_step first_index eof) f b = Some (f', b', frames, e) \<and> dsd_good f' b'" for eof
    by (rule dsd_step_frames.decode_frames_returns [OF assms(2)])
  have "\<exists>f' b' frames e stop. decode_buffer_contents first_index mode listen_addr bytes_read f b = Some (f', b', frames, e, stop) \<and>
      dsd_good f' b'"
    using clear loop [of "case mode of Connectionless \<Rightarrow> True | Connected \<Rightarrow> bytes_read = 0"]
    by (auto simp: decode_buffer_contents_def Let_def)
  then show ?thesis
    using dsd_frames.next_frame_returns [OF assms(2), of eof] loop unfolding memchr_first [OF assms(1)] by blast
qed

definition example_bytes :: bytes_buffer where
  "example_bytes = \<lparr>bb_data = [0, 0, 0, 0, 3, 0, 0, 0, 97, 10, 98, 9], bb_read_idx = 0, bb_capacity = 16\<rparr>"

theorem framing_terminates_witness:
  "\<exists>f' b' frames e stop. decode_buffer_contents first_index Connected (Unix ''dsd.socket'') 12
     (get_framer (Unix ''dsd.socket'') False) example_bytes = Some (f', b', frames, e, stop)"
proof -
  have "dsd_good (get_framer (Unix ''dsd.socket'') False) example_bytes"
    by (simp add: get_framer_def nested_good_def nested_new_def example_bytes_def bb_ok_def bb_chunk_def u64_max_def)
  from framing_terminates [OF first_index_ok this] show ?thesis by blast
qed

text \<open>
  C8. Reading a stream does not depend on how its bytes arrive. On a connected stream, whose buffer is collapsed before
  each read, the frames are the lines of the complete length-delimited packets of all bytes read so far, and the
  error, if any, is that of the first packet that exceeds the capacity, however the bytes are cut into reads that fit
  the buffer; the decoder stops exactly at that error. Otherwise the bytes of an incomplete packet stay in the buffer, and
  there is room for another read, so that an empty read means the end of the stream. Then the decoder stops without another
  frame, and with an error exactly when an incomplete packet is left.
\<close>

theorem stream_reads_compose:
  assumes "memchr_ok memchr" "4 \<le> cap" "cap \<le> u64_max" "reads_fit cap [] pieces" "[] \<notin> set pieces"
    "packets cap (concat pieces) = (ps, rest, e)"
  shows "\<exists>f b. read_stream memchr (Unix path) pieces (get_framer (Unix path) False) (bb_with_capacity cap) =
      Some (f, b, concat (map packet_lines ps), e, e \<noteq> None) \<and>
    (e = None \<longrightarrow> bb_chunk b = rest \<and> 0 < bb_remaining_mut (bb_collapse b) \<and>
      (\<exists>f' b' err. read_stream memchr (Unix path) (pieces @ [[]]) (get_framer (Unix path) False) (bb_with_capacity cap) =
        Some (f', b', concat (map packet_lines ps), err, True) \<and> (err = None \<longleftrightarrow> rest = [])))"
proof -
  let ?nf = "nested_new \<lparr>required_on_eof = False\<rparr> () :: (newline_framer, unit) nested_framer" and ?b = "bb_with_capacity cap"
  have b: "bb_ok ?b" "bb_chunk ?b = []" "bb_capacity ?b = cap"
    by (simp_all add: bb_with_capacity_def bb_ok_def bb_chunk_def)
  have nf: "nf_current_outer_frame ?nf = None" "\<not> required_on_eof (nf_inner ?nf)" "nf_completed_outer_frames ?nf = 0"
    by (simp_all add: nested_new_def)
  have "packets cap [] = ([], [], None)" by (simp add: packets.simps)
  then obtain nf' b' where r: "read_stream first_index (Unix path) pieces (Stream ?nf) ?b =
        Some (Stream nf', b', concat (map packet_lines ps), e, e \<noteq> None)" "bb_ok b'" "bb_capacity b' = cap"
      "e = None \<longrightarrow> bb_chunk b' = rest \<and> (\<exists>f'' b'' err. read_stream first_index (Unix path) (pieces @ [[]]) (Stream ?nf) ?b =
        Some (f'', b'', concat (map packet_lines ps), err, True) \<and> (err = None \<longleftrightarrow> rest = []))"
    using read_stream_packets [OF b(1) nf, of pieces ps rest e path] b(2,3) assms(3-6) by auto
  moreover have "0 < bb_remaining_mut (bb_collapse b')" if "e = None"
    using packets_room [OF assms(2), of "concat pieces" ps rest] assms(6) r(2-4) that
    by (auto simp: bb_collapse_def bb_remaining_mut_def bb_remaining_def bb_chunk_def Let_def)
  ultimately show ?thesis by (simp add: memchr_first [OF assms(1)] get_framer_def)
qed

text \<open>The packet \<open>a, newline, b\<close> in three reads.\<close>

definition example_pieces :: "byte list list" where
  "example_pieces = [[3, 0], [0, 0, 97], [10, 98]]"

lemma example_packets: "packets 16 (concat example_pieces) = ([[97, 10, 98]], [], None)"
  by (simp add: example_pieces_def packets.simps packet_length_def u32_from_le_bytes_def)

lemma example_fits: "reads_fit 16 [] example_pieces" "[] \<notin> set example_pieces"
  by (simp_all add: example_pieces_def packets.simps packet_length_def u32_from_le_bytes_def)

theorem stream_reads_compose_witness:
  "\<exists>f b. read_stream first_index (Unix ''dsd.socket'') (example_pieces @ [[]]) (get_framer (Unix ''dsd.socket'') False)
      (bb_with_capacity 16) = Some (f, b, concat (map packet_lines [[97, 10, 98]]), None, True)"
proof -
  have "(16 :: nat) \<le> u64_max" by (simp add: u64_max_def)
  from stream_reads_compose [OF first_index_ok _ this example_fits example_packets, of "''dsd.socket''"] show ?thesis by auto
qed

text \<open>
  C32. Lines survive a stream. Packets that fit the buffer, each the concatenation of lines that end in a newline, are
  encoded with their length in front and sent; whatever reads the stream is cut into, the frames are exactly the lines
  of all packets in order, without an error and with nothing left in the buffer, and the empty read at the end of the stream
  stops the decoder without an error and without another frame.
\<close>

theorem lines_survive_stream:
  assumes "memchr_ok memchr" "4 \<le> cap" "cap \<le> u64_max" "reads_fit cap [] pieces" "[] \<notin> set pieces"
    "concat pieces = concat (map (encode_packet \<circ> encode_lines) lss)"
    "\<And>ls. ls \<in> set lss \<Longrightarrow> length (encode_lines ls) < 2 ^ 32 \<and> length (encode_lines ls) + 4 \<le> cap"
    "\<And>ls l. ls \<in> set lss \<Longrightarrow> l \<in> set ls \<Longrightarrow> newline \<notin> set l"
  shows "(\<exists>f b. read_stream memchr (Unix path) pieces (get_framer (Unix path) False) (bb_with_capacity cap) =
      Some (f, b, concat lss, None, False) \<and> bb_chunk b = []) \<and>
    (\<exists>f b. read_stream memchr (Unix path) (pieces @ [[]]) (get_framer (Unix path) False) (bb_with_capacity cap) =
      Some (f, b, concat lss, None, True))"
proof -
  have c: "concat pieces = concat (map encode_packet (map encode_lines lss))" using assms(6) by simp
  have p: "packets cap (concat pieces) = (map encode_lines lss, [], None)"
    unfolding c by (intro packets_encoded) (use assms(7) in auto)
  have l: "map packet_lines (map encode_lines lss) = lss"
    using assms(8) packet_lines_encoded by (auto intro!: map_idI)
  let ?f = "Stream (nested_new \<lparr>required_on_eof = False\<rparr> ())"
  have "\<exists>nf' b'. read_stream first_index (Unix path) pieces ?f (bb_with_capacity cap) =
        Some (Stream nf', b', concat (map packet_lines (map encode_lines lss)), None, None \<noteq> (None :: framing_error option)) \<and>
      bb_ok b' \<and> bb_capacity b' = bb_capacity (bb_with_capacity cap) \<and>
      (None = (None :: framing_error option) \<longrightarrow> bb_chunk b' = [] \<and> (\<exists>f'' b'' err. read_stream first_index (Unix path) (pieces @ [[]]) ?f
          (bb_with_capacity cap) = Some (f'', b'', concat (map packet_lines (map encode_lines lss)), err, True) \<and>
        (err = None \<longleftrightarrow> [] = ([] :: byte list))))"
    by (rule read_stream_packets)
       (use assms(3-5) p in \<open>simp_all add: nested_new_def bb_with_capacity_def bb_ok_def bb_chunk_def packets.simps [of cap "[]"]\<close>)
  then show ?thesis unfolding l by (auto simp: memchr_first [OF assms(1)] get_framer_def)
qed

theorem lines_survive_stream_witness:
  "\<exists>f b. read_stream first_index (Unix ''dsd.socket'') [[2, 0], [0, 0, 97], [10], []] (get_framer (Unix ''dsd.socket'') False)
       (bb_with_capacity 16) = Some (f, b, [[97]], None, True)"
proof -
  have "reads_fit 16 [] [[2, 0], [0, 0, 97], [10]]" "[] \<notin> set [[2, 0], [0, 0, 97], [10 :: byte]]"
    "concat [[2, 0], [0, 0, 97], [10]] = concat (map (encode_packet \<circ> encode_lines) [[[97]]])"
    by (simp_all add: packets.simps packet_length_def u32_from_le_bytes_def encode_packet_def encode_lines_def
        u32_to_le_bytes_def newline_def)
  from lines_survive_stream [OF first_index_ok _ _ this, of "''dsd.socket''"] show ?thesis
    by (simp add: encode_lines_def newline_def u64_max_def)
qed

end
