(* ===== verification/Supervisor.thy ===== *)
theory Supervisor
  imports Rust_Prelude
begin

text \<open>
  Supervision of processes: the restart limit (\<^verbatim>\<open>lib/saluki-core/src/runtime/restart.rs\<close>) and the loop of a supervisor
  (\<^verbatim>\<open>lib/saluki-core/src/runtime/supervisor.rs\<close>) with its roster (\<^verbatim>\<open>tree/mod.rs\<close>) and its set of running tasks
  (\<^verbatim>\<open>worker_state.rs\<close>).

  Tasks belong to the asynchronous runtime: a running child may end at any moment with any result, and starting one may
  fail. An event of the loop carries these choices, with the clock where the code reads it. Names, placement, shutdown
  strategies, the supervision tree that observers read and the logging have no effect on the decisions modelled here.
\<close>

section \<open>Restart limits\<close>

datatype restart_mode = OneForOne | OneForAll

record restart_strategy =
  rs_mode :: restart_mode
  rs_intensity :: nat
  rs_period :: nat

definition restart_strategy_default :: restart_strategy where
  "restart_strategy_default = \<lparr>rs_mode = OneForOne, rs_intensity = 1, rs_period = 5 * 1000000000\<rparr>"

definition one_to_one :: restart_strategy where
  "one_to_one = restart_strategy_default\<lparr>rs_mode := OneForOne\<rparr>"

definition one_for_all :: restart_strategy where
  "one_for_all = restart_strategy_default\<lparr>rs_mode := OneForAll\<rparr>"

definition with_intensity_and_period :: "nat \<Rightarrow> nat \<Rightarrow> restart_strategy \<Rightarrow> restart_strategy" where
  "with_intensity_and_period intensity period s = s\<lparr>rs_intensity := intensity, rs_period := period\<rparr>"

datatype restart_type = Permanent | Transient | Temporary

fun should_restart :: "bool \<Rightarrow> restart_type \<Rightarrow> bool" where
  "should_restart abnormal Permanent = True"
| "should_restart abnormal Transient = abnormal"
| "should_restart abnormal Temporary = False"

datatype restart_action = Restart restart_mode | Shutdown

record restart_state =
  rst_strategy :: restart_strategy
  rst_restart_history :: "nat list"

definition restart_state_new :: "restart_strategy \<Rightarrow> restart_state" where
  "restart_state_new strategy = \<lparr>rst_strategy = strategy, rst_restart_history = []\<rparr>"

text \<open>Instants are in nanoseconds; \<^verbatim>\<open>saturating_duration_since\<close> is subtraction of naturals.\<close>

definition evaluate_restart :: "nat \<Rightarrow> restart_state \<Rightarrow> (restart_state \<times> restart_action) option" where
  "evaluate_restart now st =
     (let strategy = rst_strategy st; history = rst_restart_history st;
          push = (\<lambda>h. Some (st\<lparr>rst_restart_history := h @ [now]\<rparr>, Restart (rs_mode strategy)))
      in if rs_intensity strategy = 0 then Some (st, Shutdown)
         else if length history = rs_intensity strategy
         then
           (case history of
              [] \<Rightarrow> None
            | oldest # rest \<Rightarrow> if now - oldest < rs_period strategy then Some (st, Shutdown) else push rest)
         else push history)"

section \<open>Children\<close>

datatype edge = Hosted | Needed

datatype registration = Declared | Spawned

record child_options =
  co_restart :: "restart_type option"
  co_significant :: bool
  co_edge :: "edge option"
  co_forwards_failures :: bool

record child_config =
  cc_restart :: restart_type
  cc_significant :: bool
  cc_edge :: edge
  cc_forwards_failures :: bool

definition resolve :: "registration \<Rightarrow> bool \<Rightarrow> child_options \<Rightarrow> child_config" where
  "resolve registration restartable opts =
     (let edge =
            (case co_edge opts of
               Some e \<Rightarrow> e
             | None \<Rightarrow> if registration = Declared \<and> restartable \<and> co_restart opts = None then Needed else Hosted);
          restart =
            (if restartable
             then (case co_restart opts of
                     Some r \<Rightarrow> r
                   | None \<Rightarrow> (case edge of Needed \<Rightarrow> Permanent | Hosted \<Rightarrow> Transient))
             else Temporary)
      in \<lparr>cc_restart = restart, cc_significant = co_significant opts, cc_edge = edge,
          cc_forwards_failures = co_forwards_failures opts\<rparr>)"

definition can_stop_owner :: "child_config \<Rightarrow> bool" where
  "can_stop_owner c \<longleftrightarrow> cc_restart c \<noteq> Permanent \<and> (cc_significant c \<or> cc_edge c = Needed)"

record child_entry =
  ce_name :: string
  ce_config :: child_config
  ce_dynamic :: bool

datatype auto_shutdown = Never | AnySignificant | AllSignificant

record supervisor =
  sv_child_specs :: "child_entry list"
  sv_restart_strategy :: restart_strategy
  sv_auto_shutdown :: auto_shutdown

definition add_child :: "string \<Rightarrow> bool \<Rightarrow> child_options \<Rightarrow> supervisor \<Rightarrow> supervisor" where
  "add_child name restartable opts sv =
     sv\<lparr>sv_child_specs := sv_child_specs sv @
       [\<lparr>ce_name = name, ce_config = resolve Declared restartable opts, ce_dynamic = False\<rparr>]\<rparr>"

section \<open>The running supervisor\<close>

text \<open>
  The errors of a supervisor, with the name of the source and without its causes: \<open>RestartLimitExceeded\<close> is
  \<^verbatim>\<open>SupervisorError::Shutdown\<close>, \<open>UncleanShutdown\<close> is \<^verbatim>\<open>SupervisorError::ShutdownTimedOut\<close>.
\<close>

datatype supervisor_error =
    InvalidName string
  | FailedToInitialize string
  | RestartLimitExceeded
  | SignificantChildExited
  | UncleanShutdown nat

datatype worker_result =
    Finished
  | InitializationFailed "string option"
  | RuntimeFailed
  | ShutdownTimedOut nat

text \<open>What the owner of a nested supervisor sees of the end of its run.\<close>

fun worker_result_of :: "supervisor_error + unit \<Rightarrow> worker_result" where
  "worker_result_of (Inr _) = Finished"
| "worker_result_of (Inl (FailedToInitialize child_name)) = InitializationFailed (Some child_name)"
| "worker_result_of (Inl (UncleanShutdown aborted)) = ShutdownTimedOut aborted"
| "worker_result_of (Inl _) = RuntimeFailed"

text \<open>
  The identifiers and the gauge of dynamic children are atomics that wrap; \<open>su_workers\<close> are the identifiers of the
  running tasks, and \<open>su_queue\<close> holds the spawn requests of handles.
\<close>

record running =
  su_id_counter :: nat
  su_active :: nat
  su_roster :: "(nat, child_entry) hash_map"
  su_workers :: "nat list"
  su_restart_state :: restart_state
  su_significant_remaining :: nat
  su_queue :: "(nat \<times> child_entry) list"

definition fetch_add_u64 :: "nat \<Rightarrow> nat" where
  "fetch_add_u64 n = (n + 1) mod 2 ^ 64"

definition fetch_sub_usize :: "nat \<Rightarrow> nat" where
  "fetch_sub_usize n = (n + 2 ^ 64 - 1) mod 2 ^ 64"

text \<open>Whether a task can be started is the choice of \<open>starts\<close>, for the identifier and the entry.\<close>

type_synonym starts = "nat \<Rightarrow> child_entry \<Rightarrow> supervisor_error + unit"

definition add_worker :: "starts \<Rightarrow> nat \<Rightarrow> child_entry \<Rightarrow> running \<Rightarrow> running \<times> (supervisor_error + unit)" where
  "add_worker starts child_id entry s =
     (case starts child_id entry of
        Inl e \<Rightarrow> (s, Inl e)
      | Inr _ \<Rightarrow> (s\<lparr>su_workers := su_workers s @ [child_id]\<rparr>, Inr ()))"

fun spawn_static_children ::
    "starts \<Rightarrow> child_entry list \<Rightarrow> running \<Rightarrow> running \<times> (supervisor_error + unit)" where
  "spawn_static_children starts [] s = (s, Inr ())"
| "spawn_static_children starts (entry # entries) s =
     (let child_id = su_id_counter s;
          (s1, r) = add_worker starts child_id entry (s\<lparr>su_id_counter := fetch_add_u64 (su_id_counter s)\<rparr>)
      in case r of
           Inl e \<Rightarrow> (s1, Inl e)
         | Inr _ \<Rightarrow> spawn_static_children starts entries (s1\<lparr>su_roster := hm_insert child_id entry (su_roster s1)\<rparr>))"

fun respawn_children_one_for_all ::
    "starts \<Rightarrow> child_entry list \<Rightarrow> running \<Rightarrow> running \<times> (supervisor_error + unit)" where
  "respawn_children_one_for_all starts [] s = (s, Inr ())"
| "respawn_children_one_for_all starts (entry # entries) s =
     (if cc_restart (ce_config entry) = Temporary then respawn_children_one_for_all starts entries s
      else
        (let child_id = su_id_counter s;
             (s1, r) = add_worker starts child_id entry (s\<lparr>su_id_counter := fetch_add_u64 (su_id_counter s)\<rparr>)
         in case r of
              Inl e \<Rightarrow> (s1, Inl e)
            | Inr _ \<Rightarrow> respawn_children_one_for_all starts entries (s1\<lparr>su_roster := hm_insert child_id entry (su_roster s1)\<rparr>)))"

definition significant_children :: "(nat, child_entry) hash_map \<Rightarrow> nat" where
  "significant_children roster = length (filter (\<lambda>(_, e). cc_significant (ce_config e)) roster)"

definition spawn_dynamic_child :: "starts \<Rightarrow> nat \<times> child_entry \<Rightarrow> running \<Rightarrow> running" where
  "spawn_dynamic_child starts spawn s =
     (let (child_id, spec) = spawn; entry = spec\<lparr>ce_dynamic := True\<rparr>;
          (s1, r) = add_worker starts child_id entry s
      in case r of
           Inl e \<Rightarrow> s1
         | Inr _ \<Rightarrow>
             s1\<lparr>su_significant_remaining :=
                  su_significant_remaining s1 + (if cc_significant (ce_config entry) then 1 else 0),
                su_active := fetch_add_u64 (su_active s1),
                su_roster := hm_insert child_id entry (su_roster s1)\<rparr>)"

text \<open>\<^verbatim>\<open>SupervisorHandle::spawn\<close> on a running supervisor, and one drain of the queue.\<close>

definition handle_spawn :: "string \<Rightarrow> bool \<Rightarrow> child_options \<Rightarrow> running \<Rightarrow> running" where
  "handle_spawn name restartable opts s =
     s\<lparr>su_id_counter := fetch_add_u64 (su_id_counter s),
       su_queue := su_queue s @
         [(su_id_counter s, \<lparr>ce_name = name, ce_config = resolve Spawned restartable opts, ce_dynamic = True\<rparr>)]\<rparr>"

definition spawn_drain_batch :: nat where
  "spawn_drain_batch = 64"

definition drain_spawns :: "starts \<Rightarrow> running \<Rightarrow> running" where
  "drain_spawns starts s =
     (let batch = take spawn_drain_batch (su_queue s)
      in fold (spawn_dynamic_child starts) batch (s\<lparr>su_queue := drop spawn_drain_batch (su_queue s)\<rparr>))"

text \<open>The run begins.\<close>

definition supervise_start :: "starts \<Rightarrow> supervisor \<Rightarrow> nat \<Rightarrow> running \<times> (supervisor_error + unit)" where
  "supervise_start starts sv id_counter =
     (let s0 = \<lparr>su_id_counter = id_counter, su_active = 0, su_roster = [], su_workers = [],
                su_restart_state = restart_state_new (sv_restart_strategy sv), su_significant_remaining = 0, su_queue = []\<rparr>;
          (s, r) = spawn_static_children starts (sv_child_specs sv) s0
      in case r of
           Inl e \<Rightarrow> (s, Inl e)
         | Inr _ \<Rightarrow> (s\<lparr>su_significant_remaining := significant_children (su_roster s)\<rparr>, Inr ()))"

text \<open>
  The end of the task \<open>child_id\<close>: the state, and the outcome when the loop is left. The result \<^const>\<open>None\<close> is a failed
  \<^verbatim>\<open>expect\<close>.
\<close>

definition child_not_restarted ::
    "auto_shutdown \<Rightarrow> nat \<Rightarrow> child_entry \<Rightarrow> bool \<Rightarrow> running \<Rightarrow> running \<times> (supervisor_error + unit) option" where
  "child_not_restarted policy child_id entry abnormal s =
     (let config = ce_config entry;
          s1 = s\<lparr>su_roster := hm_remove child_id (su_roster s)\<rparr>;
          s2 = (if ce_dynamic entry then s1\<lparr>su_active := fetch_sub_usize (su_active s1)\<rparr> else s1)
      in if cc_edge config = Needed then (s2, Some (Inl SignificantChildExited))
         else if abnormal \<and> cc_forwards_failures config then (s2, Some (Inl SignificantChildExited))
         else if cc_significant config
         then
           (let remaining = sat_sub (su_significant_remaining s2) 1;
                s3 = s2\<lparr>su_significant_remaining := remaining\<rparr>;
                auto_shutdown = (case policy of Never \<Rightarrow> False | AnySignificant \<Rightarrow> True | AllSignificant \<Rightarrow> remaining = 0)
            in (s3, if auto_shutdown then Some (Inl SignificantChildExited) else None))
         else (s2, None))"

definition group_restart :: "starts \<Rightarrow> child_entry list \<Rightarrow> running \<Rightarrow> running \<times> (supervisor_error + unit) option" where
  "group_restart starts specs s =
     (let s1 = s\<lparr>su_workers := [], su_roster := [], su_active := 0\<rparr>;
          (s2, r) = respawn_children_one_for_all starts specs s1
      in case r of
           Inl e \<Rightarrow> (s2, Some (Inl e))
         | Inr _ \<Rightarrow> (s2\<lparr>su_significant_remaining := significant_children (su_roster s2)\<rparr>, None))"

definition child_exited ::
    "supervisor \<Rightarrow> starts \<Rightarrow> nat \<Rightarrow> nat \<Rightarrow> worker_result \<Rightarrow> running \<Rightarrow>
     (running \<times> (supervisor_error + unit) option) option" where
  "child_exited sv starts now child_id result s0 =
     (let s = s0\<lparr>su_workers := remove1 child_id (su_workers s0)\<rparr>
      in case map_of (su_roster s) child_id of
           None \<Rightarrow> None
         | Some entry \<Rightarrow>
             (case result of
                InitializationFailed inner \<Rightarrow>
                  Some (s, Some (Inl (FailedToInitialize
                    (case inner of None \<Rightarrow> ce_name entry | Some i \<Rightarrow> ce_name entry @ ''/'' @ i))))
              | _ \<Rightarrow>
                  (let abnormal = (result \<noteq> Finished)
                   in if \<not> should_restart abnormal (cc_restart (ce_config entry))
                      then Some (child_not_restarted (sv_auto_shutdown sv) child_id entry abnormal s)
                      else do {
                        (rst, action) \<leftarrow> evaluate_restart now (su_restart_state s);
                        let s1 = s\<lparr>su_restart_state := rst\<rparr>;
                        case action of
                          Shutdown \<Rightarrow> Some (s1, Some (Inl RestartLimitExceeded))
                        | Restart OneForOne \<Rightarrow>
                            (let (s2, r) = add_worker starts child_id entry s1
                             in Some (s2, case r of Inl e \<Rightarrow> Some (Inl e) | Inr _ \<Rightarrow> None))
                        | Restart OneForAll \<Rightarrow> Some (group_restart starts (sv_child_specs sv) s1)
                      })))"

text \<open>
  The end of a run: the queue is closed and discarded, every task is stopped, the gauge is reset; a clean outcome becomes
  an error when tasks had to be aborted.
\<close>

definition supervise_end :: "nat \<Rightarrow> supervisor_error + unit \<Rightarrow> running \<Rightarrow> running \<times> (supervisor_error + unit)" where
  "supervise_end aborted outcome s =
     (s\<lparr>su_queue := [], su_workers := [], su_active := 0\<rparr>,
      if outcome = Inr () \<and> 0 < aborted then Inl (UncleanShutdown aborted) else outcome)"

datatype supervisor_event =
    Exited starts nat nat worker_result
  | SpawnRequested string bool child_options
  | SpawnsReceived starts
  | ShutdownRequested

definition supervise_event ::
    "supervisor \<Rightarrow> supervisor_event \<Rightarrow> running \<Rightarrow> (running \<times> (supervisor_error + unit) option) option" where
  "supervise_event sv ev s =
     (case ev of
        Exited starts now child_id result \<Rightarrow> child_exited sv starts now child_id result s
      | SpawnRequested name restartable opts \<Rightarrow> Some (handle_spawn name restartable opts s, None)
      | SpawnsReceived starts \<Rightarrow> Some (drain_spawns starts s, None)
      | ShutdownRequested \<Rightarrow> Some (s, Some (Inr ())))"

text \<open>
  The states of the loop after a number of events: only a running task can end, and the loop goes on while there is no
  outcome.
\<close>

inductive supervises :: "supervisor \<Rightarrow> nat \<Rightarrow> nat \<Rightarrow> running \<Rightarrow> bool" for sv id0 where
  started: "supervise_start starts sv id0 = (s, Inr ()) \<Longrightarrow> supervises sv id0 0 s"
| event: "supervises sv id0 n s \<Longrightarrow> (\<And>starts now child_id result. ev = Exited starts now child_id result \<Longrightarrow> child_id \<in> set (su_workers s)) \<Longrightarrow>
    supervise_event sv ev s = Some (s', None) \<Longrightarrow> supervises sv id0 (Suc n) s'"

end
