(* ===== verification/Supervisor_Invariant.thy ===== *)
theory Supervisor_Invariant
  imports Supervisor
begin

text \<open>
  The invariant of a running supervisor: the roster and the running tasks agree, the counters count the roster, and the
  children its work depends on are there. The restart history is the tail of all restarts.
\<close>

section \<open>Restart limits\<close>

text \<open>A sequence of evaluations, with the instants at which a restart was allowed.\<close>

fun evaluate_restarts :: "nat list \<Rightarrow> restart_state \<Rightarrow> nat list \<Rightarrow> (restart_state \<times> nat list) option" where
  "evaluate_restarts [] st allowed = Some (st, allowed)"
| "evaluate_restarts (now # ts) st allowed = do {
     (st', action) \<leftarrow> evaluate_restart now st;
     evaluate_restarts ts st' (if action = Shutdown then allowed else allowed @ [now])
   }"

definition history_ok :: "restart_state \<Rightarrow> nat list \<Rightarrow> bool" where
  "history_ok st allowed \<longleftrightarrow>
     rst_restart_history st = drop (length allowed - rs_intensity (rst_strategy st)) allowed"

lemma evaluate_restart_history:
  assumes "history_ok st allowed" "evaluate_restart now st = Some (st', action)"
  shows "history_ok st' (if action = Shutdown then allowed else allowed @ [now])" "rst_strategy st' = rst_strategy st"
proof -
  let ?n = "rs_intensity (rst_strategy st)" and ?h = "rst_restart_history st"
  have h: "?h = drop (length allowed - ?n) allowed" using assms(1) by (simp add: history_ok_def)
  have len: "length ?h = min (length allowed) ?n" by (simp add: h min_def)
  show "rst_strategy st' = rst_strategy st"
    using assms(2) by (auto simp: evaluate_restart_def Let_def split: if_splits list.splits)
  show "history_ok st' (if action = Shutdown then allowed else allowed @ [now])"
  proof (cases "action = Shutdown")
    case True
    then have "st' = st" using assms(2) by (auto simp: evaluate_restart_def Let_def split: if_splits list.splits)
    then show ?thesis using assms(1) True by simp
  next
    case False
    show ?thesis
    proof (cases "length ?h = ?n")
      case full: True
      obtain oldest rest where r: "?h = oldest # rest" "st' = st\<lparr>rst_restart_history := rest @ [now]\<rparr>"
        using assms(2) False full by (auto simp: evaluate_restart_def Let_def split: if_splits list.splits)
      have le: "?n \<le> length allowed" using full len by simp
      have "rest = drop 1 (drop (length allowed - ?n) allowed)" using r(1) h by (metis drop0 drop_Suc_Cons One_nat_def)
      then have "rest = drop (Suc (length allowed - ?n)) allowed" by simp
      moreover have "0 < ?n" using r(1) full by auto
      ultimately show ?thesis using False le r(2) by (simp add: history_ok_def Suc_diff_le)
    next
      case False
      then have "length allowed < ?n" using len by auto
      moreover have "st' = st\<lparr>rst_restart_history := ?h @ [now]\<rparr>" "action \<noteq> Shutdown"
        using assms(2) False \<open>action \<noteq> Shutdown\<close> by (auto simp: evaluate_restart_def Let_def split: if_splits)
      ultimately show ?thesis by (simp add: history_ok_def h)
    qed
  qed
qed

lemma evaluate_restart_returns: "history_ok st allowed \<Longrightarrow> evaluate_restart now st \<noteq> None"
  by (auto simp: evaluate_restart_def history_ok_def Let_def split: list.splits)

text \<open>For instants in order, a restart is refused exactly when the last period saw as many as are allowed.\<close>

lemma evaluate_restart_limit:
  assumes "history_ok st allowed" "sorted (allowed @ [now])" "evaluate_restart now st = Some (st', action)"
  shows "action = Shutdown \<longleftrightarrow>
    rs_intensity (rst_strategy st) \<le> length (filter (\<lambda>t. now - t < rs_period (rst_strategy st)) allowed)"
proof -
  let ?n = "rs_intensity (rst_strategy st)" and ?p = "rs_period (rst_strategy st)"
  let ?recent = "\<lambda>t. now - t < ?p" and ?k = "length allowed - ?n"
  have h: "rst_restart_history st = drop ?k allowed" using assms(1) by (simp add: history_ok_def)
  have mono: "?recent t'" if "?recent t" "t \<le> t'" for t t' using that by simp
  show ?thesis
  proof (cases "?n = 0 \<or> length allowed < ?n")
    case True
    have "\<not> ?n \<le> length (filter ?recent allowed)" if "length allowed < ?n"
      using that length_filter_le [of ?recent allowed] by linarith
    then show ?thesis using assms(3) h True
      by (auto simp: evaluate_restart_def Let_def split: if_splits list.splits)
  next
    case False
    then have k: "?k < length allowed" "length (drop ?k allowed) = ?n" "0 < ?n" by auto
    have srt: "sorted allowed" using assms(2) by (simp add: sorted_append)
    have d: "drop ?k allowed = allowed ! ?k # drop (Suc ?k) allowed" using k(1) by (rule Cons_nth_drop_Suc [symmetric])
    have act: "action = Shutdown \<longleftrightarrow> ?recent (allowed ! ?k)"
      using assms(3) h d k(2,3) by (auto simp: evaluate_restart_def Let_def split: if_splits)
    have split: "length (filter ?recent allowed) =
        length (filter ?recent (take i allowed)) + length (filter ?recent (drop i allowed))" for i
      by (metis append_take_drop_id filter_append length_append)
    show ?thesis
    proof (cases "?recent (allowed ! ?k)")
      case True
      have "allowed ! ?k \<le> t" if "t \<in> set (drop ?k allowed)" for t
        using sorted_wrt_drop [OF srt, of ?k] that unfolding d by auto
      then have "filter ?recent (drop ?k allowed) = drop ?k allowed" using True mono by (auto simp: filter_id_conv)
      then show ?thesis using act True split [of ?k] k(2) by simp
    next
      case False
      have "t \<le> allowed ! ?k" if "t \<in> set (take (Suc ?k) allowed)" for t
        using sorted_wrt_take [OF srt, of "Suc ?k"] that unfolding take_Suc_conv_app_nth [OF k(1)] sorted_append by auto
      then have "filter ?recent (take (Suc ?k) allowed) = []" using False mono by (auto simp: filter_empty_conv)
      moreover have "length (filter ?recent (drop (Suc ?k) allowed)) < ?n"
        using length_filter_le [of ?recent "drop (Suc ?k) allowed"] k unfolding length_drop by linarith
      ultimately show ?thesis using act False split [of "Suc ?k"] by simp
    qed
  qed
qed

section \<open>Rosters\<close>

lemma hm_remove_mset:
  assumes "hm_ok m" "map_of m k = Some v"
  shows "mset m = add_mset (k, v) (mset (hm_remove k m))"
  using assms
proof (induction m)
  case (Cons p m)
  have "hm_remove k m = m" if "k \<notin> fst ` set m" for k using that by (force simp: hm_remove_def filter_id_conv)
  then have id: "filter (\<lambda>p. fst p \<noteq> k) m = m" if "k \<notin> fst ` set m" for k using that by (simp add: hm_remove_def)
  show ?case
  proof (cases "fst p = k")
    case True
    then have "mset (hm_remove k (p # m)) = mset m" using Cons.prems id [of k] by (simp add: hm_ok_def hm_remove_def del: mset_filter)
    then show ?thesis using Cons.prems True by (cases p) simp
  qed (use Cons in \<open>auto simp: hm_ok_def hm_remove_def split: if_splits\<close>)
qed simp

lemma hm_remove_keys: "fst ` set (hm_remove k m) = fst ` set m - {k}"
  by (auto simp: hm_remove_def image_iff)

lemma filter_hm_remove:
  assumes "hm_ok m" "map_of m k = Some v"
  shows "length (filter P m) = length (filter P (hm_remove k m)) + (if P (k, v) then 1 else 0)"
proof -
  have "size (filter_mset P (mset m)) = size (filter_mset P (add_mset (k, v) (mset (hm_remove k m))))"
    using hm_remove_mset [OF assms] by simp
  then show ?thesis by (simp flip: mset_filter)
qed

lemma length_keys_between:
  assumes "hm_ok m" "\<And>k. k \<in> fst ` set m \<Longrightarrow> a \<le> k \<and> k < b"
  shows "length m \<le> b - (a :: nat)"
proof -
  have "length m = card (fst ` set m)" using assms(1) by (metis hm_ok_def distinct_card length_map set_map)
  also have "\<dots> \<le> card {a..<b}" by (rule card_mono) (use assms(2) in \<open>meson atLeastLessThan_iff finite_atLeastLessThan subsetI\<close>)+
  finally show ?thesis by simp
qed

section \<open>Starting children\<close>

lemma respawn_filter:
  "respawn_children_one_for_all starts es s =
   spawn_static_children starts (filter (\<lambda>e. cc_restart (ce_config e) \<noteq> Temporary) es) s"
  by (induction es arbitrary: s) (auto simp: Let_def split: sum.splits prod.splits)

lemma spawn_static_children_result:
  assumes "spawn_static_children starts es s = (s', Inr ())"
    and "\<forall>k \<in> fst ` set (su_roster s). k < su_id_counter s" "su_id_counter s + length es < 2 ^ 64"
  shows "s' = s\<lparr>su_id_counter := su_id_counter s + length es,
    su_workers := su_workers s @ [su_id_counter s..<su_id_counter s + length es],
    su_roster := su_roster s @ zip [su_id_counter s..<su_id_counter s + length es] es\<rparr>"
  using assms
proof (induction es arbitrary: s)
  case (Cons e es)
  let ?c = "su_id_counter s"
  let ?s = "s\<lparr>su_id_counter := Suc ?c, su_workers := su_workers s @ [?c], su_roster := su_roster s @ [(?c, e)]\<rparr>"
  have new: "\<not> hm_contains (su_roster s) ?c" using Cons.prems(2) by (auto simp: hm_contains_def)
  have wrap: "fetch_add_u64 ?c = Suc ?c" using Cons.prems(3) by (simp add: fetch_add_u64_def)
  have "spawn_static_children starts es ?s = (s', Inr ())"
    using Cons.prems(1) wrap hm_insert_new [OF new] by (auto simp: add_worker_def Let_def split: sum.splits)
  then have "s' = ?s\<lparr>su_id_counter := su_id_counter ?s + length es,
    su_workers := su_workers ?s @ [su_id_counter ?s..<su_id_counter ?s + length es],
    su_roster := su_roster ?s @ zip [su_id_counter ?s..<su_id_counter ?s + length es] es\<rparr>"
    by (rule Cons.IH) (use Cons.prems in \<open>auto intro: less_SucI\<close>)
  moreover have "[?c..<?c + length (e # es)] = ?c # [Suc ?c..<Suc ?c + length es]" by (simp add: upt_conv_Cons del: upt_Suc)
  ultimately show ?case by (simp del: upt_Suc)
qed simp

section \<open>The invariant\<close>

text \<open>
  The children whose loss must stop the supervisor, as far as the restart mode lets it notice: a group restart gives up
  one-shot children.
\<close>

definition kept_child :: "supervisor \<Rightarrow> child_entry \<Rightarrow> bool" where
  "kept_child sv e \<longleftrightarrow> cc_edge (ce_config e) = Needed \<and>
     (rs_mode (sv_restart_strategy sv) = OneForOne \<or> cc_restart (ce_config e) \<noteq> Temporary)"

definition kept_children :: "supervisor \<Rightarrow> child_entry multiset" where
  "kept_children sv = filter_mset (kept_child sv) (mset (sv_child_specs sv))"

definition declared_ok :: "supervisor \<Rightarrow> bool" where
  "declared_ok sv \<longleftrightarrow> (\<forall>e \<in> set (sv_child_specs sv). \<not> ce_dynamic e)"

definition ids_ok :: "nat \<Rightarrow> (nat \<times> child_entry) list \<Rightarrow> running \<Rightarrow> bool" where
  "ids_ok id0 pend s \<longleftrightarrow>
     hm_ok (su_roster s) \<and> distinct (map fst (pend @ su_queue s)) \<and>
     fst ` set (pend @ su_queue s) \<inter> fst ` set (su_roster s) = {} \<and>
     (\<forall>i \<in> fst ` set (su_roster s) \<union> fst ` set (pend @ su_queue s). id0 \<le> i \<and> i < su_id_counter s)"

definition counts_ok :: "running \<Rightarrow> bool" where
  "counts_ok s \<longleftrightarrow> su_active s = length (filter (\<lambda>(_, e). ce_dynamic e) (su_roster s)) \<and>
     su_significant_remaining s = significant_children (su_roster s)"

definition tasks_ok :: "running \<Rightarrow> bool" where
  "tasks_ok s \<longleftrightarrow> distinct (su_workers s) \<and> set (su_workers s) = fst ` set (su_roster s)"

definition restarts_ok :: "supervisor \<Rightarrow> running \<Rightarrow> bool" where
  "restarts_ok sv s \<longleftrightarrow> rst_strategy (su_restart_state s) = sv_restart_strategy sv \<and>
     (\<exists>allowed. history_ok (su_restart_state s) allowed)"

definition kept_ok :: "supervisor \<Rightarrow> running \<Rightarrow> bool" where
  "kept_ok sv s \<longleftrightarrow> kept_children sv \<subseteq># mset (map snd (su_roster s))"

definition running_ok :: "supervisor \<Rightarrow> nat \<Rightarrow> (nat \<times> child_entry) list \<Rightarrow> running \<Rightarrow> bool" where
  "running_ok sv id0 pend s \<longleftrightarrow>
     ids_ok id0 pend s \<and> counts_ok s \<and> tasks_ok s \<and> restarts_ok sv s \<and> kept_ok sv s"

lemmas running_ok_defs = running_ok_def ids_ok_def counts_ok_def tasks_ok_def restarts_ok_def kept_ok_def

text \<open>A roster of freshly started static children.\<close>

lemma fresh_children_ok:
  assumes "declared_ok sv" "set es \<subseteq> set (sv_child_specs sv)" "kept_children sv \<subseteq># mset es"
    and "distinct (map fst (su_queue s))" "\<forall>i \<in> fst ` set (su_queue s). id0 \<le> i \<and> i < c" "id0 \<le> c" "restarts_ok sv s"
  shows "running_ok sv id0 [] (s\<lparr>su_id_counter := c + length es, su_workers := [c..<c + length es],
    su_roster := zip [c..<c + length es] es, su_active := 0,
    su_significant_remaining := significant_children (zip [c..<c + length es] es)\<rparr>)"
proof -
  have keys: "fst ` set (zip [c..<c + length es] es) = {c..<c + length es}"
    by (metis atLeastLessThan_upt diff_add_inverse length_upt map_fst_zip set_map)
  have "e \<in> set es" if "(i, e) \<in> set (zip [c..<c + length es] es)" for i e using that by (rule set_zip_rightD)
  then have "filter (\<lambda>(_, e). ce_dynamic e) (zip [c..<c + length es] es) = []"
    using assms(1,2) by (auto simp: filter_empty_conv declared_ok_def)
  moreover have "i < c" if "i \<in> fst ` set (su_queue s)" for i using that assms(5) by blast
  ultimately show ?thesis
    using assms keys by (auto simp: running_ok_defs hm_ok_def less_imp_le intro: trans_less_add1)
qed

lemma supervise_start_ok:
  assumes "supervise_start starts sv id0 = (s, Inr ())" "declared_ok sv" "id0 + length (sv_child_specs sv) < 2 ^ 64"
  shows "running_ok sv id0 [] s" "su_id_counter s = id0 + length (sv_child_specs sv)"
proof -
  let ?es = "sv_child_specs sv"
  let ?s0 = "\<lparr>su_id_counter = id0, su_active = 0, su_roster = [], su_workers = [],
    su_restart_state = restart_state_new (sv_restart_strategy sv), su_significant_remaining = 0, su_queue = []\<rparr>"
  obtain s1 where s1: "spawn_static_children starts ?es ?s0 = (s1, Inr ())"
      "s = s1\<lparr>su_significant_remaining := significant_children (su_roster s1)\<rparr>"
    using assms(1) by (auto simp: supervise_start_def Let_def split: prod.splits sum.splits)
  have s: "s = ?s0\<lparr>su_id_counter := id0 + length ?es, su_workers := [id0..<id0 + length ?es],
      su_roster := zip [id0..<id0 + length ?es] ?es, su_active := 0,
      su_significant_remaining := significant_children (zip [id0..<id0 + length ?es] ?es)\<rparr>"
    using spawn_static_children_result [OF s1(1)] assms(3) s1(2) by simp
  show "su_id_counter s = id0 + length ?es" by (simp add: s)
  have "history_ok (restart_state_new (sv_restart_strategy sv)) []" by (simp add: history_ok_def restart_state_new_def)
  then have "restarts_ok sv ?s0" by (auto simp: restarts_ok_def restart_state_new_def)
  then show "running_ok sv id0 [] s"
    unfolding s using assms(2) by (intro fresh_children_ok) (auto simp: kept_children_def)
qed

lemma spawn_dynamic_child_ok:
  assumes "running_ok sv id0 (p # pend) s" "su_id_counter s < 2 ^ 64"
  shows "running_ok sv id0 pend (spawn_dynamic_child starts p s)"
    and "su_id_counter (spawn_dynamic_child starts p s) = su_id_counter s"
proof -
  obtain child_id spec where p: "p = (child_id, spec)" by force
  have new: "\<not> hm_contains (su_roster s) child_id" using assms(1) p by (auto simp: running_ok_defs hm_contains_def)
  have "length (p # su_roster s) \<le> su_id_counter s - id0"
    by (rule length_keys_between) (use assms(1) in \<open>auto simp: running_ok_defs hm_ok_def\<close>)
  moreover have "length (filter (\<lambda>(_, e). ce_dynamic e) (su_roster s)) \<le> length (su_roster s)" by (rule length_filter_le)
  ultimately have a: "length (filter (\<lambda>(_, e). ce_dynamic e) (su_roster s)) + 1 < 2 ^ 64"
    using assms(2) unfolding list.size by linarith
  show "su_id_counter (spawn_dynamic_child starts p s) = su_id_counter s"
    by (simp add: spawn_dynamic_child_def p add_worker_def Let_def split: sum.splits)
  show "running_ok sv id0 pend (spawn_dynamic_child starts p s)"
    using assms a hm_insert_new [OF new] new
    by (auto simp: spawn_dynamic_child_def p add_worker_def Let_def fetch_add_u64_def running_ok_defs hm_contains_def hm_ok_def
        significant_children_def subset_mset_grow split: sum.splits)
qed

lemma drain_spawns_ok:
  assumes "running_ok sv id0 [] s" "su_id_counter s < 2 ^ 64"
  shows "running_ok sv id0 [] (drain_spawns starts s)" "su_id_counter (drain_spawns starts s) = su_id_counter s"
proof -
  have loop: "running_ok sv id0 [] (fold (spawn_dynamic_child starts) pend s') \<and>
      su_id_counter (fold (spawn_dynamic_child starts) pend s') = su_id_counter s'"
    if "running_ok sv id0 pend s'" "su_id_counter s' < 2 ^ 64" for pend s'
    using that
  proof (induction pend arbitrary: s')
    case (Cons p pend)
    note ok = spawn_dynamic_child_ok [OF Cons.prems, of starts]
    then show ?case using Cons.IH [OF ok(1)] Cons.prems(2) by simp
  qed simp
  let ?s = "s\<lparr>su_queue := drop spawn_drain_batch (su_queue s)\<rparr>"
  have "running_ok sv id0 (take spawn_drain_batch (su_queue s)) ?s" using assms(1) by (simp add: running_ok_defs)
  then show "running_ok sv id0 [] (drain_spawns starts s)" "su_id_counter (drain_spawns starts s) = su_id_counter s"
    using loop [of _ ?s] assms(2) by (simp_all add: drain_spawns_def Let_def)
qed

lemma handle_spawn_ok:
  assumes "running_ok sv id0 [] s" "su_id_counter s + 1 < 2 ^ 64" "id0 \<le> su_id_counter s"
  shows "running_ok sv id0 [] (handle_spawn name restartable opts s)"
    and "su_id_counter (handle_spawn name restartable opts s) = su_id_counter s + 1"
proof -
  have c: "fetch_add_u64 (su_id_counter s) = su_id_counter s + 1" using assms(2) by (simp add: fetch_add_u64_def)
  then show "su_id_counter (handle_spawn name restartable opts s) = su_id_counter s + 1" by (simp add: handle_spawn_def)
  have "su_id_counter s \<notin> fst ` set (su_queue s)" "su_id_counter s \<notin> fst ` set (su_roster s)"
    using assms(1) by (auto simp: running_ok_defs)
  then show "running_ok sv id0 [] (handle_spawn name restartable opts s)"
    using assms c by (auto simp: handle_spawn_def running_ok_defs intro: less_SucI)
qed

lemma child_not_restarted_ok:
  assumes "running_ok sv id0 [] s" "map_of (su_roster s) child_id = Some entry" "su_id_counter s < 2 ^ 64"
    and "child_not_restarted policy child_id entry abnormal (s\<lparr>su_workers := remove1 child_id (su_workers s)\<rparr>) = (s', None)"
  shows "running_ok sv id0 [] s'" "su_id_counter s' = su_id_counter s"
proof -
  have h: "hm_ok (su_roster s)" using assms(1) by (simp add: running_ok_defs)
  note remove = hm_remove_mset [OF h assms(2)] filter_hm_remove [OF h assms(2)] hm_remove_keys
  have hosted: "cc_edge (ce_config entry) \<noteq> Needed" using assms(4) by (auto simp: child_not_restarted_def Let_def)
  then have "entry \<notin># kept_children sv" by (simp add: kept_children_def kept_child_def)
  then have kept: "kept_children sv \<subseteq># mset (map snd (hm_remove child_id (su_roster s)))"
    using assms(1) remove(1) by (auto simp: running_ok_defs dest: subset_mset_shrink)
  have "length (su_roster s) \<le> su_id_counter s - id0"
    by (rule length_keys_between [OF h]) (use assms(1) in \<open>simp add: running_ok_def ids_ok_def\<close>)
  then have a: "length (filter (\<lambda>(_, e). ce_dynamic e) (su_roster s)) < 2 ^ 64"
    using assms(3) length_filter_le [of "\<lambda>(_, e). ce_dynamic e" "su_roster s"] by linarith
  let ?r = "hm_remove child_id (su_roster s)"
  have s': "s' = s\<lparr>su_workers := remove1 child_id (su_workers s), su_roster := ?r,
      su_active := (if ce_dynamic entry then fetch_sub_usize (su_active s) else su_active s),
      su_significant_remaining := su_significant_remaining s - (if cc_significant (ce_config entry) then 1 else 0)\<rparr>"
    using assms(4) by (auto simp: child_not_restarted_def Let_def sat_sub_def split: if_splits)
  then show "su_id_counter s' = su_id_counter s" by simp
  have "ids_ok id0 [] s'"
    using assms(1) remove(3) [of child_id "su_roster s"] by (simp add: s' running_ok_def ids_ok_def) blast
  moreover have "counts_ok s'"
    using assms(1) remove(2) [of "\<lambda>(_, e). ce_dynamic e"] remove(2) [of "\<lambda>(_, e). cc_significant (ce_config e)"] a
    by (simp add: s' running_ok_def counts_ok_def significant_children_def fetch_sub_usize_def)
  moreover have "tasks_ok s'"
    using assms(1) remove(3) [of child_id "su_roster s"] by (simp add: s' running_ok_def tasks_ok_def)
  ultimately show "running_ok sv id0 [] s'"
    using assms(1) kept by (simp add: running_ok_def s' restarts_ok_def kept_ok_def)
qed

definition group_children :: "supervisor \<Rightarrow> child_entry list" where
  "group_children sv = filter (\<lambda>e. cc_restart (ce_config e) \<noteq> Temporary) (sv_child_specs sv)"

lemma group_restart_result:
  assumes "group_restart starts (sv_child_specs sv) s = (s', None)" "su_id_counter s + length (sv_child_specs sv) < 2 ^ 64"
  shows "s' = s\<lparr>su_id_counter := su_id_counter s + length (group_children sv),
    su_workers := [su_id_counter s..<su_id_counter s + length (group_children sv)],
    su_roster := zip [su_id_counter s..<su_id_counter s + length (group_children sv)] (group_children sv), su_active := 0,
    su_significant_remaining :=
      significant_children (zip [su_id_counter s..<su_id_counter s + length (group_children sv)] (group_children sv))\<rparr>"
proof -
  let ?s = "s\<lparr>su_workers := [], su_roster := [], su_active := 0\<rparr>"
  obtain s2 where s2: "spawn_static_children starts (group_children sv) ?s = (s2, Inr ())"
      "s' = s2\<lparr>su_significant_remaining := significant_children (su_roster s2)\<rparr>"
    using assms(1) by (auto simp: group_restart_def respawn_filter group_children_def Let_def split: prod.splits sum.splits)
  have "length (group_children sv) \<le> length (sv_child_specs sv)" by (simp add: group_children_def)
  then show ?thesis using spawn_static_children_result [OF s2(1)] assms(2) s2(2) by simp
qed

lemma group_restart_ok:
  assumes "group_restart starts (sv_child_specs sv) (s\<lparr>su_workers := w, su_restart_state := rst\<rparr>) = (s', None)"
    and "running_ok sv id0 [] s" "su_id_counter s + length (sv_child_specs sv) < 2 ^ 64" "id0 \<le> su_id_counter s"
    and "declared_ok sv" "rs_mode (sv_restart_strategy sv) = OneForAll"
    and "rst_strategy rst = sv_restart_strategy sv" "history_ok rst allowed"
  shows "running_ok sv id0 [] s'" "su_id_counter s' = su_id_counter s + length (group_children sv)"
proof -
  let ?s = "s\<lparr>su_workers := w, su_restart_state := rst\<rparr>"
  note result = group_restart_result [OF assms(1), simplified, OF assms(3) [simplified]]
  then show "su_id_counter s' = su_id_counter s + length (group_children sv)" by simp
  have "kept_children sv = filter_mset (kept_child sv) (mset (group_children sv))"
    using assms(6) by (auto simp: kept_children_def kept_child_def group_children_def filter_filter_mset intro!: filter_mset_cong)
  then have "kept_children sv \<subseteq># mset (group_children sv)" by (simp add: multiset_filter_subset)
  moreover have "restarts_ok sv ?s" using assms(7,8) by (auto simp: restarts_ok_def)
  moreover have "distinct (map fst (su_queue s))" "\<forall>i \<in> fst ` set (su_queue s). id0 \<le> i \<and> i < su_id_counter s"
    using assms(2) by (auto simp: running_ok_def ids_ok_def)
  ultimately have "running_ok sv id0 [] (?s\<lparr>su_id_counter := su_id_counter s + length (group_children sv),
    su_workers := [su_id_counter s..<su_id_counter s + length (group_children sv)],
    su_roster := zip [su_id_counter s..<su_id_counter s + length (group_children sv)] (group_children sv), su_active := 0,
    su_significant_remaining :=
      significant_children (zip [su_id_counter s..<su_id_counter s + length (group_children sv)] (group_children sv))\<rparr>)"
    using assms(4,5) by (intro fresh_children_ok) (auto simp: group_children_def)
  then show "running_ok sv id0 [] s'" using result by simp
qed

text \<open>The end of a running task is handled without a failed \<^verbatim>\<open>expect\<close>.\<close>

lemma evaluate_restart_mode:
  "evaluate_restart now st = Some (st', Restart mode) \<Longrightarrow> mode = rs_mode (rst_strategy st)"
  by (auto simp: evaluate_restart_def Let_def split: if_splits list.splits)

lemma running_in_roster: "running_ok sv id0 pend s \<Longrightarrow> child_id \<in> set (su_workers s) \<Longrightarrow> \<exists>entry. map_of (su_roster s) child_id = Some entry"
  by (metis running_ok_def tasks_ok_def map_of_eq_None_iff not_None_eq)

lemma child_exited_returns:
  assumes "running_ok sv id0 [] s" "child_id \<in> set (su_workers s)"
  shows "child_exited sv starts now child_id result s \<noteq> None"
proof -
  obtain entry where "map_of (su_roster s) child_id = Some entry" using running_in_roster [OF assms] by blast
  moreover obtain rst action where "evaluate_restart now (su_restart_state s) = Some (rst, action)"
    using assms(1) evaluate_restart_returns [of "su_restart_state s" _ now] by (fastforce simp: running_ok_def restarts_ok_def)
  ultimately show ?thesis
    by (auto simp: child_exited_def Let_def split: worker_result.splits restart_action.splits restart_mode.splits prod.splits)
qed

lemma child_exited_ok:
  assumes "child_exited sv starts now child_id result s = Some (s', None)" "running_ok sv id0 [] s" "child_id \<in> set (su_workers s)"
    and "su_id_counter s + length (sv_child_specs sv) < 2 ^ 64" "id0 \<le> su_id_counter s" "declared_ok sv"
  shows "running_ok sv id0 [] s' \<and> su_id_counter s \<le> su_id_counter s' \<and>
    su_id_counter s' \<le> su_id_counter s + length (sv_child_specs sv)"
proof -
  obtain entry where e: "map_of (su_roster s) child_id = Some entry" using running_in_roster [OF assms(2,3)] by blast
  let ?s = "s\<lparr>su_workers := remove1 child_id (su_workers s)\<rparr>"
  obtain allowed where rst: "rst_strategy (su_restart_state s) = sv_restart_strategy sv" "history_ok (su_restart_state s) allowed"
    using assms(2) by (auto simp: running_ok_def restarts_ok_def)
  have group: "length (group_children sv) \<le> length (sv_child_specs sv)" by (simp add: group_children_def)
  have ended: "\<And>inner. result \<noteq> InitializationFailed inner" using assms(1) e by (auto simp: child_exited_def)
  consider
    (stays) "child_not_restarted (sv_auto_shutdown sv) child_id entry (result \<noteq> Finished) ?s = (s', None)"
  | (one) rst' where "evaluate_restart now (su_restart_state s) = Some (rst', Restart OneForOne)"
      "s' = ?s\<lparr>su_workers := su_workers ?s @ [child_id], su_restart_state := rst'\<rparr>"
  | (all) rst' where "evaluate_restart now (su_restart_state s) = Some (rst', Restart OneForAll)"
      "group_restart starts (sv_child_specs sv) (?s\<lparr>su_restart_state := rst'\<rparr>) = (s', None)"
  proof (cases "should_restart (result \<noteq> Finished) (cc_restart (ce_config entry))")
    case False
    then show ?thesis using stays assms(1) e ended by (auto simp: child_exited_def Let_def split: worker_result.splits)
  next
    case True
    obtain rst' action where ev: "evaluate_restart now (su_restart_state s) = Some (rst', action)"
      using evaluate_restart_returns [OF rst(2), of now] by auto
    show ?thesis using one all assms(1) e ended True ev
      by (cases result; cases action) (auto simp: child_exited_def add_worker_def Let_def
          split: restart_action.splits restart_mode.splits sum.splits)
  qed
  then show ?thesis
  proof cases
    case stays
    show ?thesis using child_not_restarted_ok [OF assms(2) e _ stays] assms(4) by simp
  next
    case one
    note history = evaluate_restart_history [OF rst(2) one(1)]
    have "running_ok sv id0 [] s'"
      using assms(2,3) history rst(1) by (auto simp: one(2) running_ok_defs)
    then show ?thesis by (simp add: one(2))
  next
    case all
    note history = evaluate_restart_history [OF rst(2) all(1)]
    have "rs_mode (sv_restart_strategy sv) = OneForAll" using evaluate_restart_mode [OF all(1)] rst(1) by simp
    from group_restart_ok [OF all(2) assms(2,4,5,6) this _ history(1)] history(2) rst(1) group show ?thesis by simp
  qed
qed

section \<open>Every reachable state\<close>

text \<open>Identifiers do not wrap: an event takes at most one for every static child, and one for a spawn request.\<close>

definition ids_bound :: "supervisor \<Rightarrow> nat \<Rightarrow> nat \<Rightarrow> nat" where
  "ids_bound sv id0 n = id0 + Suc n * Suc (length (sv_child_specs sv))"

lemma supervises_ok:
  assumes "supervises sv id0 n s" "declared_ok sv" "ids_bound sv id0 n \<le> u64_max"
  shows "running_ok sv id0 [] s \<and> id0 \<le> su_id_counter s \<and> su_id_counter s < ids_bound sv id0 n"
  using assms
proof (induction rule: supervises.induct)
  case (started starts s)
  then have "id0 + length (sv_child_specs sv) < 2 ^ 64" by (simp add: ids_bound_def u64_max_def)
  then show ?case using supervise_start_ok [OF started(1)] started(2) by (simp add: ids_bound_def)
next
  case (event n s ev s')
  let ?k = "length (sv_child_specs sv)"
  have grow: "ids_bound sv id0 (Suc n) = ids_bound sv id0 n + Suc ?k" by (simp add: ids_bound_def)
  then have ok: "running_ok sv id0 [] s" "id0 \<le> su_id_counter s" "su_id_counter s < ids_bound sv id0 n"
    using event by simp_all
  have room: "su_id_counter s + Suc ?k < 2 ^ 64" using ok(3) grow event.prems(2) by (simp add: u64_max_def)
  have "running_ok sv id0 [] s' \<and> su_id_counter s \<le> su_id_counter s' \<and> su_id_counter s' \<le> su_id_counter s + Suc ?k"
  proof (cases ev)
    case (Exited starts now child_id result)
    then have "child_exited sv starts now child_id result s = Some (s', None)" "child_id \<in> set (su_workers s)"
      using event.hyps by (auto simp: supervise_event_def)
    from child_exited_ok [OF this(1) ok(1) this(2) _ ok(2) event.prems(1)] room show ?thesis by simp
  next
    case (SpawnRequested name restartable opts)
    then show ?thesis using event.hyps(3) handle_spawn_ok [OF ok(1) _ ok(2)] room by (auto simp: supervise_event_def)
  next
    case (SpawnsReceived starts)
    then show ?thesis using event.hyps(3) drain_spawns_ok [OF ok(1)] room by (auto simp: supervise_event_def)
  next
    case ShutdownRequested
    then show ?thesis using event.hyps(3) by (simp add: supervise_event_def)
  qed
  then show ?case using ok grow by simp
qed

end
