(* ===== verification/Supervisor_Properties.thy ===== *)
theory Supervisor_Properties
  imports Supervisor_Invariant "HOL-Library.Sublist"
begin

text \<open>
  What a supervisor promises: the restart limit, the agreement of its roster with the running tasks, and that it does not
  run without the children it needs. The last lemma shows where the promise ends.
\<close>

section \<open>Restart limits\<close>

lemma sorted_subseq: "subseq xs ys \<Longrightarrow> sorted ys \<Longrightarrow> sorted xs"
proof (induction rule: list_emb.induct)
  case (list_emb_Cons2 x y xs ys)
  moreover have "set xs \<subseteq> set ys" using list_emb_Cons2(2) by (auto elim: list_emb_set)
  ultimately show ?case by auto
qed auto

lemma evaluate_restarts_history:
  assumes "history_ok st allowed"
  shows "\<exists>st' allowed' taken. evaluate_restarts ts st allowed = Some (st', allowed') \<and> history_ok st' allowed' \<and>
    rst_strategy st' = rst_strategy st \<and> allowed' = allowed @ taken \<and> subseq taken ts"
  using assms
proof (induction ts arbitrary: st allowed)
  case (Cons now ts)
  obtain st1 action where ev: "evaluate_restart now st = Some (st1, action)"
    using evaluate_restart_returns [OF Cons.prems, of now] by auto
  let ?allowed = "if action = Shutdown then allowed else allowed @ [now]"
  note h = evaluate_restart_history [OF Cons.prems ev]
  from Cons.IH [OF h(1)] obtain st' taken where "evaluate_restarts ts st1 ?allowed = Some (st', ?allowed @ taken)"
      "history_ok st' (?allowed @ taken)" "rst_strategy st' = rst_strategy st1" "subseq taken ts" by blast
  then show ?case using ev h(2) by (cases "action = Shutdown") (auto intro: list_emb_Cons)
qed auto

text \<open>
  C17. The restart limit is exact: for failures at the instants \<open>ts\<close> in order, no evaluation panics, and the one at
  \<open>now\<close> gives up exactly when the restarts allowed in the last period before \<open>now\<close> are at least as many as the
  intensity, however few of them the state remembers.
\<close>

theorem restart_limit_exact:
  assumes "sorted (ts @ [now])"
  shows "\<exists>st allowed st' action.
    evaluate_restarts ts (restart_state_new strategy) [] = Some (st, allowed) \<and>
    evaluate_restart now st = Some (st', action) \<and>
    (action = Shutdown \<longleftrightarrow>
      rs_intensity strategy \<le> length (filter (\<lambda>t. now - t < rs_period strategy) allowed))"
proof -
  have h: "history_ok (restart_state_new strategy) []" by (simp add: history_ok_def restart_state_new_def)
  obtain st allowed where ev: "evaluate_restarts ts (restart_state_new strategy) [] = Some (st, allowed)"
    "history_ok st allowed" "rst_strategy st = strategy" "subseq allowed ts"
    using evaluate_restarts_history [OF h, of ts] by (auto simp: restart_state_new_def)
  obtain st' action where now: "evaluate_restart now st = Some (st', action)"
    using evaluate_restart_returns [OF ev(2), of now] by auto
  have "subseq (allowed @ [now]) (ts @ [now])" using ev(4) by (intro list_emb_append_mono) auto
  then have "sorted (allowed @ [now])" using assms by (rule sorted_subseq)
  from evaluate_restart_limit [OF ev(2) this now] show ?thesis using ev now by auto
qed

theorem restart_limit_exact_witness:
  "\<exists>st allowed st' action.
    evaluate_restarts [0, 1, 10] (restart_state_new \<lparr>rs_mode = OneForOne, rs_intensity = 2, rs_period = 5\<rparr>) [] = Some (st, allowed) \<and>
    evaluate_restart 12 st = Some (st', action) \<and>
    (action = Shutdown \<longleftrightarrow> 2 \<le> length (filter (\<lambda>t. 12 - t < 5) allowed))"
  using restart_limit_exact [of "[0, 1, 10]" 12 "\<lparr>rs_mode = OneForOne, rs_intensity = 2, rs_period = 5\<rparr>"] by simp

section \<open>The running supervisor\<close>

text \<open>
  A supervisor of a worker that can start again and of a needed worker that cannot, which lets one restart happen; and
  its run through the failure of the first.
\<close>

definition pair_supervisor :: "restart_mode \<Rightarrow> supervisor" where
  "pair_supervisor mode =
     add_child ''once'' False \<lparr>co_restart = None, co_significant = False, co_edge = Some Needed, co_forwards_failures = False\<rparr>
       (add_child ''loop'' True \<lparr>co_restart = None, co_significant = False, co_edge = None, co_forwards_failures = False\<rparr>
         \<lparr>sv_child_specs = [], sv_restart_strategy = \<lparr>rs_mode = mode, rs_intensity = 1, rs_period = 5\<rparr>, sv_auto_shutdown = Never\<rparr>)"

definition pair_after_failure :: "restart_mode \<Rightarrow> running option" where
  "pair_after_failure mode =
     map_option fst (supervise_event (pair_supervisor mode) (Exited (\<lambda>_ _. Inr ()) 0 0 RuntimeFailed)
       (fst (supervise_start (\<lambda>_ _. Inr ()) (pair_supervisor mode) 0)))"

lemmas pair_simps = pair_supervisor_def pair_after_failure_def add_child_def resolve_def supervise_start_def add_worker_def
  restart_state_new_def significant_children_def fetch_add_u64_def supervise_event_def child_exited_def evaluate_restart_def
  group_restart_def

lemma pair_supervised: "\<exists>s. pair_after_failure mode = Some s \<and> supervises (pair_supervisor mode) 0 1 s"
proof -
  let ?starts = "\<lambda>_ _. Inr ()" and ?sv = "pair_supervisor mode"
  let ?s = "fst (supervise_start ?starts ?sv 0)"
  obtain s where s: "supervise_event ?sv (Exited ?starts 0 0 RuntimeFailed) ?s = Some (s, None)"
    by (cases mode) (auto simp: pair_simps Let_def)
  have start: "supervise_start ?starts ?sv 0 = (?s, Inr ())" by (simp add: pair_simps)
  have "0 \<in> set (su_workers ?s)" by (simp add: pair_simps)
  then have "supervises ?sv 0 (Suc 0) s" using supervises.started [OF start] s by (intro supervises.event) auto
  then show ?thesis using s by (simp add: pair_after_failure_def)
qed

lemma add_child_declared: "declared_ok sv \<Longrightarrow> declared_ok (add_child name restartable opts sv)"
  by (simp add: declared_ok_def add_child_def)

text \<open>
  C20. In every state of a run the tasks are exactly the children of the roster, one each; the gauge of dynamic children
  and the number of significant children count the roster; and the end of any task is handled without a panic, whatever
  its result and the clock.
\<close>

theorem running_children_accounted:
  assumes "supervises sv id0 n s" "declared_ok sv" "ids_bound sv id0 n \<le> u64_max"
  shows "distinct (su_workers s) \<and> set (su_workers s) = fst ` set (su_roster s) \<and>
    su_active s = length (filter (\<lambda>(_, e). ce_dynamic e) (su_roster s)) \<and>
    su_significant_remaining s = significant_children (su_roster s) \<and>
    (\<forall>child_id \<in> set (su_workers s). \<forall>starts now result. child_exited sv starts now child_id result s \<noteq> None)"
proof -
  have ok: "running_ok sv id0 [] s" using supervises_ok [OF assms] by simp
  then show ?thesis using child_exited_returns [OF ok] by (simp add: running_ok_def tasks_ok_def counts_ok_def)
qed

lemma pair_bounds: "declared_ok (pair_supervisor mode)" "ids_bound (pair_supervisor mode) 0 1 \<le> u64_max"
  by (simp_all add: declared_ok_def ids_bound_def pair_supervisor_def add_child_def u64_max_def)

theorem running_children_accounted_witness:
  "\<exists>s. supervises (pair_supervisor OneForOne) 0 1 s \<and> su_workers s = [1, 0] \<and> set (su_workers s) = fst ` set (su_roster s) \<and>
    su_active s = 0 \<and> child_exited (pair_supervisor OneForOne) (\<lambda>_ _. Inr ()) 3 1 RuntimeFailed s \<noteq> None"
proof -
  obtain s where s: "pair_after_failure OneForOne = Some s" "supervises (pair_supervisor OneForOne) 0 1 s"
    using pair_supervised by blast
  have v: "su_workers s = [1, 0]" "su_active s = 0" using s(1) by (auto simp: pair_simps)
  note ok = running_children_accounted [OF s(2) pair_bounds]
  have "child_exited (pair_supervisor OneForOne) (\<lambda>_ _. Inr ()) 3 1 RuntimeFailed s \<noteq> None" using ok v(1) by simp
  moreover have "set (su_workers s) = fst ` set (su_roster s)" using ok by blast
  ultimately show ?thesis using s(2) v by blast
qed

text \<open>
  C12. A supervisor does not run without the children it needs: as long as its loop goes on, every declared child that is
  needed and that a group restart would bring back is running, as often as it was declared.
\<close>

theorem needed_children_run:
  assumes "supervises sv id0 n s" "declared_ok sv" "ids_bound sv id0 n \<le> u64_max"
  shows "filter_mset (kept_child sv) (mset (sv_child_specs sv)) \<subseteq># mset (map (the \<circ> map_of (su_roster s)) (su_workers s))"
proof -
  have ok: "hm_ok (su_roster s)" "distinct (su_workers s)" "set (su_workers s) = set (map fst (su_roster s))"
    and kept: "kept_children sv \<subseteq># mset (map snd (su_roster s))"
    using supervises_ok [OF assms] by (auto simp: running_ok_defs)
  have "mset (su_workers s) = mset (map fst (su_roster s))"
    using ok by (metis hm_ok_def set_eq_iff_mset_eq_distinct)
  then have "mset (map (the \<circ> map_of (su_roster s)) (su_workers s)) = mset (map (the \<circ> map_of (su_roster s)) (map fst (su_roster s)))"
    by (metis mset_map)
  also have "map (the \<circ> map_of (su_roster s)) (map fst (su_roster s)) = map snd (su_roster s)"
    using ok(1) by (auto simp: hm_ok_def)
  finally show ?thesis using kept by (simp only: kept_children_def)
qed

theorem needed_children_run_witness:
  "\<exists>s. supervises (pair_supervisor OneForOne) 0 1 s \<and>
    mset (sv_child_specs (pair_supervisor OneForOne)) \<subseteq># mset (map (the \<circ> map_of (su_roster s)) (su_workers s))"
proof -
  obtain s where s: "supervises (pair_supervisor OneForOne) 0 1 s" using pair_supervised by blast
  have "filter_mset (kept_child (pair_supervisor OneForOne)) (mset (sv_child_specs (pair_supervisor OneForOne))) =
      mset (sv_child_specs (pair_supervisor OneForOne))"
    by (simp add: kept_child_def pair_supervisor_def add_child_def resolve_def)
  then show ?thesis using needed_children_run [OF s pair_bounds] s by metis
qed


end
