(* ===== verification/Rust_Numbers.thy ===== *)
theory Rust_Numbers
  imports Rust_Prelude
begin

text \<open>
  Decimal text: the parsers of Rust's integers (\<^verbatim>\<open>str::parse\<close>), the printer they are the inverse of, and the
  searches in strings that go with them.
\<close>

section \<open>Digits\<close>

definition digit_value :: "char \<Rightarrow> nat" where
  "digit_value c = of_char c - 48"

definition digits_value :: "string \<Rightarrow> nat" where
  "digits_value s = foldl (\<lambda>n c. 10 * n + digit_value c) 0 s"

definition all_digits :: "string \<Rightarrow> bool" where
  "all_digits s \<longleftrightarrow> list_all is_ascii_digit s"

lemma all_digits_simps [simp]:
  "all_digits []" "all_digits (c # s) \<longleftrightarrow> is_ascii_digit c \<and> all_digits s" "all_digits (s @ t) \<longleftrightarrow> all_digits s \<and> all_digits t"
  by (simp_all add: all_digits_def)

lemma digits_value_Nil [simp]: "digits_value [] = 0"
  by (simp add: digits_value_def)

lemma digits_value_snoc [simp]: "digits_value (s @ [c]) = 10 * digits_value s + digit_value c"
  by (simp add: digits_value_def)

text \<open>
  \<^verbatim>\<open>parse\<close> of an unsigned type with the given maximum: an optional plus sign, then digits, at least one. For a signed
  type the sign may be a minus.
\<close>

definition parse_unsigned :: "nat \<Rightarrow> string \<Rightarrow> nat option" where
  "parse_unsigned limit s =
     (let digits = (case s of c # cs \<Rightarrow> if c = CHR ''+'' then cs else s | [] \<Rightarrow> [])
      in if digits \<noteq> [] \<and> all_digits digits \<and> digits_value digits \<le> limit then Some (digits_value digits) else None)"

definition parse_signed :: "nat \<Rightarrow> string \<Rightarrow> int option" where
  "parse_signed bits s =
     (case s of
        [] \<Rightarrow> None
      | c # cs \<Rightarrow>
          (if c = CHR ''-''
           then (if cs \<noteq> [] \<and> all_digits cs \<and> digits_value cs \<le> 2 ^ (bits - 1) then Some (- int (digits_value cs)) else None)
           else map_option int (parse_unsigned (2 ^ (bits - 1) - 1) s)))"

text \<open>The digits of a number, as \<^verbatim>\<open>Display\<close> prints them.\<close>

fun show_nat :: "nat \<Rightarrow> string" where
  "show_nat n = (if n < 10 then [char_of (48 + n)] else show_nat (n div 10) @ [char_of (48 + n mod 10)])"

declare show_nat.simps [simp del]

lemma digit_char:
  assumes "d < 10"
  shows "digit_value (char_of (48 + d)) = d" "is_ascii_digit (char_of (48 + d))"
proof -
  have "of_char (char_of (48 + d) :: char) = 48 + d" using assms by simp
  then show "digit_value (char_of (48 + d)) = d" "is_ascii_digit (char_of (48 + d))"
    using assms by (simp_all add: digit_value_def is_ascii_digit_def)
qed

lemma show_nat_digits: "all_digits (show_nat n) \<and> show_nat n \<noteq> [] \<and> digits_value (show_nat n) = n"
proof (induction n rule: show_nat.induct)
  case (1 n)
  show ?case
  proof (cases "n < 10")
    case True
    then show ?thesis using digit_char [of n] digits_value_snoc [of "[]"] by (subst (1 2 3) show_nat.simps) simp
  next
    case False
    then show ?thesis using 1 digit_char [of "n mod 10"] by (subst (1 2 3) show_nat.simps) simp
  qed
qed

lemma digit_not_sign: "is_ascii_digit c \<Longrightarrow> c \<noteq> CHR ''+'' \<and> c \<noteq> CHR ''-''"
  by (auto simp: is_ascii_digit_def)

lemma parse_unsigned_digits:
  assumes "all_digits s" "s \<noteq> []"
  shows "parse_unsigned limit s = (if digits_value s \<le> limit then Some (digits_value s) else None)"
  using assms digit_not_sign by (cases s) (auto simp: parse_unsigned_def)

lemma parse_show_nat: "n \<le> limit \<Longrightarrow> parse_unsigned limit (show_nat n) = Some n"
  using show_nat_digits [of n] by (simp add: parse_unsigned_digits)

lemma digit_value_less: "is_ascii_digit c \<Longrightarrow> digit_value c < 10"
  by (auto simp: is_ascii_digit_def digit_value_def)

lemma digits_value_less: "all_digits s \<Longrightarrow> digits_value s < 10 ^ length s"
proof (induction s rule: rev_induct)
  case (snoc c s)
  then show ?case using digit_value_less [of c] by simp
qed simp

section \<open>Splitting\<close>

text \<open>\<^verbatim>\<open>str::split\<close> for a one-byte separator.\<close>

fun split_char :: "char \<Rightarrow> string \<Rightarrow> string list" where
  "split_char d [] = [[]]"
| "split_char d (c # cs) =
     (case split_char d cs of
        [] \<Rightarrow> [[]]
      | p # ps \<Rightarrow> if c = d then [] # p # ps else (c # p) # ps)"

lemma split_char_append: "d \<notin> set a \<Longrightarrow> split_char d (a @ d # b) = a # split_char d b"
proof (induction a)
  case Nil
  have "split_char d b \<noteq> []" by (induction b) (auto split: list.splits)
  then show ?case by (auto split: list.splits)
qed auto

lemma split_char_none: "d \<notin> set a \<Longrightarrow> split_char d a = [a]"
  by (induction a) auto

end
