(* ===== verification/Retry_Queue.thy ===== *)
theory Retry_Queue
  imports Rust_Numbers Float64
begin

text \<open>
  The queue of requests to be retried (\<^verbatim>\<open>lib/saluki-io/src/net/util/retry/queue/mod.rs\<close>) and its part on disk
  (\<^verbatim>\<open>queue/persisted.rs\<close>).

  The directory of a queue is a map from file names to contents, which the operations thread through. What the disk does
  during a call, with the clock and the random number, is the argument \<open>env\<close>; the calls of a loop get the environments of
  a function. The entries are the type of the queue, with the trait \<^verbatim>\<open>Retryable\<close> as a record of operations; its
  serialisation (\<^verbatim>\<open>serde_json\<close>) and the text of an instant (\<^verbatim>\<open>chrono\<close>) are parameters.
\<close>

section \<open>Entries and results\<close>

type_synonym bytes = "8 word list"

type_synonym files = "(string, bytes) hash_map"

record 't retryable =
  rt_size_bytes :: "'t \<Rightarrow> nat"
  rt_event_count :: "'t \<Rightarrow> nat"
  rt_data_point_count :: "'t \<Rightarrow> nat"
  rt_to_vec :: "'t \<Rightarrow> bytes option"
  rt_from_slice :: "bytes \<Rightarrow> 't option"

text \<open>An instant is its seconds and nanoseconds since the epoch.\<close>

record chrono =
  ch_format :: "nat \<times> nat \<Rightarrow> string"
  ch_parse :: "string \<Rightarrow> (nat \<times> nat) option"

datatype open_result = Opened | DirectoryNotFound | OpenFailed

record disk_env =
  de_create_fails :: bool
  de_open :: open_result
  de_listing_fails_after :: "nat option"
  de_read_fails :: "string \<Rightarrow> bool"
  de_remove_fails :: "string \<Rightarrow> bool"
  de_write_left :: "bytes option option"
  de_total_space :: "nat option"
  de_available_space :: "nat option"
  de_now :: "nat \<times> nat"
  de_nonce :: nat

datatype retry_error =
    EntryTooLarge nat nat
  | StoragePathEmpty
  | CreateFailed
  | ScanFailed
  | CleanupFailed
  | SerializeFailed
  | PersistTooLarge
  | DiskLimitFailed
  | ReadFailed
  | DeserializeFailed
  | RemoveFailed
  | WriteFailed

record push_result =
  items_dropped :: nat
  events_dropped :: nat
  data_points_dropped :: nat

definition push_result_default :: push_result where
  "push_result_default = \<lparr>items_dropped = 0, events_dropped = 0, data_points_dropped = 0\<rparr>"

definition had_drops :: "push_result \<Rightarrow> bool" where
  "had_drops r \<longleftrightarrow> 0 < items_dropped r"

definition merge_results :: "push_result \<Rightarrow> push_result \<Rightarrow> push_result option" where
  "merge_results a b = do {
     items \<leftarrow> u64_add (items_dropped a) (items_dropped b);
     events \<leftarrow> u64_add (events_dropped a) (events_dropped b);
     points \<leftarrow> u64_add (data_points_dropped a) (data_points_dropped b);
     Some \<lparr>items_dropped = items, events_dropped = events, data_points_dropped = points\<rparr>
   }"

definition track_dropped_item :: "'t retryable \<Rightarrow> 't \<Rightarrow> push_result \<Rightarrow> push_result option" where
  "track_dropped_item rt t r = do {
     items \<leftarrow> u64_add (items_dropped r) 1;
     events \<leftarrow> u64_add (events_dropped r) (rt_event_count rt t);
     points \<leftarrow> u64_add (data_points_dropped r) (rt_data_point_count rt t);
     Some \<lparr>items_dropped = items, events_dropped = events, data_points_dropped = points\<rparr>
   }"

section \<open>File names\<close>

definition datetime_to_timestamp :: "nat \<times> nat \<Rightarrow> nat" where
  "datetime_to_timestamp dt = fst dt * 1000000000 + snd dt"

definition generate_timestamped_filename :: "chrono \<Rightarrow> disk_env \<Rightarrow> string \<times> nat" where
  "generate_timestamped_filename chrono env =
     (''retry-'' @ ch_format chrono (de_now env) @ ''-'' @ show_nat (de_nonce env) @ ''.json'',
      datetime_to_timestamp (de_now env))"

text \<open>\<^verbatim>\<open>Path::file_stem\<close>: the name without its last extension.\<close>

definition file_stem :: "string \<Rightarrow> string" where
  "file_stem name =
     (let r = dropWhile (\<lambda>c. c \<noteq> CHR ''.'') (rev name)
      in if r = [] \<or> tl r = [] then name else rev (tl r))"

definition decode_timestamped_filename :: "chrono \<Rightarrow> string \<Rightarrow> nat option" where
  "decode_timestamped_filename chrono name =
     (case split_char (CHR ''-'') (file_stem name) of
        prefix # timestamp_str # nonce # _ \<Rightarrow>
          (if prefix \<noteq> ''retry'' \<or> parse_unsigned u64_max nonce = None then None
           else map_option datetime_to_timestamp (ch_parse chrono timestamp_str))
      | _ \<Rightarrow> None)"

section \<open>The queue on disk\<close>

record persisted_entry =
  pe_path :: string
  pe_timestamp :: nat
  pe_size_bytes :: nat

definition try_from_path :: "chrono \<Rightarrow> string \<Rightarrow> nat \<Rightarrow> persisted_entry option" where
  "try_from_path chrono path size_bytes =
     map_option (\<lambda>ts. \<lparr>pe_path = path, pe_timestamp = ts, pe_size_bytes = size_bytes\<rparr>)
       (decode_timestamped_filename chrono path)"

record persisted_queue =
  pq_entries :: "persisted_entry list"
  pq_total_on_disk_bytes :: nat
  pq_max_on_disk_bytes :: nat
  pq_storage_max_disk_ratio :: f64
  pq_max_age_days :: nat
  pq_entries_dropped :: nat

definition f64_ceil :: "f64 \<Rightarrow> f64" where
  "f64_ceil x = f64_neg (f64_floor (f64_neg x))"

definition on_disk_bytes_limit :: "disk_env \<Rightarrow> f64 \<Rightarrow> nat \<Rightarrow> retry_error + nat" where
  "on_disk_bytes_limit env ratio max_on_disk_bytes =
     (case (de_total_space env, de_available_space env) of
        (Some total_space, Some available_space) \<Rightarrow>
          (let disk_reserved = f64_mul (f64_of_nat total_space) (f64_sub f64_one ratio);
               available_disk_usage = f64_to_u64 (f64_ceil (f64_sub (f64_of_nat available_space) disk_reserved))
           in Inr (min max_on_disk_bytes available_disk_usage))
      | _ \<Rightarrow> Inl DiskLimitFailed)"

definition available_capacity_bytes :: "disk_env \<Rightarrow> persisted_queue \<Rightarrow> retry_error + nat" where
  "available_capacity_bytes env q =
     map_sum id (\<lambda>limit. sat_sub limit (pq_total_on_disk_bytes q))
       (on_disk_bytes_limit env (pq_storage_max_disk_ratio q) (pq_max_on_disk_bytes q))"

definition take_entries_dropped :: "persisted_queue \<Rightarrow> persisted_queue \<times> nat" where
  "take_entries_dropped q = (q\<lparr>pq_entries_dropped := 0\<rparr>, pq_entries_dropped q)"

text \<open>
  A scan of the directory, in the order in which it lists the files: the entries are sorted by their timestamps and the
  total is their sum. A failed scan leaves the state as it was.
\<close>

definition refresh_entry_state ::
    "chrono \<Rightarrow> disk_env \<Rightarrow> files \<Rightarrow> persisted_queue \<Rightarrow> (persisted_queue \<times> (retry_error + unit)) option" where
  "refresh_entry_state chrono env fs q =
     (if de_open env \<noteq> Opened \<or> (\<exists>n \<in> set_option (de_listing_fails_after env). n \<le> length fs) then Some (q, Inl ScanFailed)
      else
        (let entries =
               sort_by (\<lambda>a b. pe_timestamp a \<le> pe_timestamp b)
                 (List.map_filter (\<lambda>(path, content). try_from_path chrono path (length content)) fs)
         in do {
              total_bytes \<leftarrow> sum_u64 0 (map pe_size_bytes entries);
              Some (q\<lparr>pq_entries := entries, pq_total_on_disk_bytes := total_bytes\<rparr>, Inr ())
            }))"

definition from_root_path ::
    "chrono \<Rightarrow> disk_env \<Rightarrow> files \<Rightarrow> nat \<Rightarrow> f64 \<Rightarrow> nat \<Rightarrow> (retry_error + persisted_queue) option" where
  "from_root_path chrono env fs max_on_disk_bytes ratio max_age_days =
     (if de_create_fails env then Some (Inl CreateFailed)
      else do {
        (q, r) \<leftarrow> refresh_entry_state chrono env fs
          \<lparr>pq_entries = [], pq_total_on_disk_bytes = 0, pq_max_on_disk_bytes = max_on_disk_bytes,
           pq_storage_max_disk_ratio = ratio, pq_max_age_days = max_age_days, pq_entries_dropped = 0\<rparr>;
        Some (case r of Inl e \<Rightarrow> Inl e | Inr _ \<Rightarrow> Inr q)
      })"

text \<open>Removal of outdated files, for the names of the listing; a file that cannot be removed stays.\<close>

fun remove_outdated ::
    "chrono \<Rightarrow> disk_env \<Rightarrow> nat \<Rightarrow> string list \<Rightarrow> files \<Rightarrow> nat \<Rightarrow> (files \<times> nat) option" where
  "remove_outdated chrono env cutoff [] fs removed = Some (fs, removed)"
| "remove_outdated chrono env cutoff (name # names) fs removed =
     (case decode_timestamped_filename chrono name of
        None \<Rightarrow> remove_outdated chrono env cutoff names fs removed
      | Some ts \<Rightarrow>
          (if ts < cutoff \<and> \<not> de_remove_fails env name
           then (if removed < u32_max then remove_outdated chrono env cutoff names (hm_remove name fs) (removed + 1) else None)
           else remove_outdated chrono env cutoff names fs removed))"

definition remove_outdated_retry_files ::
    "chrono \<Rightarrow> disk_env \<Rightarrow> nat \<Rightarrow> files \<Rightarrow> (files \<times> (retry_error + nat)) option" where
  "remove_outdated_retry_files chrono env max_age_days fs =
     (case de_open env of
        DirectoryNotFound \<Rightarrow> Some (fs, Inr 0)
      | OpenFailed \<Rightarrow> Some (fs, Inl CleanupFailed)
      | Opened \<Rightarrow>
          (let cutoff = datetime_to_timestamp (de_now env) - max_age_days * 24 * 3600 * 1000000000;
               names = map fst fs
           in case de_listing_fails_after env of
                None \<Rightarrow> map_option (\<lambda>(fs', n). (fs', Inr n)) (remove_outdated chrono env cutoff names fs 0)
              | Some n \<Rightarrow>
                  (if n \<le> length fs
                   then map_option (\<lambda>(fs', _). (fs', Inl CleanupFailed)) (remove_outdated chrono env cutoff (take n names) fs 0)
                   else map_option (\<lambda>(fs', n). (fs', Inr n)) (remove_outdated chrono env cutoff names fs 0))))"

definition remove_stale_files ::
    "chrono \<Rightarrow> disk_env \<Rightarrow> files \<Rightarrow> persisted_queue \<Rightarrow> (persisted_queue \<times> files \<times> (retry_error + nat)) option" where
  "remove_stale_files chrono env fs q = do {
     (fs', r) \<leftarrow> remove_outdated_retry_files chrono env (pq_max_age_days q) fs;
     case r of
       Inl e \<Rightarrow> Some (q, fs', Inl e)
     | Inr removed \<Rightarrow> do {
         (q', r') \<leftarrow> refresh_entry_state chrono env fs' q;
         Some (q', fs', case r' of Inl e \<Rightarrow> Inl e | Inr _ \<Rightarrow> Inr removed)
       }
   }"

text \<open>An entry is read, its file removed, and its content returned; \<^verbatim>\<open>Ok(None)\<close> means that there is no such file.\<close>

definition try_deserialize_entry ::
    "'t retryable \<Rightarrow> disk_env \<Rightarrow> persisted_entry \<Rightarrow> files \<Rightarrow> files \<times> (retry_error + 't option)" where
  "try_deserialize_entry rt env entry fs =
     (let path = pe_path entry; removed = (if de_remove_fails env path then fs else hm_remove path fs)
      in if de_read_fails env path then (fs, Inl ReadFailed)
         else
           (case map_of fs path of
              None \<Rightarrow> (fs, Inr None)
            | Some serialized \<Rightarrow>
                (case rt_from_slice rt serialized of
                   None \<Rightarrow> (removed, Inl DeserializeFailed)
                 | Some deserialized \<Rightarrow>
                     (removed, if de_remove_fails env path then Inl RemoveFailed else Inr (Some deserialized)))))"

text \<open>The loop of \<^verbatim>\<open>remove_until_available_space\<close>: the oldest entries go until the limit leaves room.\<close>

fun evict_entries ::
    "'t retryable \<Rightarrow> disk_env \<Rightarrow> nat \<Rightarrow> nat \<Rightarrow> persisted_entry list \<Rightarrow> persisted_queue \<Rightarrow> files \<Rightarrow> push_result \<Rightarrow>
     (persisted_queue \<times> files \<times> push_result) option" where
  "evict_entries rt env limit required_bytes [] q fs r = Some (q\<lparr>pq_entries := []\<rparr>, fs, r)"
| "evict_entries rt env limit required_bytes (entry # entries) q fs r = do {
     used \<leftarrow> u64_add (pq_total_on_disk_bytes q) required_bytes;
     if used \<le> limit then Some (q\<lparr>pq_entries := entry # entries\<rparr>, fs, r)
     else
       (case try_deserialize_entry rt env entry fs of
          (fs', Inr (Some deserialized)) \<Rightarrow> do {
            total_bytes \<leftarrow> u64_sub (pq_total_on_disk_bytes q) (pe_size_bytes entry);
            r' \<leftarrow> track_dropped_item rt deserialized r;
            evict_entries rt env limit required_bytes entries (q\<lparr>pq_total_on_disk_bytes := total_bytes\<rparr>) fs' r'
          }
        | (fs', Inr None) \<Rightarrow> evict_entries rt env limit required_bytes entries q fs' r
        | (fs', Inl _) \<Rightarrow> do {
            total_bytes \<leftarrow> u64_sub (pq_total_on_disk_bytes q) (pe_size_bytes entry);
            dropped \<leftarrow> u64_add (pq_entries_dropped q) 1;
            evict_entries rt env limit required_bytes entries
              (q\<lparr>pq_total_on_disk_bytes := total_bytes, pq_entries_dropped := dropped\<rparr>) fs' r
          })
   }"

definition remove_until_available_space ::
    "'t retryable \<Rightarrow> disk_env \<Rightarrow> nat \<Rightarrow> persisted_queue \<Rightarrow> files \<Rightarrow>
     (persisted_queue \<times> files \<times> (retry_error + push_result)) option" where
  "remove_until_available_space rt env required_bytes q fs =
     (case on_disk_bytes_limit env (pq_storage_max_disk_ratio q) (pq_max_on_disk_bytes q) of
        Inl e \<Rightarrow> Some (q, fs, Inl e)
      | Inr limit \<Rightarrow> do {
          (q', fs', r) \<leftarrow> evict_entries rt env limit required_bytes (pq_entries q) q fs push_result_default;
          Some (q', fs', Inr r)
        })"

definition persisted_push ::
    "'t retryable \<Rightarrow> chrono \<Rightarrow> disk_env \<Rightarrow> 't \<Rightarrow> persisted_queue \<Rightarrow> files \<Rightarrow>
     (persisted_queue \<times> files \<times> (retry_error + push_result)) option" where
  "persisted_push rt chrono env t q fs =
     (let (entry_path, timestamp) = generate_timestamped_filename chrono env
      in case rt_to_vec rt t of
           None \<Rightarrow> Some (q, fs, Inl SerializeFailed)
         | Some serialized \<Rightarrow>
             (if pq_max_on_disk_bytes q < length serialized then Some (q, fs, Inl PersistTooLarge)
              else do {
                (q1, fs1, r) \<leftarrow> remove_until_available_space rt env (length serialized) q fs;
                case r of
                  Inl e \<Rightarrow> Some (q1, fs1, Inl e)
                | Inr push_result \<Rightarrow>
                    (case de_write_left env of
                       Some left_over \<Rightarrow>
                         Some (q1, case left_over of None \<Rightarrow> fs1 | Some part \<Rightarrow> hm_insert entry_path part fs1, Inl WriteFailed)
                     | None \<Rightarrow> do {
                         total_bytes \<leftarrow> u64_add (pq_total_on_disk_bytes q1) (length serialized);
                         Some (q1\<lparr>pq_entries := pq_entries q1 @
                                   [\<lparr>pe_path = entry_path, pe_timestamp = timestamp, pe_size_bytes = length serialized\<rparr>],
                                 pq_total_on_disk_bytes := total_bytes\<rparr>,
                               hm_insert entry_path serialized fs1, Inr push_result)
                       })
              }))"

text \<open>
  Taking an entry from disk: an entry that cannot be consumed is dropped and counted, one whose file is missing leads to a
  new scan. The loop has no bound of its own.
\<close>

partial_function (option) persisted_pop ::
    "'t retryable \<Rightarrow> chrono \<Rightarrow> disk_env \<Rightarrow> persisted_queue \<Rightarrow> files \<Rightarrow>
     (persisted_queue \<times> files \<times> (retry_error + 't option)) option" where
  "persisted_pop rt chrono env q fs =
     (case pq_entries q of
        [] \<Rightarrow> Some (q, fs, Inr None)
      | entry # entries \<Rightarrow>
          (let q1 = q\<lparr>pq_entries := entries\<rparr>; (fs1, r) = try_deserialize_entry rt env entry fs
           in case r of
                Inr (Some deserialized) \<Rightarrow> do {
                  total_bytes \<leftarrow> u64_sub (pq_total_on_disk_bytes q1) (pe_size_bytes entry);
                  Some (q1\<lparr>pq_total_on_disk_bytes := total_bytes\<rparr>, fs1, Inr (Some deserialized))
                }
              | Inr None \<Rightarrow> do {
                  (q2, refreshed) \<leftarrow> refresh_entry_state chrono env fs1 q1;
                  case refreshed of
                    Inl e \<Rightarrow> Some (q2, fs1, Inl e)
                  | Inr _ \<Rightarrow> persisted_pop rt chrono env q2 fs1
                }
              | Inl _ \<Rightarrow> do {
                  total_bytes \<leftarrow> u64_sub (pq_total_on_disk_bytes q1) (pe_size_bytes entry);
                  dropped \<leftarrow> u64_add (pq_entries_dropped q1) 1;
                  persisted_pop rt chrono env (q1\<lparr>pq_total_on_disk_bytes := total_bytes, pq_entries_dropped := dropped\<rparr>) fs1
                }))"

section \<open>The queue in memory\<close>

record 't retry_queue =
  rq_queue_name :: string
  rq_pending :: "'t list"
  rq_persisted_pending :: "persisted_queue option"
  rq_total_in_memory_bytes :: nat
  rq_max_in_memory_bytes :: nat
  rq_flush_to_disk_mem_ratio :: f64

text \<open>The default ratio is 0.5.\<close>

definition retry_queue_new :: "string \<Rightarrow> nat \<Rightarrow> 't retry_queue" where
  "retry_queue_new queue_name max_in_memory_bytes =
     \<lparr>rq_queue_name = queue_name, rq_pending = [], rq_persisted_pending = None, rq_total_in_memory_bytes = 0,
      rq_max_in_memory_bytes = max_in_memory_bytes, rq_flush_to_disk_mem_ratio = F64_Fin False (2 ^ 52) (-53)\<rparr>"

definition with_flush_to_disk_mem_ratio :: "f64 \<Rightarrow> 't retry_queue \<Rightarrow> 't retry_queue" where
  "with_flush_to_disk_mem_ratio ratio q = q\<lparr>rq_flush_to_disk_mem_ratio := ratio\<rparr>"

text \<open>The directory is the one of the queue's name below the root path; a failed clean-up is only logged.\<close>

definition with_disk_persistence ::
    "chrono \<Rightarrow> disk_env \<Rightarrow> string \<Rightarrow> files \<Rightarrow> nat \<Rightarrow> f64 \<Rightarrow> nat \<Rightarrow> 't retry_queue \<Rightarrow>
     (files \<times> (retry_error + 't retry_queue)) option" where
  "with_disk_persistence chrono env root_path fs max_on_disk_bytes ratio max_age_days q =
     (if root_path = [] then Some (fs, Inl StoragePathEmpty)
      else do {
        r \<leftarrow> from_root_path chrono env fs max_on_disk_bytes ratio max_age_days;
        case r of
          Inl e \<Rightarrow> Some (fs, Inl e)
        | Inr p \<Rightarrow> do {
            (p', fs', _) \<leftarrow> remove_stale_files chrono env fs p;
            Some (fs', Inr (q\<lparr>rq_persisted_pending := Some p'\<rparr>))
          }
      })"

definition rq_is_empty :: "'t retry_queue \<Rightarrow> bool" where
  "rq_is_empty q \<longleftrightarrow> rq_pending q = [] \<and> (case rq_persisted_pending q of None \<Rightarrow> True | Some p \<Rightarrow> pq_entries p = [])"

definition rq_len :: "'t retry_queue \<Rightarrow> nat option" where
  "rq_len q = u64_add (length (rq_pending q)) (case rq_persisted_pending q of None \<Rightarrow> 0 | Some p \<Rightarrow> length (pq_entries p))"

definition available_in_memory_capacity_bytes :: "'t retry_queue \<Rightarrow> nat" where
  "available_in_memory_capacity_bytes q = sat_sub (rq_max_in_memory_bytes q) (rq_total_in_memory_bytes q)"

definition available_on_disk_capacity_bytes :: "disk_env \<Rightarrow> 't retry_queue \<Rightarrow> retry_error + nat" where
  "available_on_disk_capacity_bytes env q =
     (case rq_persisted_pending q of Some p \<Rightarrow> available_capacity_bytes env p | None \<Rightarrow> Inr 0)"

definition take_persisted_entries_dropped :: "'t retry_queue \<Rightarrow> 't retry_queue \<times> nat" where
  "take_persisted_entries_dropped q =
     (case rq_persisted_pending q of
        None \<Rightarrow> (q, 0)
      | Some p \<Rightarrow> (let (p', n) = take_entries_dropped p in (q\<lparr>rq_persisted_pending := Some p'\<rparr>, n)))"

fun f64_is_infinite :: "f64 \<Rightarrow> bool" where
  "f64_is_infinite (F64_Inf _) = True"
| "f64_is_infinite _ = False"

definition flush_to_disk_bytes :: "nat \<Rightarrow> f64 \<Rightarrow> nat" where
  "flush_to_disk_bytes max_in_memory_bytes ratio =
     (if f64_le ratio f64_zero \<or> f64_is_nan ratio then 0
      else if f64_is_infinite ratio then u64_max
      else f64_to_u64 (f64_mul (f64_of_nat max_in_memory_bytes) ratio))"

text \<open>One evicted entry: it is moved to disk, or dropped and counted.\<close>

definition evict_oldest ::
    "'t retryable \<Rightarrow> chrono \<Rightarrow> disk_env \<Rightarrow> 't \<Rightarrow> persisted_queue option \<Rightarrow> files \<Rightarrow> push_result \<Rightarrow>
     (persisted_queue option \<times> files \<times> push_result) option" where
  "evict_oldest rt chrono env oldest_entry persisted fs r =
     (case persisted of
        Some p \<Rightarrow> do {
          (p', fs', pushed) \<leftarrow> persisted_push rt chrono env oldest_entry p fs;
          r' \<leftarrow> (case pushed of
                   Inr persist_result \<Rightarrow> merge_results r persist_result
                 | Inl _ \<Rightarrow> track_dropped_item rt oldest_entry r);
          Some (Some p', fs', r')
        }
      | None \<Rightarrow> do {
          r' \<leftarrow> track_dropped_item rt oldest_entry r;
          Some (None, fs, r')
        })"

text \<open>The eviction loop of \<^verbatim>\<open>push\<close>; \<open>envs n\<close> is the environment while \<open>n\<close> entries wait behind the one that goes.\<close>

fun evict_pending ::
    "'t retryable \<Rightarrow> chrono \<Rightarrow> (nat \<Rightarrow> disk_env) \<Rightarrow> nat \<Rightarrow> nat \<Rightarrow> 't list \<Rightarrow> 't retry_queue \<Rightarrow> files \<Rightarrow> push_result \<Rightarrow>
     ('t retry_queue \<times> files \<times> push_result) option" where
  "evict_pending rt chrono envs bytes_to_remove bytes_removed [] q fs r = Some (q\<lparr>rq_pending := []\<rparr>, fs, r)"
| "evict_pending rt chrono envs bytes_to_remove bytes_removed (oldest_entry # pending) q fs r =
     (if bytes_removed < bytes_to_remove
      then do {
        (p, fs', r') \<leftarrow> evict_oldest rt chrono (envs (length pending)) oldest_entry (rq_persisted_pending q) fs r;
        total_bytes \<leftarrow> u64_sub (rq_total_in_memory_bytes q) (rt_size_bytes rt oldest_entry);
        removed \<leftarrow> u64_add bytes_removed (rt_size_bytes rt oldest_entry);
        evict_pending rt chrono envs bytes_to_remove removed pending
          (q\<lparr>rq_persisted_pending := p, rq_total_in_memory_bytes := total_bytes\<rparr>) fs' r'
      }
      else Some (q\<lparr>rq_pending := oldest_entry # pending\<rparr>, fs, r))"

definition rq_push ::
    "'t retryable \<Rightarrow> chrono \<Rightarrow> (nat \<Rightarrow> disk_env) \<Rightarrow> 't \<Rightarrow> 't retry_queue \<Rightarrow> files \<Rightarrow>
     ('t retry_queue \<times> files \<times> (retry_error + push_result)) option" where
  "rq_push rt chrono envs entry q fs =
     (let current_entry_size = rt_size_bytes rt entry
      in if rq_max_in_memory_bytes q < current_entry_size
         then Some (q, fs, Inl (EntryTooLarge current_entry_size (rq_max_in_memory_bytes q)))
         else
           (let required_bytes = sat_sub (sat_add (rq_total_in_memory_bytes q) current_entry_size) (rq_max_in_memory_bytes q);
                bytes_to_remove =
                  (if rq_persisted_pending q \<noteq> None \<and> 0 < required_bytes
                   then max required_bytes (flush_to_disk_bytes (rq_max_in_memory_bytes q) (rq_flush_to_disk_mem_ratio q))
                   else required_bytes)
            in do {
                 (q', fs', r) \<leftarrow> evict_pending rt chrono envs bytes_to_remove 0 (rq_pending q) q fs push_result_default;
                 total_bytes \<leftarrow> u64_add (rq_total_in_memory_bytes q') current_entry_size;
                 Some (q'\<lparr>rq_pending := rq_pending q' @ [entry], rq_total_in_memory_bytes := total_bytes\<rparr>, fs', Inr r)
               }))"

definition rq_pop ::
    "'t retryable \<Rightarrow> chrono \<Rightarrow> disk_env \<Rightarrow> 't retry_queue \<Rightarrow> files \<Rightarrow>
     ('t retry_queue \<times> files \<times> (retry_error + 't option)) option" where
  "rq_pop rt chrono env q fs =
     (case rq_pending q of
        entry # pending \<Rightarrow> do {
          total_bytes \<leftarrow> u64_sub (rq_total_in_memory_bytes q) (rt_size_bytes rt entry);
          Some (q\<lparr>rq_pending := pending, rq_total_in_memory_bytes := total_bytes\<rparr>, fs, Inr (Some entry))
        }
      | [] \<Rightarrow>
          (case rq_persisted_pending q of
             None \<Rightarrow> Some (q, fs, Inr None)
           | Some p \<Rightarrow> do {
               (p', fs', r) \<leftarrow> persisted_pop rt chrono env p fs;
               Some (q\<lparr>rq_persisted_pending := Some p'\<rparr>, fs', r)
             }))"

text \<open>\<^verbatim>\<open>flush\<close> consumes the queue: what remains is the directory, and on an error the entries still in memory are gone.\<close>

fun flush_pending ::
    "'t retryable \<Rightarrow> chrono \<Rightarrow> (nat \<Rightarrow> disk_env) \<Rightarrow> 't list \<Rightarrow> persisted_queue option \<Rightarrow> files \<Rightarrow> push_result \<Rightarrow>
     (persisted_queue option \<times> files \<times> (retry_error + push_result)) option" where
  "flush_pending rt chrono envs [] persisted fs r = Some (persisted, fs, Inr r)"
| "flush_pending rt chrono envs (entry # pending) persisted fs r =
     (case persisted of
        Some p \<Rightarrow> do {
          (p', fs', pushed) \<leftarrow> persisted_push rt chrono (envs (length pending)) entry p fs;
          case pushed of
            Inl e \<Rightarrow> Some (Some p', fs', Inl e)
          | Inr persist_result \<Rightarrow> do {
              r' \<leftarrow> merge_results r persist_result;
              flush_pending rt chrono envs pending (Some p') fs' r'
            }
        }
      | None \<Rightarrow> do {
          r' \<leftarrow> track_dropped_item rt entry r;
          flush_pending rt chrono envs pending None fs r'
        })"

definition rq_flush ::
    "'t retryable \<Rightarrow> chrono \<Rightarrow> (nat \<Rightarrow> disk_env) \<Rightarrow> 't retry_queue \<Rightarrow> files \<Rightarrow>
     (persisted_queue option \<times> files \<times> (retry_error + push_result)) option" where
  "rq_flush rt chrono envs q fs =
     flush_pending rt chrono envs (rq_pending q) (rq_persisted_pending q) fs push_result_default"

end
