(* ===== verification/Retry_Storage.thy ===== *)
theory Retry_Storage
  imports Retry_Queue "HOL-Library.Sublist"
begin

text \<open>
  Lemmas on the retry queue: the result of a push counts the entries that were dropped, the queue on disk holds the
  contents of its entries, and a scan of its directory finds them again.
\<close>

section \<open>Counting\<close>

definition dropped_result :: "'t retryable \<Rightarrow> 't list \<Rightarrow> push_result" where
  "dropped_result rt ds =
     \<lparr>items_dropped = length ds, events_dropped = sum_list (map (rt_event_count rt) ds),
      data_points_dropped = sum_list (map (rt_data_point_count rt) ds)\<rparr>"

definition countable :: "'t retryable \<Rightarrow> 't list \<Rightarrow> bool" where
  "countable rt ts \<longleftrightarrow> length ts \<le> u64_max \<and> sum_list (map (rt_event_count rt) ts) \<le> u64_max \<and>
     sum_list (map (rt_data_point_count rt) ts) \<le> u64_max"

lemma dropped_result_Nil: "push_result_default = dropped_result rt []"
  by (simp add: push_result_default_def dropped_result_def)

lemma track_dropped_item_result:
  "countable rt (ds @ [t]) \<Longrightarrow> track_dropped_item rt t (dropped_result rt ds) = Some (dropped_result rt (ds @ [t]))"
  by (simp add: track_dropped_item_def dropped_result_def countable_def u64_add_def)

lemma merge_results_dropped:
  "countable rt (as @ bs) \<Longrightarrow> merge_results (dropped_result rt as) (dropped_result rt bs) = Some (dropped_result rt (as @ bs))"
  by (simp add: merge_results_def dropped_result_def countable_def u64_add_def)

lemma sum_list_mset_mono:
  assumes "mset as \<subseteq># mset bs"
  shows "sum_list (map f as) \<le> (sum_list (map f bs) :: nat)"
proof -
  obtain c where "mset bs = mset as + c" using assms by (metis subset_mset.le_iff_add)
  then have "sum_mset (image_mset f (mset bs)) = sum_mset (image_mset f (mset as)) + sum_mset (image_mset f c)" by simp
  then show ?thesis by (simp add: sum_mset_sum_list flip: mset_map)
qed

lemma countable_mono: "countable rt bs \<Longrightarrow> mset as \<subseteq># mset bs \<Longrightarrow> countable rt as"
  unfolding countable_def by (metis le_trans size_mset size_mset_mono sum_list_mset_mono)

section \<open>Contents of the disk\<close>

definition serde_ok :: "'t retryable \<Rightarrow> bool" where
  "serde_ok rt \<longleftrightarrow> (\<forall>t b. rt_to_vec rt t = Some b \<longrightarrow> rt_from_slice rt b = Some t)"

definition faultless :: "disk_env \<Rightarrow> bool" where
  "faultless env \<longleftrightarrow> \<not> de_create_fails env \<and> de_open env = Opened \<and> de_listing_fails_after env = None \<and>
     de_read_fails env = (\<lambda>_. False) \<and> de_remove_fails env = (\<lambda>_. False) \<and> de_write_left env = None \<and>
     de_total_space env \<noteq> None \<and> de_available_space env \<noteq> None"

text \<open>What eviction needs of the disk; it writes nothing.\<close>

definition removals_work :: "disk_env \<Rightarrow> bool" where
  "removals_work env \<longleftrightarrow> de_read_fails env = (\<lambda>_. False) \<and> de_remove_fails env = (\<lambda>_. False) \<and>
     de_total_space env \<noteq> None \<and> de_available_space env \<noteq> None"

lemma faultless_removals: "faultless env \<Longrightarrow> removals_work env"
  by (simp add: faultless_def removals_work_def)

lemma removals_work_limit:
  assumes "removals_work env"
  obtains limit where "on_disk_bytes_limit env ratio maximum = Inr limit" "limit \<le> maximum"
  using assms by (auto simp: on_disk_bytes_limit_def removals_work_def Let_def)

definition stored :: "'t retryable \<Rightarrow> files \<Rightarrow> persisted_entry \<Rightarrow> 't \<Rightarrow> bool" where
  "stored rt fs e t \<longleftrightarrow>
     (\<exists>b. rt_to_vec rt t = Some b \<and> map_of fs (pe_path e) = Some b \<and> pe_size_bytes e = length b)"

text \<open>The entries of the queue on disk are those of \<open>ts\<close>, and the total is the sum of their sizes.\<close>

definition disk_holds :: "'t retryable \<Rightarrow> persisted_queue \<Rightarrow> files \<Rightarrow> 't list \<Rightarrow> bool" where
  "disk_holds rt p fs ts \<longleftrightarrow>
     hm_ok fs \<and> distinct (map pe_path (pq_entries p)) \<and> list_all2 (stored rt fs) (pq_entries p) ts \<and>
     pq_total_on_disk_bytes p = sum_list (map pe_size_bytes (pq_entries p))"

lemma stored_remove: "stored rt fs e t \<Longrightarrow> pe_path e \<noteq> path \<Longrightarrow> stored rt (hm_remove path fs) e t"
  by (simp add: stored_def)

lemma stored_insert: "stored rt fs e t \<Longrightarrow> pe_path e \<noteq> path \<Longrightarrow> stored rt (hm_insert path b fs) e t"
  by (simp add: stored_def)

lemma stored_all_remove:
  assumes "list_all2 (stored rt fs) es ts" "path \<notin> set (map pe_path es)"
  shows "list_all2 (stored rt (hm_remove path fs)) es ts"
  using assms by (auto simp: list_all2_conv_all_nth intro!: stored_remove)

lemma stored_all_insert:
  assumes "list_all2 (stored rt fs) es ts" "path \<notin> set (map pe_path es)"
  shows "list_all2 (stored rt (hm_insert path b fs)) es ts"
  using assms by (auto simp: list_all2_conv_all_nth intro!: stored_insert)

lemma try_deserialize_stored:
  assumes "serde_ok rt" "removals_work env" "stored rt fs e t"
  shows "try_deserialize_entry rt env e fs = (hm_remove (pe_path e) fs, Inr (Some t))"
  using assms by (auto simp: try_deserialize_entry_def serde_ok_def removals_work_def stored_def Let_def)

lemma disk_holds_tl:
  assumes "disk_holds rt p fs (t # ts)"
  obtains e es where "pq_entries p = e # es" "stored rt fs e t" "pe_size_bytes e \<le> pq_total_on_disk_bytes p"
    "disk_holds rt (p\<lparr>pq_entries := es, pq_total_on_disk_bytes := pq_total_on_disk_bytes p - pe_size_bytes e\<rparr>)
       (hm_remove (pe_path e) fs) ts"
proof -
  obtain e es where e: "pq_entries p = e # es" "stored rt fs e t" "list_all2 (stored rt fs) es ts"
    using assms by (auto simp: disk_holds_def list_all2_Cons2)
  then have "pe_path e \<notin> set (map pe_path es)" using assms by (simp add: disk_holds_def)
  with e have "list_all2 (stored rt (hm_remove (pe_path e) fs)) es ts" by (intro stored_all_remove)
  with e assms show thesis by (intro that [of e es]) (simp_all add: disk_holds_def)
qed

lemma disk_holds_paths: "disk_holds rt p fs ts \<Longrightarrow> pe_path ` set (pq_entries p) \<subseteq> fst ` set fs"
  by (force simp: disk_holds_def stored_def list_all2_conv_all_nth in_set_conv_nth dest: map_of_SomeD)

text \<open>Eviction takes entries from the front, counts them, and stops when there is room or nothing is left.\<close>

lemma evict_entries_forget:
  "evict_entries rt env limit req es (q\<lparr>pq_entries := x\<rparr>) fs r = evict_entries rt env limit req es q fs r"
proof (induction es arbitrary: q fs r)
  case (Cons e es)
  have swap: "q\<lparr>pq_entries := x, pq_total_on_disk_bytes := n\<rparr> = q\<lparr>pq_total_on_disk_bytes := n, pq_entries := x\<rparr>"
    "q\<lparr>pq_total_on_disk_bytes := n, pq_entries := x, pq_entries_dropped := m\<rparr> =
     q\<lparr>pq_total_on_disk_bytes := n, pq_entries_dropped := m, pq_entries := x\<rparr>"
    "pq_total_on_disk_bytes (q\<lparr>pq_entries := x\<rparr>) = pq_total_on_disk_bytes q"
    "pq_entries_dropped (q\<lparr>pq_entries := x\<rparr>) = pq_entries_dropped q"
    "q\<lparr>pq_entries := x, pq_entries := y\<rparr> = q\<lparr>pq_entries := y\<rparr>" for n m y
    by (cases q; simp)+
  show ?case unfolding evict_entries.simps swap Cons.IH ..
qed simp

definition evicted :: "'t retryable \<Rightarrow> nat \<Rightarrow> nat \<Rightarrow> persisted_queue \<Rightarrow> files \<Rightarrow> 't list \<Rightarrow> persisted_queue \<Rightarrow> files \<Rightarrow> bool" where
  "evicted rt limit req p fs ts p' fs' \<longleftrightarrow>
     disk_holds rt p' fs' ts \<and> (ts = [] \<or> pq_total_on_disk_bytes p' + req \<le> limit) \<and> fst ` set fs' \<subseteq> fst ` set fs \<and>
     pq_entries p' = drop (length (pq_entries p) - length ts) (pq_entries p) \<and>
     fst ` set fs' \<inter> pe_path ` (set (pq_entries p) - set (pq_entries p')) = {} \<and>
     p' = p\<lparr>pq_entries := pq_entries p', pq_total_on_disk_bytes := pq_total_on_disk_bytes p'\<rparr> \<and>
     (fst ` set fs = pe_path ` set (pq_entries p) \<longrightarrow> fst ` set fs' = pe_path ` set (pq_entries p'))"

lemma disjoint_insert_mono: "A \<inter> B = {} \<Longrightarrow> x \<notin> A \<Longrightarrow> C \<subseteq> insert x B \<Longrightarrow> A \<inter> C = {}"
  by blast

lemma evicted_refl:
  "disk_holds rt p fs ts \<Longrightarrow> ts = [] \<or> pq_total_on_disk_bytes p + req \<le> limit \<Longrightarrow> evicted rt limit req p fs ts p fs"
  by (auto simp: evicted_def disk_holds_def dest: list_all2_lengthD)

lemma evicted_Cons:
  assumes "evicted rt limit req (p\<lparr>pq_entries := es, pq_total_on_disk_bytes := n\<rparr>) (hm_remove (pe_path e) fs) ts p' fs'"
    and "pq_entries p = e # es" "pe_path e \<notin> pe_path ` set es" "length ts \<le> length es"
  shows "evicted rt limit req p fs ts p' fs'"
proof -
  let ?p = "p\<lparr>pq_entries := es, pq_total_on_disk_bytes := n\<rparr>"
  have keys: "fst ` set (hm_remove (pe_path e) fs) = fst ` set fs - {pe_path e}" by (auto simp: hm_remove_def image_iff)
  have "p' = ?p\<lparr>pq_entries := pq_entries p', pq_total_on_disk_bytes := pq_total_on_disk_bytes p'\<rparr>"
    using assms(1) unfolding evicted_def by (elim conjE)
  then have "p' = p\<lparr>pq_entries := pq_entries p', pq_total_on_disk_bytes := pq_total_on_disk_bytes p'\<rparr>" by simp
  moreover have "pq_entries p' = drop (length (pq_entries p) - length ts) (pq_entries p)"
    using assms(1,2,4) by (simp add: evicted_def Suc_diff_le)
  moreover have "fst ` set fs' = pe_path ` set (pq_entries p')" if "fst ` set fs = pe_path ` set (pq_entries p)"
    using assms(1-3) keys that by (simp add: evicted_def)
  moreover have gone: "fst ` set fs' \<inter> pe_path ` (set (pq_entries ?p) - set (pq_entries p')) = {}"
      and sub: "fst ` set fs' \<subseteq> fst ` set (hm_remove (pe_path e) fs)"
      and rest: "disk_holds rt p' fs' ts" "ts = [] \<or> pq_total_on_disk_bytes p' + req \<le> limit"
    using assms(1) unfolding evicted_def by argo+
  moreover have "fst ` set fs' \<inter> pe_path ` (set (pq_entries p) - set (pq_entries p')) = {}"
  proof (rule disjoint_insert_mono)
    show "fst ` set fs' \<inter> pe_path ` (set es - set (pq_entries p')) = {}" using gone by simp
    show "pe_path e \<notin> fst ` set fs'" using sub unfolding keys by auto
    show "pe_path ` (set (pq_entries p) - set (pq_entries p')) \<subseteq>
        insert (pe_path e) (pe_path ` (set es - set (pq_entries p')))" using assms(2) by auto
  qed
  moreover have "fst ` set fs' \<subseteq> fst ` set fs" using sub unfolding keys by auto
  ultimately show ?thesis unfolding evicted_def by argo
qed

lemma evict_entries_stored:
  assumes "serde_ok rt" "removals_work env" "disk_holds rt p fs ts" "countable rt (ds @ ts)"
    and "pq_total_on_disk_bytes p + req \<le> u64_max"
  shows "\<exists>k p' fs'. evict_entries rt env limit req (pq_entries p) p fs (dropped_result rt ds) =
      Some (p', fs', dropped_result rt (ds @ take k ts)) \<and> evicted rt limit req p fs (drop k ts) p' fs'"
  using assms(3-5)
proof (induction ts arbitrary: p fs ds)
  case Nil
  then have "pq_entries p = []" by (simp add: disk_holds_def)
  moreover from this have "p\<lparr>pq_entries := []\<rparr> = p" by (cases p) simp
  ultimately show ?case using evicted_refl [OF Nil(1)] by (intro exI [of _ 0] exI [of _ p] exI [of _ fs]) simp
next
  case (Cons t ts)
  obtain e es where e: "pq_entries p = e # es" "stored rt fs e t" "pe_size_bytes e \<le> pq_total_on_disk_bytes p"
    and tl: "disk_holds rt (p\<lparr>pq_entries := es, pq_total_on_disk_bytes := pq_total_on_disk_bytes p - pe_size_bytes e\<rparr>)
       (hm_remove (pe_path e) fs) ts" by (rule disk_holds_tl [OF Cons.prems(1)])
  show ?case
  proof (cases "pq_total_on_disk_bytes p + req \<le> limit")
    case True
    have "p\<lparr>pq_entries := e # es\<rparr> = p" using e(1) by (cases p) simp
    then have "evict_entries rt env limit req (pq_entries p) p fs (dropped_result rt ds) = Some (p, fs, dropped_result rt ds)"
      using True Cons.prems(3) e(1) by (simp add: u64_add_def)
    then show ?thesis using evicted_refl [OF Cons.prems(1)] True by (intro exI [of _ 0] exI [of _ p] exI [of _ fs]) simp
  next
    case False
    let ?p = "p\<lparr>pq_entries := es, pq_total_on_disk_bytes := pq_total_on_disk_bytes p - pe_size_bytes e\<rparr>"
    let ?fs = "hm_remove (pe_path e) fs"
    have "?p = p\<lparr>pq_total_on_disk_bytes := pq_total_on_disk_bytes p - pe_size_bytes e, pq_entries := es\<rparr>" by (cases p) simp
    then have swap: "evict_entries rt env limit req es ?p fs' r' =
        evict_entries rt env limit req es (p\<lparr>pq_total_on_disk_bytes := pq_total_on_disk_bytes p - pe_size_bytes e\<rparr>) fs' r'" for fs' r'
      by (simp only: evict_entries_forget)
    have all: "countable rt ((ds @ [t]) @ ts)" using Cons.prems(2) by simp
    then have "countable rt (ds @ [t])" by (rule countable_mono) simp
    then have step: "evict_entries rt env limit req (pq_entries p) p fs (dropped_result rt ds) =
        evict_entries rt env limit req (pq_entries ?p) ?p ?fs (dropped_result rt (ds @ [t]))"
      using False Cons.prems(3) e try_deserialize_stored [OF assms(1,2) e(2)] swap
      by (simp add: u64_add_def u64_sub_def track_dropped_item_result)
    have room: "pq_total_on_disk_bytes ?p + req \<le> u64_max" using Cons.prems(3) by simp
    obtain k p' fs' where k: "evict_entries rt env limit req (pq_entries ?p) ?p ?fs (dropped_result rt (ds @ [t])) =
          Some (p', fs', dropped_result rt ((ds @ [t]) @ take k ts))" "evicted rt limit req ?p ?fs (drop k ts) p' fs'"
      using Cons.IH [OF tl all room] by blast
    have "pe_path e \<notin> pe_path ` set es" "length (drop k ts) \<le> length es"
      using Cons.prems(1) e(1) by (auto simp: disk_holds_def dest: list_all2_lengthD)
    then have "evicted rt limit req p fs (drop k ts) p' fs'" using evicted_Cons [OF k(2) e(1)] by blast
    then show ?thesis using step k(1) by (intro exI [of _ "Suc k"] exI [of _ p'] exI [of _ fs']) simp
  qed
qed

section \<open>Pushing to disk\<close>

abbreviation new_name :: "chrono \<Rightarrow> disk_env \<Rightarrow> string" where
  "new_name chrono env \<equiv> fst (generate_timestamped_filename chrono env)"

definition same_limits :: "persisted_queue \<Rightarrow> persisted_queue \<Rightarrow> bool" where
  "same_limits p p' \<longleftrightarrow>
     p' = p\<lparr>pq_entries := pq_entries p', pq_total_on_disk_bytes := pq_total_on_disk_bytes p'\<rparr>"

text \<open>The disk holds \<open>ts\<close> within its limit, a limit far from the end of the integers.\<close>

definition disk_within :: "'t retryable \<Rightarrow> persisted_queue \<Rightarrow> files \<Rightarrow> 't list \<Rightarrow> bool" where
  "disk_within rt p fs ts \<longleftrightarrow> disk_holds rt p fs ts \<and> pq_total_on_disk_bytes p \<le> pq_max_on_disk_bytes p \<and>
     2 * pq_max_on_disk_bytes p \<le> u64_max"

lemma same_limits_fields: "same_limits p p' \<Longrightarrow> pq_max_on_disk_bytes p' = pq_max_on_disk_bytes p"
  unfolding same_limits_def by (metis persisted_queue.select_convs(3) persisted_queue.surjective persisted_queue.update_convs(1,2))

lemma evicted_same_limits: "evicted rt limit req p fs ts p' fs' \<Longrightarrow> same_limits p p'"
  unfolding evicted_def same_limits_def by (elim conjE)

lemma persisted_push_rejected:
  assumes "case rt_to_vec rt t of None \<Rightarrow> True | Some b \<Rightarrow> pq_max_on_disk_bytes p < length b"
  shows "\<exists>e. persisted_push rt chrono env t p fs = Some (p, fs, Inl e)"
  using assms by (auto simp: persisted_push_def generate_timestamped_filename_def Let_def split: option.splits)

lemma persisted_push_stored:
  assumes "serde_ok rt" "faultless env" "disk_within rt p fs ts" "countable rt ts"
    and "rt_to_vec rt t = Some b" "length b \<le> pq_max_on_disk_bytes p" "new_name chrono env \<notin> fst ` set fs"
  obtains k p' fs' p1 fs1 where
    "persisted_push rt chrono env t p fs = Some (p', fs', Inr (dropped_result rt (take k ts)))"
    "disk_within rt p' fs' (drop k ts @ [t])" "same_limits p p'"
    "evicted rt (pq_max_on_disk_bytes p) (length b) p fs (drop k ts) p1 fs1"
    "pq_entries p' = pq_entries p1 @ [\<lparr>pe_path = new_name chrono env, pe_timestamp = datetime_to_timestamp (de_now env),
       pe_size_bytes = length b\<rparr>]" "fs' = hm_insert (new_name chrono env) b fs1"
proof -
  let ?name = "new_name chrono env" and ?max = "pq_max_on_disk_bytes p"
  let ?e = "\<lparr>pe_path = ?name, pe_timestamp = datetime_to_timestamp (de_now env), pe_size_bytes = length b\<rparr>"
  note removals = faultless_removals [OF assms(2)]
  obtain limit where limit: "on_disk_bytes_limit env (pq_storage_max_disk_ratio p) ?max = Inr limit" "limit \<le> ?max"
    using removals by (rule removals_work_limit)
  have room: "pq_total_on_disk_bytes p + length b \<le> u64_max" using assms(3,6) by (simp add: disk_within_def)
  have holds: "disk_holds rt p fs ts" using assms(3) by (simp add: disk_within_def)
  obtain k p1 fs1 where k: "evict_entries rt env limit (length b) (pq_entries p) p fs (dropped_result rt []) =
        Some (p1, fs1, dropped_result rt ([] @ take k ts))" and ev: "evicted rt limit (length b) p fs (drop k ts) p1 fs1"
    using evict_entries_stored [OF assms(1) removals holds _ room, of "[]" limit] assms(4) by auto
  have total: "pq_total_on_disk_bytes p1 + length b \<le> ?max"
  proof (cases "drop k ts = []")
    case True
    then have "pq_entries p1 = []" using ev by (simp add: evicted_def disk_holds_def)
    then show ?thesis using ev assms(6) by (simp add: evicted_def disk_holds_def)
  qed (use ev limit(2) in \<open>auto simp: evicted_def\<close>)
  let ?p = "p1\<lparr>pq_entries := pq_entries p1 @ [?e], pq_total_on_disk_bytes := pq_total_on_disk_bytes p1 + length b\<rparr>"
  let ?fs = "hm_insert ?name b fs1"
  have "persisted_push rt chrono env t p fs = Some (?p, ?fs, Inr (dropped_result rt (take k ts)))"
    using assms(2,3,5,6) k limit(1) total
    by (simp add: persisted_push_def generate_timestamped_filename_def remove_until_available_space_def faultless_def
        dropped_result_Nil [of rt] u64_add_def disk_within_def)
  moreover have "disk_within rt ?p ?fs (drop k ts @ [t])"
  proof -
    have holds: "disk_holds rt p1 fs1 (drop k ts)" "?name \<notin> fst ` set fs1" using ev assms(7) by (auto simp: evicted_def)
    have "pe_path e \<in> fst ` set fs1" if "e \<in> set (pq_entries p1)" for e
      using disk_holds_paths [OF holds(1)] that by auto
    then have new: "?name \<notin> set (map pe_path (pq_entries p1))" using holds(2) by auto
    then have "list_all2 (stored rt ?fs) (pq_entries p1) (drop k ts)"
      using holds(1) by (intro stored_all_insert) (auto simp: disk_holds_def)
    then have "disk_holds rt ?p ?fs (drop k ts @ [t])"
      using holds(1) new assms(5) by (auto simp: disk_holds_def stored_def intro!: list_all2_appendI)
    then show ?thesis using total assms(3) same_limits_fields [OF evicted_same_limits [OF ev]] by (simp add: disk_within_def)
  qed
  moreover have "same_limits p ?p"
    using evicted_same_limits [OF ev] unfolding same_limits_def by (cases p; cases p1) simp
  moreover have "evicted rt ?max (length b) p fs (drop k ts) p1 fs1" using ev limit(2) by (auto simp: evicted_def)
  ultimately show thesis by (intro that [of ?p ?fs k p1 fs1]) simp_all
qed

section \<open>Pushing to the queue\<close>

text \<open>What the optional queue on disk holds: nothing when there is none.\<close>

definition persisted_within :: "'t retryable \<Rightarrow> persisted_queue option \<Rightarrow> files \<Rightarrow> 't list \<Rightarrow> bool" where
  "persisted_within rt persisted fs ts \<longleftrightarrow>
     (case persisted of None \<Rightarrow> ts = [] | Some p \<Rightarrow> disk_within rt p fs ts)"

definition sizes :: "'t retryable \<Rightarrow> 't list \<Rightarrow> nat" where
  "sizes rt ts = sum_list (map (rt_size_bytes rt) ts)"

lemma sizes_simps [simp]: "sizes rt [] = 0" "sizes rt (t # ts) = rt_size_bytes rt t + sizes rt ts"
  "sizes rt (as @ bs) = sizes rt as + sizes rt bs"
  by (simp_all add: sizes_def)

text \<open>
  The entries \<open>ts\<close> have left memory: each is on disk or dropped, the disk keeps its order, and only the names given are new.
\<close>

definition spilled ::
    "'t retryable \<Rightarrow> persisted_queue option \<Rightarrow> files \<Rightarrow> 't list \<Rightarrow> 't list \<Rightarrow> 't list \<Rightarrow> string set \<Rightarrow>
     persisted_queue option \<Rightarrow> files \<Rightarrow> 't list \<Rightarrow> 't list \<Rightarrow> bool" where
  "spilled rt persisted fs disk ds ts names persisted' fs' disk' ds' \<longleftrightarrow>
     persisted_within rt persisted' fs' disk' \<and> mset ds' + mset disk' = mset ds + mset disk + mset ts \<and>
     subseq disk' (disk @ ts) \<and> fst ` set fs' \<subseteq> names \<union> fst ` set fs \<and> (persisted' = None \<longleftrightarrow> persisted = None)"

lemma spilled_refl: "persisted_within rt persisted fs disk \<Longrightarrow> spilled rt persisted fs disk ds [] names persisted fs disk ds"
  by (simp add: spilled_def)

lemma spilled_trans:
  assumes "spilled rt p fs disk ds [t] {name} p1 fs1 disk1 ds1" "spilled rt p1 fs1 disk1 ds1 ts names p2 fs2 disk2 ds2"
  shows "spilled rt p fs disk ds (t # ts) (insert name names) p2 fs2 disk2 ds2"
proof -
  have "subseq (disk1 @ ts) ((disk @ [t]) @ ts)" using assms(1) by (intro list_emb_append_mono) (auto simp: spilled_def)
  then have "subseq disk2 (disk @ t # ts)" using assms(2) by (auto simp: spilled_def intro: subseq_order.trans)
  moreover have "fst ` set fs1 \<subseteq> {name} \<union> fst ` set fs" "fst ` set fs2 \<subseteq> names \<union> fst ` set fs1"
    using assms by (simp_all add: spilled_def)
  then have "fst ` set fs2 \<subseteq> insert name names \<union> fst ` set fs" by blast
  moreover have "mset ds2 + mset disk2 = mset ds + mset disk + mset (t # ts)" using assms by (simp add: spilled_def)
  ultimately show ?thesis using assms by (simp add: spilled_def)
qed

lemma evict_oldest_stored:
  assumes "serde_ok rt" "faultless env" "persisted_within rt persisted fs disk" "countable rt (ds @ disk @ [t])"
    and "new_name chrono env \<notin> fst ` set fs"
  shows "\<exists>persisted' fs' disk' ds'. evict_oldest rt chrono env t persisted fs (dropped_result rt ds) =
      Some (persisted', fs', dropped_result rt ds') \<and>
    spilled rt persisted fs disk ds [t] {new_name chrono env} persisted' fs' disk' ds'"
proof -
  have one: "countable rt (ds @ [t])" by (rule countable_mono [OF assms(4)]) simp
  show ?thesis
  proof (cases persisted)
    case None
    then have "evict_oldest rt chrono env t persisted fs (dropped_result rt ds) = Some (None, fs, dropped_result rt (ds @ [t]))"
      using track_dropped_item_result [OF one] by (simp add: evict_oldest_def)
    then show ?thesis using assms(3) None
      by (intro exI [of _ None] exI [of _ fs] exI [of _ "[]"] exI [of _ "ds @ [t]"]) (auto simp: spilled_def persisted_within_def)
  next
    case (Some p)
    then have within: "disk_within rt p fs disk" using assms(3) by (simp add: persisted_within_def)
    show ?thesis
    proof (cases "case rt_to_vec rt t of None \<Rightarrow> True | Some b \<Rightarrow> pq_max_on_disk_bytes p < length b")
      case True
      obtain e where "persisted_push rt chrono env t p fs = Some (p, fs, Inl e)"
        using persisted_push_rejected [OF True, of chrono env fs] by blast
      then have "evict_oldest rt chrono env t persisted fs (dropped_result rt ds) = Some (Some p, fs, dropped_result rt (ds @ [t]))"
        using track_dropped_item_result [OF one] Some by (simp add: evict_oldest_def)
      then show ?thesis using within Some
        by (intro exI [of _ "Some p"] exI [of _ fs] exI [of _ disk] exI [of _ "ds @ [t]"]) (auto simp: spilled_def persisted_within_def)
    next
      case False
      then obtain b where b: "rt_to_vec rt t = Some b" "length b \<le> pq_max_on_disk_bytes p" by (auto split: option.splits)
      have "countable rt disk" by (rule countable_mono [OF assms(4)]) simp
      then obtain k p' fs' p1 fs1 where k:
          "persisted_push rt chrono env t p fs = Some (p', fs', Inr (dropped_result rt (take k disk)))"
          "disk_within rt p' fs' (drop k disk @ [t])"
          and ev: "evicted rt (pq_max_on_disk_bytes p) (length b) p fs (drop k disk) p1 fs1"
          and fs': "fs' = hm_insert (new_name chrono env) b fs1"
        by (rule persisted_push_stored [OF assms(1,2) within _ b assms(5)])
      have split: "mset disk = mset (take k disk) + mset (drop k disk)" by (metis append_take_drop_id mset_append)
      have some: "countable rt (ds @ take k disk)" by (rule countable_mono [OF assms(4)]) (simp add: split)
      have "evict_oldest rt chrono env t persisted fs (dropped_result rt ds) =
          Some (Some p', fs', dropped_result rt (ds @ take k disk))"
        using k(1) Some merge_results_dropped [OF some] by (simp add: evict_oldest_def)
      moreover have "subseq (drop k disk @ [t]) (disk @ [t])"
        by (intro list_emb_append_mono) (auto intro: suffix_imp_subseq suffix_drop)
      moreover have "fst ` set fs' \<subseteq> {new_name chrono env} \<union> fst ` set fs"
        using ev by (auto simp: fs' evicted_def)
      moreover have "mset (ds @ take k disk) + mset (drop k disk @ [t]) = mset ds + mset disk + {#t#}" by (simp add: split)
      ultimately show ?thesis using k(2) Some unfolding spilled_def persisted_within_def
        by (intro exI [of _ "Some p'"] exI [of _ fs'] exI [of _ "drop k disk @ [t]"] exI [of _ "ds @ take k disk"]) simp
    qed
  qed
qed

text \<open>The names that the pushes to disk will use are new.\<close>

definition fresh_names :: "chrono \<Rightarrow> (nat \<Rightarrow> disk_env) \<Rightarrow> nat \<Rightarrow> files \<Rightarrow> bool" where
  "fresh_names chrono envs n fs \<longleftrightarrow>
     (\<forall>i < n. new_name chrono (envs i) \<notin> fst ` set fs) \<and> inj_on (\<lambda>i. new_name chrono (envs i)) {..<n}"

lemma fresh_names_step:
  assumes "fresh_names chrono envs (Suc n) fs" "fst ` set fs' \<subseteq> {new_name chrono (envs n)} \<union> fst ` set fs"
  shows "fresh_names chrono envs n fs'"
  unfolding fresh_names_def
proof (intro conjI allI impI)
  fix i assume i: "i < n"
  then have "new_name chrono (envs i) \<noteq> new_name chrono (envs n)"
    using assms(1) by (auto simp: fresh_names_def dest: inj_onD)
  moreover have "new_name chrono (envs i) \<notin> fst ` set fs" using assms(1) i by (simp add: fresh_names_def)
  ultimately show "new_name chrono (envs i) \<notin> fst ` set fs'" using assms(2) by blast
next
  show "inj_on (\<lambda>i. new_name chrono (envs i)) {..<n}"
    using assms(1) by (auto simp: fresh_names_def intro: inj_on_subset)
qed

lemma evict_pending_stored:
  assumes "serde_ok rt" "\<And>i. faultless (envs i)" "persisted_within rt (rq_persisted_pending q) fs disk"
    and "countable rt (ds @ disk @ pending)" "fresh_names chrono envs (length pending) fs"
    and "rq_total_in_memory_bytes q = sizes rt pending" "removed + sizes rt pending \<le> u64_max"
  shows "\<exists>k persisted' fs' disk' ds'. evict_pending rt chrono envs to_remove removed pending q fs (dropped_result rt ds) =
      Some (q\<lparr>rq_pending := drop k pending, rq_persisted_pending := persisted',
              rq_total_in_memory_bytes := sizes rt (drop k pending)\<rparr>, fs', dropped_result rt ds') \<and>
    (drop k pending = [] \<or> to_remove \<le> removed + sizes rt (take k pending)) \<and>
    spilled rt (rq_persisted_pending q) fs disk ds (take k pending) UNIV persisted' fs' disk' ds'"
  using assms(3-)
proof (induction pending arbitrary: q fs ds disk removed)
  case Nil
  have "q\<lparr>rq_pending := []\<rparr> = q\<lparr>rq_pending := [], rq_persisted_pending := rq_persisted_pending q, rq_total_in_memory_bytes := 0\<rparr>"
    using Nil(4) by (cases q) simp
  then show ?case using spilled_refl [OF Nil(1)]
    by (intro exI [of _ 0] exI [of _ "rq_persisted_pending q"] exI [of _ fs] exI [of _ disk] exI [of _ ds]) simp
next
  case (Cons t pending)
  show ?case
  proof (cases "removed < to_remove")
    case False
    have "q\<lparr>rq_pending := t # pending\<rparr> =
        q\<lparr>rq_pending := t # pending, rq_persisted_pending := rq_persisted_pending q, rq_total_in_memory_bytes := sizes rt (t # pending)\<rparr>"
      using Cons.prems(4) by (cases q) simp
    then show ?thesis using False spilled_refl [OF Cons.prems(1)]
      by (intro exI [of _ 0] exI [of _ "rq_persisted_pending q"] exI [of _ fs] exI [of _ disk] exI [of _ ds]) simp
  next
    case True
    let ?env = "envs (length pending)"
    have "countable rt (ds @ disk @ [t])" by (rule countable_mono [OF Cons.prems(2)]) simp
    moreover have "new_name chrono ?env \<notin> fst ` set fs" using Cons.prems(3) by (simp add: fresh_names_def)
    ultimately obtain persisted' fs' disk' ds' where ev:
        "evict_oldest rt chrono ?env t (rq_persisted_pending q) fs (dropped_result rt ds) = Some (persisted', fs', dropped_result rt ds')"
        "spilled rt (rq_persisted_pending q) fs disk ds [t] {new_name chrono ?env} persisted' fs' disk' ds'"
      using evict_oldest_stored [OF assms(1) assms(2) Cons.prems(1)] by blast
    let ?q = "q\<lparr>rq_persisted_pending := persisted', rq_total_in_memory_bytes := sizes rt pending\<rparr>"
    let ?removed = "removed + rt_size_bytes rt t"
    have step: "evict_pending rt chrono envs to_remove removed (t # pending) q fs (dropped_result rt ds) =
        evict_pending rt chrono envs to_remove ?removed pending ?q fs' (dropped_result rt ds')"
      using True ev(1) Cons.prems(4,5) by (simp add: u64_sub_def u64_add_def)
    have "persisted_within rt (rq_persisted_pending ?q) fs' disk'" using ev(2) by (simp add: spilled_def)
    moreover have "mset (ds' @ disk' @ pending) = mset (ds @ disk @ t # pending)" using ev(2) by (simp add: spilled_def)
    then have "countable rt (ds' @ disk' @ pending)" by (intro countable_mono [OF Cons.prems(2)]) simp
    moreover have "fresh_names chrono envs (length pending) fs'"
      by (rule fresh_names_step [of _ _ _ fs]) (use Cons.prems(3) ev(2) in \<open>simp_all add: spilled_def\<close>)
    moreover have "rq_total_in_memory_bytes ?q = sizes rt pending" by simp
    moreover have "?removed + sizes rt pending \<le> u64_max" using Cons.prems(5) by simp
    ultimately obtain k persisted'' fs'' disk'' ds'' where k:
        "evict_pending rt chrono envs to_remove ?removed pending ?q fs' (dropped_result rt ds') =
          Some (?q\<lparr>rq_pending := drop k pending, rq_persisted_pending := persisted'',
            rq_total_in_memory_bytes := sizes rt (drop k pending)\<rparr>, fs'', dropped_result rt ds'')"
        "drop k pending = [] \<or> to_remove \<le> ?removed + sizes rt (take k pending)"
        "spilled rt (rq_persisted_pending ?q) fs' disk' ds' (take k pending) UNIV persisted'' fs'' disk'' ds''"
      using Cons.IH [of ?q fs' disk' ds' ?removed] by blast
    have "spilled rt (rq_persisted_pending q) fs disk ds (t # take k pending) UNIV persisted'' fs'' disk'' ds''"
      using spilled_trans [OF ev(2)] k(3) by fastforce
    then show ?thesis using step k(1,2)
      by (intro exI [of _ "Suc k"] exI [of _ persisted''] exI [of _ fs''] exI [of _ disk''] exI [of _ ds'']) auto
  qed
qed

text \<open>The queue holds \<open>mem\<close> in memory and \<open>disk\<close> on disk, both oldest first.\<close>

definition queue_holds :: "'t retryable \<Rightarrow> 't retry_queue \<Rightarrow> files \<Rightarrow> 't list \<Rightarrow> 't list \<Rightarrow> bool" where
  "queue_holds rt q fs mem disk \<longleftrightarrow>
     rq_pending q = mem \<and> rq_total_in_memory_bytes q = sizes rt mem \<and> sizes rt mem \<le> rq_max_in_memory_bytes q \<and>
     2 * rq_max_in_memory_bytes q \<le> u64_max \<and> persisted_within rt (rq_persisted_pending q) fs disk"

lemma rq_push_too_large:
  "rq_max_in_memory_bytes q < rt_size_bytes rt t \<Longrightarrow>
   rq_push rt chrono envs t q fs = Some (q, fs, Inl (EntryTooLarge (rt_size_bytes rt t) (rq_max_in_memory_bytes q)))"
  by (simp add: rq_push_def)

lemma rq_push_stored:
  assumes "serde_ok rt" "\<And>i. faultless (envs i)" "queue_holds rt q fs mem disk" "countable rt (disk @ mem)"
    and "fresh_names chrono envs (length mem) fs" "rt_size_bytes rt t \<le> rq_max_in_memory_bytes q"
  shows "\<exists>k q' fs' disk' ds. rq_push rt chrono envs t q fs = Some (q', fs', Inr (dropped_result rt ds)) \<and>
    queue_holds rt q' fs' (drop k mem @ [t]) disk' \<and> mset ds + mset disk' = mset disk + mset (take k mem) \<and>
    subseq disk' (disk @ take k mem)"
proof -
  let ?max = "rq_max_in_memory_bytes q" and ?size = "rt_size_bytes rt t"
  let ?required = "rq_total_in_memory_bytes q + ?size - ?max"
  define to_remove where "to_remove = (if rq_persisted_pending q \<noteq> None \<and> 0 < ?required
      then max ?required (flush_to_disk_bytes ?max (rq_flush_to_disk_mem_ratio q)) else ?required)"
  have sat: "sat_sub (sat_add (rq_total_in_memory_bytes q) ?size) ?max = ?required"
    using assms(3,6) by (simp add: queue_holds_def sat_sub_def sat_add_def)
  have q: "rq_pending q = mem" "rq_total_in_memory_bytes q = sizes rt mem" "0 + sizes rt mem \<le> u64_max"
      "persisted_within rt (rq_persisted_pending q) fs disk" "countable rt ([] @ disk @ mem)"
    using assms(3,4) by (simp_all add: queue_holds_def)
  obtain k persisted' fs' disk' ds where ev: "evict_pending rt chrono envs to_remove 0 mem q fs (dropped_result rt []) =
      Some (q\<lparr>rq_pending := drop k mem, rq_persisted_pending := persisted',
              rq_total_in_memory_bytes := sizes rt (drop k mem)\<rparr>, fs', dropped_result rt ds)"
    "drop k mem = [] \<or> to_remove \<le> 0 + sizes rt (take k mem)"
    "spilled rt (rq_persisted_pending q) fs disk [] (take k mem) UNIV persisted' fs' disk' ds"
    using evict_pending_stored [OF assms(1,2) q(4,5) assms(5) q(2,3)] by blast
  have "sizes rt (take k mem) + sizes rt (drop k mem) = sizes rt mem" by (metis append_take_drop_id sizes_simps(3))
  moreover have "?required \<le> to_remove" by (simp add: to_remove_def)
  ultimately have fits: "sizes rt (drop k mem) + ?size \<le> ?max" using ev(2) q(2) assms(6) by auto
  then have "sizes rt (drop k mem) + ?size \<le> u64_max" using assms(3) by (simp add: queue_holds_def)
  let ?q = "q\<lparr>rq_pending := drop k mem @ [t], rq_persisted_pending := persisted',
    rq_total_in_memory_bytes := sizes rt (drop k mem) + ?size\<rparr>"
  have "rq_push rt chrono envs t q fs = Some (?q, fs', Inr (dropped_result rt ds))"
    using assms(6) ev(1) \<open>sizes rt (drop k mem) + ?size \<le> u64_max\<close>
    unfolding rq_push_def Let_def sat to_remove_def [symmetric] q(1) dropped_result_Nil [of rt] by (simp add: u64_add_def)
  moreover have "queue_holds rt ?q fs' (drop k mem @ [t]) disk'"
    using fits assms(3) ev(3) by (simp add: queue_holds_def spilled_def)
  moreover have "mset ds + mset disk' = mset disk + mset (take k mem)" "subseq disk' (disk @ take k mem)"
    using ev(3) by (simp_all add: spilled_def)
  ultimately show ?thesis by blast
qed

text \<open>A pop takes the oldest entry in memory, or else the oldest on disk.\<close>

lemma persisted_pop_stored:
  assumes "serde_ok rt" "faultless env" "disk_within rt p fs ts"
  shows "\<exists>p' fs'. persisted_pop rt chrono env p fs = Some (p', fs', Inr (case ts of [] \<Rightarrow> None | t # _ \<Rightarrow> Some t)) \<and>
    disk_within rt p' fs' (tl ts) \<and> same_limits p p' \<and> pq_entries p' = tl (pq_entries p) \<and>
    (fst ` set fs = pe_path ` set (pq_entries p) \<longrightarrow> fst ` set fs' = pe_path ` set (pq_entries p'))"
proof (cases ts)
  case Nil
  then have "pq_entries p = []" using assms(3) by (simp add: disk_within_def disk_holds_def)
  then show ?thesis using assms(3) Nil by (subst persisted_pop.simps) (auto simp: same_limits_def)
next
  case (Cons t ts')
  then obtain e es where e: "pq_entries p = e # es" "stored rt fs e t" "pe_size_bytes e \<le> pq_total_on_disk_bytes p"
    and tl: "disk_holds rt (p\<lparr>pq_entries := es, pq_total_on_disk_bytes := pq_total_on_disk_bytes p - pe_size_bytes e\<rparr>)
       (hm_remove (pe_path e) fs) ts'" using assms(3) by (auto simp: disk_within_def elim: disk_holds_tl)
  let ?p = "p\<lparr>pq_entries := es, pq_total_on_disk_bytes := pq_total_on_disk_bytes p - pe_size_bytes e\<rparr>"
  have "persisted_pop rt chrono env p fs = Some (?p, hm_remove (pe_path e) fs, Inr (Some t))"
    using e try_deserialize_stored [OF assms(1) faultless_removals [OF assms(2)] e(2)] by (subst persisted_pop.simps) (simp add: Let_def u64_sub_def)
  moreover have "disk_within rt ?p (hm_remove (pe_path e) fs) ts'" using tl assms(3) by (auto simp: disk_within_def)
  moreover have "same_limits p ?p" by (simp add: same_limits_def)
  moreover have "fst ` set (hm_remove (pe_path e) fs) = fst ` set fs - {pe_path e}" by (auto simp: hm_remove_def image_iff)
  moreover have "pe_path e \<notin> pe_path ` set es" using assms(3) e(1) by (simp add: disk_within_def disk_holds_def)
  ultimately show ?thesis using Cons e(1) by (intro exI [of _ ?p] exI [of _ "hm_remove (pe_path e) fs"]) auto
qed

lemma rq_pop_stored:
  assumes "serde_ok rt" "faultless env" "queue_holds rt q fs mem disk"
  shows "\<exists>q' fs'. rq_pop rt chrono env q fs = Some (q', fs', Inr (case mem @ disk of [] \<Rightarrow> None | t # _ \<Rightarrow> Some t)) \<and>
    queue_holds rt q' fs' (tl mem) (if mem = [] then tl disk else disk)"
proof (cases mem)
  case (Cons t mem')
  then show ?thesis using assms(3) by (auto simp: rq_pop_def queue_holds_def u64_sub_def)
next
  case Nil
  show ?thesis
  proof (cases "rq_persisted_pending q")
    case None
    then show ?thesis using assms(3) Nil by (auto simp: rq_pop_def queue_holds_def persisted_within_def)
  next
    case (Some p)
    then have "disk_within rt p fs disk" using assms(3) by (simp add: queue_holds_def persisted_within_def)
    from persisted_pop_stored [OF assms(1,2) this, of chrono] obtain p' fs' where
        "persisted_pop rt chrono env p fs = Some (p', fs', Inr (case disk of [] \<Rightarrow> None | t # _ \<Rightarrow> Some t))"
        "disk_within rt p' fs' (tl disk)" by blast
    then show ?thesis using assms(3) Nil Some by (auto simp: rq_pop_def queue_holds_def persisted_within_def)
  qed
qed

section \<open>Pushing when nothing can be written\<close>

definition writes_fail :: "disk_env \<Rightarrow> bool" where
  "writes_fail env \<longleftrightarrow> removals_work env \<and> de_write_left env \<noteq> None"

text \<open>The oldest \<open>k\<close> entries are gone from the queue on disk, with their files; only the names given are new.\<close>

definition lost ::
    "'t retryable \<Rightarrow> persisted_queue \<Rightarrow> files \<Rightarrow> 't list \<Rightarrow> nat \<Rightarrow> string set \<Rightarrow> persisted_queue \<Rightarrow> files \<Rightarrow> bool" where
  "lost rt p fs ts k names p' fs' \<longleftrightarrow>
     disk_within rt p' fs' (drop k ts) \<and> same_limits p p' \<and> pq_entries p' = drop k (pq_entries p) \<and>
     fst ` set fs' \<subseteq> names \<union> (fst ` set fs - pe_path ` (set (pq_entries p) - set (pq_entries p')))"

lemma same_limits_trans: "same_limits p p1 \<Longrightarrow> same_limits p1 p2 \<Longrightarrow> same_limits p p2"
  by (cases p; cases p1; cases p2) (simp add: same_limits_def)

lemma same_limits_refl: "same_limits p p"
  by (simp add: same_limits_def)

lemma lost_refl: "disk_within rt p fs ts \<Longrightarrow> lost rt p fs ts 0 names p fs"
  by (auto simp: lost_def same_limits_refl)

lemma minus_insert_trans:
  "A1 \<subseteq> {x} \<union> (A - D1) \<Longrightarrow> A2 \<subseteq> N \<union> (A1 - D2) \<Longrightarrow> D \<subseteq> D1 \<union> D2 \<Longrightarrow> A2 \<subseteq> insert x N \<union> (A - D)"
  by blast

lemma minus_insert_disjoint: "A' \<subseteq> insert x A1 \<Longrightarrow> A1 \<subseteq> A \<Longrightarrow> A1 \<inter> D = {} \<Longrightarrow> A' \<subseteq> {x} \<union> (A - D)"
  by blast

lemma lost_trans:
  assumes "lost rt p fs ts k {name} p1 fs1" "lost rt p1 fs1 (drop k ts) j names p2 fs2"
  shows "lost rt p fs ts (k + j) (insert name names) p2 fs2"
proof -
  let ?D = "\<lambda>p p'. pe_path ` (set (pq_entries p) - set (pq_entries p'))"
  have "fst ` set fs1 \<subseteq> {name} \<union> (fst ` set fs - ?D p p1)" "fst ` set fs2 \<subseteq> names \<union> (fst ` set fs1 - ?D p1 p2)"
    using assms unfolding lost_def by argo+
  moreover have "?D p p2 \<subseteq> ?D p p1 \<union> ?D p1 p2" by auto
  ultimately have "fst ` set fs2 \<subseteq> insert name names \<union> (fst ` set fs - ?D p p2)" by (rule minus_insert_trans)
  moreover have "same_limits p p1" "same_limits p1 p2" using assms by (simp_all add: lost_def)
  then have "same_limits p p2" by (rule same_limits_trans)
  moreover have "disk_within rt p2 fs2 (drop (k + j) ts)" "pq_entries p2 = drop (k + j) (pq_entries p)"
    using assms by (simp_all add: lost_def add.commute)
  ultimately show ?thesis unfolding lost_def by (intro conjI)
qed

lemma persisted_push_unwritten:
  assumes "serde_ok rt" "writes_fail env" "disk_within rt p fs ts" "countable rt ts" "new_name chrono env \<notin> fst ` set fs"
    and "rt_to_vec rt t = Some b" "length b \<le> pq_max_on_disk_bytes p"
    and "on_disk_bytes_limit env (pq_storage_max_disk_ratio p) (pq_max_on_disk_bytes p) = Inr limit"
  obtains k p' fs' where "persisted_push rt chrono env t p fs = Some (p', fs', Inl WriteFailed)"
    "lost rt p fs ts k {new_name chrono env} p' fs'" "limit < pq_total_on_disk_bytes p + length b \<longrightarrow> ts \<noteq> [] \<longrightarrow> 0 < k"
proof -
  let ?name = "new_name chrono env"
  have works: "removals_work env" and "de_write_left env \<noteq> None" using assms(2) by (simp_all add: writes_fail_def)
  then obtain w where w: "de_write_left env = Some w" by blast
  have holds: "disk_holds rt p fs ts" and room: "pq_total_on_disk_bytes p + length b \<le> u64_max"
    using assms(3,7) by (simp_all add: disk_within_def)
  obtain k p' fs1 where k: "evict_entries rt env limit (length b) (pq_entries p) p fs (dropped_result rt []) =
        Some (p', fs1, dropped_result rt ([] @ take k ts))" and ev: "evicted rt limit (length b) p fs (drop k ts) p' fs1"
    using evict_entries_stored [OF assms(1) works holds _ room, of "[]" limit] assms(4) by auto
  define fs' where "fs' = (case w of None \<Rightarrow> fs1 | Some part \<Rightarrow> hm_insert ?name part fs1)"
  have push: "persisted_push rt chrono env t p fs = Some (p', fs', Inl WriteFailed)"
    using assms(6-8) k w
    by (cases w) (simp_all add: persisted_push_def generate_timestamped_filename_def remove_until_available_space_def
        dropped_result_Nil [of rt] fs'_def)
  have len: "length (pq_entries p) = length ts" using holds by (auto simp: disk_holds_def dest: list_all2_lengthD)
  have entries: "pq_entries p' = drop k (pq_entries p)"
    using ev len by (cases "k \<le> length ts") (simp_all add: evicted_def)
  have holds1: "disk_holds rt p' fs1 (drop k ts)" and sub: "fst ` set fs1 \<subseteq> fst ` set fs"
    using ev by (simp_all add: evicted_def)
  have "?name \<notin> set (map pe_path (pq_entries p'))" using disk_holds_paths [OF holds1] sub assms(5) by auto
  then have "disk_holds rt p' fs' (drop k ts)"
    using holds1 stored_all_insert [of rt fs1 "pq_entries p'" "drop k ts" ?name]
    by (auto simp: disk_holds_def fs'_def split: option.splits)
  moreover have "pq_total_on_disk_bytes p' \<le> pq_total_on_disk_bytes p"
  proof -
    have "sum_list (map pe_size_bytes (pq_entries p)) =
        sum_list (map pe_size_bytes (take k (pq_entries p))) + sum_list (map pe_size_bytes (drop k (pq_entries p)))"
      by (metis append_take_drop_id map_append sum_list_append)
    then show ?thesis using holds holds1 entries by (simp add: disk_holds_def)
  qed
  ultimately have "disk_within rt p' fs' (drop k ts)"
    using assms(3) same_limits_fields [OF evicted_same_limits [OF ev]] by (simp add: disk_within_def)
  moreover have "fst ` set fs' \<subseteq> insert ?name (fst ` set fs1)" by (auto simp: fs'_def split: option.splits)
  then have "fst ` set fs' \<subseteq> {?name} \<union> (fst ` set fs - pe_path ` (set (pq_entries p) - set (pq_entries p')))"
    using sub by (rule minus_insert_disjoint) (use ev [unfolded evicted_def] in argo)
  ultimately have "lost rt p fs ts k {?name} p' fs'"
    using entries evicted_same_limits [OF ev] by (simp add: lost_def)
  moreover have pos: "0 < k" if "limit < pq_total_on_disk_bytes p + length b" "ts \<noteq> []"
  proof (rule ccontr)
    assume "\<not> 0 < k"
    then have "pq_total_on_disk_bytes p' = pq_total_on_disk_bytes p" "pq_total_on_disk_bytes p' + length b \<le> limit"
      using entries holds holds1 ev that(2) by (simp_all add: disk_holds_def evicted_def)
    with that(1) show False by simp
  qed
  ultimately show thesis using push by (intro that) auto
qed

end
