(* ===== verification/Retry_Properties.thy ===== *)
theory Retry_Properties
  imports Retry_Storage
begin

text \<open>
  What the retry queue promises: a bound on its memory whatever the disk does, an account of every event when the disk
  works, an end to every pop, and entries that survive a restart. The last section shows an account that is wrong.
\<close>

section \<open>An instance\<close>

text \<open>Entries that are their own bytes, a text of instants that is easy to read back, and an environment without faults.\<close>

definition byte_entries :: "bytes retryable" where
  "byte_entries = \<lparr>rt_size_bytes = length, rt_event_count = (\<lambda>_. 1), rt_data_point_count = (\<lambda>_. 0), rt_to_vec = Some,
     rt_from_slice = Some\<rparr>"

definition plain_chrono :: chrono where
  "plain_chrono = \<lparr>ch_format = (\<lambda>(secs, nanos). show_nat secs @ ''T'' @ show_nat nanos),
     ch_parse = (\<lambda>s. case split_char (CHR ''T'') s of [a, b] \<Rightarrow> Some (digits_value a, digits_value b) | _ \<Rightarrow> None)\<rparr>"

definition calm :: "nat \<Rightarrow> disk_env" where
  "calm n = \<lparr>de_create_fails = False, de_open = Opened, de_listing_fails_after = None, de_read_fails = (\<lambda>_. False),
     de_remove_fails = (\<lambda>_. False), de_write_left = None, de_total_space = Some 1000, de_available_space = Some 1000,
     de_now = (n, 0), de_nonce = 123456789\<rparr>"

lemma byte_entries_fields:
  "rt_size_bytes byte_entries = length" "rt_event_count byte_entries = (\<lambda>_. 1)" "rt_data_point_count byte_entries = (\<lambda>_. 0)"
  "rt_to_vec byte_entries = Some" "rt_from_slice byte_entries = Some"
  by (simp_all add: byte_entries_def)

lemma byte_entries_ok: "serde_ok byte_entries"
  by (simp add: serde_ok_def byte_entries_def)

lemma calm_ok: "faultless (calm n)"
  by (simp add: faultless_def calm_def)

lemma show_nat_plain: "CHR ''T'' \<notin> set (show_nat n)" "CHR ''-'' \<notin> set (show_nat n)"
  using show_nat_digits [of n] by (auto simp: all_digits_def list_all_iff is_ascii_digit_def)

section \<open>Memory\<close>

lemma evict_pending_memory:
  assumes "evict_pending rt chrono envs to_remove removed pending q fs r = Some (q', fs', r')"
    and "rq_total_in_memory_bytes q = sizes rt pending"
  shows "rq_total_in_memory_bytes q' = sizes rt (rq_pending q') \<and> rq_max_in_memory_bytes q' = rq_max_in_memory_bytes q \<and>
    (rq_pending q' = [] \<or> to_remove + sizes rt (rq_pending q') \<le> removed + sizes rt pending)"
  using assms
proof (induction pending arbitrary: q fs r removed)
  case (Cons t pending)
  show ?case
  proof (cases "removed < to_remove")
    case True
    obtain p fs1 r1 removed' where "removed' = removed + rt_size_bytes rt t"
        "evict_pending rt chrono envs to_remove removed' pending
          (q\<lparr>rq_persisted_pending := p, rq_total_in_memory_bytes := sizes rt pending\<rparr>) fs1 r1 = Some (q', fs', r')"
      using Cons.prems True by (auto simp: u64_sub_def u64_add_def split: bind_splits if_splits)
    then show ?thesis using Cons.IH by fastforce
  qed (use Cons.prems in auto)
qed auto

text \<open>The states of a queue under pushes, pops and resets of its counter, with any environments.\<close>

inductive queue_run :: "'t retryable \<Rightarrow> chrono \<Rightarrow> 't retry_queue \<Rightarrow> 't retry_queue \<Rightarrow> files \<Rightarrow> bool" for rt chrono q0 where
  begun: "queue_run rt chrono q0 q0 fs"
| pushed: "queue_run rt chrono q0 q fs \<Longrightarrow> rq_push rt chrono envs t q fs = Some (q', fs', r) \<Longrightarrow> queue_run rt chrono q0 q' fs'"
| popped: "queue_run rt chrono q0 q fs \<Longrightarrow> rq_pop rt chrono env q fs = Some (q', fs', r) \<Longrightarrow> queue_run rt chrono q0 q' fs'"
| counted: "queue_run rt chrono q0 q fs \<Longrightarrow> queue_run rt chrono q0 (fst (take_persisted_entries_dropped q)) fs"

text \<open>
  C15. Whatever the disk does and whatever fails, the queue accounts exactly for the bytes of the entries in memory, and they
  stay within the configured maximum.
\<close>

theorem queue_memory_bounded:
  assumes "queue_run rt chrono q0 q fs" "rq_pending q0 = []" "rq_total_in_memory_bytes q0 = 0"
    and "2 * rq_max_in_memory_bytes q0 \<le> u64_max"
  shows "rq_total_in_memory_bytes q = sizes rt (rq_pending q) \<and> sizes rt (rq_pending q) \<le> rq_max_in_memory_bytes q0 \<and>
    rq_max_in_memory_bytes q = rq_max_in_memory_bytes q0"
  using assms(1)
proof (induction rule: queue_run.induct)
  case (pushed q fs envs t q' fs' r)
  let ?max = "rq_max_in_memory_bytes q" and ?required = "rq_total_in_memory_bytes q + rt_size_bytes rt t - rq_max_in_memory_bytes q"
  show ?case
  proof (cases "?max < rt_size_bytes rt t")
    case True
    then show ?thesis using pushed by (simp add: rq_push_def)
  next
    case False
    then have sat: "sat_sub (sat_add (rq_total_in_memory_bytes q) (rt_size_bytes rt t)) ?max = ?required"
      using pushed.IH assms(4) by (simp add: sat_sub_def sat_add_def)
    define to_remove where "to_remove = (if rq_persisted_pending q \<noteq> None \<and> 0 < ?required
      then max ?required (flush_to_disk_bytes ?max (rq_flush_to_disk_mem_ratio q)) else ?required)"
    have ge: "?required \<le> to_remove" by (simp add: to_remove_def)
    obtain q1 fs1 r1 where ev:
        "evict_pending rt chrono envs to_remove 0 (rq_pending q) q fs push_result_default = Some (q1, fs1, r1)"
        "q' = q1\<lparr>rq_pending := rq_pending q1 @ [t], rq_total_in_memory_bytes := rq_total_in_memory_bytes q1 + rt_size_bytes rt t\<rparr>"
      using pushed.hyps(2) False unfolding rq_push_def Let_def sat to_remove_def [symmetric]
      by (auto simp: u64_add_def split: bind_splits if_splits)
    have "rq_total_in_memory_bytes q1 = sizes rt (rq_pending q1)" "rq_max_in_memory_bytes q1 = ?max"
      "rq_pending q1 = [] \<or> to_remove + sizes rt (rq_pending q1) \<le> sizes rt (rq_pending q)"
      using evict_pending_memory [OF ev(1)] pushed.IH by auto
    then show ?thesis using ev ge pushed.IH False by auto
  qed
next
  case (popped q fs env q' fs' r)
  then show ?case by (auto simp: rq_pop_def u64_sub_def split: list.splits option.splits bind_splits if_splits)
next
  case (counted q fs)
  then show ?case by (auto simp: take_persisted_entries_dropped_def take_entries_dropped_def split: option.splits)
qed (use assms in simp)

theorem queue_memory_bounded_witness:
  "\<exists>q fs. queue_run byte_entries plain_chrono (retry_queue_new ''q'' 4) q fs \<and> rq_pending q = [[2, 3, 4]] \<and>
    rq_total_in_memory_bytes q = 3 \<and> sizes byte_entries (rq_pending q) \<le> 4"
proof -
  let ?q0 = "retry_queue_new ''q'' 4" and ?rt = byte_entries
  let ?push = "rq_push ?rt plain_chrono calm"
  obtain q1 r1 where q1: "?push [0, 1] ?q0 [] = Some (q1, [], r1)" "q1 = ?q0\<lparr>rq_pending := [[0, 1]], rq_total_in_memory_bytes := 2\<rparr>"
    by (auto simp: rq_push_def retry_queue_new_def byte_entries_def sat_add_def sat_sub_def u64_add_def u64_max_def)
  obtain q2 r2 where q2: "?push [2, 3, 4] q1 [] = Some (q2, [], r2)" "rq_pending q2 = [[2, 3, 4]]"
    by (auto simp: rq_push_def q1(2) retry_queue_new_def byte_entries_def sat_add_def sat_sub_def u64_add_def u64_sub_def
        u64_max_def evict_oldest_def track_dropped_item_def push_result_default_def)
  have run: "queue_run ?rt plain_chrono ?q0 q2 []"
    by (rule queue_run.pushed [OF queue_run.pushed [OF queue_run.begun q1(1)] q2(1)])
  from queue_memory_bounded [OF this] have "rq_total_in_memory_bytes q2 = 3" "sizes ?rt (rq_pending q2) \<le> 4"
    using q2(2) by (simp_all add: retry_queue_new_def u64_max_def byte_entries_def)
  then show ?thesis using run q2(2) by blast
qed

section \<open>Accounts\<close>

text \<open>
  A history of a queue on a disk that works: the entries taken in, the entries handed out, and the sum of the results that
  the pushes returned.
\<close>

inductive history ::
    "'t retryable \<Rightarrow> chrono \<Rightarrow> 't retry_queue \<Rightarrow> files \<Rightarrow> 't retry_queue \<Rightarrow> files \<Rightarrow> 't list \<Rightarrow> 't list \<Rightarrow> push_result \<Rightarrow> bool"
  for rt chrono q0 fs0 where
  start: "history rt chrono q0 fs0 q0 fs0 [] [] push_result_default"
| push: "history rt chrono q0 fs0 q fs ins outs r \<Longrightarrow> \<forall>i. faultless (envs i) \<Longrightarrow>
    fresh_names chrono envs (length (rq_pending q)) fs \<Longrightarrow> rq_push rt chrono envs t q fs = Some (q', fs', Inr d) \<Longrightarrow>
    merge_results r d = Some r' \<Longrightarrow> history rt chrono q0 fs0 q' fs' (ins @ [t]) outs r'"
| reject: "history rt chrono q0 fs0 q fs ins outs r \<Longrightarrow> rq_max_in_memory_bytes q < rt_size_bytes rt t \<Longrightarrow>
    rq_push rt chrono envs t q fs = Some (q', fs', Inl e) \<Longrightarrow> history rt chrono q0 fs0 q' fs' ins outs r"
| pop: "history rt chrono q0 fs0 q fs ins outs r \<Longrightarrow> faultless env \<Longrightarrow>
    rq_pop rt chrono env q fs = Some (q', fs', Inr popped) \<Longrightarrow>
    history rt chrono q0 fs0 q' fs' ins (outs @ (case popped of None \<Rightarrow> [] | Some t \<Rightarrow> [t])) r"

lemma history_accounts:
  assumes "history rt chrono q0 fs0 q fs ins outs r" "serde_ok rt" "queue_holds rt q0 fs0 [] disk0" "countable rt (disk0 @ ins)"
  shows "\<exists>mem disk ds. queue_holds rt q fs mem disk \<and> r = dropped_result rt ds \<and>
    mset disk0 + mset ins = mset outs + mset ds + mset mem + mset disk"
  using assms
proof (induction rule: history.induct)
  case start
  then show ?case by (intro exI [of _ "[]"] exI [of _ disk0]) (simp add: dropped_result_Nil [of rt])
next
  case (push q fs ins outs r envs t q' fs' d r')
  have "countable rt (disk0 @ ins)" using push.prems(3) by (rule countable_mono) simp
  with push obtain mem disk ds where ih: "queue_holds rt q fs mem disk" "r = dropped_result rt ds"
      "mset disk0 + mset ins = mset outs + mset ds + mset mem + mset disk" by blast
  have "mset (disk @ mem) \<subseteq># mset (disk0 @ ins @ [t])"
  proof -
    have "mset (disk0 @ ins @ [t]) = mset (disk @ mem) + (mset outs + mset ds + {#t#})"
      using ih(3) by (simp add: ac_simps)
    then show ?thesis by simp
  qed
  then have "countable rt (disk @ mem)" using push.prems(3) countable_mono by fastforce
  moreover have "rq_pending q = mem" using ih(1) by (simp add: queue_holds_def)
  moreover have "rt_size_bytes rt t \<le> rq_max_in_memory_bytes q"
    using push.hyps(4) rq_push_too_large [of q rt t chrono envs fs] by (cases "rq_max_in_memory_bytes q < rt_size_bytes rt t") auto
  ultimately obtain k disk' ds' where p: "d = dropped_result rt ds'" "queue_holds rt q' fs' (drop k mem @ [t]) disk'"
      "mset ds' + mset disk' = mset disk + mset (take k mem)"
    using rq_push_stored [OF push.prems(1) _ ih(1), of envs chrono t] push.hyps(2,3,4) by fastforce
  have "mset mem = mset (take k mem) + mset (drop k mem)" by (metis append_take_drop_id mset_append)
  then have all: "mset disk0 + mset (ins @ [t]) = mset outs + mset (ds @ ds') + mset (drop k mem @ [t]) + mset disk'"
    using ih(3) p(3) by (simp add: ac_simps)
  have "mset (ds @ ds') \<subseteq># mset (disk0 @ ins @ [t])"
  proof -
    have "mset (disk0 @ ins @ [t]) = mset (ds @ ds') + (mset outs + mset (drop k mem @ [t]) + mset disk')"
      using all by (simp add: ac_simps)
    then show ?thesis by simp
  qed
  then have "countable rt (ds @ ds')" using push.prems(3) countable_mono by fastforce
  then have "r' = dropped_result rt (ds @ ds')" using push.hyps(5) merge_results_dropped ih(2) p(1) by fastforce
  then show ?case using p(2) all by blast
next
  case (reject q fs ins outs r t envs q' fs' e)
  then show ?case using rq_push_too_large [OF reject.hyps(2)] by simp
next
  case (pop q fs ins outs r env q' fs' popped)
  then obtain mem disk ds where ih: "queue_holds rt q fs mem disk" "r = dropped_result rt ds"
      "mset disk0 + mset ins = mset outs + mset ds + mset mem + mset disk" by blast
  have p: "popped = (case mem @ disk of [] \<Rightarrow> None | t # _ \<Rightarrow> Some t)"
      "queue_holds rt q' fs' (tl mem) (if mem = [] then tl disk else disk)"
    using rq_pop_stored [OF pop.prems(1) pop.hyps(2) ih(1), of chrono] pop.hyps(3) by auto
  have "mset outs + mset mem + mset disk =
      mset (outs @ (case popped of None \<Rightarrow> [] | Some t \<Rightarrow> [t])) + mset (tl mem) + mset (if mem = [] then tl disk else disk)"
    unfolding p(1) by (cases mem; cases disk) auto
  then show ?case using ih p(2)
    by (intro exI [of _ "tl mem"] exI [of _ "if mem = [] then tl disk else disk"] exI [of _ ds]) (simp add: ac_simps)
qed

lemma history_returns:
  assumes "queue_holds rt q fs mem disk" "serde_ok rt" "countable rt (disk @ mem)" "\<forall>i. faultless (envs i)"
    and "fresh_names chrono envs (length (rq_pending q)) fs"
  shows "rq_push rt chrono envs t q fs \<noteq> None" "rq_pop rt chrono (envs i) q fs \<noteq> None"
proof -
  have "rq_pending q = mem" using assms(1) by (simp add: queue_holds_def)
  then show "rq_push rt chrono envs t q fs \<noteq> None"
    using rq_push_too_large [of q rt t chrono envs fs] rq_push_stored [OF assms(2) _ assms(1,3), of envs chrono t] assms(4,5)
    by (cases "rq_max_in_memory_bytes q < rt_size_bytes rt t") fastforce+
  show "rq_pop rt chrono (envs i) q fs \<noteq> None"
    using rq_pop_stored [OF assms(2) _ assms(1), of "envs i" chrono] assms(4) by auto
qed

text \<open>
  C10. On a disk that works no entry is lost without a trace: the entries found at the start and taken in since are those
  handed out, those still in memory or on disk, and those dropped, and the results of the pushes count the dropped ones,
  their events and their data points. No operation panics.
\<close>

theorem retry_entries_accounted:
  assumes "history rt chrono q0 fs0 q fs ins outs r" "serde_ok rt" "queue_holds rt q0 fs0 [] disk0" "countable rt (disk0 @ ins)"
  shows "\<exists>mem disk ds. queue_holds rt q fs mem disk \<and>
    mset disk0 + mset ins = mset outs + mset ds + mset mem + mset disk \<and> items_dropped r = length ds \<and>
    events_dropped r = sum_list (map (rt_event_count rt) ds) \<and> data_points_dropped r = sum_list (map (rt_data_point_count rt) ds) \<and>
    (\<forall>envs t i. (\<forall>j. faultless (envs j)) \<longrightarrow> fresh_names chrono envs (length (rq_pending q)) fs \<longrightarrow>
      rq_push rt chrono envs t q fs \<noteq> None \<and> rq_pop rt chrono (envs i) q fs \<noteq> None)"
proof -
  obtain mem disk ds where h: "queue_holds rt q fs mem disk" "r = dropped_result rt ds"
      "mset disk0 + mset ins = mset outs + mset ds + mset mem + mset disk"
    using history_accounts [OF assms] by blast
  have "mset (disk0 @ ins) = mset (disk @ mem) + (mset outs + mset ds)" using h(3) by (simp add: ac_simps)
  then have "countable rt (disk @ mem)" using assms(4) countable_mono [of rt "disk0 @ ins"] by simp
  then show ?thesis using h history_returns [OF h(1) assms(2)]
    by (intro exI [of _ mem] exI [of _ disk] exI [of _ ds]) (simp add: dropped_result_def)
qed

theorem retry_entries_accounted_witness:
  "\<exists>q r mem disk ds. history byte_entries plain_chrono (retry_queue_new ''q'' 4) [] q [] [[0, 1], [2, 3, 4]] [] r \<and>
    queue_holds byte_entries q [] mem disk \<and> {#[0, 1], [2, 3, 4]#} = mset ds + mset mem + mset disk \<and>
    items_dropped r = length ds \<and> items_dropped r = 1"
proof -
  let ?q0 = "retry_queue_new ''q'' 4" and ?rt = byte_entries
  let ?push = "rq_push ?rt plain_chrono calm" and ?none = "push_result_default"
  obtain q1 where q1: "?push [0, 1] ?q0 [] = Some (q1, [], Inr ?none)"
      "q1 = ?q0\<lparr>rq_pending := [[0, 1]], rq_total_in_memory_bytes := 2\<rparr>"
    by (auto simp: rq_push_def retry_queue_new_def byte_entries_def sat_add_def sat_sub_def u64_add_def u64_max_def)
  obtain q2 d where q2: "?push [2, 3, 4] q1 [] = Some (q2, [], Inr d)"
      "d = \<lparr>items_dropped = 1, events_dropped = 1, data_points_dropped = 0\<rparr>"
    by (auto simp: rq_push_def q1(2) retry_queue_new_def byte_entries_def sat_add_def sat_sub_def u64_add_def u64_sub_def
        u64_max_def evict_oldest_def track_dropped_item_def push_result_default_def)
  have merge: "merge_results ?none ?none = Some ?none" "merge_results ?none d = Some d"
    by (simp_all add: merge_results_def push_result_default_def q2(2) u64_add_def u64_max_def)
  have names: "fresh_names plain_chrono calm (length (rq_pending ?q0)) []" "fresh_names plain_chrono calm (length (rq_pending q1)) []"
    by (simp_all add: fresh_names_def retry_queue_new_def q1(2) lessThan_Suc)
  have "history ?rt plain_chrono ?q0 [] q1 [] ([] @ [[0, 1]]) [] ?none"
    by (rule history.push [OF history.start _ names(1) q1(1) merge(1)]) (simp add: calm_ok)
  then have run: "history ?rt plain_chrono ?q0 [] q2 [] (([] @ [[0, 1]]) @ [[2, 3, 4]]) [] d"
    by (rule history.push [OF _ _ names(2) q2(1) merge(2)]) (simp add: calm_ok)
  have "queue_holds ?rt ?q0 [] [] []" by (simp add: queue_holds_def retry_queue_new_def persisted_within_def u64_max_def)
  moreover have "countable ?rt ([] @ ([] @ [[0, 1]]) @ [[2, 3, 4]])" by (simp add: countable_def byte_entries_def u64_max_def)
  ultimately obtain mem disk ds where "queue_holds ?rt q2 [] mem disk"
      "mset [] + mset (([] @ [[0, 1]]) @ [[2, 3, 4]]) = mset [] + mset ds + mset mem + mset disk" "items_dropped d = length ds"
    using retry_entries_accounted [OF run byte_entries_ok] by blast
  then show ?thesis using run q2(2) by (intro exI [of _ q2] exI [of _ d] exI [of _ mem] exI [of _ disk] exI [of _ ds]) simp
qed

section \<open>Pops end\<close>

text \<open>The total covers the entries, and the count of dropped ones is far from its end: \<open>n\<close> more may fail than are listed.\<close>

definition pop_room :: "nat \<Rightarrow> persisted_queue \<Rightarrow> files \<Rightarrow> bool" where
  "pop_room n p fs \<longleftrightarrow> hm_ok fs \<and> sum_list (map pe_size_bytes (pq_entries p)) \<le> pq_total_on_disk_bytes p \<and>
     sum_list (map (length \<circ> snd) fs) \<le> u64_max \<and> pq_entries_dropped p + length (pq_entries p) + n \<le> u64_max"

lemma remove_room: "sum_list (map (length \<circ> snd) (hm_remove path fs)) \<le> sum_list (map (length \<circ> snd) fs)"
  "length (hm_remove path fs) \<le> length fs"
  by (induction fs) (auto simp: hm_remove_def le_SucI)

lemma try_deserialize_cases:
  obtains (read) t where "try_deserialize_entry rt env e fs = (hm_remove (pe_path e) fs, Inr (Some t))"
  | (failed) fs' err where "try_deserialize_entry rt env e fs = (fs', Inl err)" "fs' \<in> {fs, hm_remove (pe_path e) fs}"
  | (missing) "try_deserialize_entry rt env e fs = (fs, Inr None)" "map_of fs (pe_path e) = None"
  by (cases "de_read_fails env (pe_path e)"; cases "map_of fs (pe_path e)"; cases "de_remove_fails env (pe_path e)";
      cases "rt_from_slice rt (the (map_of fs (pe_path e)))") (auto simp: try_deserialize_entry_def Let_def)

text \<open>An entry that cannot be consumed: the pop goes on with the rest, within its room.\<close>

lemma pop_failed:
  assumes "pop_room n p fs" "pq_entries p = e # es" "try_deserialize_entry rt env e fs = (fs', Inl err)"
    and "fs' \<in> {fs, hm_remove (pe_path e) fs}"
  obtains p' where "persisted_pop rt chrono env p fs = persisted_pop rt chrono env p' fs'" "pop_room n p' fs'" "pq_entries p' = es"
proof -
  let ?p = "p\<lparr>pq_entries := es, pq_total_on_disk_bytes := pq_total_on_disk_bytes p - pe_size_bytes e,
    pq_entries_dropped := pq_entries_dropped p + 1\<rparr>"
  have "persisted_pop rt chrono env p fs = persisted_pop rt chrono env ?p fs'"
    using assms(1-3) by (subst persisted_pop.simps) (simp add: pop_room_def u64_sub_def u64_add_def)
  moreover have "pop_room n ?p fs'"
    using assms(1,2,4) remove_room [of "pe_path e" fs] by (auto simp: pop_room_def)
  ultimately show thesis by (intro that [of ?p]) simp_all
qed

lemma pop_present_returns:
  assumes "pop_room n p fs" "distinct (map pe_path (pq_entries p))" "pe_path ` set (pq_entries p) \<subseteq> fst ` set fs"
  shows "persisted_pop rt chrono env p fs \<noteq> None"
  using assms
proof (induction "pq_entries p" arbitrary: p fs)
  case Nil
  then show ?case by (subst persisted_pop.simps) (simp add: Nil(1) [symmetric])
next
  case (Cons e es)
  note entries = Cons.hyps(2) [symmetric]
  show ?case
  proof (cases rule: try_deserialize_cases [of rt env e fs])
    case (read t)
    then show ?thesis using Cons.prems(1) entries by (subst persisted_pop.simps) (simp add: pop_room_def u64_sub_def)
  next
    case (failed fs' err)
    obtain p' where p': "persisted_pop rt chrono env p fs = persisted_pop rt chrono env p' fs'" "pop_room n p' fs'" "pq_entries p' = es"
      by (rule pop_failed [OF Cons.prems(1) entries failed])
    have "distinct (map pe_path es)" "pe_path e \<notin> pe_path ` set es" "pe_path ` set es \<subseteq> fst ` set fs"
      using Cons.prems(2,3) entries by auto
    moreover have "fst ` set (hm_remove (pe_path e) fs) = fst ` set fs - {pe_path e}" by (auto simp: hm_remove_def image_iff)
    ultimately have "pe_path ` set es \<subseteq> fst ` set (hm_remove (pe_path e) fs)" by (simp only: subset_Diff_insert) simp
    then have "pe_path ` set es \<subseteq> fst ` set fs'" using failed(2) \<open>pe_path ` set es \<subseteq> fst ` set fs\<close> by (elim insertE) simp_all
    then have "persisted_pop rt chrono env p' fs' \<noteq> None"
      using Cons.hyps(1) [of p' fs'] p'(2,3) \<open>distinct (map pe_path es)\<close> by simp
    then show ?thesis by (simp add: p'(1))
  next
    case missing
    then show ?thesis using Cons.prems(3) entries by (auto simp: map_of_eq_None_iff)
  qed
qed

lemma scanned_entries:
  "mset (map pe_path (List.map_filter (\<lambda>(path, content). try_from_path chrono path (length content)) fs)) \<subseteq># mset (map fst fs)"
  "sum_list (map pe_size_bytes (List.map_filter (\<lambda>(path, content). try_from_path chrono path (length content)) fs))
     \<le> sum_list (map (length \<circ> snd) fs)"
proof (induction fs)
  case (Cons f fs)
  {
    case 1
    then show ?case using Cons(1)
      by (cases f; cases "decode_timestamped_filename chrono (fst f)")
        (simp_all add: map_filter_simps try_from_path_def subset_mset_grow)
  next
    case 2
    then show ?case using Cons(2)
      by (cases f; cases "decode_timestamped_filename chrono (fst f)") (simp_all add: map_filter_simps try_from_path_def)
  }
qed (simp_all add: map_filter_simps)

lemma distinct_submset:
  assumes "mset xs \<subseteq># mset ys" "distinct ys"
  shows "distinct xs"
proof -
  obtain c where "mset ys = mset xs + c" using assms(1) by (metis subset_mset.le_iff_add)
  moreover obtain zs where "mset zs = c" using ex_mset by blast
  ultimately have "mset ys = mset (xs @ zs)" by simp
  then have "distinct (xs @ zs)" using assms(2) mset_eq_imp_distinct_iff by blast
  then show ?thesis by simp
qed

lemma sum_list_sort_by: "sum_list (map f (sort_by le xs)) = (sum_list (map f xs) :: nat)"
proof -
  have "mset (map f (sort_by le xs)) = mset (map f xs)" by (simp add: mset_sort_by)
  then show ?thesis by (metis sum_mset_sum_list)
qed

lemma refresh_room:
  assumes "pop_room n p fs" "length fs \<le> n"
  shows "\<exists>p'. refresh_entry_state chrono env fs p = Some (p', Inl ScanFailed) \<or>
    refresh_entry_state chrono env fs p = Some (p', Inr ()) \<and> pop_room 0 p' fs \<and>
    distinct (map pe_path (pq_entries p')) \<and> pe_path ` set (pq_entries p') \<subseteq> fst ` set fs"
proof (cases "de_open env \<noteq> Opened \<or> (\<exists>n \<in> set_option (de_listing_fails_after env). n \<le> length fs)")
  case True
  then show ?thesis unfolding refresh_entry_state_def by simp
next
  case False
  let ?found = "List.map_filter (\<lambda>(path, content). try_from_path chrono path (length content)) fs"
  let ?entries = "sort_by (\<lambda>a b. pe_timestamp a \<le> pe_timestamp b) ?found"
  have paths: "mset (map pe_path ?entries) \<subseteq># mset (map fst fs)"
    and total: "sum_list (map pe_size_bytes ?entries) = sum_list (map pe_size_bytes ?found)"
    using scanned_entries(1) [of chrono fs] by (simp_all add: mset_sort_by sum_list_sort_by)
  then have "sum_list (map pe_size_bytes ?entries) \<le> u64_max" using scanned_entries(2) [of chrono fs] assms by (simp add: pop_room_def)
  then have "refresh_entry_state chrono env fs p =
      Some (p\<lparr>pq_entries := ?entries, pq_total_on_disk_bytes := sum_list (map pe_size_bytes ?entries)\<rparr>, Inr ())"
    using False sum_u64_exact [of 0 "map pe_size_bytes ?entries"] by (simp add: refresh_entry_state_def Let_def)
  moreover have "length ?entries \<le> length fs" using size_mset_mono [OF paths] by simp
  moreover have "distinct (map pe_path ?entries)"
  proof -
    have "distinct (map fst fs)" using assms by (simp add: pop_room_def hm_ok_def)
    then show ?thesis using paths by (rule distinct_submset [rotated])
  qed
  moreover have "pe_path ` set ?entries \<subseteq> fst ` set fs" using set_mset_mono [OF paths] by simp
  ultimately show ?thesis using assms by (auto simp: pop_room_def)
qed

text \<open>
  C25. Taking an entry from disk ends, whatever fails: an unreadable entry is skipped, and a missing file leads to one new
  scan, after which every entry listed has its file.
\<close>

theorem persisted_pop_terminates:
  assumes "pop_room (length fs) p fs"
  shows "\<exists>p' fs' r. persisted_pop rt chrono env p fs = Some (p', fs', r)"
proof -
  have "persisted_pop rt chrono env p fs \<noteq> None" if "pop_room n p fs" "length fs \<le> n" for n
    using that
  proof (induction "pq_entries p" arbitrary: p fs)
    case Nil
    then show ?case by (subst persisted_pop.simps) (simp add: Nil(1) [symmetric])
  next
    case (Cons e es)
    note entries = Cons.hyps(2) [symmetric]
    show ?case
    proof (cases rule: try_deserialize_cases [of rt env e fs])
      case (read t)
      then show ?thesis using Cons.prems entries by (subst persisted_pop.simps) (simp add: pop_room_def u64_sub_def)
    next
      case (failed fs' err)
      obtain p' where "persisted_pop rt chrono env p fs = persisted_pop rt chrono env p' fs'" "pop_room n p' fs'" "pq_entries p' = es"
        by (rule pop_failed [OF Cons.prems(1) entries failed])
      moreover have "length fs' \<le> n" using failed(2) Cons.prems(2) remove_room(2) [of "pe_path e" fs] by auto
      ultimately show ?thesis using Cons.hyps(1) [of p' fs'] by simp
    next
      case missing
      have "pop_room n (p\<lparr>pq_entries := es\<rparr>) fs" using Cons.prems entries by (simp add: pop_room_def)
      then obtain p' where "refresh_entry_state chrono env fs (p\<lparr>pq_entries := es\<rparr>) = Some (p', Inl ScanFailed) \<or>
          refresh_entry_state chrono env fs (p\<lparr>pq_entries := es\<rparr>) = Some (p', Inr ()) \<and> pop_room 0 p' fs \<and>
          distinct (map pe_path (pq_entries p')) \<and> pe_path ` set (pq_entries p') \<subseteq> fst ` set fs"
        using refresh_room [of n "p\<lparr>pq_entries := es\<rparr>" fs chrono env] Cons.prems(2) by blast
      then show ?thesis using missing(1) entries pop_present_returns [of 0 p' fs rt chrono env]
        by (subst persisted_pop.simps) auto
    qed
  qed
  then show ?thesis using assms by auto
qed

theorem persisted_pop_terminates_witness:
  "\<exists>p' fs' r. persisted_pop byte_entries plain_chrono (calm 7)
    \<lparr>pq_entries = [\<lparr>pe_path = ''retry-gone'', pe_timestamp = 5, pe_size_bytes = 2\<rparr>], pq_total_on_disk_bytes = 2,
     pq_max_on_disk_bytes = 10, pq_storage_max_disk_ratio = f64_one, pq_max_age_days = 1, pq_entries_dropped = 0\<rparr>
    [(''retry-1T2-3.json'', [8, 9])] = Some (p', fs', r)"
  by (rule persisted_pop_terminates) (simp add: pop_room_def hm_ok_def u64_max_def)

section \<open>Restarts\<close>

lemma set_insort_by: "set (insort_by le x ys) = insert x (set ys)"
  by (induction ys) auto

lemma sorted_sort_by: "sorted (map key (sort_by (\<lambda>a b. key a \<le> (key b :: nat)) xs))"
proof -
  have "sorted (map key (insort_by (\<lambda>a b. key a \<le> key b) x ys))" if "sorted (map key ys)" for x ys
    using that by (induction ys) (auto simp: set_insort_by)
  then show ?thesis unfolding sort_by_def by (induction xs) auto
qed

lemma sort_by_unique:
  assumes "mset xs = mset ys" "sorted_wrt (<) (map key ys)"
  shows "sort_by (\<lambda>a b. key a \<le> (key b :: nat)) xs = ys"
proof (rule map_sorted_distinct_set_unique [where f = key])
  let ?zs = "sort_by (\<lambda>a b. key a \<le> key b) xs"
  have m: "mset ?zs = mset ys" using assms(1) by (simp add: mset_sort_by)
  have d: "distinct (map key ys)" "sorted (map key ys)" using assms(2) by (simp_all add: strict_sorted_iff)
  show "set ?zs = set ys" using m by (rule mset_eq_setD)
  then show "inj_on key (set ?zs \<union> set ys)" using d(1) by (simp add: distinct_map)
  show "sorted (map key ?zs)" by (rule sorted_sort_by)
  have "mset (map key ?zs) = mset (map key ys)" using m by simp
  then show "distinct (map key ?zs)" using d(1) mset_eq_imp_distinct_iff by blast
  show "sorted (map key ys)" "distinct (map key ys)" using d by simp_all
qed

text \<open>
  What \<^verbatim>\<open>chrono\<close> documents of the format \<^verbatim>\<open>%Y%m%d%H%M%S%f\<close>, for the instants of years with four digits, and the
  names of the files: they give back the instants of the entries, in their order.
\<close>

definition four_digit_year :: "nat \<times> nat \<Rightarrow> bool" where
  "four_digit_year t \<longleftrightarrow> fst t < 253402300800 \<and> snd t < 1000000000"

definition chrono_ok :: "chrono \<Rightarrow> bool" where
  "chrono_ok chrono \<longleftrightarrow> (\<forall>t. four_digit_year t \<longrightarrow> ch_parse chrono (ch_format chrono t) = Some t \<and> CHR ''-'' \<notin> set (ch_format chrono t))"

definition nameable :: "disk_env \<Rightarrow> bool" where
  "nameable env \<longleftrightarrow> four_digit_year (de_now env) \<and> de_nonce env < 999999999"

definition disk_named :: "chrono \<Rightarrow> persisted_queue \<Rightarrow> files \<Rightarrow> bool" where
  "disk_named chrono p fs \<longleftrightarrow>
     (\<forall>e \<in> set (pq_entries p). decode_timestamped_filename chrono (pe_path e) = Some (pe_timestamp e)) \<and>
     sorted_wrt (<) (map pe_timestamp (pq_entries p)) \<and> fst ` set fs = pe_path ` set (pq_entries p)"

lemma file_stem_json: "file_stem (stem @ ''.json'') = stem" if "stem \<noteq> []"
  using that by (simp add: file_stem_def Let_def)

lemma decode_new_name:
  assumes "chrono_ok chrono" "nameable env"
  shows "decode_timestamped_filename chrono (new_name chrono env) = Some (datetime_to_timestamp (de_now env))"
proof -
  let ?f = "ch_format chrono (de_now env)" and ?n = "show_nat (de_nonce env)"
  have "CHR ''-'' \<notin> set ?n" using show_nat_digits [of "de_nonce env"] digit_not_sign by (auto simp: all_digits_def list_all_iff)
  moreover have "file_stem (new_name chrono env) = ''retry'' @ CHR ''-'' # (?f @ CHR ''-'' # ?n)"
    using file_stem_json [of "''retry-'' @ ?f @ ''-'' @ ?n"] by (simp add: generate_timestamped_filename_def)
  moreover have c: "ch_parse chrono ?f = Some (de_now env)" "CHR ''-'' \<notin> set ?f"
    using assms unfolding chrono_ok_def nameable_def by blast+
  moreover have "CHR ''-'' \<notin> set ''retry''" by simp
  ultimately have "split_char (CHR ''-'') (file_stem (new_name chrono env)) = [''retry'', ?f, ?n]"
    by (simp only: split_char_append split_char_none not_False_eq_True)
  then show ?thesis using assms(2) c(1) by (simp add: decode_timestamped_filename_def parse_show_nat nameable_def u64_max_def)
qed

lemma scan_named:
  assumes "disk_within rt p fs ts" "disk_named chrono p fs"
  shows "mset (List.map_filter (\<lambda>(path, content). try_from_path chrono path (length content)) fs) = mset (pq_entries p)"
proof -
  let ?found = "List.map_filter (\<lambda>(path, content). try_from_path chrono path (length content)) fs"
  have fs: "hm_ok fs" and paths: "distinct (map pe_path (pq_entries p))"
    and sizes: "\<And>e. e \<in> set (pq_entries p) \<Longrightarrow> \<exists>b. map_of fs (pe_path e) = Some b \<and> pe_size_bytes e = length b"
    using assms(1) by (force simp: disk_within_def disk_holds_def list_all2_conv_all_nth in_set_conv_nth stored_def)+
  have found: "e \<in> set ?found \<longleftrightarrow> (\<exists>path b. map_of fs path = Some b \<and> try_from_path chrono path (length b) = Some e)" for e
    using hm_lookup [OF fs] by (auto simp: List.map_filter_def image_iff split: prod.splits) force+
  have "set ?found = set (pq_entries p)"
  proof (intro set_eqI iffI)
    fix e assume "e \<in> set ?found"
    then obtain path b where b: "map_of fs path = Some b" "try_from_path chrono path (length b) = Some e" using found by blast
    then have "path \<in> fst ` set fs" by (force dest: map_of_SomeD)
    then obtain e' where e': "e' \<in> set (pq_entries p)" "path = pe_path e'" using assms(2) by (auto simp: disk_named_def)
    then have "e = e'" using b sizes [OF e'(1)] assms(2) by (auto simp: disk_named_def try_from_path_def)
    then show "e \<in> set (pq_entries p)" using e'(1) by simp
  next
    fix e assume e: "e \<in> set (pq_entries p)"
    then obtain b where b: "map_of fs (pe_path e) = Some b" "pe_size_bytes e = length b" using sizes by blast
    then have "try_from_path chrono (pe_path e) (length b) = Some e"
      using assms(2) e by (simp add: disk_named_def try_from_path_def)
    then show "e \<in> set ?found" using b(1) found by blast
  qed
  moreover have "distinct ?found"
  proof -
    have "distinct (map pe_path ?found)"
      using scanned_entries(1) [of chrono fs] fs unfolding hm_ok_def by (rule distinct_submset)
    then show ?thesis by (simp add: distinct_map)
  qed
  moreover have "distinct (pq_entries p)" using paths by (simp add: distinct_map)
  ultimately show ?thesis by (simp add: set_eq_iff_mset_eq_distinct)
qed

lemma scan_recovers:
  assumes "disk_within rt p fs ts" "disk_named chrono p fs" "faultless env"
  shows "refresh_entry_state chrono env fs q =
    Some (q\<lparr>pq_entries := pq_entries p, pq_total_on_disk_bytes := pq_total_on_disk_bytes p\<rparr>, Inr ())"
proof -
  have "sort_by (\<lambda>a b. pe_timestamp a \<le> pe_timestamp b)
      (List.map_filter (\<lambda>(path, content). try_from_path chrono path (length content)) fs) = pq_entries p"
    using scan_named [OF assms(1,2)] assms(2) by (intro sort_by_unique) (auto simp: disk_named_def)
  moreover have "sum_u64 0 (map pe_size_bytes (pq_entries p)) = Some (pq_total_on_disk_bytes p)"
    using assms(1) sum_u64_exact [of 0 "map pe_size_bytes (pq_entries p)"] by (simp add: disk_within_def disk_holds_def)
  ultimately show ?thesis using assms(3) by (simp add: refresh_entry_state_def faultless_def)
qed

text \<open>
  The states of a queue on disk that began with an empty directory, on a disk that works and with a clock that goes
  forward; \<open>ins\<close> are the entries pushed.
\<close>

inductive disk_run :: "'t retryable \<Rightarrow> chrono \<Rightarrow> nat \<Rightarrow> f64 \<Rightarrow> nat \<Rightarrow> persisted_queue \<Rightarrow> files \<Rightarrow> 't list \<Rightarrow> bool"
  for rt chrono max_bytes ratio days where
  created: "faultless env \<Longrightarrow> from_root_path chrono env [] max_bytes ratio days = Some (Inr p) \<Longrightarrow>
    disk_run rt chrono max_bytes ratio days p [] []"
| pushed: "disk_run rt chrono max_bytes ratio days p fs ins \<Longrightarrow> faultless env \<Longrightarrow> nameable env \<Longrightarrow>
    \<forall>e \<in> set (pq_entries p). pe_timestamp e < datetime_to_timestamp (de_now env) \<Longrightarrow>
    persisted_push rt chrono env t p fs = Some (p', fs', r) \<Longrightarrow> disk_run rt chrono max_bytes ratio days p' fs' (ins @ [t])"
| popped: "disk_run rt chrono max_bytes ratio days p fs ins \<Longrightarrow> faultless env \<Longrightarrow>
    persisted_pop rt chrono env p fs = Some (p', fs', r) \<Longrightarrow> disk_run rt chrono max_bytes ratio days p' fs' ins"

definition fresh_queue :: "nat \<Rightarrow> f64 \<Rightarrow> nat \<Rightarrow> persisted_queue" where
  "fresh_queue max_bytes ratio days =
     \<lparr>pq_entries = [], pq_total_on_disk_bytes = 0, pq_max_on_disk_bytes = max_bytes, pq_storage_max_disk_ratio = ratio,
      pq_max_age_days = days, pq_entries_dropped = 0\<rparr>"

lemma push_named:
  assumes "serde_ok rt" "faultless env" "disk_within rt p fs ts" "disk_named chrono p fs" "countable rt ts"
    and "chrono_ok chrono" "nameable env"
    and now: "\<forall>e \<in> set (pq_entries p). pe_timestamp e < datetime_to_timestamp (de_now env)"
    and push: "persisted_push rt chrono env t p fs = Some (p', fs', r)"
  shows "\<exists>ts'. disk_within rt p' fs' ts' \<and> disk_named chrono p' fs' \<and> same_limits p p' \<and> mset ts' \<subseteq># mset ts + {#t#}"
proof (cases "case rt_to_vec rt t of None \<Rightarrow> True | Some b \<Rightarrow> pq_max_on_disk_bytes p < length b")
  case True
  then have "p' = p" "fs' = fs" using persisted_push_rejected [OF True, of chrono env fs] push by auto
  then show ?thesis using assms(3,4) by (intro exI [of _ ts]) (simp add: same_limits_def)
next
  case False
  then obtain b where b: "rt_to_vec rt t = Some b" "length b \<le> pq_max_on_disk_bytes p" by (auto split: option.splits)
  let ?e = "\<lparr>pe_path = new_name chrono env, pe_timestamp = datetime_to_timestamp (de_now env), pe_size_bytes = length b\<rparr>"
  note name = decode_new_name [OF assms(6,7)]
  have fresh: "new_name chrono env \<notin> fst ` set fs"
  proof
    assume "new_name chrono env \<in> fst ` set fs"
    then obtain e where "e \<in> set (pq_entries p)" "new_name chrono env = pe_path e" using assms(4) by (auto simp: disk_named_def)
    then show False using name assms(4) now by (fastforce simp: disk_named_def)
  qed
  obtain k p2 fs2 p1 fs1 where k: "persisted_push rt chrono env t p fs = Some (p2, fs2, Inr (dropped_result rt (take k ts)))"
      "disk_within rt p2 fs2 (drop k ts @ [t])" "same_limits p p2"
      "evicted rt (pq_max_on_disk_bytes p) (length b) p fs (drop k ts) p1 fs1"
      "pq_entries p2 = pq_entries p1 @ [?e]" "fs2 = hm_insert (new_name chrono env) b fs1"
    by (rule persisted_push_stored [OF assms(1-3,5) b fresh])
  have p': "p' = p2" "fs' = fs2" using push k(1) by simp_all
  obtain m where m: "pq_entries p1 = drop m (pq_entries p)" using k(4) by (auto simp: evicted_def)
  have "set (pq_entries p1) \<subseteq> set (pq_entries p)" unfolding m by (rule set_drop_subset)
  moreover have "fst ` set fs1 = pe_path ` set (pq_entries p1)" using k(4) assms(4) by (simp add: evicted_def disk_named_def)
  moreover have "sorted_wrt (<) (map pe_timestamp (pq_entries p1))"
    using assms(4) unfolding m drop_map [symmetric] disk_named_def by (intro sorted_wrt_drop) simp
  ultimately have "disk_named chrono p2 fs2"
    using assms(4) now name unfolding disk_named_def k(5,6) by (auto simp: sorted_wrt_append)
  moreover have "mset (drop k ts @ [t]) \<subseteq># mset ts + {#t#}"
    by simp (metis append_take_drop_id mset_append mset_subset_eq_add_right)
  ultimately show ?thesis using k(2,3) p' by blast
qed

lemma pop_named:
  assumes "serde_ok rt" "faultless env" "disk_within rt p fs ts" "disk_named chrono p fs"
    and "persisted_pop rt chrono env p fs = Some (p', fs', r)"
  shows "disk_within rt p' fs' (tl ts) \<and> disk_named chrono p' fs' \<and> same_limits p p'"
proof -
  have p': "disk_within rt p' fs' (tl ts)" "same_limits p p'" "pq_entries p' = tl (pq_entries p)"
      "fst ` set fs = pe_path ` set (pq_entries p) \<longrightarrow> fst ` set fs' = pe_path ` set (pq_entries p')"
    using persisted_pop_stored [OF assms(1-3), of chrono] assms(5) by auto
  have "sorted_wrt (<) (map pe_timestamp (pq_entries p'))" "set (pq_entries p') \<subseteq> set (pq_entries p)"
    using assms(4) unfolding p'(3) disk_named_def by (cases "pq_entries p"; auto)+
  then show ?thesis using p' assms(4) by (auto simp: disk_named_def)
qed

lemma disk_run_ok:
  assumes "disk_run rt chrono max_bytes ratio days p fs ins" "serde_ok rt" "chrono_ok chrono" "countable rt ins" "2 * max_bytes \<le> u64_max"
  shows "\<exists>ts. disk_within rt p fs ts \<and> disk_named chrono p fs \<and> same_limits (fresh_queue max_bytes ratio days) p \<and>
    mset ts \<subseteq># mset ins"
  using assms
proof (induction rule: disk_run.induct)
  case (created env p)
  then have "p = fresh_queue max_bytes ratio days"
    by (auto simp: from_root_path_def refresh_entry_state_def faultless_def fresh_queue_def map_filter_simps sort_by_def)
  then show ?case using created.prems
    by (intro exI [of _ "[]"]) (simp add: fresh_queue_def disk_within_def disk_holds_def disk_named_def same_limits_def)
next
  case (pushed p fs ins env t p' fs' r)
  have "countable rt ins" using pushed.prems(3) by (rule countable_mono) simp
  with pushed obtain ts where ih: "disk_within rt p fs ts" "disk_named chrono p fs"
      "same_limits (fresh_queue max_bytes ratio days) p" "mset ts \<subseteq># mset ins" by blast
  have "countable rt ts" using \<open>countable rt ins\<close> ih(4) by (rule countable_mono)
  from push_named [OF pushed.prems(1) pushed.hyps(2) ih(1,2) this pushed.prems(2) pushed.hyps(3,4,5)] obtain ts' where
      "disk_within rt p' fs' ts'" "disk_named chrono p' fs'" "same_limits p p'" "mset ts' \<subseteq># mset ts + {#t#}" by blast
  moreover from this(4) have "mset ts' \<subseteq># mset (ins @ [t])"
    using ih(4) by (auto intro: subset_mset.order_trans)
  ultimately show ?case using same_limits_trans [OF ih(3)] by blast
next
  case (popped p fs ins env p' fs' r)
  then obtain ts where ih: "disk_within rt p fs ts" "disk_named chrono p fs"
      "same_limits (fresh_queue max_bytes ratio days) p" "mset ts \<subseteq># mset ins" by blast
  have "mset (tl ts) \<subseteq># mset ts" by (cases ts) (simp_all add: subset_mset_grow)
  then show ?case using pop_named [OF popped.prems(1) popped.hyps(2) ih(1,2) popped.hyps(3)] ih(3,4)
    by (blast intro: same_limits_trans subset_mset.order_trans)
qed

text \<open>
  C19. A restart finds what was on disk: after any pushes and pops, a new queue on the directory has the same entries in the
  same order, the same total and the same limits, whatever the order in which the directory lists its files.
\<close>

theorem restart_recovers_entries:
  assumes "disk_run rt chrono max_bytes ratio days p fs ins" "serde_ok rt" "chrono_ok chrono" "countable rt ins"
    and "2 * max_bytes \<le> u64_max" "faultless env" "mset fs' = mset fs"
  shows "from_root_path chrono env fs' max_bytes ratio days = Some (Inr p)"
proof -
  obtain ts where ts: "disk_within rt p fs ts" "disk_named chrono p fs" "same_limits (fresh_queue max_bytes ratio days) p"
    using disk_run_ok [OF assms(1-5)] by blast
  have sets: "set fs' = set fs" using assms(7) by (rule mset_eq_setD)
  have fs: "hm_ok fs" using ts(1) by (simp add: disk_within_def disk_holds_def)
  then have fs': "hm_ok fs'" unfolding hm_ok_def using assms(7) by (metis mset_eq_imp_distinct_iff mset_map)
  have "map_of fs' = map_of fs" using fs fs' sets by (intro map_of_inject_set [THEN iffD2]) (simp_all add: hm_ok_def)
  then have "disk_within rt p fs' ts" "disk_named chrono p fs'"
    using ts(1,2) fs' sets by (simp_all add: disk_within_def disk_holds_def disk_named_def stored_def [abs_def])
  from scan_recovers [OF this assms(6)] have "from_root_path chrono env fs' max_bytes ratio days =
      Some (Inr ((fresh_queue max_bytes ratio days)\<lparr>pq_entries := pq_entries p, pq_total_on_disk_bytes := pq_total_on_disk_bytes p\<rparr>))"
    using assms(6) by (simp add: from_root_path_def faultless_def fresh_queue_def)
  then show ?thesis using ts(3) by (simp add: same_limits_def)
qed

lemma plain_chrono_ok: "chrono_ok plain_chrono"
  unfolding chrono_ok_def
proof (intro allI impI)
  fix t :: "nat \<times> nat"
  obtain secs nanos where t: "t = (secs, nanos)" by force
  have "ch_format plain_chrono t = show_nat secs @ CHR ''T'' # show_nat nanos" by (simp add: plain_chrono_def t)
  moreover have "split_char (CHR ''T'') (show_nat secs @ CHR ''T'' # show_nat nanos) = [show_nat secs, show_nat nanos]"
    using show_nat_plain by (simp only: split_char_append split_char_none not_False_eq_True)
  ultimately show "ch_parse plain_chrono (ch_format plain_chrono t) = Some t \<and> CHR ''-'' \<notin> set (ch_format plain_chrono t)"
    using show_nat_digits show_nat_plain by (auto simp: plain_chrono_def t)
qed

lemma fresh_queue_within:
  "2 * max_bytes \<le> u64_max \<Longrightarrow> disk_within rt (fresh_queue max_bytes ratio days) [] []"
  by (simp add: fresh_queue_def disk_within_def disk_holds_def)

theorem restart_recovers_entries_witness:
  "\<exists>p fs. disk_run byte_entries plain_chrono 10 f64_one 1 p fs [[1, 2, 3]] \<and> length (pq_entries p) = 1 \<and>
    from_root_path plain_chrono (calm 9) fs 10 f64_one 1 = Some (Inr p)"
proof -
  let ?q = "fresh_queue 10 f64_one 1" and ?rt = byte_entries
  have max10: "2 * (10 :: nat) \<le> u64_max" by (simp add: u64_max_def)
  have "from_root_path plain_chrono (calm 0) [] 10 f64_one 1 = Some (Inr ?q)"
    by (simp add: from_root_path_def refresh_entry_state_def calm_def fresh_queue_def map_filter_simps sort_by_def)
  then have start: "disk_run ?rt plain_chrono 10 f64_one 1 ?q [] []" by (rule disk_run.created [OF calm_ok])
  have given: "countable ?rt []" "rt_to_vec ?rt [1, 2, 3] = Some [1, 2, 3]" "length [1, 2, 3 :: 8 word] \<le> pq_max_on_disk_bytes ?q"
      "new_name plain_chrono (calm 5) \<notin> fst ` set []"
    by (simp_all add: countable_def byte_entries_def fresh_queue_def)
  obtain k p fs where push:
      "persisted_push ?rt plain_chrono (calm 5) [1, 2, 3] ?q [] = Some (p, fs, Inr (dropped_result ?rt (take k [])))"
      "disk_within ?rt p fs (drop k [] @ [[1, 2, 3]])"
    by (rule persisted_push_stored [OF byte_entries_ok calm_ok fresh_queue_within [OF max10] given])
  have "disk_run ?rt plain_chrono 10 f64_one 1 p fs ([] @ [[1, 2, 3]])"
    by (rule disk_run.pushed [OF start calm_ok _ _ push(1)]) (simp_all add: calm_def nameable_def four_digit_year_def fresh_queue_def)
  moreover have "length (pq_entries p) = 1" using push(2) by (auto simp: disk_within_def disk_holds_def dest: list_all2_lengthD)
  moreover have "countable ?rt ([] @ [[1, 2, 3]])" by (simp add: countable_def byte_entries_def u64_max_def)
  ultimately show ?thesis
    using restart_recovers_entries [OF _ byte_entries_ok plain_chrono_ok _ max10 calm_ok, of f64_one 1 p fs "[[1, 2, 3]]" fs 9] by auto
qed

section \<open>An account that is wrong\<close>

text \<open>
  A push to disk makes room before it writes. What follows is any push whose writes fail, however much of a file they leave
  behind, while the disk otherwise works.
\<close>

text \<open>The oldest entry on disk has to go for \<open>t\<close> to be written.\<close>

definition crowds :: "'t retryable \<Rightarrow> disk_env \<Rightarrow> persisted_queue \<Rightarrow> 't \<Rightarrow> bool" where
  "crowds rt env p t \<longleftrightarrow> pq_entries p \<noteq> [] \<and>
     (\<exists>b limit. rt_to_vec rt t = Some b \<and> length b \<le> pq_max_on_disk_bytes p \<and>
       on_disk_bytes_limit env (pq_storage_max_disk_ratio p) (pq_max_on_disk_bytes p) = Inr limit \<and>
       limit < pq_total_on_disk_bytes p + length b)"

lemma persisted_push_lost:
  assumes "serde_ok rt" "writes_fail env" "disk_within rt p fs ts" "countable rt ts" "new_name chrono env \<notin> fst ` set fs"
  obtains e j p' fs' where "persisted_push rt chrono env t p fs = Some (p', fs', Inl e)"
    "lost rt p fs ts j {new_name chrono env} p' fs'" "crowds rt env p t \<longrightarrow> 0 < j"
proof (cases "case rt_to_vec rt t of None \<Rightarrow> True | Some b \<Rightarrow> pq_max_on_disk_bytes p < length b")
  case True
  then have "\<not> crowds rt env p t" by (auto simp: crowds_def)
  then show thesis using persisted_push_rejected [OF True] lost_refl [OF assms(3)] that by blast
next
  case False
  then obtain b where b: "rt_to_vec rt t = Some b" "length b \<le> pq_max_on_disk_bytes p" by (auto split: option.splits)
  have works: "removals_work env" using assms(2) by (simp add: writes_fail_def)
  obtain limit where limit: "on_disk_bytes_limit env (pq_storage_max_disk_ratio p) (pq_max_on_disk_bytes p) = Inr limit"
    using works by (rule removals_work_limit)
  obtain j p' fs' where j: "persisted_push rt chrono env t p fs = Some (p', fs', Inl WriteFailed)"
      "lost rt p fs ts j {new_name chrono env} p' fs'" "limit < pq_total_on_disk_bytes p + length b \<longrightarrow> ts \<noteq> [] \<longrightarrow> 0 < j"
    by (rule persisted_push_unwritten [OF assms b limit])
  have "ts \<noteq> []" if "pq_entries p \<noteq> []" using assms(3) that by (auto simp: disk_within_def disk_holds_def)
  then have "crowds rt env p t \<longrightarrow> 0 < j" using j(3) b limit by (auto simp: crowds_def)
  with j(1,2) show thesis by (rule that)
qed

lemma evict_pending_unwritten:
  assumes "serde_ok rt" "\<And>i. writes_fail (envs i)" "rq_persisted_pending q = Some p" "disk_within rt p fs disk"
    and "countable rt disk" "countable rt (ds @ pending)" "fresh_names chrono envs (length pending) fs"
    and "rq_total_in_memory_bytes q = sizes rt pending" "removed + sizes rt pending \<le> u64_max"
  shows "\<exists>k j p' fs'. evict_pending rt chrono envs to_remove removed pending q fs (dropped_result rt ds) =
      Some (q\<lparr>rq_pending := drop k pending, rq_persisted_pending := Some p',
              rq_total_in_memory_bytes := sizes rt (drop k pending)\<rparr>, fs', dropped_result rt (ds @ take k pending)) \<and>
    (drop k pending = [] \<or> to_remove \<le> removed + sizes rt (take k pending)) \<and>
    lost rt p fs disk j ((\<lambda>i. new_name chrono (envs i)) ` {..<length pending}) p' fs' \<and>
    (removed < to_remove \<longrightarrow> pending \<noteq> [] \<longrightarrow> crowds rt (envs (length pending - 1)) p (hd pending) \<longrightarrow> 0 < j)"
  using assms(3-)
proof (induction pending arbitrary: q p fs ds disk removed)
  case Nil
  have "q\<lparr>rq_pending := []\<rparr> = q\<lparr>rq_pending := [], rq_persisted_pending := Some p, rq_total_in_memory_bytes := 0\<rparr>"
    using Nil(1,6) by (cases q) simp
  then show ?case using lost_refl [OF Nil(2)] by (intro exI [of _ 0] exI [of _ p] exI [of _ fs]) simp
next
  case (Cons t pending)
  let ?names = "(\<lambda>i. new_name chrono (envs i)) ` {..<length pending}"
  show ?case
  proof (cases "removed < to_remove")
    case False
    have "q\<lparr>rq_pending := t # pending\<rparr> =
        q\<lparr>rq_pending := t # pending, rq_persisted_pending := Some p, rq_total_in_memory_bytes := sizes rt (t # pending)\<rparr>"
      using Cons.prems(1,6) by (cases q) simp
    then show ?thesis using False lost_refl [OF Cons.prems(2)]
      by (intro exI [of _ 0] exI [of _ p] exI [of _ fs]) simp
  next
    case True
    let ?env = "envs (length pending)" and ?removed = "removed + rt_size_bytes rt t"
    have "new_name chrono ?env \<notin> fst ` set fs" using Cons.prems(5) by (simp add: fresh_names_def)
    then obtain e j p1 fs1 where j: "persisted_push rt chrono ?env t p fs = Some (p1, fs1, Inl e)"
        "lost rt p fs disk j {new_name chrono ?env} p1 fs1" "crowds rt ?env p t \<longrightarrow> 0 < j"
      by (rule persisted_push_lost [OF assms(1,2) Cons.prems(2,3), of chrono _ t])
    have more: "countable rt ((ds @ [t]) @ pending)" using Cons.prems(4) by simp
    then have one: "countable rt (ds @ [t])" by (rule countable_mono) simp
    let ?q = "q\<lparr>rq_persisted_pending := Some p1, rq_total_in_memory_bytes := sizes rt pending\<rparr>"
    have step: "evict_pending rt chrono envs to_remove removed (t # pending) q fs (dropped_result rt ds) =
        evict_pending rt chrono envs to_remove ?removed pending ?q fs1 (dropped_result rt (ds @ [t]))"
      using True Cons.prems(1,6,7) j(1) track_dropped_item_result [OF one]
      by (simp add: evict_oldest_def u64_sub_def u64_add_def)
    have within1: "disk_within rt p1 fs1 (drop j disk)" using j(2) by (simp add: lost_def)
    have rest: "countable rt (drop j disk)"
      by (rule countable_mono [OF Cons.prems(3)]) (metis append_take_drop_id mset_append mset_subset_eq_add_right)
    have "fst ` set fs1 \<subseteq> {new_name chrono ?env} \<union> fst ` set fs"
      using j(2) [unfolded lost_def, THEN conjunct2, THEN conjunct2, THEN conjunct2] by auto
    then have fresh: "fresh_names chrono envs (length pending) fs1"
      using Cons.prems(5) fresh_names_step by simp
    obtain k i p' fs' where ih: "evict_pending rt chrono envs to_remove ?removed pending ?q fs1 (dropped_result rt (ds @ [t])) =
          Some (?q\<lparr>rq_pending := drop k pending, rq_persisted_pending := Some p',
              rq_total_in_memory_bytes := sizes rt (drop k pending)\<rparr>, fs', dropped_result rt ((ds @ [t]) @ take k pending))"
        "drop k pending = [] \<or> to_remove \<le> ?removed + sizes rt (take k pending)"
        "lost rt p1 fs1 (drop j disk) i ?names p' fs'"
      using Cons.IH [OF _ within1 rest more fresh, of ?q ?removed] Cons.prems(7) by auto
    have "lost rt p fs disk (j + i) (insert (new_name chrono ?env) ?names) p' fs'" by (rule lost_trans [OF j(2) ih(3)])
    then show ?thesis using step ih(1,2) j(3)
      by (intro exI [of _ "Suc k"] exI [of _ "j + i"] exI [of _ p'] exI [of _ fs']) (auto simp: lessThan_Suc)
  qed
qed

text \<open>
  C39. What a push counts as dropped leaves out entries that are gone when its writes fail. Take any queue with entries in
  memory and on disk, a new entry that makes the oldest one in memory leave for a disk without room for it, and a disk that
  works except that nothing can be written. The push returns, and counts exactly the entries that left memory; but at least
  one entry on disk is gone too, out of the queue's list and out of the directory, and neither the result nor the queue's own
  counter of dropped entries tells.
\<close>

theorem failed_write_hides_evictions:
  assumes "serde_ok rt" "\<And>i. writes_fail (envs i)" "queue_holds rt q fs (t0 # mem) disk" "countable rt (disk @ t0 # mem)"
    and "rq_persisted_pending q = Some p" "fresh_names chrono envs (length (t0 # mem)) fs"
    and "rt_size_bytes rt t \<le> rq_max_in_memory_bytes q" "rq_max_in_memory_bytes q < sizes rt (t0 # mem) + rt_size_bytes rt t"
    and "crowds rt (envs (length mem)) p t0"
  shows "\<exists>k j q' p' fs'. rq_push rt chrono envs t q fs = Some (q', fs', Inr (dropped_result rt (take k (t0 # mem)))) \<and>
    rq_pending q' = drop k (t0 # mem) @ [t] \<and> rq_persisted_pending q' = Some p' \<and>
    0 < j \<and> pq_entries p' = drop j (pq_entries p) \<and> disk_holds rt p' fs' (drop j disk) \<and>
    (\<forall>e \<in> set (take j (pq_entries p)). map_of fs' (pe_path e) = None) \<and>
    pq_entries_dropped p' = pq_entries_dropped p"
proof -
  let ?mem = "t0 # mem" and ?max = "rq_max_in_memory_bytes q" and ?size = "rt_size_bytes rt t"
  let ?required = "sizes rt ?mem + ?size - ?max"
  define to_remove where "to_remove = max ?required (flush_to_disk_bytes ?max (rq_flush_to_disk_mem_ratio q))"
  let ?names = "(\<lambda>i. new_name chrono (envs i)) ` {..<length ?mem}"
  have q: "rq_pending q = ?mem" "rq_total_in_memory_bytes q = sizes rt ?mem" "sizes rt ?mem \<le> ?max" "2 * ?max \<le> u64_max"
      "disk_within rt p fs disk"
    using assms(3,5) by (simp_all add: queue_holds_def persisted_within_def)
  have sat: "sat_sub (sat_add (sizes rt ?mem) ?size) ?max = ?required"
    using q(3,4) assms(7) by (simp add: sat_sub_def sat_add_def)
  have count: "countable rt disk" "countable rt ([] @ ?mem)" by (rule countable_mono [OF assms(4)], simp)+
  obtain k j p' fs' where ev: "evict_pending rt chrono envs to_remove 0 ?mem q fs (dropped_result rt []) =
      Some (q\<lparr>rq_pending := drop k ?mem, rq_persisted_pending := Some p',
              rq_total_in_memory_bytes := sizes rt (drop k ?mem)\<rparr>, fs', dropped_result rt ([] @ take k ?mem))"
    "drop k ?mem = [] \<or> to_remove \<le> 0 + sizes rt (take k ?mem)" and lost: "lost rt p fs disk j ?names p' fs'"
    and pos: "0 < to_remove \<longrightarrow> ?mem \<noteq> [] \<longrightarrow> crowds rt (envs (length ?mem - 1)) p (hd ?mem) \<longrightarrow> 0 < j"
    using evict_pending_unwritten [OF assms(1,2,5) q(5) count assms(6) q(2), of 0 to_remove] q(3,4) by auto
  have req: "0 < ?required" using assms(8) by simp
  then have "0 < to_remove" by (simp add: to_remove_def)
  with pos assms(9) have "0 < j" by simp
  have "sizes rt (take k ?mem) + sizes rt (drop k ?mem) = sizes rt ?mem" by (metis append_take_drop_id sizes_simps(3))
  then have "sizes rt (drop k ?mem) + ?size \<le> u64_max" using q(3,4) assms(7) by linarith
  then have push: "rq_push rt chrono envs t q fs = Some (q\<lparr>rq_pending := drop k ?mem @ [t], rq_persisted_pending := Some p',
      rq_total_in_memory_bytes := sizes rt (drop k ?mem) + ?size\<rparr>, fs', Inr (dropped_result rt (take k ?mem)))"
    using assms(5,7) req ev(1)
    unfolding rq_push_def Let_def q(1,2) sat to_remove_def dropped_result_Nil [of rt] by (simp add: u64_add_def)
  have holds: "disk_holds rt p' fs' (drop j disk)" and entries: "pq_entries p' = drop j (pq_entries p)"
      and files: "fst ` set fs' \<subseteq> ?names \<union> (fst ` set fs - pe_path ` (set (pq_entries p) - set (pq_entries p')))"
      and limits: "same_limits p p'"
    using lost unfolding lost_def disk_within_def by argo+
  have "pq_entries_dropped p' = pq_entries_dropped p"
    using limits unfolding same_limits_def by (cases p; cases p') simp
  moreover have "map_of fs' (pe_path e) = None" if e: "e \<in> set (take j (pq_entries p))" for e
  proof -
    have "distinct (pq_entries p)" using q(5) by (simp add: disk_within_def disk_holds_def distinct_map)
    then have "set (take j (pq_entries p)) \<inter> set (drop j (pq_entries p)) = {}" by (metis append_take_drop_id distinct_append)
    then have "e \<in> set (pq_entries p) - set (pq_entries p')"
      using e entries in_set_takeD [OF e] by auto
    moreover from this have "pe_path e \<in> fst ` set fs"
      using disk_holds_paths [of rt p fs disk] q(5) by (auto simp: disk_within_def)
    then have "pe_path e \<notin> ?names" using assms(6) by (metis (no_types, lifting) fresh_names_def image_iff lessThan_iff)
    ultimately have "pe_path e \<notin> fst ` set fs'" using files by blast
    then show ?thesis by (simp add: map_of_eq_None_iff)
  qed
  ultimately show ?thesis using push \<open>0 < j\<close> entries holds
    by (intro exI [of _ k] exI [of _ j] exI [of _ "q\<lparr>rq_pending := drop k ?mem @ [t], rq_persisted_pending := Some p',
      rq_total_in_memory_bytes := sizes rt (drop k ?mem) + ?size\<rparr>"] exI [of _ p'] exI [of _ fs']) simp
qed

text \<open>A queue on disk that holds one entry of three bytes and has room for four, and a disk that cannot be written.\<close>

definition small_disk :: persisted_queue where
  "small_disk = (fresh_queue 4 f64_one 1)\<lparr>pq_entries := [\<lparr>pe_path = ''retry-1T0-5.json'', pe_timestamp = 1000000000, pe_size_bytes = 3\<rparr>],
     pq_total_on_disk_bytes := 3\<rparr>"

definition full_disk :: disk_env where
  "full_disk = (calm 9)\<lparr>de_write_left := Some None, de_available_space := Some 0\<rparr>"

lemma full_disk_limit: "on_disk_bytes_limit full_disk f64_one 4 = Inr 0"
proof -
  have "bitlen 1000 = 10" by (rule bitlen_unique [of 9, simplified]) simp_all
  then have "f64_of_nat 1000 = F64_Fin False (1000 * 2 ^ 43) (-43)" by (simp add: f64_of_nat_def f64_round_def f64_pack_def)
  moreover have "f64_sub f64_one f64_one = f64_zero" by (simp add: f64_sub_def f64_one_def f64_zero_def align_exp_def f64_signed_def)
  moreover have "f64_sub f64_zero f64_zero = f64_zero" by (simp add: f64_sub_def f64_zero_def align_exp_def f64_signed_def)
  moreover have "f64_to_u64 (f64_ceil f64_zero) = 0" by (simp add: f64_ceil_def f64_zero_def)
  ultimately show ?thesis
    by (simp add: on_disk_bytes_limit_def full_disk_def calm_def f64_zero_def f64_of_nat_def [of 0])
qed

lemma full_disk_fields:
  "de_write_left full_disk = Some None" "de_read_fails full_disk = (\<lambda>_. False)" "de_remove_fails full_disk = (\<lambda>_. False)"
  by (simp_all add: full_disk_def calm_def)


text \<open>A queue with room for three bytes in memory, of which it uses two, over that disk.\<close>

definition small_queue :: "bytes retry_queue" where
  "small_queue = (retry_queue_new ''q'' 3)\<lparr>rq_pending := [[4, 5]], rq_persisted_pending := Some small_disk,
     rq_total_in_memory_bytes := 2\<rparr>"

theorem failed_write_hides_evictions_witness:
  "\<exists>q' p' fs' k. rq_push byte_entries plain_chrono (\<lambda>_. full_disk) [6, 7] small_queue [(''retry-1T0-5.json'', [1, 2, 3])] =
      Some (q', fs', Inr (dropped_result byte_entries (take k [[4, 5]]))) \<and>
    rq_persisted_pending q' = Some p' \<and> pq_entries p' = [] \<and> map_of fs' ''retry-1T0-5.json'' = None"
proof -
  let ?rt = byte_entries and ?fs = "[(''retry-1T0-5.json'', [1, 2, 3 :: 8 word])]"
  have "writes_fail full_disk"
    by (simp add: writes_fail_def removals_work_def full_disk_fields) (simp add: full_disk_def calm_def)
  moreover have "disk_within ?rt small_disk ?fs [[1, 2, 3]]"
    by (simp add: disk_within_def disk_holds_def small_disk_def fresh_queue_def stored_def byte_entries_def hm_ok_def u64_max_def)
  then have "queue_holds ?rt small_queue ?fs ([4, 5] # []) [[1, 2, 3]]"
    by (simp add: queue_holds_def small_queue_def retry_queue_new_def byte_entries_fields sizes_def persisted_within_def u64_max_def)
  moreover have "countable ?rt ([[1, 2, 3]] @ [4, 5] # [])" by (simp add: countable_def byte_entries_fields u64_max_def)
  moreover have "fresh_names plain_chrono (\<lambda>_. full_disk) (length ([4, 5 :: 8 word] # [])) ?fs"
    by (auto simp: fresh_names_def generate_timestamped_filename_def full_disk_def calm_def plain_chrono_def show_nat.simps inj_on_def)
  moreover have "crowds ?rt full_disk small_disk [4, 5]"
    using full_disk_limit by (simp add: crowds_def small_disk_def fresh_queue_def byte_entries_fields)
  ultimately obtain k j q' p' fs' where push: "rq_push ?rt plain_chrono (\<lambda>_. full_disk) [6, 7] small_queue ?fs =
        Some (q', fs', Inr (dropped_result ?rt (take k ([4, 5] # []))))" "rq_persisted_pending q' = Some p'"
      "0 < j" "pq_entries p' = drop j (pq_entries small_disk)"
      "\<forall>e \<in> set (take j (pq_entries small_disk)). map_of fs' (pe_path e) = None"
    using failed_write_hides_evictions [OF byte_entries_ok, of "\<lambda>_. full_disk" small_queue ?fs "[4, 5]" "[]"
        "[[1, 2, 3]]" small_disk plain_chrono "[6, 7]"]
    by (auto simp: small_queue_def retry_queue_new_def byte_entries_fields sizes_def)
  then show ?thesis by (cases j) (auto simp: small_disk_def)
qed

end
