(* ===== verification/Retry_Policy.thy ===== *)
theory Retry_Policy
  imports Float64
begin

text \<open>
  The retry policy of HTTP clients (\<^verbatim>\<open>lib/saluki-io/src/net/util/retry\<close>): exponential backoff (\<^verbatim>\<open>backoff.rs\<close>), the
  rolling policy over it (\<^verbatim>\<open>policy/rolling_exponential.rs\<close>) and the classifier of responses (\<^verbatim>\<open>classifier/http.rs\<close>).

  A duration is its number of nanoseconds. The random number generator is the argument \<open>sample\<close>, which picks a duration
  of a range. The error count that the clones of a policy share is changed by one atomic operation in every call, so the
  calls on all clones are one sequence. A response is its status code with the rest of it. The hooks of the lifecycle, which only observe, are left out.
\<close>

section \<open>Durations\<close>

definition duration_max :: nat where
  "duration_max = u64_max * 1000000000 + 999999999"

definition duration_saturating_mul :: "nat \<Rightarrow> nat \<Rightarrow> nat" where
  "duration_saturating_mul d n = min duration_max (d * n)"

definition u32_saturating_pow :: "nat \<Rightarrow> nat \<Rightarrow> nat" where
  "u32_saturating_pow b n = min u32_max (b ^ n)"

definition as_secs_f64 :: "nat \<Rightarrow> f64" where
  "as_secs_f64 d = f64_add (f64_of_nat (d div 1000000000)) (f64_div (f64_of_nat (d mod 1000000000)) (f64_of_nat 1000000000))"

text \<open>\<^verbatim>\<open>Duration::from_secs_f64\<close>: the nearest number of nanoseconds, with ties to even; a panic when it does not fit.\<close>

fun from_secs_f64 :: "f64 \<Rightarrow> nat option" where
  "from_secs_f64 (F64_Fin s m e) =
     (let d = (if 0 \<le> e then m * 1000000000 * 2 ^ nat e else shift_rne (m * 1000000000) (nat (- e)))
      in if s \<and> 0 < m \<or> duration_max < d then None else Some d)"
| "from_secs_f64 _ = None"

definition div_f64 :: "nat \<Rightarrow> f64 \<Rightarrow> nat option" where
  "div_f64 d x = from_secs_f64 (f64_div (as_secs_f64 d) x)"

text \<open>\<^verbatim>\<open>Ord::clamp\<close> panics unless the bounds are in order.\<close>

definition duration_clamp :: "nat \<Rightarrow> nat \<Rightarrow> nat \<Rightarrow> nat option" where
  "duration_clamp lo hi d = (if lo \<le> hi then Some (if d < lo then lo else if hi < d then hi else d) else None)"

section \<open>Exponential backoff\<close>

record exponential_backoff =
  xb_min_backoff :: nat
  xb_max_backoff :: nat
  xb_min_backoff_factor :: f64

definition exponential_backoff_new :: "nat \<Rightarrow> nat \<Rightarrow> exponential_backoff" where
  "exponential_backoff_new min_backoff max_backoff =
     \<lparr>xb_min_backoff = min_backoff, xb_max_backoff = max_backoff, xb_min_backoff_factor = f64_one\<rparr>"

definition with_jitter :: "nat \<Rightarrow> nat \<Rightarrow> f64 \<Rightarrow> exponential_backoff" where
  "with_jitter min_backoff max_backoff min_backoff_factor =
     \<lparr>xb_min_backoff = min_backoff, xb_max_backoff = max_backoff, xb_min_backoff_factor = f64_max min_backoff_factor f64_one\<rparr>"

text \<open>A random choice from an empty range is a panic.\<close>

definition random_range :: "(nat \<Rightarrow> nat \<Rightarrow> nat) \<Rightarrow> nat \<Rightarrow> nat \<Rightarrow> nat option" where
  "random_range sample lo hi = (if lo \<le> hi then Some (sample lo hi) else None)"

definition get_backoff_duration :: "(nat \<Rightarrow> nat \<Rightarrow> nat) \<Rightarrow> nat \<Rightarrow> exponential_backoff \<Rightarrow> nat option" where
  "get_backoff_duration sample error_count xb =
     (if error_count = 0 then Some (xb_min_backoff xb)
      else
        (let backoff = duration_saturating_mul (xb_min_backoff xb) (u32_saturating_pow 2 error_count)
         in do {
              backoff' \<leftarrow>
                (if f64_lt f64_one (xb_min_backoff_factor xb)
                 then do {
                   backoff_lower \<leftarrow> div_f64 backoff (xb_min_backoff_factor xb);
                   random_range sample backoff_lower backoff
                 }
                 else Some backoff);
              duration_clamp (xb_min_backoff xb) (xb_max_backoff xb) backoff'
            }))"

section \<open>Classification of responses\<close>

record 'b http_response =
  hr_status :: nat
  hr_rest :: 'b

text \<open>The classes of status codes of the package \<^verbatim>\<open>http\<close>.\<close>

record status_classes =
  sc_is_client_error :: "nat \<Rightarrow> bool"
  sc_is_server_error :: "nat \<Rightarrow> bool"

definition default_should_retry :: "status_classes \<Rightarrow> 'b http_response \<Rightarrow> bool" where
  "default_should_retry sc response =
     (let status = hr_status response
      in if status \<in> {400, 401, 403, 413} then False else sc_is_client_error sc status \<or> sc_is_server_error sc status)"

type_synonym 'b http_classifier = "('b http_response \<Rightarrow> bool) list"

definition http_classifier_new :: "status_classes \<Rightarrow> 'b http_classifier" where
  "http_classifier_new sc = [default_should_retry sc]"

definition with_predicate :: "'b http_classifier \<Rightarrow> ('b http_response \<Rightarrow> bool) \<Rightarrow> 'b http_classifier" where
  "with_predicate predicates predicate = predicates @ [predicate]"

definition http_should_retry :: "'b http_classifier \<Rightarrow> 'e + 'b http_response \<Rightarrow> bool" where
  "http_should_retry predicates response =
     (case response of Inr resp \<Rightarrow> list_ex (\<lambda>p. p resp) predicates | Inl _ \<Rightarrow> True)"

section \<open>The rolling policy\<close>

record 'b retry_policy =
  rp_classifier :: "'b http_classifier"
  rp_backoff :: exponential_backoff
  rp_recovery_error_decrease_factor :: "nat option"
  rp_error_count :: nat

definition with_backoff_and_classifier :: "exponential_backoff \<Rightarrow> 'b http_classifier \<Rightarrow> 'b retry_policy" where
  "with_backoff_and_classifier backoff classifier =
     \<lparr>rp_classifier = classifier, rp_backoff = backoff, rp_recovery_error_decrease_factor = None, rp_error_count = 0\<rparr>"

definition with_backoff :: "status_classes \<Rightarrow> exponential_backoff \<Rightarrow> 'b retry_policy" where
  "with_backoff sc backoff = with_backoff_and_classifier backoff (http_classifier_new sc)"

definition with_recovery_error_decrease_factor :: "nat option \<Rightarrow> 'b retry_policy \<Rightarrow> 'b retry_policy" where
  "with_recovery_error_decrease_factor factor p = p\<lparr>rp_recovery_error_decrease_factor := factor\<rparr>"

text \<open>The delay before the request is sent again, if it is; the counter wraps, the sum with one does not.\<close>

definition policy_retry ::
    "(nat \<Rightarrow> nat \<Rightarrow> nat) \<Rightarrow> 'e + 'b http_response \<Rightarrow> 'b retry_policy \<Rightarrow> ('b retry_policy \<times> nat option) option" where
  "policy_retry sample response p =
     (if http_should_retry (rp_classifier p) response
      then do {
        let p' = p\<lparr>rp_error_count := (rp_error_count p + 1) mod 2 ^ 32\<rparr>;
        error_count \<leftarrow> (if rp_error_count p < u32_max then Some (rp_error_count p + 1) else None);
        backoff_dur \<leftarrow> get_backoff_duration sample error_count (rp_backoff p);
        Some (p', Some backoff_dur)
      }
      else
        (case rp_recovery_error_decrease_factor p of
           Some factor \<Rightarrow> Some (p\<lparr>rp_error_count := sat_sub (rp_error_count p) factor\<rparr>, None)
         | None \<Rightarrow> Some (p\<lparr>rp_error_count := 0\<rparr>, None)))"

end
