(* ===== verification/Float_Error.thy ===== *)
theory Float_Error
  imports Complex_Main Float_Rank
begin

text \<open>
  How far rounding can raise a floating-point result: by a factor of \<open>1 + 2\<^sup>-\<^sup>5\<^sup>3\<close> at most, away from the subnormal
  numbers, and up to the least normal number among them.
\<close>

section \<open>Upper bounds\<close>

definition half_ulp :: real where
  "half_ulp = 1 / 2 ^ 53"

definition least_normal :: real where
  "least_normal = 2 powi (-1022)"

text \<open>A number that is not negative and at most \<open>b\<close>.\<close>

definition f64_upto :: "f64 \<Rightarrow> real \<Rightarrow> bool" where
  "f64_upto x b \<longleftrightarrow> (\<exists>m e. x = F64_Fin False m e \<and> real m * 2 powi e \<le> b)"

lemma f64_upto_mono: "f64_upto x a \<Longrightarrow> a \<le> b \<Longrightarrow> f64_upto x b"
  by (force simp: f64_upto_def)

lemma powi_two_add: "(2 :: real) powi (a + b) = 2 powi a * 2 powi b"
  by (simp add: power_int_add)

lemma powi_two_nat: "0 \<le> e \<Longrightarrow> (2 :: real) powi e = 2 ^ nat e"
  by (simp add: power_int_def)

lemma powi_two_less: "(2 :: real) powi a < 2 powi b \<longleftrightarrow> a < b"
  using power_int_increasing [of b a "2 :: real"] power_int_strict_increasing [of a b "2 :: real"] by linarith

lemma powi_two_le: "(2 :: real) powi a \<le> 2 powi b \<longleftrightarrow> a \<le> b"
  using power_int_increasing [of a b "2 :: real"] power_int_strict_increasing [of b a "2 :: real"] by linarith

lemma shift_rne_upper: "2 * real (shift_rne m k) * 2 ^ k \<le> 2 * real m + 2 ^ k"
proof -
  have "real m = real (m div 2 ^ k * 2 ^ k + m mod 2 ^ k)" by (simp only: div_mult_mod_eq)
  then have m: "real m = real (m div 2 ^ k) * 2 ^ k + real (m mod 2 ^ k)"
    by (simp only: of_nat_add of_nat_mult of_nat_numeral of_nat_power)
  show ?thesis
  proof (cases "shift_rne m k = m div 2 ^ k")
    case True
    have "0 \<le> real (m mod 2 ^ k)" by simp
    then show ?thesis using m unfolding True by (simp add: algebra_simps)
  next
    case False
    then have "shift_rne m k = Suc (m div 2 ^ k)" "2 ^ k \<le> 2 * (m mod 2 ^ k)"
      by (auto simp: shift_rne_def Let_def split: if_splits)
    moreover from this(2) have "2 ^ k \<le> 2 * real (m mod 2 ^ k)" by (metis of_nat_le_iff of_nat_mult of_nat_numeral of_nat_power)
    ultimately show ?thesis using m by (simp add: algebra_simps)
  qed
qed

lemma bitlen_powi:
  assumes "0 < m"
  shows "2 powi (int (bitlen m) - 1) \<le> real m" "real m < 2 powi (int (bitlen m))"
proof -
  have b: "2 ^ (bitlen m - 1) \<le> m" "m < 2 ^ bitlen m" "0 < bitlen m" using bitlen_bounds [OF assms] bitlen_pos [OF assms] by auto
  then have "real (2 ^ (bitlen m - 1)) \<le> real m" "real m < real (2 ^ bitlen m)" by (simp_all only: of_nat_le_iff of_nat_less_iff)
  moreover have "(2 :: real) powi (int (bitlen m) - 1) = 2 ^ (bitlen m - 1)"
    using b(3) powi_two_nat [of "int (bitlen m) - 1"] by (simp add: nat_diff_distrib)
  ultimately show "2 powi (int (bitlen m) - 1) \<le> real m" "real m < 2 powi (int (bitlen m))" by simp_all
qed

section \<open>Rounding\<close>

lemma f64_round_upto:
  assumes m: "0 < m" and small: "real m * 2 powi e < 2 powi 100"
  shows "f64_upto (f64_round False m e) (max (real m * 2 powi e * (1 + half_ulp)) least_normal)"
proof -
  define e' where "e' = max (e + int (bitlen m) - 53) (-1074)"
  define m' where "m' = (if e' \<le> e then m * 2 ^ nat (e - e') else shift_rne m (nat (e' - e)))"
  have "(2 :: real) powi (int (bitlen m) - 1 + e) \<le> real m * 2 powi e"
    using bitlen_powi(1) [OF m] by (simp add: powi_two_add mult_right_mono)
  then have low: "(2 :: real) powi (e + int (bitlen m) - 1) \<le> real m * 2 powi e" by (simp add: algebra_simps)
  then have "(2 :: real) powi (e + int (bitlen m) - 1) < 2 powi 100" using small by linarith
  then have "e + int (bitlen m) - 1 < 100" by (simp only: powi_two_less)
  then have e'_le: "e' + 1 \<le> 971" by (simp add: e'_def)
  have bound: "real m' * 2 powi e' \<le> max (real m * 2 powi e * (1 + half_ulp)) least_normal"
  proof (cases "e' \<le> e")
    case True
    then have "real m' * 2 powi e' = real m * (2 powi (e - e') * 2 powi e')" by (simp add: m'_def powi_two_nat)
    also have "\<dots> = real m * 2 powi e" by (simp add: powi_two_add [symmetric])
    also have "\<dots> \<le> real m * 2 powi e * (1 + half_ulp)" by (simp add: half_ulp_def mult_le_cancel_left1)
    finally show ?thesis by simp
  next
    case False
    let ?k = "nat (e' - e)"
    have k: "(2 :: real) powi e' = 2 ^ ?k * 2 powi e"
      using False powi_two_nat [of "e' - e"] powi_two_add [of "e' - e" e] by simp
    have "2 * real m' * 2 ^ ?k \<le> 2 * real m + 2 ^ ?k" using False shift_rne_upper [of m ?k] by (simp add: m'_def)
    then have "2 * real m' * 2 ^ ?k * 2 powi e \<le> (2 * real m + 2 ^ ?k) * 2 powi e" by (rule mult_right_mono) simp
    then have near: "2 * (real m' * 2 powi e') \<le> 2 * (real m * 2 powi e) + 2 powi e'" by (simp add: k algebra_simps)
    show ?thesis
    proof (cases "e' = e + int (bitlen m) - 53")
      case True
      have "(2 :: real) powi (e' + 52) \<le> real m * 2 powi e" using low by (simp add: True algebra_simps)
      then have "2 powi e' \<le> real m * 2 powi e * (2 * half_ulp)" by (simp add: powi_two_add half_ulp_def)
      then have "real m' * 2 powi e' \<le> real m * 2 powi e * (1 + half_ulp)" using near by (simp add: algebra_simps)
      then show ?thesis by simp
    next
      case other: False
      then have e': "e' = -1074" "e + int (bitlen m) - 53 < -1074" by (auto simp: e'_def)
      then have "bitlen m \<le> 52 + ?k" by simp
      then have "(2 :: nat) ^ bitlen m \<le> 2 ^ 52 * 2 ^ ?k" unfolding power_add [symmetric] by (rule power_increasing) simp
      then have "m \<le> 2 ^ 52 * 2 ^ ?k" using bitlen_bounds [OF m] by linarith
      then have "m' \<le> 2 ^ 52" using False shift_rne_le [of m "2 ^ 52" ?k] by (simp add: m'_def)
      then have "real m' \<le> 2 ^ 52" by (metis of_nat_le_iff of_nat_numeral of_nat_power)
      then have "real m' * 2 powi e' \<le> 2 ^ 52 * 2 powi e'" by (rule mult_right_mono) simp
      also have "\<dots> = least_normal" unfolding e' least_normal_def using powi_two_add [of 52 "-1074"] by (simp only: powi_two_nat) simp
      finally show ?thesis by simp
    qed
  qed
  show ?thesis
  proof (cases "m' = 2 ^ 53")
    case True
    then have "f64_round False m e = F64_Fin False (2 ^ 52) (e' + 1)"
      using e'_le by (simp add: f64_round_def Let_def e'_def [symmetric] m'_def [symmetric] f64_pack_def)
    moreover have "real (2 ^ 52) * 2 powi (e' + 1) = real m' * 2 powi e'" unfolding True by (simp add: powi_two_add)
    ultimately show ?thesis using bound by (simp add: f64_upto_def)
  next
    case False
    then have "f64_round False m e = F64_Fin False m' e'"
      using e'_le by (simp add: f64_round_def Let_def e'_def [symmetric] m'_def [symmetric] f64_pack_def)
    then show ?thesis using bound by (simp add: f64_upto_def)
  qed
qed

section \<open>Operations\<close>

lemma least_normal_tiny: "0 < least_normal" "least_normal \<le> 1 / 2 ^ 100"
  using powi_two_le [of "-1022" "-100"] by (simp_all add: least_normal_def power_int_minus inverse_eq_divide)

lemma half_ulp_pos: "0 < half_ulp"
  by (simp add: half_ulp_def)

lemma f64_upto_zero: "f64_upto f64_zero 0"
  by (simp add: f64_upto_def f64_zero_def)

lemma powi_less_of_less:
  "x < 2 ^ 99 \<Longrightarrow> (x :: real) < 2 powi 100"
  by (simp add: power_int_def)

lemma f64_of_nat_upto: "n < 2 ^ 64 \<Longrightarrow> f64_upto (f64_of_nat n) (real n * (1 + half_ulp))"
proof (cases "n = 0")
  case False
  assume "n < 2 ^ 64"
  then have "real n < 2 ^ 64" by (metis of_nat_less_iff of_nat_numeral of_nat_power)
  then have "f64_upto (f64_round False n 0) (max (real n * (1 + half_ulp)) least_normal)"
    using False f64_round_upto [of n 0] by (simp add: powi_less_of_less)
  moreover have "least_normal \<le> real n * (1 + half_ulp)"
    using least_normal_tiny(2) False half_ulp_pos mult_mono [of 1 "real n" 1 "1 + half_ulp"] by simp
  ultimately show ?thesis using False by (simp add: f64_of_nat_def max_absorb1)
qed (simp add: f64_of_nat_def f64_upto_zero)

lemma f64_add_upto:
  assumes "f64_upto x a" "f64_upto y b" "a + b < 2 ^ 99"
  shows "f64_upto (f64_add x y) (max ((a + b) * (1 + half_ulp)) least_normal)"
proof -
  obtain m1 e1 m2 e2 where x: "x = F64_Fin False m1 e1" "real m1 * 2 powi e1 \<le> a"
    and y: "y = F64_Fin False m2 e2" "real m2 * 2 powi e2 \<le> b"
    using assms(1,2) by (auto simp: f64_upto_def)
  define e where "e = min e1 e2"
  define c where "c = m1 * 2 ^ nat (e1 - e) + m2 * 2 ^ nat (e2 - e)"
  have at: "(2 :: real) ^ nat (k - e) * 2 powi e = 2 powi k" if "e \<le> k" for k
    using that powi_two_add [of "k - e" e] powi_two_nat [of "k - e"] by simp
  have "real c * 2 powi e = real m1 * 2 powi e1 + real m2 * 2 powi e2"
    using at [of e1] at [of e2] unfolding c_def by (simp add: distrib_right mult.assoc e_def)
  then have c: "real c * 2 powi e \<le> a + b" using x y by simp
  have sum: "align_exp e False m1 e1 + align_exp e False m2 e2 = int c" by (simp add: align_exp_def f64_signed_def c_def)
  show ?thesis
  proof (cases "c = 0")
    case True
    have "0 \<le> max ((a + b) * (1 + half_ulp)) least_normal" using least_normal_tiny(1) by simp
    then show ?thesis using x y sum True by (simp add: Let_def e_def [symmetric] f64_upto_def)
  next
    case False
    have "f64_upto (f64_round False c e) (max (real c * 2 powi e * (1 + half_ulp)) least_normal)"
      using False c assms(3) by (intro f64_round_upto powi_less_of_less) simp_all
    then have "f64_upto (f64_round False c e) (max ((a + b) * (1 + half_ulp)) least_normal)"
      using c half_ulp_pos by (elim f64_upto_mono) (intro max.mono mult_right_mono, simp_all)
    then show ?thesis using x y sum False by (simp add: Let_def e_def [symmetric])
  qed
qed

text \<open>The sticky bit of a quotient adds at most \<open>2\<^sup>-\<^sup>5\<^sup>7\<close> of it.\<close>

definition sticky :: real where
  "sticky = 1 / 2 ^ 57"

lemma sticky_quotient: "real (2 * (n div d) + (if n mod d = 0 then 0 else 1)) * real d \<le> 2 * real n + real d"
proof -
  have "real n = real (n div d * d + n mod d)" by (simp only: div_mult_mod_eq)
  then have n: "real n = real (n div d) * real d + real (n mod d)" by (simp only: of_nat_add of_nat_mult)
  have "0 \<le> real (n mod d)" by simp
  then show ?thesis unfolding n by (simp add: algebra_simps)
qed

lemma f64_div_upto:
  assumes "f64_upto x a" "a < 2 ^ 90" "0 < m2" "m2 < 2 ^ 53" and c: "1 \<le> real m2 * 2 powi e2"
  shows "f64_upto (f64_div x (F64_Fin False m2 e2))
    (max (a / (real m2 * 2 powi e2) * ((1 + sticky) * (1 + half_ulp))) least_normal)"
proof -
  obtain m1 e1 where x: "x = F64_Fin False m1 e1" "real m1 * 2 powi e1 \<le> a" using assms(1) by (auto simp: f64_upto_def)
  let ?v = "real m2 * 2 powi e2" and ?n = "m1 * 2 ^ 110" and ?e = "e1 - e2 - 111"
  define q where "q = 2 * (?n div m2) + (if ?n mod m2 = 0 then 0 else 1)"
  show ?thesis
  proof (cases "m1 = 0")
    case True
    have "0 \<le> max (a / ?v * ((1 + sticky) * (1 + half_ulp))) least_normal" using least_normal_tiny(1) by simp
    then show ?thesis using x True assms(3) by (simp add: f64_upto_def)
  next
    case False
    have "m2 * 2 ^ 57 \<le> 2 ^ 53 * 2 ^ 57" using assms(4) by (intro mult_right_mono) simp_all
    also have "\<dots> \<le> ?n" using False by simp
    finally have big: "m2 * 2 ^ 57 \<le> ?n" .
    have "real q * real m2 \<le> 2 * real ?n + real m2" unfolding q_def by (rule sticky_quotient)
    also have "\<dots> \<le> 2 * real ?n * (1 + sticky)"
    proof -
      have "real m2 * 2 ^ 57 \<le> real ?n" using big [folded of_nat_le_iff [where 'a = real]] by simp
      then show ?thesis by (simp add: sticky_def field_simps)
    qed
    finally have qm: "real q * real m2 \<le> real m1 * 2 ^ 111 * (1 + sticky)" by simp
    have "real q * 2 powi ?e * ?v = real q * real m2 * 2 powi (e1 - 111)"
      using powi_two_add [of ?e e2] by (simp add: algebra_simps)
    also have "\<dots> \<le> real m1 * 2 ^ 111 * (1 + sticky) * 2 powi (e1 - 111)" using qm by (rule mult_right_mono) simp
    also have "\<dots> = real m1 * 2 powi e1 * (1 + sticky)" using powi_two_add [of 111 "e1 - 111"] by (simp add: powi_two_nat)
    also have "\<dots> \<le> a * (1 + sticky)" using x(2) by (rule mult_right_mono) (simp add: sticky_def)
    finally have bound: "real q * 2 powi ?e \<le> a / ?v * (1 + sticky)" using c by (simp add: pos_le_divide_eq)
    have "0 \<le> real m1 * 2 powi e1" by simp
    then have a: "0 \<le> a" using x(2) by linarith
    have "a / ?v * (1 + sticky) \<le> a * 2"
      using a c by (intro mult_mono) (simp_all add: sticky_def divide_le_eq mult_le_cancel_left1)
    then have small: "real q * 2 powi ?e < 2 powi 100" using bound assms(2) by (intro powi_less_of_less) simp
    have "0 < ?n div m2" using big assms(3) by (simp add: div_greater_zero_iff) 
    then have "0 < q" by (simp add: q_def)
    then have "f64_upto (f64_round False q ?e) (max (real q * 2 powi ?e * (1 + half_ulp)) least_normal)"
      using small by (rule f64_round_upto)
    then have "f64_upto (f64_round False q ?e) (max (a / ?v * ((1 + sticky) * (1 + half_ulp))) least_normal)"
      using mult_right_mono [OF bound, of "1 + half_ulp"] half_ulp_pos
      by (elim f64_upto_mono) (intro max.mono, simp_all add: mult.assoc)
    then show ?thesis using x(1) False assms(3) by (simp add: Let_def q_def)
  qed
qed

end
