(* ===== verification/Retry_Policy_Properties.thy ===== *)
theory Retry_Policy_Properties
  imports Retry_Policy Float_Error Float_Order
begin

text \<open>
  What the retry policy promises: delays within the configured bounds that grow with the errors, no panic from the
  floating-point arithmetic of the jitter, and the classification of responses.
\<close>

section \<open>The lower end of the jitter\<close>

lemma f64_of_nat_exact: "n < 2 ^ 53 \<Longrightarrow> f64_upto (f64_of_nat n) (real n)"
proof (cases "n = 0")
  case False
  assume "n < 2 ^ 53"
  then have x: "f64_of_nat n = F64_Fin False (n * 2 ^ (53 - bitlen n)) (int (bitlen n) - 53)" and "bitlen n \<le> 53"
    using False f64_of_nat_fin bitlen_less by auto
  then have "(2 :: real) ^ (53 - bitlen n) * 2 powi (int (bitlen n) - 53) = 1"
    using powi_two_add [of "53 - int (bitlen n)" "int (bitlen n) - 53"] powi_two_nat [of "53 - int (bitlen n)"]
    by (simp add: nat_diff_distrib)
  then show ?thesis unfolding x f64_upto_def by (simp add: mult.assoc)
qed (simp add: f64_of_nat_def f64_upto_zero)

lemma billion: "f64_of_nat 1000000000 = F64_Fin False (1000000000 * 2 ^ 23) (-23)"
  using f64_of_nat_fin [of 1000000000] bitlen_unique [of 29 1000000000] by simp

lemma nanos_upto:
  assumes "n < 1000000000"
  shows "f64_upto (f64_div (f64_of_nat n) (f64_of_nat 1000000000)) (real n / 1000000000 * ((1 + sticky) * (1 + half_ulp)))"
proof (cases "n = 0")
  case True
  then show ?thesis unfolding billion by (simp add: f64_of_nat_def f64_zero_def f64_upto_def)
next
  case False
  have v: "real (1000000000 * 2 ^ 23) * 2 powi (-23) = 1000000000" by (simp add: power_int_minus)
  have "f64_upto (f64_of_nat n) (real n)" using assms by (intro f64_of_nat_exact) simp
  then have "f64_upto (f64_div (f64_of_nat n) (f64_of_nat 1000000000))
      (max (real n / (real (1000000000 * 2 ^ 23) * 2 powi (-23)) * ((1 + sticky) * (1 + half_ulp))) least_normal)"
    unfolding billion using assms by (intro f64_div_upto) (simp_all add: power_int_minus)
  moreover have "1 / 1000000000 * (1 * 1) \<le> real n / 1000000000 * ((1 + sticky) * (1 + half_ulp))"
    using False by (intro mult_mono) (simp_all add: sticky_def half_ulp_def)
  then have "least_normal \<le> real n / 1000000000 * ((1 + sticky) * (1 + half_ulp))"
    using least_normal_tiny(2) by simp
  ultimately show ?thesis unfolding v by (simp add: max_absorb1)
qed

lemma duration_parts: "real d / 1000000000 = real (d div 1000000000) + real (d mod 1000000000) / 1000000000"
proof -
  have "real d = real (d div 1000000000 * 1000000000 + d mod 1000000000)" by (simp only: div_mult_mod_eq)
  then show ?thesis by (simp only: of_nat_add of_nat_mult of_nat_numeral) simp
qed

lemma as_secs_upto:
  assumes "0 < d" "d \<le> duration_max"
  shows "f64_upto (as_secs_f64 d) (real d / 1000000000 * ((1 + sticky) * (1 + half_ulp) * (1 + half_ulp)))"
proof -
  let ?s = "d div 1000000000" and ?n = "d mod 1000000000" and ?k = "(1 + sticky) * (1 + half_ulp)"
  have k: "1 + half_ulp \<le> ?k" "1 \<le> ?k" "?k \<le> 2" by (simp_all add: sticky_def half_ulp_def)
  have s: "?s < 2 ^ 64" using assms(2) by (simp add: duration_max_def u64_max_def)
  have "f64_upto (f64_of_nat ?s) (real ?s * (1 + half_ulp))" using s by (rule f64_of_nat_upto)
  then have "f64_upto (f64_of_nat ?s) (real ?s * ?k)" by (rule f64_upto_mono) (intro mult_left_mono k(1), simp)
  moreover have "f64_upto (f64_div (f64_of_nat ?n) (f64_of_nat 1000000000)) (real ?n / 1000000000 * ?k)" by (rule nanos_upto) simp
  moreover have sum: "real ?s * ?k + real ?n / 1000000000 * ?k = real d / 1000000000 * ?k"
    unfolding duration_parts [of d] by (simp only: distrib_right)
  moreover have "real d / 1000000000 * ?k < 2 ^ 99"
  proof -
    have "real d \<le> real duration_max" using assms(2) by simp
    then have "real d / 1000000000 * ?k \<le> 2 ^ 65 * 2" using k by (intro mult_mono) (simp_all add: duration_max_def u64_max_def)
    then show ?thesis by simp
  qed
  ultimately have "f64_upto (as_secs_f64 d) (max (real d / 1000000000 * ?k * (1 + half_ulp)) least_normal)"
    unfolding as_secs_f64_def sum [symmetric] by (intro f64_add_upto) simp_all
  moreover have "1 / 1000000000 * 1 * 1 \<le> real d / 1000000000 * ?k * (1 + half_ulp)"
    using assms(1) k(2) half_ulp_pos by (intro mult_mono) simp_all
  then have "least_normal \<le> real d / 1000000000 * ?k * (1 + half_ulp)" using least_normal_tiny(2) by simp
  ultimately show ?thesis by (simp add: max_absorb1 mult.assoc)
qed

lemma f64_le_real:
  assumes "f64_le (F64_Fin False m1 e1) (F64_Fin s2 m2 e2)" "0 < m1"
  shows "\<not> s2 \<and> real m1 * 2 powi e1 \<le> real m2 * 2 powi e2"
proof -
  let ?e = "min e1 e2"
  have le: "align_exp ?e False m1 e1 \<le> align_exp ?e s2 m2 e2" using assms(1) f64_le_at [of ?e e1 e2] by simp
  have pos: "0 < align_exp ?e False m1 e1" using assms(2) by (simp add: align_exp_def f64_signed_def)
  have "\<not> s2"
  proof
    assume s2
    then have "align_exp ?e s2 m2 e2 \<le> 0" by (simp add: align_exp_def f64_signed_def)
    then show False using le pos by linarith
  qed
  then have "int (m1 * 2 ^ nat (e1 - ?e)) \<le> int (m2 * 2 ^ nat (e2 - ?e))" using le by (simp add: align_exp_def f64_signed_def)
  then have "real (m1 * 2 ^ nat (e1 - ?e)) \<le> real (m2 * 2 ^ nat (e2 - ?e))" by (simp only: of_nat_le_iff)
  then have "real m1 * 2 ^ nat (e1 - ?e) * 2 powi ?e \<le> real m2 * 2 ^ nat (e2 - ?e) * 2 powi ?e" by (intro mult_right_mono) simp_all
  moreover have "(2 :: real) ^ nat (k - ?e) * 2 powi ?e = 2 powi k" if "?e \<le> k" for k
    using that powi_two_add [of "k - ?e" ?e] powi_two_nat [of "k - ?e"] by simp
  ultimately show ?thesis using \<open>\<not> s2\<close> by (simp add: mult.assoc)
qed

lemma from_secs_le:
  assumes "f64_upto x (real d / 1000000000)" "d \<le> duration_max"
  shows "\<exists>l. from_secs_f64 x = Some l \<and> l \<le> d"
proof -
  obtain m e where x: "x = F64_Fin False m e" "real m * 2 powi e \<le> real d / 1000000000" using assms(1) by (auto simp: f64_upto_def)
  then have le: "real (m * 1000000000) * 2 powi e \<le> real d" by (simp add: field_simps)
  have "(if 0 \<le> e then m * 1000000000 * 2 ^ nat e else shift_rne (m * 1000000000) (nat (- e))) \<le> d"
  proof (cases "0 \<le> e")
    case True
    then have "real (m * 1000000000 * 2 ^ nat e) \<le> real d" using le by (simp add: powi_two_nat)
    then show ?thesis using True by (simp only: of_nat_le_iff if_True)
  next
    case False
    then have inv: "2 powi e = 1 / (2 :: real) ^ nat (- e)" by (simp add: power_int_def power_one_over inverse_eq_divide)
    have "real (m * 1000000000) \<le> real (d * 2 ^ nat (- e))" using le unfolding inv by (simp add: divide_le_eq)
    then have "m * 1000000000 \<le> d * 2 ^ nat (- e)" by (simp only: of_nat_le_iff)
    then show ?thesis using False shift_rne_le by simp
  qed
  then show ?thesis using x(1) assms(2) by (simp add: Let_def)
qed

text \<open>The second number above one.\<close>

definition jitter_floor :: f64 where
  "jitter_floor = F64_Fin False (2 ^ 52 + 2) (-52)"

lemma div_f64_le:
  assumes "d \<le> duration_max" "f64_valid x" "f64_le jitter_floor x"
  shows "\<exists>l. div_f64 d x = Some l \<and> l \<le> d"
proof -
  have x: "x = F64_Inf False \<or> (\<exists>m e. x = F64_Fin False m e \<and> 0 < m \<and> 1 + 4 * half_ulp \<le> real m * 2 powi e)"
  proof (cases x)
    case (F64_Fin s m e)
    have "real (2 ^ 52 + 2) * 2 powi (-52) = 1 + 4 * half_ulp" by (simp add: power_int_minus half_ulp_def)
    then have v: "\<not> s" "1 + 4 * half_ulp \<le> real m * 2 powi e"
      using F64_Fin assms(3) f64_le_real [of "2 ^ 52 + 2" "-52" s m e] by (simp_all add: jitter_floor_def)
    have "0 < m" using v(2) half_ulp_pos by (cases m) simp_all
    then show ?thesis using F64_Fin v by simp
  qed (use assms(3) in \<open>auto simp: jitter_floor_def f64_le_def\<close>)
  have "f64_upto (f64_div (as_secs_f64 d) x) (real d / 1000000000)"
  proof (cases "d = 0")
    case True
    then have "as_secs_f64 d = f64_zero" unfolding as_secs_f64_def billion by (simp add: f64_of_nat_def f64_zero_def align_exp_def f64_signed_def)
    then show ?thesis using x True half_ulp_pos by (auto simp: f64_zero_def f64_upto_def)
  next
    case False
    let ?a = "real d / 1000000000" and ?k = "(1 + sticky) * (1 + half_ulp) * (1 + half_ulp)"
    have s: "f64_upto (as_secs_f64 d) (?a * ?k)" using False assms(1) by (intro as_secs_upto) simp_all
    from x show ?thesis
    proof (elim disjE exE conjE)
      assume "x = F64_Inf False"
      then show ?thesis using s by (auto simp: f64_upto_def)
    next
      fix m e
      assume x: "x = F64_Fin False m e" and "0 < m" and v: "1 + 4 * half_ulp \<le> real m * 2 powi e"
      let ?v = "real m * 2 powi e"
      have "1 \<le> ?v" using v half_ulp_pos by linarith
      moreover note \<open>0 < m\<close>
      moreover have "m < 2 ^ 53" using assms(2) by (simp add: x)
      moreover have "?a * ?k < 2 ^ 90"
      proof -
        have "real d \<le> real duration_max" using assms(1) by simp
        then have "?a * ?k \<le> 2 ^ 65 * 2" by (intro mult_mono) (simp_all add: duration_max_def u64_max_def sticky_def half_ulp_def)
        then show ?thesis by simp
      qed
      ultimately have "f64_upto (f64_div (as_secs_f64 d) x) (max (?a * ?k / ?v * ((1 + sticky) * (1 + half_ulp))) least_normal)"
        unfolding x using s by (intro f64_div_upto)
      moreover have "max (?a * ?k / ?v * ((1 + sticky) * (1 + half_ulp))) least_normal \<le> ?a"
      proof (rule max.boundedI)
        have "?k * ((1 + sticky) * (1 + half_ulp)) \<le> 1 + 4 * half_ulp" by (simp add: sticky_def half_ulp_def)
        then have "?k * ((1 + sticky) * (1 + half_ulp)) \<le> ?v" using v by linarith
        then have "?a * (?k * ((1 + sticky) * (1 + half_ulp))) \<le> ?a * ?v" by (rule mult_left_mono) simp
        then show "?a * ?k / ?v * ((1 + sticky) * (1 + half_ulp)) \<le> ?a"
          using \<open>1 \<le> ?v\<close> by (simp add: pos_divide_le_eq mult.assoc)
        have "1 / 1000000000 \<le> ?a" using False by simp
        then show "least_normal \<le> ?a" using least_normal_tiny(2) by simp
      qed
      ultimately show ?thesis by (rule f64_upto_mono)
    qed
  qed
  then show ?thesis unfolding div_f64_def using assms(1) by (rule from_secs_le)
qed

section \<open>Delays\<close>

text \<open>What \<^verbatim>\<open>rand\<close> documents of a choice from a range, and the backoffs that a configuration admits.\<close>

definition sampler_ok :: "(nat \<Rightarrow> nat \<Rightarrow> nat) \<Rightarrow> bool" where
  "sampler_ok sample \<longleftrightarrow> (\<forall>lo hi. lo \<le> hi \<longrightarrow> lo \<le> sample lo hi \<and> sample lo hi \<le> hi)"

definition jittered :: "exponential_backoff \<Rightarrow> bool" where
  "jittered xb \<longleftrightarrow> f64_lt f64_one (xb_min_backoff_factor xb)"

definition backoff_ok :: "exponential_backoff \<Rightarrow> bool" where
  "backoff_ok xb \<longleftrightarrow> xb_min_backoff xb \<le> xb_max_backoff xb \<and> xb_max_backoff xb \<le> duration_max \<and>
     f64_valid (xb_min_backoff_factor xb) \<and> (jittered xb \<longrightarrow> f64_le jitter_floor (xb_min_backoff_factor xb))"

text \<open>The delay after \<open>n\<close> errors: at most the exponential growth, and exactly that without jitter.\<close>

definition growth :: "exponential_backoff \<Rightarrow> nat \<Rightarrow> nat" where
  "growth xb n = min (xb_max_backoff xb) (xb_min_backoff xb * min (2 ^ n) (2 ^ 32 - 1))"

definition delay_ok :: "exponential_backoff \<Rightarrow> nat \<Rightarrow> nat \<Rightarrow> bool" where
  "delay_ok xb n t \<longleftrightarrow> xb_min_backoff xb \<le> t \<and> t \<le> growth xb n \<and> (jittered xb \<or> t = growth xb n)"

lemma backoff_delay:
  assumes "backoff_ok xb" "sampler_ok sample"
  shows "\<exists>t. get_backoff_duration sample (Suc n) xb = Some t \<and> delay_ok xb (Suc n) t"
proof -
  let ?lo = "xb_min_backoff xb" and ?hi = "xb_max_backoff xb"
  define backoff where "backoff = duration_saturating_mul ?lo (u32_saturating_pow 2 (Suc n))"
  have lo: "?lo \<le> ?hi" "?hi \<le> duration_max" using assms(1) by (simp_all add: backoff_ok_def)
  have "?lo * 1 \<le> ?lo * min (2 ^ Suc n) (2 ^ 32 - 1)" by (rule mult_left_mono) simp_all
  then have b: "backoff \<le> duration_max" "?lo \<le> backoff" "min ?hi backoff = growth xb (Suc n)"
    using lo by (auto simp: backoff_def duration_saturating_mul_def u32_saturating_pow_def growth_def u32_max_def min.commute)
  obtain b' where b': "(if jittered xb
      then do { backoff_lower \<leftarrow> div_f64 backoff (xb_min_backoff_factor xb); random_range sample backoff_lower backoff }
      else Some backoff) = Some b'" "b' \<le> backoff" "jittered xb \<or> b' = backoff"
  proof (cases "jittered xb")
    case True
    then obtain l where "div_f64 backoff (xb_min_backoff_factor xb) = Some l" "l \<le> backoff"
      using assms(1) b(1) div_f64_le [of backoff "xb_min_backoff_factor xb"] by (auto simp: backoff_ok_def)
    then show ?thesis using True assms(2) by (intro that [of "sample l backoff"]) (simp_all add: random_range_def sampler_ok_def)
  qed (simp add: that)
  then have "get_backoff_duration sample (Suc n) xb = duration_clamp ?lo ?hi b'"
    by (simp add: get_backoff_duration_def backoff_def [symmetric] jittered_def)
  then show ?thesis using lo b b'(2,3) by (auto simp: duration_clamp_def delay_ok_def b(3) [symmetric])
qed

section \<open>The policy\<close>

fun policy_retries ::
    "(nat \<Rightarrow> nat \<Rightarrow> nat) list \<Rightarrow> ('e + 'b http_response) list \<Rightarrow> 'b retry_policy \<Rightarrow> ('b retry_policy \<times> nat option list) option" where
  "policy_retries (sample # samples) (response # responses) p = do {
     (p1, t) \<leftarrow> policy_retry sample response p;
     (p2, ts) \<leftarrow> policy_retries samples responses p1;
     Some (p2, t # ts)
   }"
| "policy_retries _ _ p = Some (p, [])"

text \<open>Which responses call for a retry, and the delays that a count of errors allows.\<close>

definition retriable :: "('b http_response \<Rightarrow> bool) list \<Rightarrow> 'e + 'b http_response \<Rightarrow> bool" where
  "retriable extra response =
     (case response of
        Inl _ \<Rightarrow> True
      | Inr r \<Rightarrow> hr_status r \<in> {400..<600} - {400, 401, 403, 413} \<or> (\<exists>p \<in> set extra. p r))"

definition recovered :: "nat option \<Rightarrow> nat \<Rightarrow> nat" where
  "recovered factor n = (case factor of None \<Rightarrow> 0 | Some k \<Rightarrow> n - k)"

fun backs_off ::
    "('b http_response \<Rightarrow> bool) list \<Rightarrow> exponential_backoff \<Rightarrow> nat option \<Rightarrow> nat \<Rightarrow> ('e + 'b http_response) list \<Rightarrow> nat option list \<Rightarrow> bool" where
  "backs_off extra xb factor n (r # rs) (Some t # ts) \<longleftrightarrow>
     retriable extra r \<and> delay_ok xb (Suc n) t \<and> backs_off extra xb factor (Suc n) rs ts"
| "backs_off extra xb factor n (r # rs) (None # ts) \<longleftrightarrow>
     \<not> retriable extra r \<and> backs_off extra xb factor (recovered factor n) rs ts"
| "backs_off extra xb factor n rs ts \<longleftrightarrow> rs = [] \<and> ts = []"

lemma backs_off_Cons:
  "backs_off extra xb factor n (r # rs) us \<longleftrightarrow> (\<exists>t vs. us = t # vs \<and>
     (if retriable extra r then \<exists>d. t = Some d \<and> delay_ok xb (Suc n) d \<and> backs_off extra xb factor (Suc n) rs vs
      else t = None \<and> backs_off extra xb factor (recovered factor n) rs vs))"
proof (cases us)
  case (Cons t vs)
  then show ?thesis by (cases t) simp_all
qed simp

lemma with_predicates: "foldl with_predicate c extra = c @ extra"
  by (induction extra arbitrary: c) (simp_all add: with_predicate_def)

text \<open>What \<^verbatim>\<open>http\<close> documents of the classes of status codes.\<close>

definition status_classes_ok :: "status_classes \<Rightarrow> bool" where
  "status_classes_ok sc \<longleftrightarrow> (\<forall>status. (sc_is_client_error sc status \<longleftrightarrow> 400 \<le> status \<and> status < 500) \<and>
     (sc_is_server_error sc status \<longleftrightarrow> 500 \<le> status \<and> status < 600))"

lemma error_statuses:
  assumes "status_classes_ok sc"
  shows "sc_is_client_error sc status \<or> sc_is_server_error sc status \<longleftrightarrow> status \<in> {400..<600}"
proof -
  have "sc_is_client_error sc status \<longleftrightarrow> 400 \<le> status \<and> status < 500" "sc_is_server_error sc status \<longleftrightarrow> 500 \<le> status \<and> status < 600"
    using assms unfolding status_classes_ok_def by blast+
  then show ?thesis by auto
qed

lemma default_retriable:
  "status_classes_ok sc \<Longrightarrow> default_should_retry sc r \<longleftrightarrow> hr_status r \<in> {400..<600} - {400, 401, 403, 413}"
  unfolding default_should_retry_def Let_def Diff_iff by (simp only: error_statuses if_bool_eq_conj) blast

lemma classifier_retriable:
  "status_classes_ok sc \<Longrightarrow>
   http_should_retry (foldl with_predicate (http_classifier_new sc) extra) response \<longleftrightarrow> retriable extra response"
  unfolding http_should_retry_def retriable_def with_predicates http_classifier_new_def
  by (simp only: append_Cons append_Nil list_ex_iff list.set bex_simps default_retriable)

definition http_policy ::
    "status_classes \<Rightarrow> ('b http_response \<Rightarrow> bool) list \<Rightarrow> exponential_backoff \<Rightarrow> nat option \<Rightarrow> nat \<Rightarrow> 'b retry_policy" where
  "http_policy sc extra xb factor n =
     \<lparr>rp_classifier = foldl with_predicate (http_classifier_new sc) extra, rp_backoff = xb,
      rp_recovery_error_decrease_factor = factor, rp_error_count = n\<rparr>"

lemma policy_retry_step:
  assumes "status_classes_ok sc" "backoff_ok xb" "sampler_ok sample" "n < u32_max"
  shows "if retriable extra response
    then \<exists>t. policy_retry sample response (http_policy sc extra xb factor n) = Some (http_policy sc extra xb factor (Suc n), Some t) \<and>
      delay_ok xb (Suc n) t
    else policy_retry sample response (http_policy sc extra xb factor n) = Some (http_policy sc extra xb factor (recovered factor n), None)"
proof (cases "retriable extra response")
  case True
  obtain t where "get_backoff_duration sample (Suc n) xb = Some t" "delay_ok xb (Suc n) t" using backoff_delay assms(2,3) by blast
  then show ?thesis using True assms(1,4) by (simp add: policy_retry_def http_policy_def classifier_retriable u32_max_def)
next
  case False
  then show ?thesis using assms(1)
    by (simp add: policy_retry_def http_policy_def classifier_retriable recovered_def sat_sub_def split: option.splits)
qed

lemma policy_retries_back_off:
  "status_classes_ok sc \<Longrightarrow> backoff_ok xb \<Longrightarrow> list_all sampler_ok samples \<Longrightarrow> length samples = length responses \<Longrightarrow> n + length responses \<le> u32_max \<Longrightarrow>
   \<exists>p ts. policy_retries samples responses (http_policy sc extra xb factor n) = Some (p, ts) \<and> backs_off extra xb factor n responses ts"
proof (induction responses arbitrary: samples n)
  case (Cons response responses)
  then obtain sample samples' where s: "samples = sample # samples'" by (cases samples) simp_all
  have step: "status_classes_ok sc" "backoff_ok xb" "sampler_ok sample" "n < u32_max" using Cons.prems by (simp_all add: s)
  have ih: "\<exists>p ts. policy_retries samples' responses (http_policy sc extra xb factor k) = Some (p, ts) \<and>
      backs_off extra xb factor k responses ts" if "k \<le> Suc n" for k
    using Cons.IH [of samples' k] Cons.prems that by (simp add: s)
  show ?case
  proof (cases "retriable extra response")
    case True
    then obtain t where "policy_retry sample response (http_policy sc extra xb factor n) = Some (http_policy sc extra xb factor (Suc n), Some t)"
        "delay_ok xb (Suc n) t"
      using policy_retry_step [OF step, of extra response factor] by auto
    then show ?thesis using True ih [of "Suc n"] by (auto simp: s)
  next
    case False
    then have "policy_retry sample response (http_policy sc extra xb factor n) = Some (http_policy sc extra xb factor (recovered factor n), None)"
      using policy_retry_step [OF step, of extra response factor] by simp
    moreover have "recovered factor n \<le> Suc n" by (cases factor) (simp_all add: recovered_def)
    ultimately show ?thesis using False ih [of "recovered factor n"] by (auto simp: s)
  qed
qed simp

text \<open>
  C28. For every sequence of responses the policy returns without a panic. It retries exactly failed requests, status codes
  400 to 599 but 400, 401, 403 and 413, and what an added predicate selects. Each delay lies between the minimum and the
  maximum and is the exponential growth for the errors so far, or with jitter at most that; a success lowers the errors.
\<close>

theorem retry_policy_backs_off:
  assumes "status_classes_ok sc" "backoff_ok xb" "list_all sampler_ok samples" "length samples = length responses" "length responses < 2 ^ 32"
  shows "\<exists>p ts. policy_retries samples responses
      (with_recovery_error_decrease_factor factor
        (with_backoff_and_classifier xb (foldl with_predicate (http_classifier_new sc) extra))) = Some (p, ts) \<and>
    backs_off extra xb factor 0 responses ts"
proof -
  have "with_recovery_error_decrease_factor factor (with_backoff_and_classifier xb (foldl with_predicate (http_classifier_new sc) extra)) =
      http_policy sc extra xb factor 0"
    by (simp add: http_policy_def with_recovery_error_decrease_factor_def with_backoff_and_classifier_def)
  then show ?thesis using policy_retries_back_off [OF assms(1-4), of 0 extra factor] assms(5) by (simp add: u32_max_def)
qed

text \<open>A second to a minute with jitter of a factor of two, three failures, a success and a rejected request.\<close>

lemma jitter_factor: "with_jitter 1000000000 60000000000 (f64_of_nat 2) =
  \<lparr>xb_min_backoff = 1000000000, xb_max_backoff = 60000000000, xb_min_backoff_factor = F64_Fin False (2 ^ 52) (-51)\<rparr>"
proof -
  have "bitlen 2 = 2" using bitlen_unique [of 1 2] by simp
  then have "f64_of_nat 2 = F64_Fin False (2 ^ 52) (-51)" by (simp add: f64_of_nat_def f64_round_def f64_pack_def)
  then show ?thesis by (simp add: with_jitter_def f64_max_def f64_is_nan_def f64_one_def align_exp_def f64_signed_def)
qed

definition standard_statuses :: status_classes where
  "standard_statuses = \<lparr>sc_is_client_error = \<lambda>n. n div 100 = 4, sc_is_server_error = \<lambda>n. n div 100 = 5\<rparr>"

lemma standard_statuses_ok: "status_classes_ok standard_statuses"
  by (auto simp: status_classes_ok_def standard_statuses_def)

theorem retry_policy_backs_off_witness:
  "\<exists>p a b c. policy_retries [max, \<lambda>lo hi. lo, max, max, max]
      [Inl (), Inr \<lparr>hr_status = 503, hr_rest = ()\<rparr>, Inr \<lparr>hr_status = 200, hr_rest = ()\<rparr>, Inl (), Inr \<lparr>hr_status = 403, hr_rest = ()\<rparr>]
      (with_recovery_error_decrease_factor (Some 1)
        (with_backoff_and_classifier (with_jitter 1000000000 60000000000 (f64_of_nat 2)) (http_classifier_new standard_statuses))) =
      Some (p, [Some a, Some b, None, Some c, None]) \<and>
    1000000000 \<le> a \<and> a \<le> 2000000000 \<and> 1000000000 \<le> b \<and> b \<le> 4000000000 \<and> 1000000000 \<le> c \<and> c \<le> 4000000000"
proof -
  let ?xb = "with_jitter 1000000000 60000000000 (f64_of_nat 2)"
  let ?samples = "[max, \<lambda>lo hi. lo, max, max, max] :: (nat \<Rightarrow> nat \<Rightarrow> nat) list"
  let ?rs = "[Inl (), Inr \<lparr>hr_status = 503, hr_rest = ()\<rparr>, Inr \<lparr>hr_status = 200, hr_rest = ()\<rparr>, Inl (),
    Inr \<lparr>hr_status = 403, hr_rest = ()\<rparr>] :: (unit + unit http_response) list"
  have "backoff_ok ?xb" unfolding jitter_factor
    by (simp add: backoff_ok_def duration_max_def u64_max_def jitter_floor_def f64_le_def align_exp_def f64_signed_def)
  moreover have "list_all sampler_ok ?samples" by (simp add: sampler_ok_def)
  ultimately obtain p ts where ts: "policy_retries ?samples ?rs (with_recovery_error_decrease_factor (Some 1)
      (with_backoff_and_classifier ?xb (http_classifier_new standard_statuses))) = Some (p, ts)" "backs_off [] ?xb (Some 1) 0 ?rs ts"
    using retry_policy_backs_off [OF standard_statuses_ok, of ?xb ?samples ?rs "Some 1" "[]"] by auto
  have "list_all (\<lambda>(r, b). retriable [] r = b) (zip ?rs [True, True, False, True, False])" by (simp add: retriable_def)
  then have "\<exists>a b c. ts = [Some a, Some b, None, Some c, None] \<and>
      delay_ok ?xb (Suc 0) a \<and> delay_ok ?xb (Suc (Suc 0)) b \<and> delay_ok ?xb (Suc (Suc 0)) c"
    using ts(2) by (simp add: backs_off_Cons recovered_def) blast
  then show ?thesis using ts(1) unfolding jitter_factor by (force simp: delay_ok_def growth_def)
qed

end
