(* ===== verification/Go_Duration.thy ===== *)
theory Go_Duration
  imports Rust_Numbers
begin

text \<open>
  Durations in the text format of Go (\<^verbatim>\<open>lib/go-duration/src/lib.rs\<close>). A text is its UTF-8 bytes. A duration is its
  nanoseconds; the arithmetic of the parser is that of \<^verbatim>\<open>u128\<close>, with its checks.
\<close>

section \<open>The parser\<close>

definition max_duration_nanos :: nat where
  "max_duration_nanos = 2 ^ 63 - 1"

definition u128_max :: nat where
  "u128_max = 2 ^ 128 - 1"

datatype parse_duration_error = Invalid string string | Negative | Overflow

definition u128_checked_add :: "nat \<Rightarrow> nat \<Rightarrow> nat option" where
  "u128_checked_add a b = (if a + b \<le> u128_max then Some (a + b) else None)"

definition u128_checked_mul :: "nat \<Rightarrow> nat \<Rightarrow> nat option" where
  "u128_checked_mul a b = (if a * b \<le> u128_max then Some (a * b) else None)"

definition ok_or :: "'e \<Rightarrow> 'a option \<Rightarrow> 'e + 'a" where
  "ok_or e x = (case x of None \<Rightarrow> Inl e | Some a \<Rightarrow> Inr a)"

definition consume_digits :: "string \<Rightarrow> string \<times> string" where
  "consume_digits s = (takeWhile is_ascii_digit s, dropWhile is_ascii_digit s)"

text \<open>Letters, the micro sign and the Greek letter mu, each of the latter two bytes long.\<close>

fun consume_unit :: "string \<Rightarrow> string" where
  "consume_unit [] = []"
| "consume_unit [c] = (if is_ascii_alphabetic c then [c] else [])"
| "consume_unit (c # d # s) =
     (if is_ascii_alphabetic c then c # consume_unit (d # s)
      else if (c, d) \<in> {(CHR 0xC2, CHR 0xB5), (CHR 0xCE, CHR 0xBC)} then c # d # consume_unit s
      else [])"

definition unit_ns :: "string \<Rightarrow> nat option" where
  "unit_ns u =
     (if u = ''ns'' then Some 1
      else if u \<in> {''us'', [CHR 0xC2, CHR 0xB5, CHR ''s''], [CHR 0xCE, CHR 0xBC, CHR ''s'']} then Some 1000
      else if u = ''ms'' then Some 1000000
      else if u = ''s'' then Some 1000000000
      else if u = ''m'' then Some (60 * 1000000000)
      else if u = ''h'' then Some (3600 * 1000000000)
      else None)"

text \<open>The fraction of a unit, at most eighteen digits of it.\<close>

definition fraction_ns :: "string \<Rightarrow> string \<Rightarrow> nat \<Rightarrow> nat \<Rightarrow> parse_duration_error + nat" where
  "fraction_ns orig frac_part unit ns =
     (let keep = min (length frac_part) 18; frac_digits = take keep frac_part; scale = 10 ^ keep
      in case ok_or (Invalid orig ''invalid fractional'') (parse_unsigned u128_max frac_digits) of
           Inl e \<Rightarrow> Inl e
         | Inr f \<Rightarrow>
             (case ok_or (Invalid orig ''overflow'') (u128_checked_mul f unit) of
                Inl e \<Rightarrow> Inl e
              | Inr scaled \<Rightarrow> ok_or (Invalid orig ''overflow'') (u128_checked_add ns (scaled div scale))))"

text \<open>The digits before and after a point, which may be missing, and what follows.\<close>

definition consume_number :: "string \<Rightarrow> string \<times> string \<times> string" where
  "consume_number rest =
     (let (int_part, after_int) = consume_digits rest
      in case after_int of
           [] \<Rightarrow> (int_part, [], [])
         | c # cs \<Rightarrow>
             (if c = CHR ''.'' then let (frac_part, after_frac) = consume_digits cs in (int_part, frac_part, after_frac)
              else (int_part, [], after_int)))"

text \<open>One turn of the loop: a number with its unit, and the rest.\<close>

definition parse_segment :: "string \<Rightarrow> string \<Rightarrow> parse_duration_error + (nat \<times> string)" where
  "parse_segment orig rest =
     (let (int_part, frac_part, after_frac) = consume_number rest
      in if int_part = [] \<and> frac_part = [] then Inl (Invalid orig ''expected digits'')
         else
           (let unit_str = consume_unit after_frac
            in if unit_str = [] then Inl (Invalid orig ''missing unit'')
               else
                 (case unit_ns unit_str of
                    None \<Rightarrow> Inl (Invalid orig (''unknown unit '' @ [CHR 0x27] @ unit_str @ [CHR 0x27]))
                  | Some unit \<Rightarrow>
                      (case (if int_part = [] then Inr 0
                             else ok_or (Invalid orig ''integer overflow'') (parse_unsigned u128_max int_part)) of
                         Inl e \<Rightarrow> Inl e
                       | Inr int_val \<Rightarrow>
                           (case ok_or (Invalid orig ''overflow'') (u128_checked_mul int_val unit) of
                              Inl e \<Rightarrow> Inl e
                            | Inr ns \<Rightarrow>
                                (case (if frac_part = [] then Inr ns else fraction_ns orig frac_part unit ns) of
                                   Inl e \<Rightarrow> Inl e
                                 | Inr ns' \<Rightarrow> Inr (ns', drop (length unit_str) after_frac)))))))"

lemma consume_unit_prefix: "consume_unit s @ drop (length (consume_unit s)) s = s"
  by (induction s rule: consume_unit.induct) auto

text \<open>The text of a number: its digits, and a point with more of them.\<close>

fun number_text :: "string \<Rightarrow> string option \<Rightarrow> string" where
  "number_text int_part None = int_part"
| "number_text int_part (Some frac_part) = int_part @ CHR ''.'' # frac_part"

fun fraction_digits :: "string option \<Rightarrow> string" where
  "fraction_digits None = []"
| "fraction_digits (Some d) = d"

lemma consume_digits_parts: "consume_digits s = (d, r) \<Longrightarrow> s = d @ r \<and> all_digits d"
  by (auto simp: consume_digits_def all_digits_def list_all_iff dest: set_takeWhileD)

lemma consume_number_parts:
  assumes "consume_number s = (i, f, a)"
  obtains dotted where "s = number_text i dotted @ a" "f = fraction_digits dotted" "all_digits i" "all_digits f"
proof -
  obtain i' r where "consume_digits s = (i', r)" by force
  moreover from this have "i' = i" using assms by (auto simp: consume_number_def split: prod.splits list.splits if_splits)
  ultimately have d: "consume_digits s = (i, r)" by simp
  note r = d consume_digits_parts [OF d, THEN conjunct1] consume_digits_parts [OF d, THEN conjunct2]
  show thesis
  proof (cases "r \<noteq> [] \<and> hd r = CHR ''.''")
    case True
    then obtain cs where cs: "r = CHR ''.'' # cs" by (cases r) auto
    then have f: "consume_digits cs = (f, a)" using assms r(1) by (simp add: consume_number_def split: prod.splits)
    then show thesis using r cs consume_digits_parts [OF f] that [of "Some f"] by simp
  next
    case False
    then have "f = []" "a = r" using assms r(1) by (auto simp: consume_number_def split: list.splits if_splits)
    then show thesis using r that [of None] by simp
  qed
qed

lemma parse_segment_cases:
  assumes "parse_segment orig rest = Inr (ns, rest')"
  obtains i f u unit where "consume_number rest = (i, f, u @ rest')" "i \<noteq> [] \<or> f \<noteq> []" "u \<noteq> []" "unit_ns u = Some unit"
    "u = consume_unit (u @ rest')" "(if i = [] then Inr 0 else ok_or (Invalid orig ''integer overflow'') (parse_unsigned u128_max i)) =
      Inr (digits_value i)" "digits_value i * unit \<le> u128_max"
    "(if f = [] then Inr (digits_value i * unit) else fraction_ns orig f unit (digits_value i * unit)) = Inr ns"
proof -
  obtain i f a where n: "consume_number rest = (i, f, a)" by (cases "consume_number rest") auto
  then have digits: "all_digits i" by (rule consume_number_parts) simp
  let ?int = "if i = [] then Inr 0 else ok_or (Invalid orig ''integer overflow'') (parse_unsigned u128_max i)"
  let ?u = "consume_unit a"
  obtain unit v where u: "i \<noteq> [] \<or> f \<noteq> []" "?u \<noteq> []" "unit_ns ?u = Some unit" "?int = Inr v" "v * unit \<le> u128_max"
      "(if f = [] then Inr (v * unit) else fraction_ns orig f unit (v * unit)) = Inr ns" "rest' = drop (length ?u) a"
    using assms n
    by (auto simp: parse_segment_def ok_or_def u128_checked_mul_def Let_def split: if_splits option.splits sum.splits)
  have a: "?u @ rest' = a" using u(7) consume_unit_prefix [of a] by simp
  have v: "v = digits_value i"
    using u(4) digits by (auto simp: ok_or_def parse_unsigned_digits split: if_splits)
  show thesis by (rule that [of i f ?u unit]) (use u [unfolded v] n a in simp_all)
qed

lemma parse_segment_shorter: "parse_segment orig rest = Inr (ns, rest') \<Longrightarrow> length rest' < length rest"
proof -
  assume "parse_segment orig rest = Inr (ns, rest')"
  then obtain i f u where n: "consume_number rest = (i, f, u @ rest')" and "u \<noteq> []" by (rule parse_segment_cases)
  moreover obtain dotted where "rest = number_text i dotted @ u @ rest'" using n by (rule consume_number_parts)
  ultimately show ?thesis by (cases u) auto
qed

function parse_segments :: "string \<Rightarrow> string \<Rightarrow> nat \<Rightarrow> parse_duration_error + nat" where
  "parse_segments orig rest total_ns =
     (if rest = [] then Inr total_ns
      else
        (case parse_segment orig rest of
           Inl e \<Rightarrow> Inl e
         | Inr (ns, rest') \<Rightarrow>
             (case u128_checked_add total_ns ns of
                None \<Rightarrow> Inl (Invalid orig ''overflow'')
              | Some total_ns' \<Rightarrow> parse_segments orig rest' total_ns')))"
  by pat_completeness auto
termination by (relation "measure (\<lambda>(orig, rest, total_ns). length rest)") (auto dest: parse_segment_shorter)

declare parse_segments.simps [simp del]

definition parse_duration :: "string \<Rightarrow> parse_duration_error + nat" where
  "parse_duration s =
     (let (negative, rest) =
            (case s of c # cs \<Rightarrow> if c = CHR ''+'' \<or> c = CHR ''-'' then (c = CHR ''-'', cs) else (False, s) | [] \<Rightarrow> (False, []))
      in if rest = ''0'' then Inr 0
         else if rest = [] then Inl (Invalid s ''empty duration'')
         else
           (case parse_segments s rest 0 of
              Inl e \<Rightarrow> Inl e
            | Inr total_ns \<Rightarrow>
                (if negative \<and> total_ns \<noteq> 0 then Inl Negative
                 else if max_duration_nanos < total_ns then Inl Overflow
                 else Inr total_ns)))"

text \<open>\<^verbatim>\<open>str::trim\<close>: the encodings of the characters with the property \<^verbatim>\<open>White_Space\<close>.\<close>

definition whitespace :: "string list" where
  "whitespace =
     map (\<lambda>n. [char_of n]) ([9..<14] @ [32 :: nat]) @ [[CHR 0xC2, CHR 0x85], [CHR 0xC2, CHR 0xA0], [CHR 0xE1, CHR 0x9A, CHR 0x80]] @
     map (\<lambda>n. [CHR 0xE2, CHR 0x80, char_of n]) ([128..<139] @ [168, 169, 175 :: nat]) @
     [[CHR 0xE2, CHR 0x81, CHR 0x9F], [CHR 0xE3, CHR 0x80, CHR 0x80]]"

fun strip_whitespace :: "nat \<Rightarrow> string list \<Rightarrow> string \<Rightarrow> string" where
  "strip_whitespace 0 ws s = s"
| "strip_whitespace (Suc n) ws s =
     (case find (\<lambda>w. take (length w) s = w) ws of
        None \<Rightarrow> s
      | Some w \<Rightarrow> strip_whitespace n ws (drop (length w) s))"

definition trim :: "string \<Rightarrow> string" where
  "trim s =
     (let t = strip_whitespace (length s) whitespace s
      in rev (strip_whitespace (length t) (map rev whitespace) (rev t)))"

definition parse_duration_or_nanos :: "string \<Rightarrow> parse_duration_error + nat" where
  "parse_duration_or_nanos s =
     (let trimmed = trim s
      in case parse_duration trimmed of
           Inr d \<Rightarrow> Inr d
         | Inl unit_error \<Rightarrow>
             (case parse_signed 128 trimmed of
                None \<Rightarrow> Inl unit_error
              | Some nanos \<Rightarrow>
                  (if nanos < 0 then Inl Negative
                   else if int max_duration_nanos < nanos then Inl Overflow
                   else Inr (nat nanos))))"

end
