(* ===== verification/Go_Duration_Properties.thy ===== *)
theory Go_Duration_Properties
  imports Go_Duration
begin

text \<open>
  The texts that the parser of durations accepts, and their values: a grammar of numbers with units, read independently of
  the parser.
\<close>

section \<open>The grammar\<close>

text \<open>The units of time with their symbols, the two letters for micro in UTF-8, and their lengths in nanoseconds.\<close>

datatype time_unit = Nanosecond | Microsecond | Millisecond | Second | Minute | Hour

fun unit_symbols :: "time_unit \<Rightarrow> string list" where
  "unit_symbols Nanosecond = [''ns'']"
| "unit_symbols Microsecond = [''us'', [CHR 0xC2, CHR 0xB5, CHR ''s''], [CHR 0xCE, CHR 0xBC, CHR ''s'']]"
| "unit_symbols Millisecond = [''ms'']"
| "unit_symbols Second = [''s'']"
| "unit_symbols Minute = [''m'']"
| "unit_symbols Hour = [''h'']"

fun unit_length :: "time_unit \<Rightarrow> nat" where
  "unit_length Nanosecond = 1"
| "unit_length Microsecond = 10 ^ 3"
| "unit_length Millisecond = 10 ^ 6"
| "unit_length Second = 10 ^ 9"
| "unit_length Minute = 60 * 10 ^ 9"
| "unit_length Hour = 60 * 60 * 10 ^ 9"

record segment =
  sg_int :: string
  sg_frac :: "string option"
  sg_unit :: time_unit
  sg_symbol :: string

definition segment_ok :: "segment \<Rightarrow> bool" where
  "segment_ok g \<longleftrightarrow> all_digits (sg_int g) \<and> all_digits (fraction_digits (sg_frac g)) \<and>
     (sg_int g \<noteq> [] \<or> fraction_digits (sg_frac g) \<noteq> []) \<and> sg_symbol g \<in> set (unit_symbols (sg_unit g))"

definition segment_text :: "segment \<Rightarrow> string" where
  "segment_text g = number_text (sg_int g) (sg_frac g) @ sg_symbol g"

text \<open>The whole units, and the fraction of one rounded down, from its first eighteen digits.\<close>

definition segment_ns :: "segment \<Rightarrow> nat" where
  "segment_ns g =
     (let unit = unit_length (sg_unit g); digits = take 18 (fraction_digits (sg_frac g))
      in digits_value (sg_int g) * unit + digits_value digits * unit div 10 ^ length digits)"

section \<open>Units and fractions\<close>

lemma unit_ns_unit: "unit_ns u = Some n \<longleftrightarrow> (\<exists>t. u \<in> set (unit_symbols t) \<and> n = unit_length t)"
proof
  assume "unit_ns u = Some n"
  then show "\<exists>t. u \<in> set (unit_symbols t) \<and> n = unit_length t"
    by (auto simp: unit_ns_def split: if_splits intro: exI [of _ Nanosecond] exI [of _ Microsecond] exI [of _ Millisecond]
        exI [of _ Second] exI [of _ Minute] exI [of _ Hour])
next
  assume "\<exists>t. u \<in> set (unit_symbols t) \<and> n = unit_length t"
  then obtain t where "u \<in> set (unit_symbols t)" "n = unit_length t" by blast
  then show "unit_ns u = Some n" by (cases t) (auto simp: unit_ns_def)
qed

definition boundary :: "string \<Rightarrow> bool" where
  "boundary s \<longleftrightarrow> s = [] \<or> is_ascii_digit (hd s) \<or> hd s = CHR ''.''"

lemma consume_unit_boundary: "boundary s \<Longrightarrow> consume_unit s = []"
  by (cases s rule: consume_unit.cases) (auto simp: boundary_def is_ascii_digit_def is_ascii_alphabetic_def)

lemma consume_unit_alphabetic: "is_ascii_alphabetic c \<Longrightarrow> consume_unit (c # s) = c # consume_unit s"
  by (cases s) simp_all

lemma unit_ns_cases:
  assumes "unit_ns u = Some unit"
  shows "u \<in> {''ns'', ''us'', [CHR 0xC2, CHR 0xB5, CHR ''s''], [CHR 0xCE, CHR 0xBC, CHR ''s''], ''ms'', ''s'', ''m'', ''h''}"
    and "0 < unit" "unit \<le> 3600 * 1000000000"
  using assms by (auto simp: unit_ns_def split: if_splits)

lemma consume_unit_known:
  assumes "unit_ns u = Some unit" "boundary s"
  shows "consume_unit (u @ s) = u"
  using unit_ns_cases(1) [OF assms(1)] consume_unit_boundary [OF assms(2)]
  by (auto simp: consume_unit_alphabetic is_ascii_alphabetic_def)

lemma known_unit_start: "unit_ns u = Some unit \<Longrightarrow> u \<noteq> [] \<and> \<not> is_ascii_digit (hd u) \<and> hd u \<noteq> CHR ''.''"
  using unit_ns_cases(1) [of u unit] by (auto simp: is_ascii_digit_def)

lemma consume_digits_append:
  "all_digits d \<Longrightarrow> r = [] \<or> \<not> is_ascii_digit (hd r) \<Longrightarrow> consume_digits (d @ r) = (d, r)"
  by (cases r) (auto simp: consume_digits_def all_digits_def list_all_iff takeWhile_append dropWhile_append)

lemma consume_number_text:
  assumes "all_digits i" "all_digits (fraction_digits fr)" "a \<noteq> []" "\<not> is_ascii_digit (hd a)" "hd a \<noteq> CHR ''.''"
  shows "consume_number (number_text i fr @ a) = (i, fraction_digits fr, a)"
proof (cases fr)
  case None
  then show ?thesis using assms consume_digits_append [of i a] by (cases a) (simp_all add: consume_number_def)
next
  case (Some f)
  have "consume_digits (i @ CHR ''.'' # f @ a) = (i, CHR ''.'' # f @ a)"
    using assms(1) by (intro consume_digits_append) (simp_all add: is_ascii_digit_def)
  moreover have "consume_digits (f @ a) = (f, a)" using assms Some by (intro consume_digits_append) simp_all
  ultimately show ?thesis using Some by (simp add: consume_number_def)
qed

lemma fraction_ns_value:
  assumes "all_digits f" "f \<noteq> []" "unit \<le> 3600 * 1000000000"
  defines "d \<equiv> take 18 f"
  shows "fraction_ns orig f unit ns =
    (if ns + digits_value d * unit div 10 ^ length d \<le> u128_max then Inr (ns + digits_value d * unit div 10 ^ length d)
     else Inl (Invalid orig ''overflow''))"
proof -
  have d: "all_digits d" "d \<noteq> []" using assms(1,2) by (auto simp: d_def all_digits_def list_all_iff dest: in_set_takeD)
  have "digits_value d < 10 ^ length d" using d(1) by (rule digits_value_less)
  also have "\<dots> \<le> 10 ^ 18" by (intro power_increasing) (simp_all add: d_def)
  finally have small: "digits_value d < 10 ^ 18" .
  then have "digits_value d * unit \<le> 10 ^ 18 * (3600 * 1000000000)" using assms(3) by (intro mult_mono) auto
  then have "digits_value d * unit \<le> u128_max" by (simp add: u128_max_def)
  moreover have "digits_value d \<le> u128_max" using small by (simp add: u128_max_def)
  moreover have "take (min (length f) 18) f = d" "min (length f) 18 = length d" by (simp_all add: d_def min_def)
  ultimately show ?thesis using d
    by (simp add: fraction_ns_def ok_or_def u128_checked_mul_def u128_checked_add_def parse_unsigned_digits Let_def)
qed

section \<open>One segment\<close>

lemma parse_segment_sound:
  assumes "parse_segment orig rest = Inr (ns, rest')"
  obtains g where "segment_ok g" "rest = segment_text g @ rest'" "ns = segment_ns g"
proof -
  obtain i f u unit where p: "consume_number rest = (i, f, u @ rest')" "i \<noteq> [] \<or> f \<noteq> []" "unit_ns u = Some unit"
      "(if f = [] then Inr (digits_value i * unit) else fraction_ns orig f unit (digits_value i * unit)) = Inr ns"
    using assms by (rule parse_segment_cases)
  obtain dotted where n: "rest = number_text i dotted @ u @ rest'" "f = fraction_digits dotted" "all_digits i" "all_digits f"
    using p(1) by (rule consume_number_parts)
  obtain t where t: "u \<in> set (unit_symbols t)" "unit = unit_length t" using p(3) by (auto simp: unit_ns_unit)
  let ?g = "\<lparr>sg_int = i, sg_frac = dotted, sg_unit = t, sg_symbol = u\<rparr>"
  have "ns = segment_ns ?g"
  proof (cases "f = []")
    case True
    then show ?thesis using p(4) t(2) n(2) by (simp add: segment_ns_def)
  next
    case False
    then show ?thesis using p(4) t(2) n(2,4) fraction_ns_value [OF n(4) False unit_ns_cases(3) [OF p(3)], of orig "digits_value i * unit"]
      by (simp add: segment_ns_def Let_def split: if_splits)
  qed
  moreover have "segment_ok ?g" using n p(2) t(1) by (simp add: segment_ok_def)
  ultimately show thesis using n(1) by (intro that [of ?g]) (simp_all add: segment_text_def)
qed

lemma parse_segment_complete:
  assumes "segment_ok g" "boundary rest'" "segment_ns g \<le> u128_max"
  shows "parse_segment orig (segment_text g @ rest') = Inr (segment_ns g, rest')"
proof -
  define unit where "unit = unit_length (sg_unit g)"
  have u: "unit_ns (sg_symbol g) = Some unit" using assms(1) by (auto simp: segment_ok_def unit_ns_unit unit_def)
  let ?i = "sg_int g" and ?f = "fraction_digits (sg_frac g)" and ?u = "sg_symbol g"
  have digits: "all_digits ?i" "all_digits ?f" "?i \<noteq> [] \<or> ?f \<noteq> []" using assms(1) by (auto simp: segment_ok_def)
  have n: "consume_number (segment_text g @ rest') = (?i, ?f, ?u @ rest')"
    using consume_number_text [OF digits(1,2), of "?u @ rest'"] known_unit_start [OF u] by (simp add: segment_text_def)
  have whole: "digits_value ?i * unit \<le> u128_max" using assms(3) by (simp add: segment_ns_def Let_def unit_def)
  moreover have "digits_value ?i * 1 \<le> digits_value ?i * unit" using unit_ns_cases(2) [OF u] by (intro mult_le_mono) simp_all
  ultimately have "digits_value ?i \<le> u128_max" by linarith
  then have int: "(if ?i = [] then Inr 0 else ok_or e (parse_unsigned u128_max ?i)) = Inr (digits_value ?i)" for e :: parse_duration_error
    using digits(1) by (simp add: ok_or_def parse_unsigned_digits)
  have "(if ?f = [] then Inr (digits_value ?i * unit) else fraction_ns orig ?f unit (digits_value ?i * unit)) = Inr (segment_ns g)"
    using assms(3) unit_def fraction_ns_value [OF digits(2) _ unit_ns_cases(3) [OF u], of orig "digits_value ?i * unit"]
    by (simp add: segment_ns_def Let_def)
  then show ?thesis
    using n int whole digits(3) u consume_unit_known [OF u assms(2)] known_unit_start [OF u]
    by (simp add: parse_segment_def ok_or_def [of _ "Some _"] u128_checked_mul_def Let_def)
qed

section \<open>Durations\<close>

lemma segment_text_start: "segment_ok g \<Longrightarrow> segment_text g \<noteq> [] \<and> boundary (segment_text g @ s)"
  by (cases g; cases "sg_int g"; cases "sg_frac g")
    (auto simp: segment_ok_def segment_text_def boundary_def)

lemma segments_boundary: "list_all segment_ok gs \<Longrightarrow> boundary (concat (map segment_text gs))"
  using segment_text_start by (cases gs) (simp_all add: boundary_def [of "[]"])

lemma parse_segments_sound:
  "parse_segments orig rest total_ns = Inr n \<Longrightarrow>
   \<exists>gs. list_all segment_ok gs \<and> rest = concat (map segment_text gs) \<and> n = total_ns + sum_list (map segment_ns gs)"
proof (induction orig rest total_ns rule: parse_segments.induct)
  case (1 orig rest total_ns)
  show ?case
  proof (cases "rest = []")
    case True
    then show ?thesis using "1.prems" by (intro exI [of _ "[]"]) (simp add: parse_segments.simps)
  next
    case False
    then obtain ns rest' total_ns' where p: "parse_segment orig rest = Inr (ns, rest')" "u128_checked_add total_ns ns = Some total_ns'"
        "parse_segments orig rest' total_ns' = Inr n"
      using "1.prems" by (subst (asm) parse_segments.simps) (auto split: sum.splits option.splits)
    obtain g where g: "segment_ok g" "rest = segment_text g @ rest'" "ns = segment_ns g" using p(1) by (rule parse_segment_sound)
    obtain gs where gs: "list_all segment_ok gs" "rest' = concat (map segment_text gs)" "n = total_ns' + sum_list (map segment_ns gs)"
      using "1.IH" [OF False p(1) _ p(2,3)] by auto
    have "total_ns' = total_ns + ns" using p(2) by (simp add: u128_checked_add_def split: if_splits)
    then show ?thesis using g gs by (intro exI [of _ "g # gs"]) simp
  qed
qed

lemma parse_segments_complete:
  "list_all segment_ok gs \<Longrightarrow> total_ns + sum_list (map segment_ns gs) \<le> u128_max \<Longrightarrow>
   parse_segments orig (concat (map segment_text gs)) total_ns = Inr (total_ns + sum_list (map segment_ns gs))"
proof (induction gs arbitrary: total_ns)
  case Nil
  then show ?case by (simp add: parse_segments.simps)
next
  case (Cons g gs)
  have "parse_segment orig (segment_text g @ concat (map segment_text gs)) = Inr (segment_ns g, concat (map segment_text gs))"
    using Cons.prems segments_boundary by (intro parse_segment_complete) auto
  moreover have "u128_checked_add total_ns (segment_ns g) = Some (total_ns + segment_ns g)"
    using Cons.prems(2) by (simp add: u128_checked_add_def)
  ultimately show ?case using Cons segment_text_start [of g] by (subst parse_segments.simps) simp
qed

definition duration_sign :: "string \<Rightarrow> bool" where
  "duration_sign sign \<longleftrightarrow> sign \<in> {[], ''+'', ''-''}"

text \<open>
  C30. The parser accepts exactly the texts of the grammar, with their values: an optional sign and either a bare zero or
  numbers with units, whose sum fits a 64-bit signed count of nanoseconds and is zero under a minus sign.
\<close>

theorem parse_duration_grammar:
  "parse_duration s = Inr n \<longleftrightarrow>
   (\<exists>sign. duration_sign sign \<and> s = sign @ ''0'' \<and> n = 0) \<or>
   (\<exists>sign gs. duration_sign sign \<and> gs \<noteq> [] \<and> list_all segment_ok gs \<and> s = sign @ concat (map segment_text gs) \<and>
      n = sum_list (map segment_ns gs) \<and> n \<le> (if sign = ''-'' then 0 else 2 ^ 63 - 1))"
proof
  assume parsed: "parse_duration s = Inr n"
  obtain sign rest where s: "s = sign @ rest" "duration_sign sign" "rest = ''0'' \<and> n = 0 \<or> rest \<noteq> [] \<and> parse_segments s rest 0 = Inr n"
    "n \<le> (if sign = ''-'' then 0 else 2 ^ 63 - 1)"
  proof (cases s)
    case (Cons c cs)
    then show thesis
      using parsed that [of "if c = CHR ''+'' \<or> c = CHR ''-'' then [c] else []" "if c = CHR ''+'' \<or> c = CHR ''-'' then cs else s"]
      by (auto simp: parse_duration_def duration_sign_def max_duration_nanos_def split: if_splits sum.splits)
  qed (use parsed in \<open>simp add: parse_duration_def\<close>)
  show "(\<exists>sign. duration_sign sign \<and> s = sign @ ''0'' \<and> n = 0) \<or>
    (\<exists>sign gs. duration_sign sign \<and> gs \<noteq> [] \<and> list_all segment_ok gs \<and> s = sign @ concat (map segment_text gs) \<and>
      n = sum_list (map segment_ns gs) \<and> n \<le> (if sign = ''-'' then 0 else 2 ^ 63 - 1))"
    using s parse_segments_sound [of s rest 0 n] by fastforce
next
  assume "(\<exists>sign. duration_sign sign \<and> s = sign @ ''0'' \<and> n = 0) \<or>
    (\<exists>sign gs. duration_sign sign \<and> gs \<noteq> [] \<and> list_all segment_ok gs \<and> s = sign @ concat (map segment_text gs) \<and>
      n = sum_list (map segment_ns gs) \<and> n \<le> (if sign = ''-'' then 0 else 2 ^ 63 - 1))"
  then show "parse_duration s = Inr n"
  proof (elim disjE exE conjE)
    fix sign assume "duration_sign sign" "s = sign @ ''0''" "n = 0"
    then show ?thesis by (auto simp: parse_duration_def duration_sign_def)
  next
    fix sign gs
    assume a: "duration_sign sign" "gs \<noteq> []" "list_all segment_ok gs" "s = sign @ concat (map segment_text gs)"
      "n = sum_list (map segment_ns gs)" "n \<le> (if sign = ''-'' then 0 else 2 ^ 63 - 1)"
    let ?text = "concat (map segment_text gs)"
    have "n \<le> u128_max" using a(6) by (simp add: max_duration_nanos_def u128_max_def split: if_splits)
    then have parsed: "parse_segments s ?text 0 = Inr n" using parse_segments_complete [OF a(3), of 0 s] a(5) by simp
    have nonempty: "?text \<noteq> []" "boundary ?text"
      using a(2,3) segment_text_start segments_boundary [OF a(3)] by (cases gs; auto)+
    have zero: "?text \<noteq> ''0''"
    proof
      assume "?text = ''0''"
      then have "parse_segments s ''0'' 0 = Inr n" using parsed by simp
      moreover have "parse_segment s ''0'' = Inl (Invalid s ''missing unit'')"
        by (simp add: parse_segment_def consume_number_def consume_digits_def is_ascii_digit_def)
      ultimately show False by (subst (asm) parse_segments.simps) simp
    qed
    obtain c cs where c: "?text = c # cs" using nonempty(1) by (cases ?text) auto
    then have "c \<noteq> CHR ''+''" "c \<noteq> CHR ''-''" using nonempty(2) digit_not_sign by (auto simp: boundary_def)
    then show ?thesis using a(1,4,6) parsed zero c by (auto simp: parse_duration_def duration_sign_def max_duration_nanos_def)
  qed
qed

end
