(* ===== verification/Spec2Isabelle.thy ===== *)
theory Spec2Isabelle
  imports Topology_Properties Sketch_Properties Agent_Properties Interconnect_Properties Aggregate_Properties Framing_Properties Supervisor_Properties Retry_Properties Retry_Policy_Properties Go_Duration_Properties
begin

text \<open>
  A verification library for Saluki, the toolkit for telemetry data planes behind the Agent Data Plane.

  \<^bold>\<open>The program and its parts.\<close> A data plane is a graph of components (sources, relays, decoders, transforms,
  encoders, forwarders, destinations) that is built from a blueprint, validated, and run as asynchronous tasks. A source
  reads bytes from a socket into a buffer, a framer cuts them into frames, and a decoder turns these into events. Events
  travel in fixed-size buffers through dispatchers to the components downstream. The aggregate transform collects metrics
  by context and time bucket, with histograms and sketches as values, and flushes the closed buckets. Forwarders queue
  what they could not send, in memory and on disk, and retry it. A supervisor keeps the processes running. Paths below
  are relative to \<^verbatim>\<open>src/\<close>.

  \<^bold>\<open>How Rust is modelled.\<close> Theory \<open>Rust_Prelude\<close> has the shared fragment: a function that can panic (overflow
  checks on, failed assertion, index out of range, \<^verbatim>\<open>unreachable!\<close>) returns an \<open>option\<close> with \<open>None\<close> for the panic; a
  \<^verbatim>\<open>Result\<close> is a sum with the error on the left; machine integers are naturals or integers with checked, saturating
  or wrapping operations as the source has them; a hash map is an association list with distinct keys in an unspecified
  order. Traits are records of operations, their contracts are locales, and every implementation in the source interprets
  its locale. Loops with an evident measure are recursive functions; the others (\<open>cycle_loop\<close>, \<open>nested_next_frame\<close>,
  \<open>decode_frames\<close>, \<open>persisted_pop\<close>) are partial functions, for which a property shows that they return. No definition
  has fuel, except that \<open>strip_whitespace\<close> counts down the length of its text, of which every step removes a byte.
  Theory \<open>Float64\<close> computes IEEE 754 binary64 (addition, multiplication, division, comparison, rounding, conversion)
  on exact significands; \<open>Float_Order\<close> and \<open>Float_Rank\<close> have its order and the bound \<open>2 ^ 53\<close> below which the rank
  of a quantile is exact. \<open>Rust_Numbers\<close> has the decimal text of integers.

  \<^bold>\<open>Parameters.\<close> Code outside the repository is an argument: the math library (\<^verbatim>\<open>log\<close>, \<^verbatim>\<open>exp\<close> and the float
  comparison package), the hasher of contexts, \<^verbatim>\<open>memchr\<close>, the channels between components, serialisation, the text
  of instants, random choices, the classes of HTTP status codes, and the file system during a call. What is assumed of them are named predicates (\<open>ratio_reflexive\<close>,
  \<open>memchr_ok\<close>, \<open>net_reliable\<close>, \<open>serde_ok\<close>, \<open>chrono_ok\<close>, \<open>faultless\<close>, \<open>sampler_ok\<close>, \<open>status_classes_ok\<close>), which the witnesses discharge for concrete
  functions.

  \<^bold>\<open>Topology\<close> (\<^verbatim>\<open>lib/saluki-core/src/topology/ids.rs\<close>, \<^verbatim>\<open>graph.rs\<close>). \<open>Topology_Ids\<close> has identifiers, their
  validation, and their order as an instance of \<open>linorder\<close>. \<open>Topology_Graph\<close> has the record \<open>graph\<close> with its nodes and
  edges, and one definition per method of \<^verbatim>\<open>Graph\<close>: adding nodes and edges, removal, pruning, the checks of
  \<^verbatim>\<open>validate\<close> and the outbound table. \<open>Topology_Cycles\<close> shows that the iterative depth-first search returns and
  decides acyclicity upstream of the destinations, through an invariant of its stack; \<open>Topology_Prune\<close> that pruning
  removes the least set closed under losing all inputs, and that the table lists every declared output. The properties
  are in \<open>Topology_Properties\<close>, with the well-formedness of every graph that the operations build, and a graph with a
  cycle that \<^verbatim>\<open>validate\<close> accepts.

  \<^bold>\<open>Canonical sketch\<close> (\<^verbatim>\<open>lib/ddsketch/src/canonical\<close>). \<open>Store_Bins\<close> has the trait \<^verbatim>\<open>Store\<close>, its contract
  \<open>sketch_store\<close> (a store stands for a multiset of indices) and the loops that the stores share (\<open>store_add\<close>);
  \<open>Dense_Store\<close>, \<open>Collapsing_Lowest\<close>, \<open>Collapsing_Highest\<close> and \<open>Sparse_Store\<close> model and interpret the four stores.
  \<open>Index_Mapping\<close> has the logarithmic and the fixed mapping. \<open>Canonical_Sketch\<close> has both sketches, and the locale
  \<open>dd_sketch\<close> over any store and mapping, interpreted in \<open>Sketch_Properties\<close> for all pairs in use: merging is exact,
  a quantile is the representative of the observation at the rounded rank, a collapsing store is the folded multiset,
  and the message form keeps every answer. Counts are bounded by \<open>2 ^ 53\<close>, beyond which the rank is rounded (a lemma
  shows that \<^verbatim>\<open>quantile\<close> then can panic).

  \<^bold>\<open>Agent sketch\<close> (\<^verbatim>\<open>lib/ddsketch/src/agent\<close>). \<open>Agent_Sketch\<close> has configuration, bins, insertion of values and
  histogram buckets, quantiles, merging and messages; \<open>Agent_Bins\<close> relates every loop over bins to a multiset of keys;
  \<open>Agent_Properties\<close> has the refinement of bins to samples, order independence, types, ranges and round trips for every
  sketch that operations build (\<open>agent_run\<close>), as long as it holds fewer than \<open>2 ^ 32\<close> samples, the range of a bin.

  \<^bold>\<open>Interconnect\<close> (\<^verbatim>\<open>lib/saluki-core/src/topology/interconnect\<close>). \<open>Event_Buffer\<close> has events and their buffers;
  \<open>Dispatcher\<close> the fan-out over gated senders, the buffered dispatcher, and the locale \<open>dispatch_buffer\<close> of what it
  needs of a buffer, interpreted by event buffers. \<open>Interconnect_Properties\<close> shows that every ungated sender gets every
  item once and in order, and what the counter of sent events really counts.

  \<^bold>\<open>Aggregation\<close> (\<^verbatim>\<open>lib/saluki-core/src/data_model/event/metric\<close>,
  \<^verbatim>\<open>lib/saluki-components/src/transforms/aggregate\<close>). \<open>Metric_Values\<close> has points, histograms and the six kinds of
  values; \<open>Metric_Buckets\<close> views them as maps from timestamps; \<open>Metric_Context\<close> has contexts, metadata and metrics;
  \<open>Aggregate_Config\<close> and \<open>Aggregate\<close> the configuration of histograms, the aggregation state, insertion, flushing and
  the loop of the component as a relation (\<open>aggregate_reaches\<close>). \<open>Aggregate_Flush\<close> reduces a flush to one operation per
  context. \<open>Aggregate_Properties\<close>: the limit on contexts, insertion as merging into buckets, that a flush parts every
  entry into closed and open buckets, the zeros of idle counters, and the delivery of a tick to the dispatcher.

  \<^bold>\<open>Framing\<close> (\<^verbatim>\<open>lib/saluki-io/src/buf\<close>, \<^verbatim>\<open>lib/saluki-io/src/deser/framing\<close>,
  \<^verbatim>\<open>lib/saluki-components/src/sources/dogstatsd\<close>). \<open>Framing\<close> has the buffer, the length-delimited, newline and nested
  framers, and the loops that decode frames and read a stream; its locales say what a buffer gives a framer
  (\<open>contiguous_buffer\<close>) and a framer its caller (\<open>framer\<close>, \<open>consuming_framer\<close>, \<open>nested_framers\<close>). \<open>Framing_Streams\<close>
  has the specification over whole byte strings. \<open>Framing_Properties\<close>: every decoding ends, the frames do not depend on
  how the bytes arrive, and lines survive a stream. The premise \<open>reads_fit\<close> says that a read is not larger than the
  free part of the buffer, which is what a read from a socket guarantees.

  \<^bold>\<open>Supervision\<close> (\<^verbatim>\<open>lib/saluki-core/src/runtime/restart.rs\<close>, \<^verbatim>\<open>supervisor.rs\<close>). \<open>Supervisor\<close> has the restart
  limit, the resolution of child options, and the loop of a supervisor as a relation over its events (\<open>supervises\<close>), with
  the outcome of starting children as an argument. \<open>Supervisor_Invariant\<close> and \<open>Supervisor_Properties\<close>: roster and tasks
  agree, needed children run, and a restart is refused exactly at the limit; and how a group restart loses a needed
  one-shot child. The bound \<open>ids_bound\<close> keeps the identities of children within 64 bits: it grows by the children of a
  group restart and the spawns of a batch with every event.

  \<^bold>\<open>Retry queue\<close> (\<^verbatim>\<open>lib/saluki-io/src/net/util/retry/queue\<close>). \<open>Retry_Queue\<close> has \<^verbatim>\<open>RetryQueue\<close> and
  \<^verbatim>\<open>PersistedQueue\<close> over a directory of files, with every failure of the file system as a branch. \<open>Retry_Storage\<close>
  has the invariant \<open>disk_holds\<close> between entries and files and what a scan finds; \<open>Retry_Properties\<close> the bound on
  memory under any failures, the account of entries on a disk that works, the end of every pop, the recovery after a
  restart, and the drops that a failed write hides. The premises \<open>2 * max \<le> u64_max\<close> and \<open>countable\<close> exclude
  overflow of the byte totals and of the counters of dropped events; \<open>pop_room\<close> does so for the counters of a pop.

  \<^bold>\<open>Retry policy\<close> (\<^verbatim>\<open>lib/saluki-io/src/net/util/retry\<close>: \<^verbatim>\<open>backoff.rs\<close>, \<^verbatim>\<open>policy\<close>, \<^verbatim>\<open>classifier\<close>).
  \<open>Retry_Policy\<close> has exponential backoff with jitter, the classifier of responses and the rolling policy;
  \<open>Float_Error\<close> bounds how far rounding raises a floating-point result. \<open>Retry_Policy_Properties\<close>: no sequence of
  responses makes the policy panic, it retries exactly the retriable ones, and the delays stay within their bounds and
  follow the errors so far. The premise \<open>backoff_ok\<close> asks for ordered bounds, as the translation of the configuration
  does, and for a jitter factor that is at most one or at least \<open>jitter_floor\<close>, the second number above one, for which
  the division that gives the lower end of the jitter is shown not to round up past the upper end; fewer than \<open>2 ^ 32\<close>
  responses keep the count of errors within its width.

  \<^bold>\<open>Durations\<close> (\<^verbatim>\<open>lib/go-duration/src/lib.rs\<close>). \<open>Go_Duration\<close> has both parsers over bytes;
  \<open>Go_Duration_Properties\<close> a grammar of texts with their values, and that the parser accepts exactly those.

  \<^bold>\<open>Not modelled.\<close>
  \<^item> Asynchronous execution: tasks, channels, sockets, timers, health checks, memory accounting and caches. Where a
    modelled loop awaits one of them, its outcome is an argument or an event of the loop.
  \<^item> Telemetry, logging and rendering as text, which do not influence results.
  \<^item> The context resolver and string interning: unsafe memory layout and atomics.
  \<^item> Decoders, encoders, OTTL and configuration loading: parser combinators, generated code and serialisation of third
    parties, where most of the behaviour is not in the repository.
  \<^item> The other transforms and the Prometheus text format: plain code that this library does not reach.
  \<^item> Frozen and chunked I/O buffers, and shutdown deadlines and nested runtimes of supervisors, beside the modelled parts
    of their files.
\<close>

end
